(* ===== verification/Prelude.thy ===== *)
theory Prelude
  imports Main "HOL-Library.Word" "HOL-Library.Monad_Syntax" "HOL-Library.Multiset"
begin

text \<open>
  Shared vocabulary of the development: the machine integers of the C code, the
  convention for aborting computations, the collections of rules the component
  theories fill, and generic lemmas on lists, options and words.

  A C function that may fail an \<^verbatim>\<open>assert\<close>, follow a null or dangling pointer, read out of
  an array or loop for ever has a result of type \<open>'a option\<close>: \<open>None\<close> stands for "does not
  return", and the \<open>do\<close> notation of \<open>Monad_Syntax\<close> sequences such computations the way
  the statements of the source follow each other.
\<close>

unbundle bit_operations_syntax

section \<open>Machine integers and pointers\<close>

type_synonym u8 = "8 word"
type_synonym u16 = "16 word"
type_synonym u32 = "32 word"
type_synonym u64 = "64 word"

text \<open>A 32-bit C \<^verbatim>\<open>int\<close> whose wrap-around the code relies on; \<open>sint\<close> reads it.\<close>

type_synonym i32 = "32 word"
type_synonym i64 = "64 word"

text \<open>A pointer to a heap object: its address, or \<open>None\<close> for \<^verbatim>\<open>NULL\<close>.\<close>

type_synonym ptr = "nat option"

section \<open>Rule collections\<close>

named_theorems inv_intros \<open>each operation keeps its component's invariant\<close>
named_theorems abs_simps \<open>what each operation does to the abstraction of a component\<close>

section \<open>The message types of \<^verbatim>\<open>skynet.h\<close>\<close>

definition PTYPE_TEXT :: u32 where "PTYPE_TEXT = 0"

definition PTYPE_CLIENT :: u32 where "PTYPE_CLIENT = 3"

definition PTYPE_SYSTEM :: u32 where "PTYPE_SYSTEM = 4"

definition PTYPE_HARBOR :: u32 where "PTYPE_HARBOR = 5"

definition PTYPE_SOCKET :: u32 where "PTYPE_SOCKET = 6"

definition PTYPE_ERROR :: u32 where "PTYPE_ERROR = 7"

definition PTYPE_TAG_DONTCOPY :: u32 where "PTYPE_TAG_DONTCOPY = 0x10000"

definition PTYPE_TAG_ALLOCSESSION :: u32 where "PTYPE_TAG_ALLOCSESSION = 0x20000"

section \<open>Assertions\<close>

text \<open>\<^verbatim>\<open>assert(b)\<close>: continue when \<open>b\<close> holds, abort otherwise.\<close>

definition assert_c :: "bool \<Rightarrow> unit option" where
  "assert_c b = (if b then Some () else None)"

lemma assert_c_simps [simp]:
  "assert_c True = Some ()"
  "assert_c False = None"
  by (simp_all add: assert_c_def)

lemma assert_c_eq_Some [simp]: "assert_c b = Some u \<longleftrightarrow> b"
  by (simp add: assert_c_def)

lemma assert_c_bind_eq_Some [simp]: "(assert_c b \<bind> f = Some y) \<longleftrightarrow> b \<and> f () = Some y"
  by (cases b) auto

text \<open>A read of an array element; out of range there is no value.\<close>

definition array_get :: "'a list \<Rightarrow> nat \<Rightarrow> 'a option" where
  "array_get xs i = (if i < length xs then Some (xs ! i) else None)"

text \<open>A write of an array element; out of range the program has no meaning.\<close>

definition array_set :: "'a list \<Rightarrow> nat \<Rightarrow> 'a \<Rightarrow> 'a list option" where
  "array_set xs i v = (if i < length xs then Some (xs[i := v]) else None)"

lemma array_get_Some [simp]: "i < length xs \<Longrightarrow> array_get xs i = Some (xs ! i)"
  by (simp add: array_get_def)

lemma array_set_Some [simp]: "i < length xs \<Longrightarrow> array_set xs i v = Some (xs[i := v])"
  by (simp add: array_set_def)

lemma array_get_eq_Some: "array_get xs i = Some v \<longleftrightarrow> i < length xs \<and> xs ! i = v"
  by (auto simp: array_get_def)

lemma array_set_eq_Some: "array_set xs i v = Some ys \<longleftrightarrow> i < length xs \<and> ys = xs[i := v]"
  by (auto simp: array_set_def)

section \<open>Signed arithmetic\<close>

text \<open>
  The value of an \<^verbatim>\<open>int\<close> expression: outside of the 32 bits the expression overflows and the
  program has no meaning.
\<close>

definition c_int :: "int \<Rightarrow> int option" where
  "c_int x = (if - (2 ^ 31) \<le> x \<and> x < 2 ^ 31 then Some x else None)"

lemma c_int_Some [simp]: "0 \<le> x \<Longrightarrow> x < 2 ^ 31 \<Longrightarrow> c_int x = Some x"
  by (simp add: c_int_def)

lemma c_int_eq_Some: "c_int x = Some y \<longleftrightarrow> y = x \<and> - (2 ^ 31) \<le> x \<and> x < 2 ^ 31"
  by (auto simp: c_int_def)

text \<open>The remainder \<^verbatim>\<open>%\<close> has the sign of the dividend.\<close>

definition c_rem :: "int \<Rightarrow> int \<Rightarrow> int" where
  "c_rem a b = (if a < 0 then - ((- a) mod \<bar>b\<bar>) else a mod \<bar>b\<bar>)"

lemma c_rem_nonneg [simp]: "0 \<le> a \<Longrightarrow> 0 < b \<Longrightarrow> c_rem a b = a mod b"
  by (simp add: c_rem_def)

section \<open>Words\<close>

lemma unat_and_mask: "unat (x AND mask n) = unat (x :: 'a::len word) mod 2 ^ n"
  by (metis take_bit_eq_mask unsigned_take_bit_eq take_bit_eq_mod)

lemma unat_drop_bit: "unat (drop_bit n x) = unat (x :: 'a::len word) div 2 ^ n"
  by (metis unat_drop_bit_eq drop_bit_eq_div)

text \<open>Filling the low \<open>k\<close> bits forgets them: equality is equality of the blocks of \<open>2 ^ k\<close>.\<close>

lemma or_mask_eq_iff:
  fixes a b :: "'a::len word"
  shows "(a OR mask k) = (b OR mask k) \<longleftrightarrow> unat a div 2 ^ k = unat b div 2 ^ k"
proof -
  have "(a OR mask k) = (b OR mask k) \<longleftrightarrow> drop_bit k a = drop_bit k b"
  proof
    assume "(a OR mask k) = (b OR mask k)"
    then have "drop_bit k (a OR mask k) = drop_bit k (b OR mask k)" by simp
    moreover have "drop_bit k (x OR mask k) = drop_bit k x" for x :: "'a word"
      by (rule bit_eqI) (simp add: bit_simps)
    ultimately show "drop_bit k a = drop_bit k b" by simp
  next
    assume *: "drop_bit k a = drop_bit k b"
    have "(x OR mask k) = (push_bit k (drop_bit k x) OR mask k)" for x :: "'a word"
      by (rule bit_eqI) (auto simp: bit_simps)
    with * show "(a OR mask k) = (b OR mask k)" by metis
  qed
  also have "\<dots> \<longleftrightarrow> unat a div 2 ^ k = unat b div 2 ^ k"
    by (metis unat_drop_bit word_unat_eq_iff)
  finally show ?thesis .
qed

lemma unat_word_of_nat_less: "n < 2 ^ LENGTH('a) \<Longrightarrow> unat (word_of_nat n :: 'a::len word) = n"
  by (simp add: unsigned_of_nat take_bit_nat_eq_self)

section \<open>Linked lists\<close>

text \<open>\<open>linked nx p xs\<close>: following \<open>nx\<close> from \<open>p\<close> visits the nodes \<open>xs\<close> and ends at the null pointer.\<close>

fun linked :: "(nat \<rightharpoonup> ptr) \<Rightarrow> ptr \<Rightarrow> nat list \<Rightarrow> bool" where
  "linked nx p [] \<longleftrightarrow> p = None"
| "linked nx p (x # xs) \<longleftrightarrow> p = Some x \<and> (\<exists>q. nx x = Some q \<and> linked nx q xs)"

lemma linked_unique: "linked nx p xs \<Longrightarrow> linked nx p ys \<Longrightarrow> xs = ys"
proof (induction xs arbitrary: p ys)
  case Nil
  then show ?case by (cases ys) auto
next
  case (Cons x xs)
  then show ?case by (cases ys) auto
qed

lemma linked_cong: "(\<And>x. x \<in> set xs \<Longrightarrow> nx' x = nx x) \<Longrightarrow> linked nx' p xs = linked nx p xs"
  by (induction xs arbitrary: p) auto

lemma linked_upd [simp]: "a \<notin> set xs \<Longrightarrow> linked (nx(a := v)) p xs = linked nx p xs"
  by (rule linked_cong) auto

lemma linked_None [simp]: "linked nx None xs \<longleftrightarrow> xs = []"
  by (cases xs) auto

lemma linked_Some: "linked nx (Some a) xs \<longleftrightarrow> (\<exists>q ys. xs = a # ys \<and> nx a = Some q \<and> linked nx q ys)"
  by (cases xs) auto

text \<open>Appending a node at the end.\<close>

lemma linked_snoc:
  assumes "linked nx p xs" "xs \<noteq> []" "distinct xs" "a \<notin> set xs"
  shows "linked (nx(last xs \<mapsto> Some a, a \<mapsto> None)) p (xs @ [a])"
  using assms
proof (induction xs arbitrary: p)
  case (Cons x xs)
  show ?case
  proof (cases "xs = []")
    case True
    then show ?thesis using Cons.prems by auto
  next
    case False
    from Cons.prems obtain q where q: "p = Some x" "nx x = Some q" "linked nx q xs" by auto
    have "x \<noteq> last xs" using Cons.prems(3) False by auto
    then show ?thesis using Cons.IH [OF q(3) False] Cons.prems q False by auto
  qed
qed simp

lemma linked_range:
  assumes "\<And>i. a \<le> i \<Longrightarrow> i + 1 < b \<Longrightarrow> nx i = Some (Some (i + 1))" "nx (b - 1) = Some None" "a < b"
  shows "linked nx (Some a) [a..<b]"
  using assms
proof (induction "b - a" arbitrary: a)
  case (Suc n)
  show ?case
  proof (cases "Suc a = b")
    case True
    then show ?thesis using Suc.prems by (auto simp: upt_conv_Cons)
  next
    case False
    then have "linked nx (Some (Suc a)) [Suc a..<b]" using Suc by (intro Suc.hyps(1)) auto
    then show ?thesis using Suc.prems False by (auto simp: upt_conv_Cons)
  qed
qed simp

end
