(* ===== verification/Mq.thy ===== *)
theory Mq
  imports Prelude
begin

text \<open>
  \<^verbatim>\<open>skynet/skynet-src/skynet_mq.c\<close>: the message queue of a service (a ring buffer that
  doubles when it is full) and the global queue of the queues that wait for a worker (a
  linked list threaded through the \<^verbatim>\<open>next\<close> fields).

  The ring buffer keeps its array and its head and tail indices; the global queue keeps
  the heap of queue objects and the head and tail pointers. The counters of a ring are
  natural numbers (an array of \<^verbatim>\<open>2^31\<close> messages of 24 bytes does not fit into memory
  before the \<^verbatim>\<open>int\<close> of the source overflows). The spin locks are left out: each operation
  runs with its lock held, and theory \<open>Locks\<close> models the locks.
\<close>

section \<open>The data\<close>

record skynet_message =
  msg_source :: u32
  msg_session :: i32
  msg_data :: ptr
  msg_sz :: u64

definition DEFAULT_QUEUE_SIZE :: nat where
  "DEFAULT_QUEUE_SIZE = 64"

definition MQ_OVERLOAD :: nat where
  "MQ_OVERLOAD = 1024"

text \<open>
  The flags \<^verbatim>\<open>release\<close> and \<^verbatim>\<open>in_global\<close> only ever hold 0 and 1.
\<close>

record message_queue =
  q_handle :: u32
  q_cap :: nat
  q_head :: nat
  q_tail :: nat
  q_release :: bool
  q_in_global :: bool
  q_overload :: nat
  q_overload_threshold :: nat
  q_queue :: "skynet_message list"
  q_next :: ptr

text \<open>
  The store of all queue objects and the two pointers of the global queue \<^verbatim>\<open>Q\<close>;
  \<open>mq_fresh\<close> is the address the allocator hands out next.
\<close>

record mq_store =
  mqs :: "nat \<rightharpoonup> message_queue"
  gq_head :: ptr
  gq_tail :: ptr
  mq_fresh :: nat

text \<open>What \<^verbatim>\<open>malloc\<close> leaves in an array; no operation reads it before writing.\<close>

definition fresh_message :: skynet_message where
  "fresh_message = \<lparr>msg_source = 0, msg_session = 0, msg_data = None, msg_sz = 0\<rparr>"

section \<open>Operations on one queue\<close>

definition new_queue :: "u32 \<Rightarrow> message_queue" where
  "new_queue handle =
     \<lparr>q_handle = handle, q_cap = DEFAULT_QUEUE_SIZE, q_head = 0, q_tail = 0,
      q_release = False, q_in_global = True, q_overload = 0,
      q_overload_threshold = MQ_OVERLOAD,
      q_queue = replicate DEFAULT_QUEUE_SIZE fresh_message, q_next = None\<rparr>"

definition mq_length :: "message_queue \<Rightarrow> nat" where
  "mq_length q =
     (let head = q_head q; tail = q_tail q; cap = q_cap q in
      if head \<le> tail then tail - head else tail + cap - head)"

text \<open>\<^verbatim>\<open>skynet_mq_overload\<close>: read the overload mark and reset it.\<close>

definition mq_overload :: "message_queue \<Rightarrow> nat \<times> message_queue" where
  "mq_overload q =
     (if q_overload q \<noteq> 0 then (q_overload q, q\<lparr>q_overload := 0\<rparr>) else (0, q))"

text \<open>The loop at the end of a successful \<^verbatim>\<open>skynet_mq_pop\<close>.\<close>

partial_function (option) overload_loop :: "nat \<Rightarrow> nat \<Rightarrow> nat \<Rightarrow> (nat \<times> nat) option" where
  "overload_loop len overload threshold =
     (if len > threshold then overload_loop len len (threshold * 2)
      else Some (overload, threshold))"

definition mq_pop :: "message_queue \<Rightarrow> (skynet_message option \<times> message_queue) option" where
  "mq_pop q =
     (if q_head q \<noteq> q_tail q then do {
        message \<leftarrow> array_get (q_queue q) (q_head q);
        let head = (if q_head q + 1 \<ge> q_cap q then 0 else q_head q + 1);
        let tail = q_tail q;
        let len = (if tail < head then tail + q_cap q - head else tail - head);
        (overload, threshold) \<leftarrow> overload_loop len (q_overload q) (q_overload_threshold q);
        Some (Some message,
              q\<lparr>q_head := head, q_overload := overload, q_overload_threshold := threshold\<rparr>)
      }
      else Some (None, q\<lparr>q_overload_threshold := MQ_OVERLOAD, q_in_global := False\<rparr>))"

text \<open>
  \<^verbatim>\<open>expand_queue\<close>: the copying loop fills \<^verbatim>\<open>new_queue[0..cap-1]\<close> with the old ring read
  from \<^verbatim>\<open>head\<close> on; the second half is what \<^verbatim>\<open>malloc\<close> left there.
\<close>

definition expand_queue :: "message_queue \<Rightarrow> message_queue" where
  "expand_queue q =
     q\<lparr>q_queue := map (\<lambda>i. q_queue q ! ((q_head q + i) mod q_cap q)) [0..<q_cap q]
                   @ replicate (q_cap q) fresh_message,
       q_head := 0, q_tail := q_cap q, q_cap := q_cap q * 2\<rparr>"

text \<open>The part of \<^verbatim>\<open>skynet_mq_push\<close> that stores the message.\<close>

definition mq_enqueue :: "skynet_message \<Rightarrow> message_queue \<Rightarrow> message_queue option" where
  "mq_enqueue message q = do {
     arr \<leftarrow> array_set (q_queue q) (q_tail q) message;
     let tail = (if q_tail q + 1 \<ge> q_cap q then 0 else q_tail q + 1);
     let q1 = q\<lparr>q_queue := arr, q_tail := tail\<rparr>;
     Some (if q_head q1 = q_tail q1 then expand_queue q1 else q1)
   }"

section \<open>Operations on the store\<close>

definition mq_get :: "mq_store \<Rightarrow> nat \<Rightarrow> message_queue option" where
  "mq_get s p = mqs s p"

definition mq_put :: "nat \<Rightarrow> message_queue \<Rightarrow> mq_store \<Rightarrow> mq_store" where
  "mq_put p q s = s\<lparr>mqs := (mqs s)(p \<mapsto> q)\<rparr>"

definition skynet_globalmq_push :: "nat \<Rightarrow> mq_store \<Rightarrow> mq_store option" where
  "skynet_globalmq_push queue s = do {
     q \<leftarrow> mq_get s queue;
     assert_c (q_next q = None);
     case gq_tail s of
       Some t \<Rightarrow> do {
         tq \<leftarrow> mq_get s t;
         Some ((mq_put t (tq\<lparr>q_next := Some queue\<rparr>) s)\<lparr>gq_tail := Some queue\<rparr>)
       }
     | None \<Rightarrow> Some (s\<lparr>gq_head := Some queue, gq_tail := Some queue\<rparr>)
   }"

definition skynet_globalmq_pop :: "mq_store \<Rightarrow> (ptr \<times> mq_store) option" where
  "skynet_globalmq_pop s =
     (case gq_head s of
        None \<Rightarrow> Some (None, s)
      | Some mq \<Rightarrow> do {
          q \<leftarrow> mq_get s mq;
          s1 \<leftarrow> (if q_next q = None then do {
                   assert_c (gq_tail s = Some mq);
                   Some (s\<lparr>gq_head := None, gq_tail := None\<rparr>)
                 } else Some (s\<lparr>gq_head := q_next q\<rparr>));
          Some (Some mq, mq_put mq (q\<lparr>q_next := None\<rparr>) s1)
        })"

definition skynet_mq_create :: "u32 \<Rightarrow> mq_store \<Rightarrow> nat \<times> mq_store" where
  "skynet_mq_create handle s =
     (mq_fresh s, (mq_put (mq_fresh s) (new_queue handle) s)\<lparr>mq_fresh := mq_fresh s + 1\<rparr>)"

text \<open>\<^verbatim>\<open>_release\<close>: the queue object is freed; its address is never used again.\<close>

definition mq_free :: "nat \<Rightarrow> mq_store \<Rightarrow> mq_store option" where
  "mq_free p s = do {
     q \<leftarrow> mq_get s p;
     assert_c (q_next q = None);
     Some (s\<lparr>mqs := (mqs s)(p := None)\<rparr>)
   }"

definition skynet_mq_handle :: "nat \<Rightarrow> mq_store \<Rightarrow> u32 option" where
  "skynet_mq_handle p s = do { q \<leftarrow> mq_get s p; Some (q_handle q) }"

definition skynet_mq_length :: "nat \<Rightarrow> mq_store \<Rightarrow> nat option" where
  "skynet_mq_length p s = do { q \<leftarrow> mq_get s p; Some (mq_length q) }"

definition skynet_mq_overload :: "nat \<Rightarrow> mq_store \<Rightarrow> (nat \<times> mq_store) option" where
  "skynet_mq_overload p s = do {
     q \<leftarrow> mq_get s p;
     let (overload, q1) = mq_overload q;
     Some (overload, mq_put p q1 s)
   }"

definition skynet_mq_pop :: "nat \<Rightarrow> mq_store \<Rightarrow> (skynet_message option \<times> mq_store) option" where
  "skynet_mq_pop p s = do {
     q \<leftarrow> mq_get s p;
     (m, q1) \<leftarrow> mq_pop q;
     Some (m, mq_put p q1 s)
   }"

definition skynet_mq_push :: "nat \<Rightarrow> skynet_message \<Rightarrow> mq_store \<Rightarrow> mq_store option" where
  "skynet_mq_push p message s = do {
     q \<leftarrow> mq_get s p;
     q1 \<leftarrow> mq_enqueue message q;
     if \<not> q_in_global q1 then
       skynet_globalmq_push p (mq_put p (q1\<lparr>q_in_global := True\<rparr>) s)
     else Some (mq_put p q1 s)
   }"

definition skynet_mq_init :: mq_store where
  "skynet_mq_init = \<lparr>mqs = Map.empty, gq_head = None, gq_tail = None, mq_fresh = 0\<rparr>"

definition skynet_mq_mark_release :: "nat \<Rightarrow> mq_store \<Rightarrow> mq_store option" where
  "skynet_mq_mark_release p s = do {
     q \<leftarrow> mq_get s p;
     assert_c (\<not> q_release q);
     let s1 = mq_put p (q\<lparr>q_release := True\<rparr>) s;
     if \<not> q_in_global q then skynet_globalmq_push p s1 else Some s1
   }"


section \<open>The ring buffer is a queue\<close>

definition ring_inv :: "message_queue \<Rightarrow> bool" where
  "ring_inv q \<longleftrightarrow> q_head q < q_cap q \<and> q_tail q < q_cap q \<and> length (q_queue q) = q_cap q
     \<and> 0 < q_overload_threshold q \<and> q_overload_threshold q \<le> max MQ_OVERLOAD (2 * q_cap q)"

text \<open>The messages waiting in a queue, the next one to be popped first.\<close>

definition mq_list :: "message_queue \<Rightarrow> skynet_message list" where
  "mq_list q = map (\<lambda>i. q_queue q ! ((q_head q + i) mod q_cap q)) [0..<mq_length q]"

lemma length_mq_list [simp]: "length (mq_list q) = mq_length q"
  by (simp add: mq_list_def)

lemma mq_length_less: "ring_inv q \<Longrightarrow> mq_length q < q_cap q"
  by (auto simp: ring_inv_def mq_length_def Let_def)

lemma mq_length_0_iff: "ring_inv q \<Longrightarrow> mq_length q = 0 \<longleftrightarrow> q_head q = q_tail q"
  by (auto simp: ring_inv_def mq_length_def Let_def)

lemma mq_list_empty_iff: "ring_inv q \<Longrightarrow> mq_list q = [] \<longleftrightarrow> q_head q = q_tail q"
  using mq_length_0_iff [of q] length_mq_list [of q] by (metis length_0_conv)

lemma new_queue_ring [inv_intros]: "ring_inv (new_queue h)"
  by (simp add: ring_inv_def new_queue_def DEFAULT_QUEUE_SIZE_def MQ_OVERLOAD_def)

lemma mq_list_new_queue [abs_simps]: "mq_list (new_queue h) = []"
  by (simp add: mq_list_def mq_length_def new_queue_def)

text \<open>
  Fields that do not hold messages do not matter to the abstraction.
\<close>

lemma ring_inv_upd [simp]:
  "ring_inv (q\<lparr>q_in_global := b\<rparr>) = ring_inv q"
  "ring_inv (q\<lparr>q_release := b\<rparr>) = ring_inv q"
  "ring_inv (q\<lparr>q_next := n\<rparr>) = ring_inv q"
  "ring_inv (q\<lparr>q_overload := v\<rparr>) = ring_inv q"
  by (simp_all add: ring_inv_def)

lemma mq_list_upd [simp]:
  "mq_list (q\<lparr>q_in_global := b\<rparr>) = mq_list q"
  "mq_list (q\<lparr>q_release := b\<rparr>) = mq_list q"
  "mq_list (q\<lparr>q_next := n\<rparr>) = mq_list q"
  "mq_list (q\<lparr>q_overload := v\<rparr>) = mq_list q"
  "mq_list (q\<lparr>q_overload_threshold := t\<rparr>) = mq_list q"
  by (simp_all add: mq_list_def mq_length_def)

text \<open>The overload loop ends: the threshold doubles until it reaches the length.\<close>

lemma overload_loop_result:
  assumes "0 < t"
  shows "\<exists>v t'. overload_loop len ov t = Some (v, t') \<and> t \<le> t' \<and> len \<le> t'
    \<and> (t < len \<longrightarrow> t' \<le> 2 * len) \<and> (len \<le> t \<longrightarrow> t' = t \<and> v = ov) \<and> (t < len \<longrightarrow> v = len)"
  using assms
proof (induction "len - t" arbitrary: t ov rule: less_induct)
  case less
  show ?case
  proof (cases "t < len")
    case True
    then have "len - t * 2 < len - t" using less.prems by simp
    from less.hyps [OF this, of len] less.prems
    obtain v t' where *: "overload_loop len len (t * 2) = Some (v, t')" "t * 2 \<le> t'" "len \<le> t'"
      "t * 2 < len \<longrightarrow> t' \<le> 2 * len" "len \<le> t * 2 \<longrightarrow> t' = t * 2 \<and> v = len"
      "t * 2 < len \<longrightarrow> v = len"
      by auto
    then have "overload_loop len ov t = Some (v, t')"
      using True by (subst overload_loop.simps) simp
    moreover have "t \<le> t' \<and> t' \<le> 2 * len \<and> v = len"
      using * True by (cases "t * 2 < len") auto
    ultimately show ?thesis using \<open>len \<le> t'\<close> True by auto
  next
    case False
    then show ?thesis by (subst overload_loop.simps) auto
  qed
qed

text \<open>
  Popping: the head of the list comes out, the tail stays; an empty queue clears
  \<^verbatim>\<open>in_global\<close>.
\<close>

lemma tl_mq_list:
  assumes inv: "ring_inv q" and ne: "q_head q \<noteq> q_tail q"
    and q': "q_head q' = (if q_head q + 1 \<ge> q_cap q then 0 else q_head q + 1)"
      "q_tail q' = q_tail q" "q_cap q' = q_cap q" "q_queue q' = q_queue q"
  shows "mq_list q' = tl (mq_list q)"
proof (rule nth_equalityI)
  show len: "length (mq_list q') = length (tl (mq_list q))"
    using inv ne q' by (auto simp: ring_inv_def mq_length_def Let_def)
  fix i assume i: "i < length (mq_list q')"
  then have si: "Suc i < mq_length q" using len by simp
  have "(q_head q' + i) mod q_cap q = (q_head q + Suc i) mod q_cap q"
  proof (cases "q_head q + 1 \<ge> q_cap q")
    case True
    then have "q_head q + Suc i = i + q_cap q" using inv by (auto simp: ring_inv_def)
    then have "(q_head q + Suc i) mod q_cap q = i mod q_cap q" by (metis mod_add_self2)
    then show ?thesis using True q'(1) by simp
  qed (simp add: q'(1))
  then show "mq_list q' ! i = tl (mq_list q) ! i"
    using i si q' by (simp add: mq_list_def nth_tl)
qed

lemma hd_mq_list:
  assumes "ring_inv q" and "q_head q \<noteq> q_tail q"
  shows "mq_list q \<noteq> []" and "hd (mq_list q) = q_queue q ! q_head q"
proof -
  show ne: "mq_list q \<noteq> []" using assms by (simp add: mq_list_empty_iff)
  then have "0 < mq_length q" by (metis length_greater_0_conv length_mq_list)
  then show "hd (mq_list q) = q_queue q ! q_head q"
    using assms(1) ne by (simp add: hd_conv_nth) (simp add: mq_list_def ring_inv_def)
qed

lemma mq_pop_nonempty:
  assumes inv: "ring_inv q" and ne: "mq_list q \<noteq> []"
  shows "\<exists>q'. mq_pop q = Some (Some (hd (mq_list q)), q') \<and> ring_inv q'
    \<and> mq_list q' = tl (mq_list q) \<and> q_in_global q' = q_in_global q \<and> q_release q' = q_release q
    \<and> q_next q' = q_next q \<and> q_handle q' = q_handle q"
proof -
  have ht: "q_head q \<noteq> q_tail q" using inv ne mq_list_empty_iff by blast
  define head where "head = (if q_head q + 1 \<ge> q_cap q then 0 else q_head q + 1)"
  define len where "len = (if q_tail q < head then q_tail q + q_cap q - head else q_tail q - head)"
  have inv': "q_head q < q_cap q" "q_tail q < q_cap q" "length (q_queue q) = q_cap q"
    "0 < q_overload_threshold q" "q_overload_threshold q \<le> max MQ_OVERLOAD (2 * q_cap q)"
    using inv by (auto simp: ring_inv_def)
  obtain v t where vt: "overload_loop len (q_overload q) (q_overload_threshold q) = Some (v, t)"
    "q_overload_threshold q \<le> t" "q_overload_threshold q < len \<longrightarrow> t \<le> 2 * len"
    "len \<le> q_overload_threshold q \<longrightarrow> t = q_overload_threshold q"
    using overload_loop_result [OF inv'(4), of len "q_overload q"] by blast
  let ?q' = "q\<lparr>q_head := head, q_overload := v, q_overload_threshold := t\<rparr>"
  have hd: "head < q_cap q" using inv' by (auto simp: head_def)
  then have "len < q_cap q" using inv' by (auto simp: len_def)
  then have "t \<le> max MQ_OVERLOAD (2 * q_cap q)"
    using vt inv'(5) by (cases "q_overload_threshold q < len") auto
  then have ring: "ring_inv ?q'" using inv' vt hd by (simp add: ring_inv_def)
  have "mq_pop q = Some (Some (q_queue q ! q_head q), ?q')"
    using ht inv' vt(1)
    by (simp only: mq_pop_def Let_def head_def [symmetric] len_def [symmetric]) simp
  moreover have "mq_list ?q' = tl (mq_list q)"
    using inv ht by (intro tl_mq_list) (auto simp: head_def)
  ultimately show ?thesis using ring hd_mq_list [OF inv ht] by auto
qed

lemma mq_pop_empty:
  assumes "ring_inv q" and "mq_list q = []"
  shows "mq_pop q = Some (None, q\<lparr>q_overload_threshold := MQ_OVERLOAD, q_in_global := False\<rparr>)"
    and "ring_inv (q\<lparr>q_overload_threshold := MQ_OVERLOAD, q_in_global := False\<rparr>)"
    and "mq_list (q\<lparr>q_overload_threshold := MQ_OVERLOAD, q_in_global := False\<rparr>) = []"
  using assms by (auto simp: mq_pop_def mq_list_empty_iff ring_inv_def MQ_OVERLOAD_def)

text \<open>Pushing: the message goes to the end, the buffer doubling when it is full.\<close>

lemma mq_list_full:
  assumes "q_head q = q_tail q" "0 < q_cap q"
  shows "mq_list (expand_queue q)
       = map (\<lambda>i. q_queue q ! ((q_head q + i) mod q_cap q)) [0..<q_cap q]"
  using assms by (auto simp: mq_list_def mq_length_def expand_queue_def nth_append Let_def
      intro!: map_cong)

lemma map_ring_snoc:
  assumes "h < c" "n < c" "length xs = c" "(h + n) mod c = t"
  shows "map (\<lambda>i. xs[t := m] ! ((h + i) mod c)) [0..<Suc n]
       = map (\<lambda>i. xs ! ((h + i) mod c)) [0..<n] @ [m]"
proof -
  have "t \<noteq> (h + i) mod c" if "i < n" for i
  proof
    assume "t = (h + i) mod c"
    then have "(h + i) mod c = (h + n) mod c" using assms(4) by simp
    moreover have "h + n - (h + i) = n - i" by simp
    ultimately have "c dvd n - i" using that by (metis mod_eq_dvd_iff_nat add_le_cancel_left less_imp_le)
    then show False using that assms(2) by (auto dest: dvd_imp_le)
  qed
  then have "map (\<lambda>i. xs[t := m] ! ((h + i) mod c)) [0..<n] = map (\<lambda>i. xs ! ((h + i) mod c)) [0..<n]"
    by (intro map_cong) (auto simp: nth_list_update)
  moreover have "t < length xs" using assms mod_less_divisor [of c "h + n"] by auto
  ultimately show ?thesis using assms(4) by simp
qed

lemma mq_tail_index:
  assumes "ring_inv q"
  shows "(q_head q + mq_length q) mod q_cap q = q_tail q"
  using assms by (auto simp: ring_inv_def mq_length_def Let_def)

lemma mq_enqueue_correct:
  assumes inv: "ring_inv q"
  shows "\<exists>q'. mq_enqueue m q = Some q' \<and> ring_inv q' \<and> mq_list q' = mq_list q @ [m]
    \<and> q_in_global q' = q_in_global q \<and> q_release q' = q_release q
    \<and> q_next q' = q_next q \<and> q_handle q' = q_handle q"
proof -
  define tail where "tail = (if q_tail q + 1 \<ge> q_cap q then 0 else q_tail q + 1)"
  let ?q1 = "q\<lparr>q_queue := (q_queue q)[q_tail q := m], q_tail := tail\<rparr>"
  have inv': "q_head q < q_cap q" "q_tail q < q_cap q" "length (q_queue q) = q_cap q"
    "0 < q_overload_threshold q" "q_overload_threshold q \<le> max MQ_OVERLOAD (2 * q_cap q)"
    using inv by (auto simp: ring_inv_def)
  have ring: "ring_inv ?q1" using inv' by (auto simp: ring_inv_def tail_def)
  note snoc = map_ring_snoc [OF inv'(1) mq_length_less [OF inv] inv'(3) mq_tail_index [OF inv], of m]
  have eq: "mq_enqueue m q = Some (if q_head q = tail then expand_queue ?q1 else ?q1)"
    using inv' by (simp add: mq_enqueue_def Let_def tail_def)
  show ?thesis
  proof (cases "q_head q = tail")
    case True
    then have len: "q_cap q = Suc (mq_length q)"
      using inv' by (auto simp: mq_length_def tail_def Let_def split: if_splits)
    have "mq_list (expand_queue ?q1)
        = map (\<lambda>i. (q_queue q)[q_tail q := m] ! ((q_head q + i) mod q_cap q)) [0..<q_cap q]"
      using True inv' by (subst mq_list_full) auto
    also have "\<dots> = mq_list q @ [m]" using snoc len by (simp add: mq_list_def)
    finally have "mq_list (expand_queue ?q1) = mq_list q @ [m]" .
    moreover have "ring_inv (expand_queue ?q1)"
      using inv' by (auto simp: ring_inv_def expand_queue_def)
    ultimately show ?thesis using eq True by (simp add: expand_queue_def)
  next
    case False
    then have "mq_length ?q1 = Suc (mq_length q)"
      using inv' by (auto simp: mq_length_def tail_def Let_def)
    then have "mq_list ?q1 = mq_list q @ [m]" using snoc by (simp add: mq_list_def)
    then show ?thesis using eq False ring by simp
  qed
qed


text \<open>
  The contract of a message queue, as its clients use it: an abstract FIFO with the flag
  that says whether some thread is responsible for the queue.
\<close>

locale fifo =
  fixes fifo_inv :: "'q \<Rightarrow> bool"
    and contents :: "'q \<Rightarrow> 'm list"
    and put :: "'m \<Rightarrow> 'q \<Rightarrow> 'q option"
    and get :: "'q \<Rightarrow> ('m option \<times> 'q) option"
  assumes put_contents: "fifo_inv q \<Longrightarrow> \<exists>q'. put m q = Some q' \<and> fifo_inv q' \<and> contents q' = contents q @ [m]"
    and get_Cons: "fifo_inv q \<Longrightarrow> contents q = m # ms \<Longrightarrow>
      \<exists>q'. get q = Some (Some m, q') \<and> fifo_inv q' \<and> contents q' = ms"
    and get_Nil: "fifo_inv q \<Longrightarrow> contents q = [] \<Longrightarrow>
      \<exists>q'. get q = Some (None, q') \<and> fifo_inv q' \<and> contents q' = []"
begin

text \<open>Put a list of messages, then get as many: they come back in order.\<close>

fun put_all :: "'m list \<Rightarrow> 'q \<Rightarrow> 'q option" where
  "put_all [] q = Some q"
| "put_all (m # ms) q = put m q \<bind> put_all ms"

fun get_n :: "nat \<Rightarrow> 'q \<Rightarrow> ('m list \<times> 'q) option" where
  "get_n 0 q = Some ([], q)"
| "get_n (Suc n) q = do {
     (m, q1) \<leftarrow> get q;
     case m of None \<Rightarrow> Some ([], q1)
     | Some x \<Rightarrow> do { (xs, q2) \<leftarrow> get_n n q1; Some (x # xs, q2) }
   }"

lemma put_all_contents:
  "fifo_inv q \<Longrightarrow> \<exists>q'. put_all ms q = Some q' \<and> fifo_inv q' \<and> contents q' = contents q @ ms"
proof (induction ms arbitrary: q)
  case (Cons m ms)
  from put_contents [OF Cons.prems, of m] obtain q1
    where "put m q = Some q1" "fifo_inv q1" "contents q1 = contents q @ [m]" by blast
  with Cons.IH [of q1] show ?case by auto
qed simp

lemma get_n_contents:
  "fifo_inv q \<Longrightarrow> \<exists>q'. get_n n q = Some (take n (contents q), q') \<and> fifo_inv q'
     \<and> contents q' = drop n (contents q)"
proof (induction n arbitrary: q)
  case (Suc n)
  show ?case
  proof (cases "contents q")
    case Nil
    then show ?thesis using get_Nil [OF Suc.prems] by auto
  next
    case (Cons m ms)
    with get_Cons [OF Suc.prems] obtain q1
      where "get q = Some (Some m, q1)" "fifo_inv q1" "contents q1 = ms" by blast
    with Suc.IH [of q1] Cons show ?thesis by auto
  qed
qed simp

lemma put_get_fifo:
  assumes "fifo_inv q" and "contents q = []"
  shows "\<exists>q1 q2. put_all ms q = Some q1 \<and> get_n (length ms) q1 = Some (ms, q2) \<and> contents q2 = []"
proof -
  obtain q1 where "put_all ms q = Some q1" "fifo_inv q1" "contents q1 = ms"
    using put_all_contents [OF assms(1), of ms] assms(2) by auto
  with get_n_contents [of q1 "length ms"] show ?thesis by auto
qed

end

interpretation ring: fifo ring_inv mq_list mq_enqueue mq_pop
proof
  fix q m assume "ring_inv q"
  then show "\<exists>q'. mq_enqueue m q = Some q' \<and> ring_inv q' \<and> mq_list q' = mq_list q @ [m]"
    using mq_enqueue_correct by blast
next
  fix q m ms assume "ring_inv q" "mq_list q = m # ms"
  then show "\<exists>q'. mq_pop q = Some (Some m, q') \<and> ring_inv q' \<and> mq_list q' = ms"
    using mq_pop_nonempty [of q] by auto
next
  fix q assume "ring_inv q" "mq_list q = []"
  then show "\<exists>q'. mq_pop q = Some (None, q') \<and> ring_inv q' \<and> mq_list q' = []"
    using mq_pop_empty by blast
qed

section \<open>The global queue is a list of queues\<close>

text \<open>\<open>chain h p xs\<close>: following \<^verbatim>\<open>next\<close> from \<open>p\<close> visits exactly \<open>xs\<close>.\<close>

fun chain :: "(nat \<rightharpoonup> message_queue) \<Rightarrow> ptr \<Rightarrow> nat list \<Rightarrow> bool" where
  "chain h p [] \<longleftrightarrow> p = None"
| "chain h p (x # xs) \<longleftrightarrow> p = Some x \<and> (\<exists>q. h x = Some q \<and> chain h (q_next q) xs)"

lemma chain_upd_other: "p \<notin> set xs \<Longrightarrow> chain (h(p := q)) r xs = chain h r xs"
  by (induction xs arbitrary: r) auto

lemma chain_upd_next_same:
  "h p = Some q \<Longrightarrow> q_next q' = q_next q \<Longrightarrow> chain (h(p \<mapsto> q')) r xs = chain h r xs"
  by (induction xs arbitrary: r) auto

lemma chain_dom: "chain h p xs \<Longrightarrow> x \<in> set xs \<Longrightarrow> \<exists>q. h x = Some q"
  by (induction xs arbitrary: p) auto

lemma chain_None [simp]: "chain h None xs \<longleftrightarrow> xs = []"
  by (cases xs) auto

lemma chain_last_next: "chain h p xs \<Longrightarrow> xs \<noteq> [] \<Longrightarrow> \<exists>q. h (last xs) = Some q \<and> q_next q = None"
  by (induction xs arbitrary: p) auto

lemma chain_snoc:
  assumes "chain h p xs" "xs \<noteq> []" "distinct xs" "h (last xs) = Some lq"
    "x \<notin> set xs" "h x = Some q" "q_next q = None"
  shows "chain (h(last xs \<mapsto> lq\<lparr>q_next := Some x\<rparr>)) p (xs @ [x])"
  using assms
proof (induction xs arbitrary: p)
  case (Cons y ys)
  show ?case
  proof (cases "ys = []")
    case True
    then show ?thesis using Cons.prems by auto
  next
    case False
    from Cons.prems False have "y \<noteq> last ys" by auto
    then show ?thesis using Cons.IH [of "q_next (the (h y))"] Cons.prems False by auto
  qed
qed simp

text \<open>
  The invariant of the store: the global queue is a list \<open>xs\<close> of distinct live queues, its
  tail pointer is right, a queue outside the list has no \<^verbatim>\<open>next\<close>, every ring is well formed
  and the allocator has not handed out the fresh address yet.
\<close>

definition gq_inv :: "mq_store \<Rightarrow> nat list \<Rightarrow> bool" where
  "gq_inv s xs \<longleftrightarrow> chain (mqs s) (gq_head s) xs \<and> distinct xs
     \<and> gq_tail s = (if xs = [] then None else Some (last xs))
     \<and> (\<forall>p q. mqs s p = Some q \<longrightarrow> ring_inv q \<and> p < mq_fresh s \<and> (p \<notin> set xs \<longrightarrow> q_next q = None))"

lemma gq_inv_live: "gq_inv s xs \<Longrightarrow> p \<in> set xs \<Longrightarrow> \<exists>q. mqs s p = Some q"
  by (auto simp: gq_inv_def intro: chain_dom)

lemma gq_inv_ring: "gq_inv s xs \<Longrightarrow> mqs s p = Some q \<Longrightarrow> ring_inv q"
  by (auto simp: gq_inv_def)

lemma skynet_mq_init_inv [inv_intros]: "gq_inv skynet_mq_init []"
  by (simp add: gq_inv_def skynet_mq_init_def)

text \<open>A write that keeps \<^verbatim>\<open>next\<close> keeps the list.\<close>

lemma gq_inv_put:
  assumes "gq_inv s xs" "mqs s p = Some q" "q_next q' = q_next q" "ring_inv q'"
  shows "gq_inv (mq_put p q' s) xs"
  using assms by (auto simp: gq_inv_def mq_put_def chain_upd_next_same)

text \<open>
  What the clients of the store see: for each live queue its flags, its handle and its
  messages, but neither the array nor the links.
\<close>

record queue_view =
  v_in_global :: bool
  v_release :: bool
  v_handle :: u32
  v_msgs :: "skynet_message list"

definition view :: "message_queue \<Rightarrow> queue_view" where
  "view q = \<lparr>v_in_global = q_in_global q, v_release = q_release q, v_handle = q_handle q,
             v_msgs = mq_list q\<rparr>"

definition views :: "mq_store \<Rightarrow> (nat \<rightharpoonup> queue_view)" where
  "views s = (\<lambda>p. map_option view (mqs s p))"

lemma view_next [simp]: "view (q\<lparr>q_next := n\<rparr>) = view q"
  by (simp add: view_def)

lemma view_sel [simp]:
  "v_in_global (view q) = q_in_global q" "v_release (view q) = q_release q"
  "v_handle (view q) = q_handle q" "v_msgs (view q) = mq_list q"
  by (simp_all add: view_def)

lemma views_eq_Some: "views s p = Some v \<longleftrightarrow> (\<exists>q. mqs s p = Some q \<and> v = view q)"
  by (auto simp: views_def)

lemma views_cong: "mqs s' = mqs s \<Longrightarrow> views s' = views s"
  by (simp add: views_def)

lemma views_mq_put [simp]: "views (mq_put p q s) = (views s)(p \<mapsto> view q)"
  by (auto simp: views_def mq_put_def)

lemma views_upd [simp]:
  "views (s\<lparr>gq_head := a\<rparr>) = views s" "views (s\<lparr>gq_tail := a\<rparr>) = views s"
  "views (s\<lparr>mq_fresh := n\<rparr>) = views s"
  by (simp_all add: views_def)

lemma mq_put_sel [simp]:
  "mqs (mq_put p q s) = (mqs s)(p \<mapsto> q)" "gq_head (mq_put p q s) = gq_head s"
  "gq_tail (mq_put p q s) = gq_tail s" "mq_fresh (mq_put p q s) = mq_fresh s"
  by (simp_all add: mq_put_def)

lemma fun_upd_view_idem: "mqs s p = Some q \<Longrightarrow> (views s)(p \<mapsto> view q) = views s"
  by (auto simp: views_def)

lemma skynet_globalmq_push_correct:
  assumes inv: "gq_inv s xs" and q: "mqs s p = Some q" and p: "p \<notin> set xs"
  shows "\<exists>s'. skynet_globalmq_push p s = Some s' \<and> gq_inv s' (xs @ [p])
    \<and> mq_fresh s' = mq_fresh s
    \<and> views s' = views s"
proof (cases "xs = []")
  case True
  then show ?thesis using inv q
    by (auto simp: skynet_globalmq_push_def gq_inv_def mq_get_def)
next
  case False
  let ?l = "last xs"
  have l: "?l \<in> set xs" using False by simp
  obtain lq where lq: "mqs s ?l = Some lq" "q_next lq = None"
    using chain_last_next [of "mqs s" "gq_head s" xs] inv False by (auto simp: gq_inv_def)
  let ?s' = "(mq_put ?l (lq\<lparr>q_next := Some p\<rparr>) s)\<lparr>gq_tail := Some p\<rparr>"
  have nx: "q_next q = None" using inv q p by (auto simp: gq_inv_def)
  have "skynet_globalmq_push p s = Some ?s'"
    using inv False q nx lq by (auto simp: skynet_globalmq_push_def gq_inv_def mq_get_def)
  moreover have "gq_inv ?s' (xs @ [p])"
    using inv False q nx lq p l chain_snoc [of "mqs s" "gq_head s" xs lq p q]
    by (auto simp: gq_inv_def mq_put_def split: if_splits)
  ultimately show ?thesis using fun_upd_view_idem [OF lq(1)] by simp
qed

lemma skynet_globalmq_pop_empty:
  "gq_inv s [] \<Longrightarrow> skynet_globalmq_pop s = Some (None, s)"
  by (auto simp: gq_inv_def skynet_globalmq_pop_def)

lemma skynet_globalmq_pop_Cons:
  assumes inv: "gq_inv s (p # xs)"
  shows "\<exists>s'. skynet_globalmq_pop s = Some (Some p, s') \<and> gq_inv s' xs
    \<and> mq_fresh s' = mq_fresh s
    \<and> views s' = views s"
proof -
  from inv obtain q where q: "mqs s p = Some q" "chain (mqs s) (q_next q) xs" "p \<notin> set xs"
    "gq_head s = Some p" "distinct xs"
    by (auto simp: gq_inv_def)
  have e: "q_next q = None \<longleftrightarrow> xs = []" using q(2) by (cases xs) auto
  let ?s' = "mq_put p (q\<lparr>q_next := None\<rparr>)
     (if xs = [] then s\<lparr>gq_head := None, gq_tail := None\<rparr> else s\<lparr>gq_head := q_next q\<rparr>)"
  have "skynet_globalmq_pop s = Some (Some p, ?s')"
    using q e inv by (auto simp: skynet_globalmq_pop_def mq_get_def gq_inv_def split: if_splits)
  moreover have "gq_inv ?s' xs"
    using inv q e by (auto simp: gq_inv_def mq_put_def chain_upd_other split: if_splits)
  ultimately show ?thesis using fun_upd_view_idem [OF q(1)] by simp
qed


lemma skynet_mq_create_correct:
  assumes "gq_inv s xs"
  shows "\<exists>s'. skynet_mq_create h s = (mq_fresh s, s') \<and> gq_inv s' xs \<and> views s (mq_fresh s) = None
    \<and> mq_fresh s \<notin> set xs
    \<and> views s' = (views s)(mq_fresh s \<mapsto> \<lparr>v_in_global = True, v_release = False, v_handle = h, v_msgs = []\<rparr>)"
proof -
  have new: "mqs s (mq_fresh s) = None" using assms by (cases "mqs s (mq_fresh s)") (auto simp: gq_inv_def)
  then have "mq_fresh s \<notin> set xs" using gq_inv_live [OF assms] by fastforce
  moreover have "view (new_queue h) = \<lparr>v_in_global = True, v_release = False, v_handle = h, v_msgs = []\<rparr>"
    by (simp add: view_def abs_simps) (simp add: new_queue_def)
  ultimately show ?thesis using assms new
    by (auto simp: skynet_mq_create_def gq_inv_def chain_upd_other views_def inv_intros
        new_queue_def [THEN arg_cong [where f = q_next]] less_Suc_eq)
qed

lemma skynet_mq_pop_correct:
  assumes inv: "gq_inv s xs" and v: "views s p = Some v"
  shows "\<exists>s'. skynet_mq_pop p s = Some (case v_msgs v of [] \<Rightarrow> None | m # ms \<Rightarrow> Some m, s')
    \<and> gq_inv s' xs \<and> mq_fresh s' = mq_fresh s
    \<and> views s' = (views s)(p \<mapsto> (case v_msgs v of [] \<Rightarrow> v\<lparr>v_in_global := False\<rparr>
                                  | m # ms \<Rightarrow> v\<lparr>v_msgs := ms\<rparr>))"
proof -
  from v obtain q where q: "mqs s p = Some q" "v = view q" by (auto simp: views_eq_Some)
  have ring: "ring_inv q" using gq_inv_ring [OF inv q(1)] .
  show ?thesis
  proof (cases "mq_list q")
    case Nil
    then show ?thesis using q mq_pop_empty [OF ring Nil] gq_inv_put [OF inv q(1)]
      by (auto simp: skynet_mq_pop_def mq_get_def view_def)
  next
    case (Cons m ms)
    with mq_pop_nonempty [OF ring] obtain q' where "mq_pop q = Some (Some m, q')" "ring_inv q'"
      "mq_list q' = ms" "q_in_global q' = q_in_global q" "q_release q' = q_release q"
      "q_next q' = q_next q" "q_handle q' = q_handle q" by auto
    then show ?thesis using q gq_inv_put [OF inv q(1)] Cons
      by (auto simp: skynet_mq_pop_def mq_get_def view_def)
  qed
qed

lemma skynet_mq_push_correct:
  assumes inv: "gq_inv s xs" and v: "views s p = Some v" and p: "\<not> v_in_global v \<Longrightarrow> p \<notin> set xs"
  shows "\<exists>s'. skynet_mq_push p m s = Some s'
    \<and> gq_inv s' (if v_in_global v then xs else xs @ [p]) \<and> mq_fresh s' = mq_fresh s
    \<and> views s' = (views s)(p \<mapsto> v\<lparr>v_in_global := True, v_msgs := v_msgs v @ [m]\<rparr>)"
proof -
  from v obtain q where q: "mqs s p = Some q" "v = view q" by (auto simp: views_eq_Some)
  have ring: "ring_inv q" using gq_inv_ring [OF inv q(1)] .
  from mq_enqueue_correct [OF ring, of m] obtain q' where q': "mq_enqueue m q = Some q'" "ring_inv q'"
    "mq_list q' = mq_list q @ [m]" "q_in_global q' = q_in_global q" "q_release q' = q_release q"
    "q_next q' = q_next q" "q_handle q' = q_handle q" by auto
  show ?thesis
  proof (cases "q_in_global q")
    case True
    then show ?thesis using q q' gq_inv_put [OF inv q(1), of q']
      by (auto simp: skynet_mq_push_def mq_get_def view_def)
  next
    case False
    let ?s = "mq_put p (q'\<lparr>q_in_global := True\<rparr>) s"
    have "gq_inv ?s xs" using q' gq_inv_put [OF inv q(1)] by simp
    moreover have "p \<notin> set xs" using p False q by simp
    ultimately show ?thesis
      using q q' False skynet_globalmq_push_correct [of ?s xs p "q'\<lparr>q_in_global := True\<rparr>"]
      by (auto simp: skynet_mq_push_def mq_get_def view_def)
  qed
qed

lemma skynet_mq_mark_release_correct:
  assumes inv: "gq_inv s xs" and v: "views s p = Some v" "\<not> v_release v"
    and p: "\<not> v_in_global v \<Longrightarrow> p \<notin> set xs"
  shows "\<exists>s'. skynet_mq_mark_release p s = Some s'
    \<and> gq_inv s' (if v_in_global v then xs else xs @ [p]) \<and> mq_fresh s' = mq_fresh s
    \<and> views s' = (views s)(p \<mapsto> v\<lparr>v_release := True\<rparr>)"
proof -
  from v obtain q where q: "mqs s p = Some q" "v = view q" by (auto simp: views_eq_Some)
  let ?q = "q\<lparr>q_release := True\<rparr>"
  have inv1: "gq_inv (mq_put p ?q s) xs"
    using gq_inv_put [OF inv q(1), of ?q] gq_inv_ring [OF inv q(1)] by simp
  show ?thesis
    using inv1 q v(2) p skynet_globalmq_push_correct [OF inv1, of p ?q]
    by (auto simp: skynet_mq_mark_release_def mq_get_def view_def Let_def)
qed

lemma mq_free_correct:
  assumes inv: "gq_inv s xs" and v: "views s p = Some v" and p: "p \<notin> set xs"
  shows "\<exists>s'. mq_free p s = Some s' \<and> gq_inv s' xs \<and> views s' = (views s)(p := None)"
  using assms by (auto simp: mq_free_def mq_get_def views_eq_Some gq_inv_def chain_upd_other views_def
      fun_eq_iff)

lemma skynet_mq_overload_correct:
  assumes inv: "gq_inv s xs" and v: "views s p = Some v"
  shows "\<exists>n s'. skynet_mq_overload p s = Some (n, s') \<and> gq_inv s' xs \<and> views s' = views s
    \<and> mq_fresh s' = mq_fresh s"
proof -
  from v obtain q where q: "mqs s p = Some q" by (auto simp: views_eq_Some)
  have "view (snd (mq_overload q)) = view q \<and> q_next (snd (mq_overload q)) = q_next q
      \<and> ring_inv (snd (mq_overload q))"
    using gq_inv_ring [OF inv q] by (simp add: mq_overload_def view_def)
  then show ?thesis using gq_inv_put [OF inv q] q fun_upd_view_idem [OF q]
    by (auto simp: skynet_mq_overload_def mq_get_def split_beta)
qed

lemma skynet_mq_length_correct:
  "gq_inv s xs \<Longrightarrow> views s p = Some v \<Longrightarrow> skynet_mq_length p s = Some (length (v_msgs v))"
  by (auto simp: skynet_mq_length_def mq_get_def views_eq_Some)


section \<open>Scheduling: every queue has one keeper, no message is forgotten\<close>

text \<open>
  Worker threads (and the thread that creates a service) hold at most one queue each. The
  rules are the calls of \<^verbatim>\<open>skynet_server.c\<close> on the queues, interleaved in any order; each
  call is atomic because it runs under the spin locks. The conditions on \<^verbatim>\<open>release\<close> are what
  the reference count of the service gives: a message is pushed, and an empty queue given
  up, only by a thread with a reference to a service that has not been deleted.
\<close>

record sched =
  store :: mq_store
  worker :: "nat \<rightharpoonup> nat"

inductive sched_step :: "sched \<Rightarrow> sched \<Rightarrow> bool" where
  create: "worker S w = None \<Longrightarrow> skynet_mq_create h (store S) = (p, s') \<Longrightarrow>
     sched_step S \<lparr>store = s', worker = (worker S)(w \<mapsto> p)\<rparr>"
| push: "views (store S) p = Some v \<Longrightarrow> \<not> v_release v \<Longrightarrow>
     skynet_mq_push p m (store S) = Some s' \<Longrightarrow> sched_step S \<lparr>store = s', worker = worker S\<rparr>"
| take: "worker S w = None \<Longrightarrow> skynet_globalmq_pop (store S) = Some (Some p, s') \<Longrightarrow>
     sched_step S \<lparr>store = s', worker = (worker S)(w \<mapsto> p)\<rparr>"
| pop: "worker S w = Some p \<Longrightarrow> skynet_mq_pop p (store S) = Some (Some m, s') \<Longrightarrow>
     sched_step S \<lparr>store = s', worker = worker S\<rparr>"
| give_up: "worker S w = Some p \<Longrightarrow> views (store S) p = Some v \<Longrightarrow> \<not> v_release v \<Longrightarrow>
     skynet_mq_pop p (store S) = Some (None, s') \<Longrightarrow>
     sched_step S \<lparr>store = s', worker = (worker S)(w := None)\<rparr>"
| put_back: "worker S w = Some p \<Longrightarrow> skynet_globalmq_push p (store S) = Some s' \<Longrightarrow>
     sched_step S \<lparr>store = s', worker = (worker S)(w := None)\<rparr>"
| mark: "skynet_mq_mark_release p (store S) = Some s' \<Longrightarrow>
     sched_step S \<lparr>store = s', worker = worker S\<rparr>"
| drop: "worker S w = Some p \<Longrightarrow> views (store S) p = Some v \<Longrightarrow> v_release v \<Longrightarrow>
     skynet_mq_pop p (store S) = Some (None, s1) \<Longrightarrow> mq_free p s1 = Some s' \<Longrightarrow>
     sched_step S \<lparr>store = s', worker = (worker S)(w := None)\<rparr>"

inductive sched_reachable :: "sched \<Rightarrow> bool" where
  start: "sched_reachable \<lparr>store = skynet_mq_init, worker = Map.empty\<rparr>"
| step: "sched_reachable S \<Longrightarrow> sched_step S S' \<Longrightarrow> sched_reachable S'"

text \<open>
  \<open>kept\<close> is the link between the flags of a queue and its keeper: a queue is flagged when
  and only when it waits in the global queue or is held by a worker, and a queue with
  messages is flagged.
\<close>

definition kept :: "nat set \<Rightarrow> nat \<Rightarrow> queue_view \<Rightarrow> bool" where
  "kept K p v \<longleftrightarrow> (v_in_global v \<or> v_release v \<longleftrightarrow> p \<in> K) \<and> (v_msgs v \<noteq> [] \<longrightarrow> v_in_global v)"

text \<open>No queue is held by two workers.\<close>

definition one_each :: "(nat \<rightharpoonup> nat) \<Rightarrow> bool" where
  "one_each wk \<longleftrightarrow> (\<forall>w w' p. wk w = Some p \<longrightarrow> wk w' = Some p \<longrightarrow> w = w')"

definition sched_inv :: "nat list \<Rightarrow> sched \<Rightarrow> bool" where
  "sched_inv xs S \<longleftrightarrow> gq_inv (store S) xs
     \<and> ran (worker S) \<subseteq> dom (views (store S)) - set xs
     \<and> one_each (worker S)
     \<and> (\<forall>p v. views (store S) p = Some v \<longrightarrow> kept (set xs \<union> ran (worker S)) p v)"

lemma sched_invD:
  assumes "sched_inv xs S"
  shows "gq_inv (store S) xs"
    and "worker S w = Some p \<Longrightarrow> p \<notin> set xs \<and> (\<exists>v. views (store S) p = Some v)"
    and "worker S w = Some p \<Longrightarrow> worker S w' = Some p \<Longrightarrow> w = w'"
    and "views (store S) p = Some v \<Longrightarrow> kept (set xs \<union> ran (worker S)) p v"
  using assms by (auto simp: sched_inv_def ran_def subset_iff one_each_def dom_def)

lemma ran_fun_upd_None:
  assumes "one_each m" "m w = Some p"
  shows "ran (m(w := None)) = ran m - {p}"
proof (intro equalityI subsetI)
  fix x assume "x \<in> ran (m(w := None))"
  then obtain a where a: "a \<noteq> w" "m a = Some x" by (auto simp: ran_def split: if_splits)
  with assms have "x \<noteq> p" by (auto simp: one_each_def)
  with a show "x \<in> ran m - {p}" by (auto simp: ran_def)
next
  fix x assume "x \<in> ran m - {p}"
  then obtain a where a: "m a = Some x" "x \<noteq> p" by (auto simp: ran_def)
  with assms(2) have "a \<noteq> w" by auto
  with a show "x \<in> ran (m(w := None))" by (auto simp: ran_def)
qed

lemma one_each_upd_Some: "one_each m \<Longrightarrow> p \<notin> ran m \<Longrightarrow> one_each (m(w \<mapsto> p))"
  by (auto simp: one_each_def ran_def)

lemma one_each_upd_None: "one_each m \<Longrightarrow> one_each (m(w := None))"
  by (auto simp: one_each_def)

lemma ran_upd_Some: "m w = None \<Longrightarrow> ran (m(w \<mapsto> p)) = insert p (ran m)"
  by simp

lemmas worker_simps = ran_fun_upd_None one_each_upd_Some one_each_upd_None ran_upd_Some

lemma sched_step_inv:
  assumes "sched_step S S'" and "sched_inv xs S"
  shows "\<exists>xs'. sched_inv xs' S'"
  using assms
proof (induction rule: sched_step.induct)
  case (create S w h p s')
  then have "gq_inv (store S) xs" by (simp add: sched_inv_def)
  from skynet_mq_create_correct [OF this, of h] create(2)
  have s': "gq_inv s' xs" "views (store S) p = None" "p \<notin> set xs"
    "views s' = (views (store S))(p \<mapsto> \<lparr>v_in_global = True, v_release = False, v_handle = h, v_msgs = []\<rparr>)"
    by auto
  have "p \<notin> ran (worker S)" using create(3) s'(2) by (auto simp: sched_inv_def)
  then show ?case using create s'
    by (intro exI [of _ xs]) (auto simp: sched_inv_def kept_def worker_simps)
next
  case (push S p v m s')
  then have inv: "gq_inv (store S) xs" by (simp add: sched_inv_def)
  have k: "kept (set xs \<union> ran (worker S)) p v" using push by (simp add: sched_inv_def)
  with skynet_mq_push_correct [OF inv push(1), of m] push show ?case
    by (intro exI [of _ "if v_in_global v then xs else xs @ [p]"])
       (auto simp: sched_inv_def kept_def)
next
  case (take S w p s')
  then have inv: "gq_inv (store S) xs" by (simp add: sched_inv_def)
  with take(2) obtain ys where xs: "xs = p # ys"
    using skynet_globalmq_pop_empty skynet_globalmq_pop_Cons by (cases xs) fastforce+
  with skynet_globalmq_pop_Cons [of "store S" p ys] inv take
  have "gq_inv s' ys" "views s' = views (store S)" by auto
  moreover have "p \<notin> set ys" "p \<in> dom (views (store S))"
    using inv xs by (auto simp: gq_inv_def views_def)
  moreover have "p \<notin> ran (worker S)" using take(3) xs by (auto simp: sched_inv_def)
  ultimately show ?case using take xs
    by (intro exI [of _ ys]) (auto simp: sched_inv_def worker_simps kept_def)
next
  case (pop S w p m s')
  then obtain v where v: "views (store S) p = Some v" using sched_invD(2) by blast
  have k: "kept (set xs \<union> ran (worker S)) p v" using pop v by (simp add: sched_inv_def)
  from skynet_mq_pop_correct [OF sched_invD(1) [OF pop(3)] v] pop k show ?case
    by (intro exI [of _ xs]) (auto simp: sched_inv_def kept_def split: list.splits)
next
  case (give_up S w p v s')
  have k: "kept (set xs \<union> ran (worker S)) p v" using give_up by (simp add: sched_inv_def)
  have p: "p \<notin> set xs" using sched_invD(2) [OF give_up(5,1)] by simp
  from skynet_mq_pop_correct [OF sched_invD(1) [OF give_up(5)] give_up(2)] give_up k p show ?case
    by (intro exI [of _ xs]) (auto simp: sched_inv_def kept_def worker_simps split: list.splits)
next
  case (put_back S w p s')
  then obtain v where v: "views (store S) p = Some v" and p: "p \<notin> set xs"
    using sched_invD(2) by blast
  from v obtain q where "mqs (store S) p = Some q" by (auto simp: views_eq_Some)
  note pushed = skynet_globalmq_push_correct [OF sched_invD(1) [OF put_back(3)] this p]
  have "p \<in> ran (worker S)" using put_back(1) by (auto simp: ran_def)
  with pushed put_back p show ?case
    by (intro exI [of _ "xs @ [p]"]) (auto simp: sched_inv_def worker_simps kept_def)
next
  case (mark p S s')
  then obtain v where v: "views (store S) p = Some v" "\<not> v_release v"
    by (auto simp: skynet_mq_mark_release_def mq_get_def views_def bind_eq_Some_conv)
  have k: "kept (set xs \<union> ran (worker S)) p v" using mark v by (simp add: sched_inv_def)
  with skynet_mq_mark_release_correct [OF sched_invD(1) [OF mark(2)] v] mark v show ?case
    by (intro exI [of _ "if v_in_global v then xs else xs @ [p]"])
       (auto simp: sched_inv_def kept_def)
next
  case (drop S w p v s1 s')
  have p: "p \<notin> set xs" using sched_invD(2) [OF drop(6,1)] by simp
  from skynet_mq_pop_correct [OF sched_invD(1) [OF drop(6)] drop(2)] drop(4)
  obtain v1 where "gq_inv s1 xs" "views s1 = (views (store S))(p \<mapsto> v1)" by auto
  with mq_free_correct [of s1 xs p] p drop(5)
  have "gq_inv s' xs" "views s' = (views (store S))(p := None)" by auto
  then show ?case using drop p
    by (intro exI [of _ xs]) (auto simp: sched_inv_def kept_def worker_simps)
qed

lemma sched_reachable_inv: "sched_reachable S \<Longrightarrow> \<exists>xs. sched_inv xs S"
proof (induction rule: sched_reachable.induct)
  case start
  show ?case
    by (intro exI [of _ "[]"])
       (simp add: sched_inv_def inv_intros, simp add: views_def skynet_mq_init_def one_each_def)
next
  case (step S S')
  then show ?case using sched_step_inv by blast
qed


section \<open>Properties\<close>

text \<open>
  Property C1. No lost wake-up: whatever the interleaving of pushes, pops, service creation
  and release, a live queue with a message in it is waiting in the global queue or is held
  by a worker, so its messages will be looked at.
\<close>

theorem no_lost_wakeup:
  assumes "sched_reachable S" and "views (store S) p = Some v" and "v_msgs v \<noteq> []"
  shows "(\<exists>xs. chain (mqs (store S)) (gq_head (store S)) xs \<and> p \<in> set xs)
    \<or> (\<exists>w. worker S w = Some p)"
proof -
  from sched_reachable_inv [OF assms(1)] obtain xs where inv: "sched_inv xs S" ..
  have "kept (set xs \<union> ran (worker S)) p v" using sched_invD(4) [OF inv assms(2)] .
  with assms(3) have "p \<in> set xs \<union> ran (worker S)" by (auto simp: kept_def)
  moreover have "chain (mqs (store S)) (gq_head (store S)) xs"
    using sched_invD(1) [OF inv] by (simp add: gq_inv_def)
  ultimately show ?thesis by (auto simp: ran_def)
qed

definition demo_message :: skynet_message where
  "demo_message = \<lparr>msg_source = 1, msg_session = 7, msg_data = None, msg_sz = 0\<rparr>"

text \<open>A run: worker 0 creates the queue of service 1 and a message is pushed to it.\<close>

lemma demo_created:
  "sched_reachable \<lparr>store = snd (skynet_mq_create 1 skynet_mq_init), worker = [0 \<mapsto> 0]\<rparr>"
proof -
  have "sched_step \<lparr>store = skynet_mq_init, worker = Map.empty\<rparr>
     \<lparr>store = snd (skynet_mq_create 1 skynet_mq_init), worker = [0 \<mapsto> 0]\<rparr>"
    using sched_step.create [of "\<lparr>store = skynet_mq_init, worker = Map.empty\<rparr>" 0 1 0]
    by (simp add: skynet_mq_create_def skynet_mq_init_def)
  then show ?thesis by (rule sched_reachable.step [OF sched_reachable.start])
qed

definition demo_sched :: sched where
  "demo_sched = \<lparr>store = the (skynet_mq_push 0 demo_message (snd (skynet_mq_create 1 skynet_mq_init))),
                 worker = [0 \<mapsto> 0]\<rparr>"

lemma demo_created_views:
  "gq_inv (snd (skynet_mq_create 1 skynet_mq_init)) []"
  "views (snd (skynet_mq_create 1 skynet_mq_init)) 0
     = Some \<lparr>v_in_global = True, v_release = False, v_handle = 1, v_msgs = []\<rparr>"
  using skynet_mq_create_correct [OF skynet_mq_init_inv, of 1] by (auto simp: skynet_mq_init_def)

lemma demo_sched_facts:
  "sched_reachable demo_sched"
  "views (store demo_sched) 0
     = Some \<lparr>v_in_global = True, v_release = False, v_handle = 1, v_msgs = [demo_message]\<rparr>"
proof -
  let ?s = "snd (skynet_mq_create 1 skynet_mq_init)"
  from skynet_mq_push_correct [OF demo_created_views, of demo_message]
  obtain s' where s': "skynet_mq_push 0 demo_message ?s = Some s'"
    "views s' 0 = Some \<lparr>v_in_global = True, v_release = False, v_handle = 1, v_msgs = [demo_message]\<rparr>"
    by auto
  then show "views (store demo_sched) 0
     = Some \<lparr>v_in_global = True, v_release = False, v_handle = 1, v_msgs = [demo_message]\<rparr>"
    by (simp add: demo_sched_def)
  have "sched_step \<lparr>store = ?s, worker = [0 \<mapsto> 0]\<rparr> demo_sched"
    using sched_step.push [of "\<lparr>store = ?s, worker = [0 \<mapsto> 0]\<rparr>" 0] demo_created_views(2) s'(1)
    by (simp add: demo_sched_def)
  then show "sched_reachable demo_sched" by (rule sched_reachable.step [OF demo_created])
qed

theorem no_lost_wakeup_witness:
  "sched_reachable demo_sched \<and>
   ((\<exists>xs. chain (mqs (store demo_sched)) (gq_head (store demo_sched)) xs \<and> 0 \<in> set xs)
    \<or> (\<exists>w. worker demo_sched w = Some 0))"
  using no_lost_wakeup [OF demo_sched_facts] demo_sched_facts(1) by simp

text \<open>
  Property C7. One worker at a time: two different workers never hold the same queue, and a
  queue that waits in the global queue is there once and held by nobody. This is what makes
  a service process its messages sequentially.
\<close>

theorem single_keeper:
  assumes "sched_reachable S"
  shows "\<exists>xs. chain (mqs (store S)) (gq_head (store S)) xs \<and> distinct xs \<and> set xs \<inter> ran (worker S) = {}
    \<and> (\<forall>w w' p. worker S w = Some p \<longrightarrow> worker S w' = Some p \<longrightarrow> w = w')"
proof -
  from sched_reachable_inv [OF assms] obtain xs where inv: "sched_inv xs S" ..
  then have "set xs \<inter> ran (worker S) = {}" by (auto simp: sched_inv_def)
  moreover have "chain (mqs (store S)) (gq_head (store S)) xs \<and> distinct xs"
    using sched_invD(1) [OF inv] by (simp add: gq_inv_def)
  ultimately show ?thesis using sched_invD(3) [OF inv] by blast
qed

theorem single_keeper_witness:
  "\<exists>xs. chain (mqs (store demo_sched)) (gq_head (store demo_sched)) xs \<and> distinct xs
    \<and> set xs \<inter> ran (worker demo_sched) = {}"
  using single_keeper [OF demo_sched_facts(1)] by blast

text \<open>
  Property C13. A message queue is FIFO and loses nothing, whatever its head and tail
  positions: after any list of pushes (the ring doubling as often as needed), popping as
  often gives back what the queue held first and then the pushed messages, in order.
\<close>

theorem mq_fifo:
  assumes "ring_inv q"
  shows "\<exists>q1 q2. ring.put_all ms q = Some q1 \<and>
    ring.get_n (length (mq_list q) + length ms) q1 = Some (mq_list q @ ms, q2) \<and> mq_list q2 = []"
proof -
  obtain q1 where q1: "ring.put_all ms q = Some q1" "ring_inv q1" "mq_list q1 = mq_list q @ ms"
    using ring.put_all_contents [OF assms, of ms] by blast
  from ring.get_n_contents [OF q1(2), of "length (mq_list q) + length ms"] q1 show ?thesis by auto
qed

theorem mq_fifo_witness:
  "\<exists>q1 q2. ring.put_all (replicate 100 demo_message) (new_queue 5) = Some q1 \<and>
    ring.get_n 100 q1 = Some (replicate 100 demo_message, q2) \<and> mq_list q2 = []"
  using mq_fifo [OF new_queue_ring [of 5], of "replicate 100 demo_message"]
  by (simp add: mq_list_new_queue)

text \<open>
  Property C16. The calls of the scheduler never fail an assertion: on a live queue of a
  reachable state \<^verbatim>\<open>skynet_mq_push\<close> returns, appends the message, flags the queue and leaves
  every other queue as it was; in particular \<^verbatim>\<open>assert(queue->next == NULL)\<close> holds when an
  idle queue enters the global queue.
\<close>

theorem mq_push_total:
  assumes "sched_reachable S" and "views (store S) p = Some v" and "\<not> v_release v"
  shows "\<exists>s'. skynet_mq_push p m (store S) = Some s'
    \<and> views s' = (views (store S))(p \<mapsto> v\<lparr>v_in_global := True, v_msgs := v_msgs v @ [m]\<rparr>)"
proof -
  from sched_reachable_inv [OF assms(1)] obtain xs where inv: "sched_inv xs S" ..
  have "kept (set xs \<union> ran (worker S)) p v" using sched_invD(4) [OF inv assms(2)] .
  with assms(3) have "\<not> v_in_global v \<Longrightarrow> p \<notin> set xs" by (auto simp: kept_def)
  from skynet_mq_push_correct [OF sched_invD(1) [OF inv] assms(2) this] show ?thesis by blast
qed

theorem mq_push_total_witness:
  "\<exists>s'. skynet_mq_push 0 demo_message (store demo_sched) = Some s'
    \<and> map_option v_msgs (views s' 0) = Some [demo_message, demo_message]"
  using mq_push_total [OF demo_sched_facts, of demo_message] by auto

end
