(* ===== verification/Locks.thy ===== *)
theory Locks
  imports Prelude
begin

text \<open>
  \<^verbatim>\<open>skynet/skynet-src/spinlock.h\<close> and \<^verbatim>\<open>rwlock.h\<close> (the variants built on the
  \<^verbatim>\<open>__sync\<close> primitives, which are used unless \<^verbatim>\<open>USE_PTHREAD_LOCK\<close> is defined): any number of
  threads, each at a point of the locking code, and the lock words. One step is one atomic
  access of one thread, so every interleaving of the accesses is a run.
\<close>

section \<open>The spin lock\<close>

text \<open>
  A thread is outside, spinning in \<^verbatim>\<open>spinlock_lock\<close> or past it.
\<close>

datatype spin_pc = SOut | SSpin | SIn

definition spinlock_init :: bool where
  "spinlock_init = False"

text \<open>\<^verbatim>\<open>__sync_lock_test_and_set(&lock->lock, 1)\<close>: the old value and the new word.\<close>

definition test_and_set :: "bool \<Rightarrow> bool \<times> bool" where
  "test_and_set w = (w, True)"

text \<open>One turn of the loop of \<^verbatim>\<open>spinlock_lock\<close>.\<close>

definition spinlock_lock :: "bool \<Rightarrow> spin_pc \<times> bool" where
  "spinlock_lock w = (let (old, w1) = test_and_set w in (if old then SSpin else SIn, w1))"

text \<open>\<^verbatim>\<open>spinlock_trylock\<close>: whether the lock was taken, and the word.\<close>

definition spinlock_trylock :: "bool \<Rightarrow> bool \<times> bool" where
  "spinlock_trylock w = (let (old, w1) = test_and_set w in (\<not> old, w1))"

definition spinlock_unlock :: "bool \<Rightarrow> bool" where
  "spinlock_unlock w = False"

inductive spin_step :: "(nat \<Rightarrow> spin_pc) \<times> bool \<Rightarrow> (nat \<Rightarrow> spin_pc) \<times> bool \<Rightarrow> bool" where
  enter: "pcs t = SOut \<Longrightarrow> spin_step (pcs, w) (pcs(t := SSpin), w)"
| lock: "pcs t = SSpin \<Longrightarrow> spinlock_lock w = (c, w') \<Longrightarrow> spin_step (pcs, w) (pcs(t := c), w')"
| trylock: "pcs t = SOut \<Longrightarrow> spinlock_trylock w = (ok, w') \<Longrightarrow>
     spin_step (pcs, w) (pcs(t := if ok then SIn else SOut), w')"
| unlock: "pcs t = SIn \<Longrightarrow> spin_step (pcs, w) (pcs(t := SOut), spinlock_unlock w)"

text \<open>A lock word is owned by the one thread of a set when it is set, and by none otherwise.\<close>

definition owned_by :: "bool \<Rightarrow> nat set \<Rightarrow> bool" where
  "owned_by w ts \<longleftrightarrow> (if w then \<exists>t. ts = {t} else ts = {})"

lemma owned_by_simps [simp]:
  "owned_by False ts \<longleftrightarrow> ts = {}"
  "owned_by True (insert t ts) \<longleftrightarrow> ts \<subseteq> {t}"
  by (auto simp: owned_by_def)

lemma owned_by_remove: "owned_by w ts \<Longrightarrow> t \<in> ts \<Longrightarrow> ts - {t} = {}"
  by (auto simp: owned_by_def split: if_splits)

lemma owned_by_eq: "owned_by w ts \<Longrightarrow> t \<in> ts \<Longrightarrow> u \<in> ts \<Longrightarrow> t = u"
  by (auto simp: owned_by_def split: if_splits)

lemma owned_by_set: "owned_by w ts \<Longrightarrow> t \<in> ts \<Longrightarrow> w"
  by (auto simp: owned_by_def split: if_splits)

definition inside :: "(nat \<Rightarrow> spin_pc) \<Rightarrow> nat set" where
  "inside pcs = {t. pcs t = SIn}"

lemma inside_upd [simp]:
  "inside (pcs(t := c)) = (if c = SIn then insert t (inside pcs) else inside pcs - {t})"
  by (auto simp: inside_def)

definition spin_inv :: "(nat \<Rightarrow> spin_pc) \<times> bool \<Rightarrow> bool" where
  "spin_inv = (\<lambda>(pcs, w). owned_by w (inside pcs))"

lemma spin_step_inv: "spin_step s s' \<Longrightarrow> spin_inv s \<Longrightarrow> spin_inv s'"
proof (induction rule: spin_step.induct)
  case (unlock pcs t w)
  then have "inside pcs - {t} = {}"
    by (intro owned_by_remove [of w]) (auto simp: spin_inv_def inside_def)
  then show ?case by (simp add: spin_inv_def spinlock_unlock_def)
next
  case (enter pcs t w)
  then have "t \<notin> inside pcs" by (simp add: inside_def)
  with enter show ?case by (simp add: spin_inv_def)
next
  case (lock pcs t w c w')
  then have "t \<notin> inside pcs" by (simp add: inside_def)
  with lock show ?case
    by (auto simp: spin_inv_def spinlock_lock_def test_and_set_def split: if_splits)
next
  case (trylock pcs t w ok w')
  then have "t \<notin> inside pcs" by (simp add: inside_def)
  with trylock show ?case
    by (auto simp: spin_inv_def spinlock_trylock_def test_and_set_def split: if_splits)
qed

inductive spin_reachable :: "(nat \<Rightarrow> spin_pc) \<times> bool \<Rightarrow> bool" where
  start: "spin_reachable (\<lambda>_. SOut, spinlock_init)"
| step: "spin_reachable s \<Longrightarrow> spin_step s s' \<Longrightarrow> spin_reachable s'"

lemma spin_reachable_inv: "spin_reachable s \<Longrightarrow> spin_inv s"
proof (induction rule: spin_reachable.induct)
  case start
  show ?case by (simp add: spin_inv_def inside_def spinlock_init_def)
qed (rule spin_step_inv)

section \<open>The read/write lock\<close>

text \<open>The program points of \<^verbatim>\<open>rwlock_rlock\<close>, \<^verbatim>\<open>rwlock_wlock\<close> and of the sections they guard.\<close>

datatype rw_pc =
    Idle
  | RWait    \<comment> \<open>in \<^verbatim>\<open>while(lock->write)\<close>\<close>
  | RInc     \<comment> \<open>before \<^verbatim>\<open>__sync_add_and_fetch(&lock->read,1)\<close>\<close>
  | RCheck   \<comment> \<open>before \<^verbatim>\<open>if (lock->write)\<close>\<close>
  | RBack    \<comment> \<open>before \<^verbatim>\<open>__sync_sub_and_fetch(&lock->read,1)\<close> of the failed attempt\<close>
  | Reading
  | WSet     \<comment> \<open>in \<^verbatim>\<open>while (__sync_lock_test_and_set(&lock->write,1))\<close>\<close>
  | WDrain   \<comment> \<open>in \<^verbatim>\<open>while(lock->read)\<close>\<close>
  | Writing

record rwlock =
  rw_write :: bool
  rw_read :: int

definition rwlock_init :: rwlock where
  "rwlock_init = \<lparr>rw_write = False, rw_read = 0\<rparr>"

text \<open>The next atomic access of a thread inside \<^verbatim>\<open>rwlock_rlock\<close>.\<close>

fun rwlock_rlock :: "rw_pc \<Rightarrow> rwlock \<Rightarrow> rw_pc \<times> rwlock" where
  "rwlock_rlock RWait l = (if rw_write l then (RWait, l) else (RInc, l))"
| "rwlock_rlock RInc l = (RCheck, l\<lparr>rw_read := rw_read l + 1\<rparr>)"
| "rwlock_rlock RCheck l = (if rw_write l then (RBack, l) else (Reading, l))"
| "rwlock_rlock RBack l = (RWait, l\<lparr>rw_read := rw_read l - 1\<rparr>)"
| "rwlock_rlock c l = (c, l)"

text \<open>The next atomic access of a thread inside \<^verbatim>\<open>rwlock_wlock\<close>.\<close>

fun rwlock_wlock :: "rw_pc \<Rightarrow> rwlock \<Rightarrow> rw_pc \<times> rwlock" where
  "rwlock_wlock WSet l =
     (let (old, w) = test_and_set (rw_write l)
      in (if old then WSet else WDrain, l\<lparr>rw_write := w\<rparr>))"
| "rwlock_wlock WDrain l = (if rw_read l \<noteq> 0 then (WDrain, l) else (Writing, l))"
| "rwlock_wlock c l = (c, l)"

definition rwlock_wunlock :: "rwlock \<Rightarrow> rwlock" where
  "rwlock_wunlock l = l\<lparr>rw_write := False\<rparr>"

definition rwlock_runlock :: "rwlock \<Rightarrow> rwlock" where
  "rwlock_runlock l = l\<lparr>rw_read := rw_read l - 1\<rparr>"

type_synonym rw_state = "(nat \<Rightarrow> rw_pc) \<times> rwlock"

definition reader_pcs :: "rw_pc set" where
  "reader_pcs = {RWait, RInc, RCheck, RBack}"

inductive rw_step :: "rw_state \<Rightarrow> rw_state \<Rightarrow> bool" where
  start_read: "pcs t = Idle \<Longrightarrow> rw_step (pcs, l) (pcs(t := RWait), l)"
| start_write: "pcs t = Idle \<Longrightarrow> rw_step (pcs, l) (pcs(t := WSet), l)"
| rlock: "pcs t \<in> reader_pcs \<Longrightarrow> rwlock_rlock (pcs t) l = (c, l') \<Longrightarrow> rw_step (pcs, l) (pcs(t := c), l')"
| wlock: "pcs t \<in> {WSet, WDrain} \<Longrightarrow> rwlock_wlock (pcs t) l = (c, l') \<Longrightarrow> rw_step (pcs, l) (pcs(t := c), l')"
| runlock: "pcs t = Reading \<Longrightarrow> rw_step (pcs, l) (pcs(t := Idle), rwlock_runlock l)"
| wunlock: "pcs t = Writing \<Longrightarrow> rw_step (pcs, l) (pcs(t := Idle), rwlock_wunlock l)"

inductive rw_reachable :: "rw_state \<Rightarrow> bool" where
  start: "rw_reachable (\<lambda>_. Idle, rwlock_init)"
| step: "rw_reachable s \<Longrightarrow> rw_step s s' \<Longrightarrow> rw_reachable s'"

text \<open>
  The invariant: the read counter counts the threads that have incremented it, the write
  word is set exactly while one thread owns it, and nobody reads while a thread writes.
\<close>

definition counted :: "(nat \<Rightarrow> rw_pc) \<Rightarrow> nat set" where
  "counted pcs = {t. pcs t \<in> {RCheck, RBack, Reading}}"

definition owners :: "(nat \<Rightarrow> rw_pc) \<Rightarrow> nat set" where
  "owners pcs = {t. pcs t \<in> {WDrain, Writing}}"

definition rw_inv :: "rw_state \<Rightarrow> bool" where
  "rw_inv = (\<lambda>(pcs, l). finite (counted pcs) \<and> rw_read l = int (card (counted pcs))
     \<and> owned_by (rw_write l) (owners pcs)
     \<and> (\<forall>t u. pcs t = Writing \<longrightarrow> pcs u \<noteq> Reading))"

lemma counted_upd [simp]:
  "counted (pcs(t := c)) = (if c \<in> {RCheck, RBack, Reading} then insert t (counted pcs)
                            else counted pcs - {t})"
  by (auto simp: counted_def)

lemma owners_upd [simp]:
  "owners (pcs(t := c)) = (if c \<in> {WDrain, Writing} then insert t (owners pcs) else owners pcs - {t})"
  by (auto simp: owners_def)

lemma mem_counted: "t \<in> counted pcs \<longleftrightarrow> pcs t \<in> {RCheck, RBack, Reading}"
  by (simp add: counted_def)

lemma mem_owners: "t \<in> owners pcs \<longleftrightarrow> pcs t \<in> {WDrain, Writing}"
  by (simp add: owners_def)

lemma card_counted_remove:
  "finite (counted pcs) \<Longrightarrow> t \<in> counted pcs \<Longrightarrow>
   int (card (counted pcs) - Suc 0) = int (card (counted pcs)) - 1"
  using card_gt_0_iff [of "counted pcs"] by (auto simp: of_nat_diff)

lemma rw_inv_Idle:
  assumes "rw_inv (pcs, l)" "pcs t = Idle" "c = RWait \<or> c = WSet"
  shows "rw_inv (pcs(t := c), l)"
  using assms by (auto simp: rw_inv_def mem_counted mem_owners)

lemma rw_inv_rlock:
  assumes inv: "rw_inv (pcs, l)" and t: "pcs t \<in> reader_pcs" and eq: "rwlock_rlock (pcs t) l = (c, l')"
  shows "rw_inv (pcs(t := c), l')"
proof -
  have no: "t \<notin> owners pcs" using t by (auto simp: mem_owners reader_pcs_def)
  have w: "pcs u = Writing \<Longrightarrow> rw_write l" for u
    using inv owned_by_set [of "rw_write l" "owners pcs" u] by (auto simp: rw_inv_def mem_owners)
  from t consider "pcs t = RWait" | "pcs t = RInc" | "pcs t = RCheck" | "pcs t = RBack"
    by (auto simp: reader_pcs_def)
  then show ?thesis
  proof cases
    case 1
    then show ?thesis using inv eq no by (auto simp: rw_inv_def mem_counted split: if_splits)
  next
    case 2
    then show ?thesis using inv eq no by (auto simp: rw_inv_def mem_counted)
  next
    case 3
    then have "t \<in> counted pcs" by (simp add: mem_counted)
    then show ?thesis using 3 inv eq no w by (auto simp: rw_inv_def insert_absorb split: if_splits)
  next
    case 4
    then have "t \<in> counted pcs" by (simp add: mem_counted)
    then show ?thesis using 4 inv eq no by (auto simp: rw_inv_def card_counted_remove)
  qed
qed

lemma rw_inv_wlock:
  assumes inv: "rw_inv (pcs, l)" and t: "pcs t \<in> {WSet, WDrain}" and eq: "rwlock_wlock (pcs t) l = (c, l')"
  shows "rw_inv (pcs(t := c), l')"
proof -
  have no: "t \<notin> counted pcs" using t by (auto simp: mem_counted)
  show ?thesis
  proof (cases "pcs t = WSet")
    case True
    then have "t \<notin> owners pcs" by (simp add: mem_owners)
    then show ?thesis using True inv eq no
      by (auto simp: rw_inv_def test_and_set_def split: if_splits)
  next
    case False
    then have d: "pcs t = WDrain" using t by simp
    then have o: "insert t (owners pcs) = owners pcs" by (auto simp: mem_owners)
    have "pcs u \<noteq> Reading" if "rw_read l = 0" for u
      using inv that mem_counted [of u pcs] by (auto simp: rw_inv_def)
    then show ?thesis using d o inv eq no by (auto simp: rw_inv_def split: if_splits)
  qed
qed

lemma rw_step_inv: "rw_step s s' \<Longrightarrow> rw_inv s \<Longrightarrow> rw_inv s'"
proof (induction rule: rw_step.induct)
  case (runlock pcs t l)
  then have "t \<in> counted pcs" "t \<notin> owners pcs" by (simp_all add: mem_counted mem_owners)
  with runlock show ?case
    by (auto simp: rw_inv_def rwlock_runlock_def card_counted_remove)
next
  case (wunlock pcs t l)
  then have "owners pcs - {t} = {}"
    by (intro owned_by_remove [of "rw_write l"]) (auto simp: rw_inv_def mem_owners)
  with wunlock show ?case
    by (auto simp: rw_inv_def rwlock_wunlock_def mem_counted)
qed (auto intro: rw_inv_Idle rw_inv_rlock rw_inv_wlock)

lemma rw_reachable_inv: "rw_reachable s \<Longrightarrow> rw_inv s"
proof (induction rule: rw_reachable.induct)
  case start
  show ?case by (simp add: rw_inv_def rwlock_init_def counted_def owners_def)
qed (rule rw_step_inv)


section \<open>Properties\<close>

text \<open>
  Property C17. The read/write lock excludes writers from everybody: in every reachable state
  of any number of threads, a thread in the write section is the only writer and no thread
  is in the read section.
\<close>

theorem rwlock_exclusion:
  assumes "rw_reachable (pcs, l)" and "pcs t = Writing"
  shows "pcs u \<noteq> Reading \<and> (pcs u = Writing \<longrightarrow> u = t)"
proof -
  from rw_reachable_inv [OF assms(1)] have inv: "rw_inv (pcs, l)" .
  then have "t \<in> owners pcs" using assms(2) by (simp add: mem_owners)
  then have "pcs u = Writing \<longrightarrow> u = t"
    using inv owned_by_eq [of "rw_write l" "owners pcs" u t] by (auto simp: rw_inv_def mem_owners)
  then show ?thesis using inv assms(2) by (auto simp: rw_inv_def)
qed

text \<open>A run in which thread 0 takes the lock for writing while thread 1 asks to read.\<close>

definition demo_rw :: rw_state where
  "demo_rw = ((\<lambda>_. Idle)(0 := Writing, 1 := RWait), \<lparr>rw_write = True, rw_read = 0\<rparr>)"

lemma demo_rw_reachable: "rw_reachable demo_rw"
proof -
  let ?i = "\<lambda>_::nat. Idle"
  have "rw_reachable (?i(0 := WSet), rwlock_init)"
    by (rule rw_reachable.step [OF rw_reachable.start], rule rw_step.start_write) simp
  then have "rw_reachable (?i(0 := WDrain), \<lparr>rw_write = True, rw_read = 0\<rparr>)"
    by (rule rw_reachable.step)
       (use rw_step.wlock [of "?i(0 := WSet)" 0 rwlock_init] in \<open>simp add: rwlock_init_def test_and_set_def\<close>)
  then have "rw_reachable (?i(0 := Writing), \<lparr>rw_write = True, rw_read = 0\<rparr>)"
    by (rule rw_reachable.step) (use rw_step.wlock [of "?i(0 := WDrain)" 0] in simp)
  then show ?thesis unfolding demo_rw_def
    by (rule rw_reachable.step) (rule rw_step.start_read, simp)
qed

theorem rwlock_exclusion_witness:
  "rw_reachable demo_rw \<and> fst demo_rw 0 = Writing \<and> fst demo_rw 1 \<noteq> Reading"
  using rwlock_exclusion [of "fst demo_rw" "snd demo_rw" 0 1] demo_rw_reachable
  by (simp add: demo_rw_def)

text \<open>
  The spin lock is held by one thread at a time, taken with
  \<^verbatim>\<open>spinlock_lock\<close> or \<^verbatim>\<open>spinlock_trylock\<close>, and its word is set exactly while it is held.
\<close>

theorem spinlock_exclusion:
  assumes "spin_reachable (pcs, w)"
  shows "(w \<longleftrightarrow> (\<exists>t. pcs t = SIn)) \<and> (\<forall>t u. pcs t = SIn \<longrightarrow> pcs u = SIn \<longrightarrow> t = u)"
proof -
  have own: "owned_by w (inside pcs)" using spin_reachable_inv [OF assms] by (simp add: spin_inv_def)
  then have "w \<longleftrightarrow> inside pcs \<noteq> {}" by (auto simp: owned_by_def)
  then show ?thesis using owned_by_eq [OF own] by (auto simp: inside_def)
qed

theorem spinlock_exclusion_witness:
  "spin_reachable (\<lambda>_. SOut, spinlock_init) \<and> \<not> spinlock_init"
  using spinlock_exclusion [OF spin_reachable.start] spin_reachable.start by auto

end
