(* ===== verification/Timer.thy ===== *)
theory Timer
  imports Mq
begin

text \<open>
  \<^verbatim>\<open>skynet/skynet-src/skynet_timer.c\<close>: the hierarchical timing wheel. A \<^verbatim>\<open>link_list\<close> (a
  head node, a tail pointer and the nodes in between) is the list of its nodes: \<^verbatim>\<open>link\<close>
  appends at the tail, \<^verbatim>\<open>link_clear\<close> empties the list and hands it out. The wheel keeps its
  256 near lists, its 4 times 64 level lists and the 32-bit time, which wraps around. The
  messages of expired timers are returned as a list of pushes; \<open>Server\<close> performs them.
  The clocks are parameters: the reading is an argument of the functions that use it.
\<close>

section \<open>The data\<close>

text \<open>A node with the event stored behind it.\<close>

record timer_node =
  tn_expire :: u32
  tn_handle :: u32
  tn_session :: i32

type_synonym link_list = "timer_node list"

record timer =
  near :: "link_list list"
  tv :: "link_list list list"
  ttime :: u32
  starttime :: u32
  current :: u64
  current_point :: u64

definition PTYPE_RESPONSE :: u64 where
  "PTYPE_RESPONSE = 1"

section \<open>The operations\<close>

definition link_clear :: "link_list \<Rightarrow> link_list \<times> link_list" where
  "link_clear l = (l, [])"

definition link :: "link_list \<Rightarrow> timer_node \<Rightarrow> link_list" where
  "link l node = l @ [node]"

text \<open>The loop of \<^verbatim>\<open>add_node\<close> that looks for the level.\<close>

function add_level :: "nat \<Rightarrow> u32 \<Rightarrow> u32 \<Rightarrow> u32 \<Rightarrow> nat" where
  "add_level i msk time current_time =
     (if i < 3 then
        if (time OR (msk - 1)) = (current_time OR (msk - 1)) then i
        else add_level (i + 1) (push_bit 6 msk) time current_time
      else i)"
  by pat_completeness auto
termination
  by (relation "measure (\<lambda>(i, _). 3 - i)") auto

definition add_node :: "timer \<Rightarrow> timer_node \<Rightarrow> timer option" where
  "add_node T node =
     (let time = tn_expire node; current_time = ttime T in
      if (time OR 255) = (current_time OR 255) then do {
        let idx = unat (time AND 255);
        l \<leftarrow> array_get (near T) idx;
        a \<leftarrow> array_set (near T) idx (link l node);
        Some (T\<lparr>near := a\<rparr>)
      } else do {
        let i = add_level 0 (push_bit 6 256) time current_time;
        let idx = unat (drop_bit (8 + i * 6) time AND 63);
        row \<leftarrow> array_get (tv T) i;
        l \<leftarrow> array_get row idx;
        row' \<leftarrow> array_set row idx (link l node);
        a \<leftarrow> array_set (tv T) i row';
        Some (T\<lparr>tv := a\<rparr>)
      })"

text \<open>\<^verbatim>\<open>time\<close> is a C \<^verbatim>\<open>int\<close>; adding it to the 32-bit clock wraps around.\<close>

definition timer_add :: "timer \<Rightarrow> u32 \<Rightarrow> i32 \<Rightarrow> i32 \<Rightarrow> timer option" where
  "timer_add T handle session time =
     add_node T \<lparr>tn_expire = time + ttime T, tn_handle = handle, tn_session = session\<rparr>"

primrec add_nodes :: "timer_node list \<Rightarrow> timer \<Rightarrow> timer option" where
  "add_nodes [] T = Some T"
| "add_nodes (node # rest) T = do { T1 \<leftarrow> add_node T node; add_nodes rest T1 }"

definition move_list :: "timer \<Rightarrow> nat \<Rightarrow> nat \<Rightarrow> timer option" where
  "move_list T level idx = do {
     row \<leftarrow> array_get (tv T) level;
     l \<leftarrow> array_get row idx;
     let (nodes, cleared) = link_clear l;
     row' \<leftarrow> array_set row idx cleared;
     a \<leftarrow> array_set (tv T) level row';
     add_nodes nodes (T\<lparr>tv := a\<rparr>)
   }"

partial_function (option) shift_loop ::
    "timer \<Rightarrow> u32 \<Rightarrow> u32 \<Rightarrow> u32 \<Rightarrow> nat \<Rightarrow> timer option" where
  "shift_loop T ct msk time i =
     (if ct AND (msk - 1) = 0 then
        if time AND 63 \<noteq> 0 then move_list T i (unat (time AND 63))
        else shift_loop T ct (push_bit 6 msk) (drop_bit 6 time) (i + 1)
      else Some T)"

definition timer_shift :: "timer \<Rightarrow> timer option" where
  "timer_shift T =
     (let ct = ttime T + 1; T1 = T\<lparr>ttime := ct\<rparr> in
      if ct = 0 then move_list T1 3 0
      else shift_loop T1 ct 256 (drop_bit 8 ct) 0)"

text \<open>The message a node stands for, with the handle it is pushed to.\<close>

definition timer_message :: "timer_node \<Rightarrow> u32 \<times> skynet_message" where
  "timer_message n = (tn_handle n,
     \<lparr>msg_source = 0, msg_session = tn_session n, msg_data = None, msg_sz = push_bit 56 PTYPE_RESPONSE\<rparr>)"

definition dispatch_list :: "link_list \<Rightarrow> (u32 \<times> skynet_message) list" where
  "dispatch_list nodes = map timer_message nodes"

text \<open>
  \<^verbatim>\<open>timer_execute\<close>: the list of the current slot is dispatched until it is empty. The nodes
  handed to \<^verbatim>\<open>dispatch_list\<close> are returned, in order.
\<close>

partial_function (option) timer_execute :: "timer \<Rightarrow> (timer \<times> link_list) option" where
  "timer_execute T = do {
     let idx = unat (ttime T AND 255);
     l \<leftarrow> array_get (near T) idx;
     if l \<noteq> [] then do {
       let (nodes, cleared) = link_clear l;
       a \<leftarrow> array_set (near T) idx cleared;
       (T1, more) \<leftarrow> timer_execute (T\<lparr>near := a\<rparr>);
       Some (T1, nodes @ more)
     } else Some (T, [])
   }"

definition timer_update :: "timer \<Rightarrow> (timer \<times> link_list) option" where
  "timer_update T = do {
     (T1, f1) \<leftarrow> timer_execute T;
     T2 \<leftarrow> timer_shift T1;
     (T3, f2) \<leftarrow> timer_execute T2;
     Some (T3, f1 @ f2)
   }"

definition timer_create_timer :: timer where
  "timer_create_timer =
     \<lparr>near = replicate 256 [], tv = replicate 4 (replicate 64 []),
      ttime = 0, starttime = 0, current = 0, current_point = 0\<rparr>"

text \<open>\<^verbatim>\<open>timer_update\<close> called \<open>n\<close> times: the nodes dispatched by each call.\<close>

primrec timer_updates :: "nat \<Rightarrow> timer \<Rightarrow> (timer \<times> link_list list) option" where
  "timer_updates 0 T = Some (T, [])"
| "timer_updates (Suc n) T = do {
     (T1, f) \<leftarrow> timer_update T;
     (T2, fs) \<leftarrow> timer_updates n T1;
     Some (T2, f # fs)
   }"

text \<open>\<open>cp\<close> is what \<^verbatim>\<open>gettime\<close> returns.\<close>

definition skynet_updatetime :: "u64 \<Rightarrow> timer \<Rightarrow> (timer \<times> link_list) option" where
  "skynet_updatetime cp T =
     (if cp < current_point T then Some (T\<lparr>current_point := cp\<rparr>, [])
      else if cp \<noteq> current_point T then do {
        let diff = (ucast (cp - current_point T) :: u32);
        let T1 = T\<lparr>current_point := cp, current := current T + ucast diff\<rparr>;
        (T2, fs) \<leftarrow> timer_updates (unat diff) T1;
        Some (T2, concat fs)
      } else Some (T, []))"

definition skynet_starttime :: "timer \<Rightarrow> u32" where
  "skynet_starttime T = starttime T"

definition skynet_now :: "timer \<Rightarrow> u64" where
  "skynet_now T = current T"

text \<open>\<open>sec\<close> and \<open>cs\<close> are what \<^verbatim>\<open>systime\<close> returns, \<open>cp\<close> what \<^verbatim>\<open>gettime\<close> returns.\<close>

definition skynet_timer_init :: "u32 \<Rightarrow> u32 \<Rightarrow> u64 \<Rightarrow> timer" where
  "skynet_timer_init sec cs cp =
     timer_create_timer\<lparr>starttime := sec, current := ucast cs, current_point := cp\<rparr>"

text \<open>
  \<^verbatim>\<open>systime\<close> and \<^verbatim>\<open>gettime\<close> turn a clock reading (seconds, nanoseconds) into centiseconds.
\<close>

definition systime :: "u64 \<Rightarrow> u64 \<Rightarrow> u32 \<times> u32" where
  "systime tv_sec tv_nsec = (ucast tv_sec, ucast (tv_nsec div 10000000))"

definition gettime :: "u64 \<Rightarrow> u64 \<Rightarrow> u64" where
  "gettime tv_sec tv_nsec = tv_sec * 100 + tv_nsec div 10000000"

section \<open>Where a node belongs\<close>

text \<open>
  The slot of an expiry time \<open>e\<close> seen from the time \<open>t\<close>, on natural numbers: the near list
  when both lie in the same block of 256 ticks, otherwise the level of the smallest
  common block.
\<close>

datatype slot = Near nat | Level nat nat

definition slot_of :: "nat \<Rightarrow> nat \<Rightarrow> slot" where
  "slot_of e t =
     (if e div 256 = t div 256 then Near (e mod 256)
      else if e div 256 div 64 = t div 256 div 64 then Level 0 (e div 256 mod 64)
      else if e div 256 div 64 div 64 = t div 256 div 64 div 64 then Level 1 (e div 256 div 64 mod 64)
      else if e div 256 div 64 div 64 div 64 = t div 256 div 64 div 64 div 64
        then Level 2 (e div 256 div 64 div 64 mod 64)
      else Level 3 (e div 256 div 64 div 64 div 64 mod 64))"

fun slot_list :: "timer \<Rightarrow> slot \<Rightarrow> link_list" where
  "slot_list T (Near k) = near T ! k"
| "slot_list T (Level i k) = tv T ! i ! k"

fun valid_slot :: "slot \<Rightarrow> bool" where
  "valid_slot (Near k) \<longleftrightarrow> k < 256"
| "valid_slot (Level i k) \<longleftrightarrow> i < 4 \<and> k < 64"

definition shaped :: "timer \<Rightarrow> bool" where
  "shaped T \<longleftrightarrow> length (near T) = 256 \<and> length (tv T) = 4 \<and> (\<forall>i < 4. length (tv T ! i) = 64)"

lemma valid_slot_of [simp]: "valid_slot (slot_of e t)"
proof -
  have m: "x mod 64 < (64::nat)" "x mod 256 < (256::nat)" for x by simp_all
  show ?thesis unfolding slot_of_def by (simp only: valid_slot.simps m split: if_split) simp
qed

lemma shaped_row [simp]: "shaped T \<Longrightarrow> i < 4 \<Longrightarrow> length (tv T ! i) = 64"
  by (simp add: shaped_def)

lemma shaped_len [simp]: "shaped T \<Longrightarrow> length (near T) = 256" "shaped T \<Longrightarrow> length (tv T) = 4"
  by (simp_all add: shaped_def del: shaped_row)

text \<open>The word tests of the code are comparisons of blocks.\<close>

lemma mask_numerals:
  "(255 :: u32) = mask 8" "(63 :: u32) = mask 6"
  "push_bit 6 256 - 1 = (mask 14 :: u32)"
  "push_bit 6 (push_bit 6 256) - 1 = (mask 20 :: u32)"
  "push_bit 6 (push_bit 6 (push_bit 6 256)) - 1 = (mask 26 :: u32)"
  by (simp_all add: mask_eq_exp_minus_1 push_bit_eq_mult)

lemma div_blocks:
  "(x :: nat) div 2 ^ 8 = x div 256" "x div 2 ^ 14 = x div 256 div 64"
  "x div 2 ^ 20 = x div 256 div 64 div 64" "x div 2 ^ 26 = x div 256 div 64 div 64 div 64"
  by (simp_all add: div_mult2_eq [symmetric])

declare add_level.simps [simp del]

lemma add_level_eq:
  "add_level 0 (push_bit 6 256) e t =
     (if unat e div 2 ^ 14 = unat t div 2 ^ 14 then 0
      else if unat e div 2 ^ 20 = unat t div 2 ^ 20 then 1
      else if unat e div 2 ^ 26 = unat t div 2 ^ 26 then 2 else 3)"
proof -
  have l3: "add_level 3 m e t = 3" for m by (simp add: add_level.simps)
  have l2: "add_level 2 (push_bit 6 (push_bit 6 (push_bit 6 256))) e t =
      (if unat e div 2 ^ 26 = unat t div 2 ^ 26 then 2 else 3)"
    unfolding add_level.simps [of 2] mask_numerals or_mask_eq_iff by (simp add: l3)
  have l1: "add_level 1 (push_bit 6 (push_bit 6 256)) e t =
      (if unat e div 2 ^ 20 = unat t div 2 ^ 20 then 1
       else add_level 2 (push_bit 6 (push_bit 6 (push_bit 6 256))) e t)"
    unfolding add_level.simps [of 1] mask_numerals or_mask_eq_iff one_add_one by simp
  show ?thesis
    unfolding add_level.simps [of 0] mask_numerals or_mask_eq_iff add_0 l1 l2 by simp
qed

lemma add_level_less: "add_level 0 (push_bit 6 256) e t < 4"
  unfolding add_level_eq by simp

text \<open>The slot in the words of the code.\<close>

lemma slot_of_word:
  "slot_of (unat e) (unat t) =
     (if (e OR 255) = (t OR 255) then Near (unat (e AND 255))
      else let i = add_level 0 (push_bit 6 256) e t in Level i (unat (drop_bit (8 + i * 6) e AND 63)))"
proof (cases "unat e div 2 ^ 8 = unat t div 2 ^ 8")
  case True
  then have "(e OR 255) = (t OR 255)" by (simp only: mask_numerals or_mask_eq_iff)
  moreover have "unat (e AND 255) = unat e mod 256"
    by (simp add: mask_numerals(1) unat_and_mask)
  ultimately show ?thesis using True by (simp add: slot_of_def)
next
  case False
  define i where "i = add_level 0 (push_bit 6 256) e t"
  have ne: "(e OR 255) \<noteq> (t OR 255)" using False by (simp only: mask_numerals or_mask_eq_iff) simp
  have k: "unat (drop_bit (8 + i * 6) e AND 63) = unat e div 2 ^ (8 + i * 6) mod 64"
    by (simp add: mask_numerals(2) unat_and_mask unat_drop_bit)
  have exps: "8 + 0 * 6 = (8::nat)" "8 + 1 * 6 = (14::nat)" "8 + 2 * 6 = (20::nat)" "8 + 3 * 6 = (26::nat)"
    by simp_all
  note i = add_level_eq [of e t, folded i_def, unfolded div_blocks]
  have "slot_of (unat e) (unat t) = Level i (unat e div 2 ^ (8 + i * 6) mod 64)"
  proof -
    consider "i = 0" "unat e div 256 div 64 = unat t div 256 div 64"
      | "i = 1" "unat e div 256 div 64 \<noteq> unat t div 256 div 64"
        "unat e div 256 div 64 div 64 = unat t div 256 div 64 div 64"
      | "i = 2" "unat e div 256 div 64 div 64 \<noteq> unat t div 256 div 64 div 64"
        "unat e div 256 div 64 div 64 div 64 = unat t div 256 div 64 div 64 div 64"
      | "i = 3" "unat e div 256 div 64 div 64 div 64 \<noteq> unat t div 256 div 64 div 64 div 64"
      using i by metis
    then show ?thesis
    proof cases
      case 1
      then show ?thesis using False unfolding slot_of_def 1(1) exps div_blocks
        by (simp only: if_False if_True refl simp_thms)
    next
      case 2
      then show ?thesis using False unfolding slot_of_def 2(1) exps div_blocks
        by (simp only: if_False if_True refl simp_thms)
    next
      case 3
      then have "unat e div 256 div 64 \<noteq> unat t div 256 div 64" by metis
      then show ?thesis using False 3 unfolding slot_of_def 3(1) exps div_blocks
        by (simp only: if_False if_True refl simp_thms)
    next
      case 4
      then have "unat e div 256 div 64 div 64 \<noteq> unat t div 256 div 64 div 64"
        "unat e div 256 div 64 \<noteq> unat t div 256 div 64" by metis+
      then show ?thesis using False 4 unfolding slot_of_def 4(1) exps div_blocks
        by (simp only: if_False if_True refl simp_thms)
    qed
  qed
  then show ?thesis using ne k by (simp only: i_def Let_def if_False)
qed

text \<open>What the lists of a wheel look like after \<open>f\<close> has been applied to the slot \<open>s\<close>.\<close>

definition same_clock :: "timer \<Rightarrow> timer \<Rightarrow> bool" where
  "same_clock T T' \<longleftrightarrow> ttime T' = ttime T \<and> starttime T' = starttime T \<and> current T' = current T
     \<and> current_point T' = current_point T"

lemma same_clock_refl [simp]: "same_clock T T"
  by (simp add: same_clock_def)

lemma same_clock_trans: "same_clock A B \<Longrightarrow> same_clock B C \<Longrightarrow> same_clock A C"
  by (simp add: same_clock_def)

text \<open>\<open>add_node\<close> appends the node to its slot.\<close>

definition append_at :: "slot \<Rightarrow> timer_node \<Rightarrow> timer \<Rightarrow> timer" where
  "append_at s n T = (case s of
       Near k \<Rightarrow> T\<lparr>near := (near T)[k := near T ! k @ [n]]\<rparr>
     | Level i k \<Rightarrow> T\<lparr>tv := (tv T)[i := (tv T ! i)[k := tv T ! i ! k @ [n]]]\<rparr>)"

lemma shaped_upd_row:
  assumes "shaped T" "length row = 64"
  shows "shaped (T\<lparr>tv := (tv T)[i := row]\<rparr>)"
proof -
  have "length ((tv T)[i := row] ! j) = 64" if "j < 4" for j
    using assms that by (cases "i = j") auto
  then show ?thesis using assms(1) by (simp add: shaped_def del: shaped_row shaped_len)
qed

lemma shaped_upd_near: "shaped T \<Longrightarrow> shaped (T\<lparr>near := (near T)[k := l]\<rparr>)"
  by (simp add: shaped_def del: shaped_row shaped_len)

lemma append_at_shaped: "shaped T \<Longrightarrow> valid_slot s \<Longrightarrow> shaped (append_at s n T)"
  by (cases s) (auto simp: append_at_def intro!: shaped_upd_row shaped_upd_near)

lemma append_at_slot_list:
  "shaped T \<Longrightarrow> valid_slot s \<Longrightarrow> valid_slot r \<Longrightarrow>
   slot_list (append_at s n T) r = slot_list T r @ (if r = s then [n] else [])"
  by (cases s; cases r) (auto simp: append_at_def nth_list_update)

lemma append_at_clock [simp]: "same_clock T (append_at s n T)"
  by (cases s) (simp_all add: append_at_def same_clock_def)

lemma add_node_eq:
  assumes "shaped T"
  shows "add_node T n = Some (append_at (slot_of (unat (tn_expire n)) (unat (ttime T))) n T)"
proof (cases "(tn_expire n OR 255) = (ttime T OR 255)")
  case True
  define k where "k = unat (tn_expire n AND 255)"
  have k: "k < 256" by (simp add: k_def mask_numerals(1) unat_and_mask)
  show ?thesis
    unfolding add_node_def slot_of_word Let_def k_def [symmetric]
    using True assms k by (simp add: link_def append_at_def)
next
  case False
  define i where "i = add_level 0 (push_bit 6 256) (tn_expire n) (ttime T)"
  define k where "k = unat (drop_bit (8 + i * 6) (tn_expire n) AND 63)"
  have k: "k < 64" by (simp add: k_def mask_numerals(2) unat_and_mask)
  have i: "i < 4" unfolding i_def by (rule add_level_less)
  show ?thesis
    unfolding add_node_def slot_of_word Let_def i_def [symmetric] k_def [symmetric]
    using False assms k i by (simp add: link_def append_at_def)
qed

lemma add_node_correct:
  assumes "shaped T"
  shows "\<exists>T'. add_node T n = Some T' \<and> shaped T' \<and> same_clock T T'
    \<and> (\<forall>s. valid_slot s \<longrightarrow> slot_list T' s =
          slot_list T s @ (if s = slot_of (unat (tn_expire n)) (unat (ttime T)) then [n] else []))"
  using assms by (simp add: add_node_eq append_at_shaped append_at_slot_list)

lemma add_nodes_correct:
  assumes "shaped T"
  shows "\<exists>T'. add_nodes ns T = Some T' \<and> shaped T' \<and> same_clock T T'
    \<and> (\<forall>s. valid_slot s \<longrightarrow> slot_list T' s =
          slot_list T s @ filter (\<lambda>n. slot_of (unat (tn_expire n)) (unat (ttime T)) = s) ns)"
  using assms
proof (induction ns arbitrary: T)
  case (Cons n ns)
  from add_node_correct [OF Cons.prems, of n] obtain T1
    where T1: "add_node T n = Some T1" "shaped T1" "same_clock T T1"
      "\<forall>s. valid_slot s \<longrightarrow> slot_list T1 s =
          slot_list T s @ (if s = slot_of (unat (tn_expire n)) (unat (ttime T)) then [n] else [])" by blast
  have time: "ttime T1 = ttime T" using T1(3) by (simp add: same_clock_def)
  from Cons.IH [OF T1(2)] obtain T2 where T2: "add_nodes ns T1 = Some T2" "shaped T2" "same_clock T1 T2"
      "\<forall>s. valid_slot s \<longrightarrow> slot_list T2 s = slot_list T1 s
         @ filter (\<lambda>n. slot_of (unat (tn_expire n)) (unat (ttime T)) = s) ns"
    unfolding time by blast
  have "add_nodes (n # ns) T = Some T2" using T1(1) T2(1) by simp
  moreover have "same_clock T T2" using T1(3) T2(3) by (rule same_clock_trans)
  ultimately show ?case using T1(4) T2(2,4) by auto
qed simp

lemma clear_level:
  assumes "shaped T" "i < 4" "k < 64"
  defines "T1 \<equiv> T\<lparr>tv := (tv T)[i := (tv T ! i)[k := []]]\<rparr>"
  shows "shaped T1" and "same_clock T T1"
    and "valid_slot s \<Longrightarrow> slot_list T1 s = (if s = Level i k then [] else slot_list T s)"
proof -
  show "shaped T1" unfolding T1_def using assms by (intro shaped_upd_row) auto
  show "same_clock T T1" by (simp add: T1_def same_clock_def)
  show "valid_slot s \<Longrightarrow> slot_list T1 s = (if s = Level i k then [] else slot_list T s)"
    using assms by (cases s) (auto simp: nth_list_update T1_def)
qed

lemma move_list_correct:
  assumes "shaped T" "i < 4" "k < 64"
  shows "\<exists>T'. move_list T i k = Some T' \<and> shaped T' \<and> same_clock T T'
    \<and> (\<forall>s. valid_slot s \<longrightarrow> slot_list T' s =
          (if s = Level i k then [] else slot_list T s)
          @ filter (\<lambda>n. slot_of (unat (tn_expire n)) (unat (ttime T)) = s) (slot_list T (Level i k)))"
proof -
  let ?T1 = "T\<lparr>tv := (tv T)[i := (tv T ! i)[k := []]]\<rparr>"
  have e1: "move_list T i k = add_nodes (tv T ! i ! k) ?T1"
    using assms by (simp add: move_list_def link_clear_def)
  have time: "ttime ?T1 = ttime T" by simp
  from add_nodes_correct [OF clear_level(1) [OF assms], of "tv T ! i ! k"]
  obtain T2 where T2: "add_nodes (tv T ! i ! k) ?T1 = Some T2" "shaped T2" "same_clock ?T1 T2"
      "\<forall>s. valid_slot s \<longrightarrow> slot_list T2 s = slot_list ?T1 s
         @ filter (\<lambda>n. slot_of (unat (tn_expire n)) (unat (ttime T)) = s) (tv T ! i ! k)"
    unfolding time by blast
  moreover have "same_clock T T2" using clear_level(2) [OF assms] T2(3) by (rule same_clock_trans)
  ultimately show ?thesis using e1 clear_level(3) [OF assms] by auto
qed


section \<open>The clock moves on\<close>

text \<open>The list \<^verbatim>\<open>timer_shift\<close> moves when the clock becomes \<open>t\<close>.\<close>

definition moved :: "nat \<Rightarrow> slot option" where
  "moved t =
     (if t mod 256 \<noteq> 0 then None
      else if t div 256 mod 64 \<noteq> 0 then Some (Level 0 (t div 256 mod 64))
      else if t div 256 div 64 mod 64 \<noteq> 0 then Some (Level 1 (t div 256 div 64 mod 64))
      else if t div 256 div 64 div 64 mod 64 \<noteq> 0 then Some (Level 2 (t div 256 div 64 div 64 mod 64))
      else Some (Level 3 (t div 256 div 64 div 64 div 64 mod 64)))"

text \<open>
  Times as five digits: one of base 256 and four of base 64, the units of the wheel.
\<close>

definition cons_digit :: "nat \<Rightarrow> nat \<Rightarrow> nat \<Rightarrow> nat" where
  "cons_digit b a x = a + b * x"

lemma cons_digit_mod: "a < b \<Longrightarrow> cons_digit b a x mod b = a"
  and cons_digit_div: "a < b \<Longrightarrow> cons_digit b a x div b = x"
  by (simp_all add: cons_digit_def)

lemma cons_digit_less: 
  assumes "a < b" "c < b"
  shows "cons_digit b a x < cons_digit b c y \<longleftrightarrow> x < y \<or> x = y \<and> a < c"
proof -
  have *: "cons_digit b a x < cons_digit b c y" if "x < y" "a < b" for a c x y
  proof -
    have "b * x + b \<le> b * y" using that(1) by (metis Suc_leI mult_Suc_right mult_le_mono2 add.commute)
    then show ?thesis using that(2) by (simp add: cons_digit_def)
  qed
  consider "x < y" | "x = y" | "y < x" by linarith
  then show ?thesis
  proof cases
    case 3
    then show ?thesis using * [of y x c a] assms by auto
  qed (use * [of x y a c] assms in \<open>auto simp: cons_digit_def\<close>)
qed

lemma cons_digit_eq: "a < b \<Longrightarrow> c < b \<Longrightarrow> cons_digit b a x = cons_digit b c y \<longleftrightarrow> a = c \<and> x = y"
  by (metis cons_digit_mod cons_digit_div)

lemma cons_digit_Suc:
  "a < b \<Longrightarrow> Suc (cons_digit b a x) = (if Suc a < b then cons_digit b (Suc a) x else cons_digit b 0 (Suc x))"
  by (auto simp: cons_digit_def)

lemma cons_digit_ex: "0 < b \<Longrightarrow> \<exists>a y. x = cons_digit b a y \<and> a < b \<and> y = x div b"
  by (metis cons_digit_def mod_less_divisor mod_mult_div_eq)

lemma cons_digit_0: "cons_digit b a x = 0 \<longleftrightarrow> a = 0 \<and> (b = 0 \<or> x = 0)"
  by (simp add: cons_digit_def)

lemma cons_digit_bound: "a < b \<Longrightarrow> x < y \<Longrightarrow> cons_digit b a x < b * y"
  using cons_digit_less [of a b 0 x y] by (simp add: cons_digit_def)

lemmas digit_simps = cons_digit_mod cons_digit_div cons_digit_less cons_digit_eq cons_digit_Suc
  cons_digit_0

abbreviation digits :: "nat \<Rightarrow> nat \<Rightarrow> nat \<Rightarrow> nat \<Rightarrow> nat \<Rightarrow> nat" where
  "digits a0 a1 a2 a3 a4 \<equiv>
     cons_digit 256 a0 (cons_digit 64 a1 (cons_digit 64 a2 (cons_digit 64 a3 a4)))"

lemma digits_ex:
  assumes "x < 2 ^ 32"
  shows "\<exists>a0 a1 a2 a3 a4. x = digits a0 a1 a2 a3 a4 \<and> a0 < 256 \<and> a1 < 64 \<and> a2 < 64 \<and> a3 < 64 \<and> a4 < 64"
proof -
  obtain a0 x1 where 0: "x = cons_digit 256 a0 x1" "a0 < 256" "x1 = x div 256"
    using cons_digit_ex [of 256 x] by auto
  obtain a1 x2 where 1: "x1 = cons_digit 64 a1 x2" "a1 < 64" "x2 = x1 div 64"
    using cons_digit_ex [of 64 x1] by auto
  obtain a2 x3 where 2: "x2 = cons_digit 64 a2 x3" "a2 < 64" "x3 = x2 div 64"
    using cons_digit_ex [of 64 x2] by auto
  obtain a3 x4 where 3: "x3 = cons_digit 64 a3 x4" "a3 < 64" "x4 = x3 div 64"
    using cons_digit_ex [of 64 x3] by auto
  have "x4 < 64" using assms 0(3) 1(3) 2(3) 3(3) by (simp add: div_mult2_eq [symmetric] less_mult_imp_div_less)
  then show ?thesis using 0 1 2 3 by blast
qed

text \<open>
  \<open>e\<close> is not behind \<open>t\<close>: an expiry in the block of \<open>2 ^ 26\<close> ticks of the clock is later than
  the clock. An expiry in another block of that size is reached after a wrap-around.
\<close>

definition ahead :: "nat \<Rightarrow> nat \<Rightarrow> bool" where
  "ahead e t \<longleftrightarrow> (e div 256 div 64 div 64 div 64 = t div 256 div 64 div 64 div 64 \<longrightarrow> t < e)"

lemma slot_of_digits:
  assumes "a0 < 256" "a1 < 64" "a2 < 64" "a3 < 64" "a4 < 64" "b0 < 256" "b1 < 64" "b2 < 64" "b3 < 64"
  shows "slot_of (digits a0 a1 a2 a3 a4) (digits b0 b1 b2 b3 b4) =
    (if a1 = b1 \<and> a2 = b2 \<and> a3 = b3 \<and> a4 = b4 then Near a0
     else if a2 = b2 \<and> a3 = b3 \<and> a4 = b4 then Level 0 a1
     else if a3 = b3 \<and> a4 = b4 then Level 1 a2
     else if a4 = b4 then Level 2 a3 else Level 3 a4)"
  using assms by (simp add: slot_of_def digit_simps)

lemma moved_digits:
  assumes "b0 < 256" "b1 < 64" "b2 < 64" "b3 < 64" "b4 < 64"
  shows "moved (digits b0 b1 b2 b3 b4) =
    (if b0 \<noteq> 0 then None else if b1 \<noteq> 0 then Some (Level 0 b1) else if b2 \<noteq> 0 then Some (Level 1 b2)
     else if b3 \<noteq> 0 then Some (Level 2 b3) else Some (Level 3 b4))"
  using assms by (simp add: moved_def digit_simps)

lemma ahead_digits:
  assumes "a0 < 256" "a1 < 64" "a2 < 64" "a3 < 64" "b0 < 256" "b1 < 64" "b2 < 64" "b3 < 64"
  shows "ahead (digits a0 a1 a2 a3 a4) (digits b0 b1 b2 b3 b4) \<longleftrightarrow>
    (a4 = b4 \<longrightarrow> b3 < a3 \<or> b3 = a3 \<and> (b2 < a2 \<or> b2 = a2 \<and> (b1 < a1 \<or> b1 = a1 \<and> b0 < a0)))"
  using assms by (auto simp: ahead_def digit_simps)

text \<open>The next time, digit by digit.\<close>

lemma digits_tick:
  assumes "t < 2 ^ 32"
  obtains (d0) b0 b1 b2 b3 b4 where "t = digits b0 b1 b2 b3 b4"
      "(t + 1) mod 2 ^ 32 = digits (b0 + 1) b1 b2 b3 b4" "b0 < 255" "b1 < 64" "b2 < 64" "b3 < 64" "b4 < 64"
  | (d1) b1 b2 b3 b4 where "t = digits 255 b1 b2 b3 b4"
      "(t + 1) mod 2 ^ 32 = digits 0 (b1 + 1) b2 b3 b4" "b1 < 63" "b2 < 64" "b3 < 64" "b4 < 64"
  | (d2) b2 b3 b4 where "t = digits 255 63 b2 b3 b4"
      "(t + 1) mod 2 ^ 32 = digits 0 0 (b2 + 1) b3 b4" "b2 < 63" "b3 < 64" "b4 < 64"
  | (d3) b3 b4 where "t = digits 255 63 63 b3 b4"
      "(t + 1) mod 2 ^ 32 = digits 0 0 0 (b3 + 1) b4" "b3 < 63" "b4 < 64"
  | (d4) b4 where "t = digits 255 63 63 63 b4"
      "(t + 1) mod 2 ^ 32 = digits 0 0 0 0 (b4 + 1)" "b4 < 63"
  | (wrap) "t = digits 255 63 63 63 63" "(t + 1) mod 2 ^ 32 = digits 0 0 0 0 0"
proof -
  from digits_ex [OF assms] obtain b0 b1 b2 b3 b4 where b: "t = digits b0 b1 b2 b3 b4"
    "b0 < 256" "b1 < 64" "b2 < 64" "b3 < 64" "b4 < 64" by blast
  have small: "digits c0 c1 c2 c3 c4 < 2 ^ 32"
    if "c0 < 256" "c1 < 64" "c2 < 64" "c3 < 64" "c4 < 64" for c0 c1 c2 c3 c4
  proof -
    have "digits c0 c1 c2 c3 c4 < 256 * (64 * (64 * (64 * 64)))"
      using that by (intro cons_digit_bound)
    then show ?thesis by simp
  qed
  have top: "b0 = 255 \<Longrightarrow> b1 = 63 \<Longrightarrow> b2 = 63 \<Longrightarrow> b3 = 63 \<Longrightarrow> b4 = 63 \<Longrightarrow> t + 1 = 2 ^ 32"
    using b(1) by (simp add: cons_digit_def)
  consider "b0 < 255" | "b0 = 255" "b1 < 63" | "b0 = 255" "b1 = 63" "b2 < 63"
    | "b0 = 255" "b1 = 63" "b2 = 63" "b3 < 63" | "b0 = 255" "b1 = 63" "b2 = 63" "b3 = 63" "b4 < 63"
    | "b0 = 255" "b1 = 63" "b2 = 63" "b3 = 63" "b4 = 63"
  proof -
    have "b0 < 255 \<or> b0 = 255" "b1 < 63 \<or> b1 = 63" "b2 < 63 \<or> b2 = 63" "b3 < 63 \<or> b3 = 63"
      "b4 < 63 \<or> b4 = 63" using b(2-6) by auto
    then show ?thesis using that by blast
  qed
  then show thesis
  proof cases
    case 1
    then have e: "t + 1 = digits (b0 + 1) b1 b2 b3 b4" using b by (simp add: cons_digit_Suc)
    have "(t + 1) mod 2 ^ 32 = digits (b0 + 1) b1 b2 b3 b4"
      unfolding e by (rule mod_less, rule small) (use b 1 in simp_all)
    with 1 b show thesis by (intro d0 [of b0 b1 b2 b3 b4]) simp_all
  next
    case 2
    then have e: "t + 1 = digits 0 (b1 + 1) b2 b3 b4" using b by (simp add: cons_digit_Suc)
    have "(t + 1) mod 2 ^ 32 = digits 0 (b1 + 1) b2 b3 b4"
      unfolding e by (rule mod_less, rule small) (use b 2 in simp_all)
    with 2 b show thesis by (intro d1 [of b1 b2 b3 b4]) simp_all
  next
    case 3
    then have e: "t + 1 = digits 0 0 (b2 + 1) b3 b4" using b by (simp add: cons_digit_Suc)
    have "(t + 1) mod 2 ^ 32 = digits 0 0 (b2 + 1) b3 b4"
      unfolding e by (rule mod_less, rule small) (use b 3 in simp_all)
    with 3 b show thesis by (intro d2 [of b2 b3 b4]) simp_all
  next
    case 4
    then have e: "t + 1 = digits 0 0 0 (b3 + 1) b4" using b by (simp add: cons_digit_Suc)
    have "(t + 1) mod 2 ^ 32 = digits 0 0 0 (b3 + 1) b4"
      unfolding e by (rule mod_less, rule small) (use b 4 in simp_all)
    with 4 b show thesis by (intro d3 [of b3 b4]) simp_all
  next
    case 5
    then have e: "t + 1 = digits 0 0 0 0 (b4 + 1)" using b by (simp add: cons_digit_Suc)
    have "(t + 1) mod 2 ^ 32 = digits 0 0 0 0 (b4 + 1)"
      unfolding e by (rule mod_less, rule small) (use b 5 in simp_all)
    with 5 b show thesis by (intro d4 [of b4]) simp_all
  next
    case 6
    with top have "(t + 1) mod 2 ^ 32 = 0" by simp
    with 6 b show thesis by (intro wrap) (auto simp: cons_digit_def)
  qed
qed

lemmas wheel_digits = slot_of_digits moved_digits ahead_digits

text \<open>
  A tick leaves every node in its slot, but for the list that is moved, and behind nobody.
\<close>

lemma slot_of_tick:
  assumes "e < 2 ^ 32" "t < 2 ^ 32" "ahead e t" "moved ((t + 1) mod 2 ^ 32) \<noteq> Some (slot_of e t)"
  shows "slot_of e ((t + 1) mod 2 ^ 32) = slot_of e t"
proof -
  from digits_ex [OF assms(1)] obtain a0 a1 a2 a3 a4 where a: "e = digits a0 a1 a2 a3 a4"
    "a0 < 256" "a1 < 64" "a2 < 64" "a3 < 64" "a4 < 64" by blast
  show ?thesis using assms(2)
    by (cases rule: digits_tick) (use assms(3,4) a in \<open>auto simp: wheel_digits split: if_splits\<close>)
qed

lemma ahead_tick:
  assumes "e < 2 ^ 32" "t < 2 ^ 32" "ahead e t" "e \<noteq> (t + 1) mod 2 ^ 32"
  shows "ahead e ((t + 1) mod 2 ^ 32)"
proof -
  from digits_ex [OF assms(1)] obtain a0 a1 a2 a3 a4 where a: "e = digits a0 a1 a2 a3 a4"
    "a0 < 256" "a1 < 64" "a2 < 64" "a3 < 64" "a4 < 64" by blast
  show ?thesis using assms(2)
    by (cases rule: digits_tick) (use assms(3,4) a in \<open>auto simp: ahead_digits digit_simps\<close>)
qed

text \<open>The words of \<^verbatim>\<open>timer_shift\<close> pick the list \<open>moved\<close> names.\<close>

lemma and_mask_eq_0: "x AND mask n = 0 \<longleftrightarrow> unat (x :: u32) mod 2 ^ n = 0"
  by (metis unat_and_mask unat_eq_zero)

lemma shift_masks:
  "256 - 1 = (mask 8 :: u32)" "push_bit 6 256 - 1 = (mask 14 :: u32)"
  "push_bit 6 (push_bit 6 256) - 1 = (mask 20 :: u32)"
  "push_bit 6 (push_bit 6 (push_bit 6 256)) - 1 = (mask 26 :: u32)"
  by (simp_all add: mask_eq_exp_minus_1 push_bit_eq_mult)

lemma digit_word:
  fixes ct :: u32
  shows "unat (drop_bit 8 ct AND 63) = unat ct div 256 mod 64"
    "unat (drop_bit 6 (drop_bit 8 ct) AND 63) = unat ct div 256 div 64 mod 64"
    "unat (drop_bit 6 (drop_bit 6 (drop_bit 8 ct)) AND 63) = unat ct div 256 div 64 div 64 mod 64"
    "unat (drop_bit 6 (drop_bit 6 (drop_bit 6 (drop_bit 8 ct))) AND 63)
       = unat ct div 256 div 64 div 64 div 64 mod 64"
  unfolding mask_numerals(2) unat_and_mask unat_drop_bit by simp_all

lemma mod_blocks:
  fixes x :: nat
  shows "x mod 2 ^ 14 = 0 \<longleftrightarrow> x mod 256 = 0 \<and> x div 256 mod 64 = 0"
    "x mod 2 ^ 20 = 0 \<longleftrightarrow> x mod 256 = 0 \<and> x div 256 mod 64 = 0 \<and> x div 256 div 64 mod 64 = 0"
    "x mod 2 ^ 26 = 0 \<longleftrightarrow> x mod 256 = 0 \<and> x div 256 mod 64 = 0 \<and> x div 256 div 64 mod 64 = 0
       \<and> x div 256 div 64 div 64 mod 64 = 0"
proof -
  have m: "x mod (a * b) = 0 \<longleftrightarrow> x mod a = 0 \<and> x div a mod b = 0" if "0 < a" for a b :: nat
    using that by (auto simp: mod_mult2_eq)
  show 1: "x mod 2 ^ 14 = 0 \<longleftrightarrow> x mod 256 = 0 \<and> x div 256 mod 64 = 0"
    using m [of 256 64] by simp
  show 2: "x mod 2 ^ 20 = 0 \<longleftrightarrow> x mod 256 = 0 \<and> x div 256 mod 64 = 0 \<and> x div 256 div 64 mod 64 = 0"
    using m [of "2 ^ 14" 64] 1 unfolding div_blocks by simp
  show "x mod 2 ^ 26 = 0 \<longleftrightarrow> x mod 256 = 0 \<and> x div 256 mod 64 = 0 \<and> x div 256 div 64 mod 64 = 0
       \<and> x div 256 div 64 div 64 mod 64 = 0"
    using m [of "2 ^ 20" 64] 2 unfolding div_blocks by simp
qed

lemma unat_and_63_0: "x AND 63 = (0 :: u32) \<longleftrightarrow> unat (x AND 63) = 0"
  by (simp add: unat_eq_zero)

lemma shift_loop_eq:
  assumes "ct \<noteq> 0"
  shows "shift_loop T ct 256 (drop_bit 8 ct) 0 =
     (case moved (unat ct) of Some (Level i k) \<Rightarrow> move_list T i k | _ \<Rightarrow> Some T)"
proof -
  let ?x = "unat ct"
  let ?d1 = "?x div 256 mod 64" and ?d2 = "?x div 256 div 64 mod 64"
  let ?d3 = "?x div 256 div 64 div 64 mod 64" and ?d4 = "?x div 256 div 64 div 64 div 64 mod 64"
  have x: "?x < 2 ^ 32" using unsigned_less [of ct] by simp
  have nz: "?x \<noteq> 0" using assms by (simp add: unat_eq_zero)
  have top: "?d4 \<noteq> 0" if "?x mod 256 = 0" "?d1 = 0" "?d2 = 0" "?d3 = 0"
  proof -
    from digits_ex [OF x] obtain a0 a1 a2 a3 a4 where a: "?x = digits a0 a1 a2 a3 a4"
      "a0 < 256" "a1 < 64" "a2 < 64" "a3 < 64" "a4 < 64" by blast
    show ?thesis using that nz a(2-6) unfolding a(1) by (simp add: digit_simps)
  qed
  have d4: "?x mod 2 ^ 26 = 0 \<Longrightarrow> ?d4 \<noteq> 0"
    unfolding mod_blocks(3) by (elim conjE, rule top)
  have s3: "shift_loop T ct (push_bit 6 (push_bit 6 (push_bit 6 256)))
        (drop_bit 6 (drop_bit 6 (drop_bit 6 (drop_bit 8 ct)))) 3
      = (if ?x mod 2 ^ 26 = 0 then move_list T 3 ?d4 else Some T)"
    unfolding shift_loop.simps [of _ _ _ _ 3] shift_masks and_mask_eq_0 unat_and_63_0 digit_word
    using d4 by (cases "?x mod 2 ^ 26 = 0") (simp_all only: if_True if_False simp_thms)
  have s2: "shift_loop T ct (push_bit 6 (push_bit 6 256)) (drop_bit 6 (drop_bit 6 (drop_bit 8 ct))) 2
      = (if ?x mod 2 ^ 20 = 0 then if ?d3 \<noteq> 0 then move_list T 2 ?d3
           else if ?x mod 2 ^ 26 = 0 then move_list T 3 ?d4 else Some T
         else Some T)"
    unfolding shift_loop.simps [of _ _ _ _ 2] shift_masks and_mask_eq_0 unat_and_63_0 digit_word
      s3 [symmetric] by simp
  have s1: "shift_loop T ct (push_bit 6 256) (drop_bit 6 (drop_bit 8 ct)) 1
      = (if ?x mod 2 ^ 14 = 0 then if ?d2 \<noteq> 0 then move_list T 1 ?d2
           else shift_loop T ct (push_bit 6 (push_bit 6 256)) (drop_bit 6 (drop_bit 6 (drop_bit 8 ct))) 2
         else Some T)"
    unfolding shift_loop.simps [of _ _ _ _ 1] shift_masks and_mask_eq_0 unat_and_63_0 digit_word
    by (simp only: one_add_one)
  have s0: "shift_loop T ct 256 (drop_bit 8 ct) 0
      = (if ?x mod 2 ^ 8 = 0 then if ?d1 \<noteq> 0 then move_list T 0 ?d1
           else shift_loop T ct (push_bit 6 256) (drop_bit 6 (drop_bit 8 ct)) 1
         else Some T)"
    unfolding shift_loop.simps [of _ _ _ _ 0] shift_masks and_mask_eq_0 unat_and_63_0 digit_word
    by (simp only: add_0)
  show ?thesis unfolding s0 s1 s2 moved_def mod_blocks by (simp split: if_split)
qed


section \<open>The wheel is a calendar\<close>

text \<open>
  The abstraction of a wheel: for each expiry time the nodes that wait for it, in the order
  in which they were added.
\<close>

definition slot_at :: "timer \<Rightarrow> u32 \<Rightarrow> slot" where
  "slot_at T e = slot_of (unat e) (unat (ttime T))"

definition pending :: "timer \<Rightarrow> u32 \<Rightarrow> timer_node list" where
  "pending T e = filter (\<lambda>n. tn_expire n = e) (slot_list T (slot_at T e))"

text \<open>Every node is in its slot and none is overdue.\<close>

definition wheel_inv :: "timer \<Rightarrow> bool" where
  "wheel_inv T \<longleftrightarrow> shaped T \<and> (\<forall>s n. valid_slot s \<longrightarrow> n \<in> set (slot_list T s) \<longrightarrow>
     slot_at T (tn_expire n) = s \<and>
     (tn_expire n = ttime T \<or> ahead (unat (tn_expire n)) (unat (ttime T))))"

text \<open>Between two calls of \<^verbatim>\<open>timer_update\<close> nothing is due at the current time either.\<close>

definition quiet :: "timer \<Rightarrow> bool" where
  "quiet T \<longleftrightarrow> wheel_inv T \<and> slot_list T (slot_at T (ttime T)) = []"

lemma valid_slot_at [simp]: "valid_slot (slot_at T e)"
  by (simp add: slot_at_def)

lemma slot_at_now: "slot_at T (ttime T) = Near (unat (ttime T) mod 256)"
  by (simp add: slot_at_def slot_of_def)

lemma wheel_invD:
  assumes "wheel_inv T" "valid_slot s" "n \<in> set (slot_list T s)"
  shows "slot_at T (tn_expire n) = s"
    and "tn_expire n \<noteq> ttime T \<Longrightarrow> ahead (unat (tn_expire n)) (unat (ttime T))"
  using assms by (auto simp: wheel_inv_def)

lemma quiet_ahead:
  assumes "quiet T" "valid_slot s" "n \<in> set (slot_list T s)"
  shows "ahead (unat (tn_expire n)) (unat (ttime T))"
  using assms wheel_invD [of T s n] by (cases "tn_expire n = ttime T") (auto simp: quiet_def)

lemma filter_slot_list:
  assumes "wheel_inv T" "valid_slot s"
  shows "filter (\<lambda>n. tn_expire n = e) (slot_list T s) = (if s = slot_at T e then pending T e else [])"
proof (cases "s = slot_at T e")
  case False
  then have "tn_expire n \<noteq> e" if "n \<in> set (slot_list T s)" for n
    using wheel_invD(1) [OF assms that] by auto
  then show ?thesis using False by (simp add: filter_empty_conv)
qed (simp add: pending_def)

lemma pending_behind:
  assumes "quiet T" "\<not> ahead (unat e) (unat (ttime T))"
  shows "pending T e = []"
  using quiet_ahead [OF assms(1) valid_slot_at] assms(2) by (auto simp: pending_def filter_empty_conv)

lemma slot_at_due: "slot_at T e = slot_at T (ttime T) \<Longrightarrow> e = ttime T"
  by (auto simp: slot_at_now slot_at_def slot_of_def word_unat_eq_iff split: if_splits)
     (metis div_mult_mod_eq)

text \<open>\<^verbatim>\<open>timer_execute\<close> hands out what is due now.\<close>

lemma timer_execute_correct:
  assumes "wheel_inv T"
  shows "\<exists>T'. timer_execute T = Some (T', pending T (ttime T)) \<and> quiet T' \<and> same_clock T T'
    \<and> pending T' = (pending T)(ttime T := [])"
proof -
  let ?k = "unat (ttime T) mod 256"
  let ?T' = "T\<lparr>near := (near T)[?k := []]\<rparr>"
  have sh: "shaped T" using assms by (simp add: wheel_inv_def)
  have k: "unat (ttime T AND 255) = ?k" by (simp add: mask_numerals(1) unat_and_mask)
  have due: "near T ! ?k = pending T (ttime T)"
  proof -
    have "tn_expire n = ttime T" if "n \<in> set (near T ! ?k)" for n
      using wheel_invD(1) [OF assms, of "Near ?k" n] that slot_at_due [of T "tn_expire n"]
      by (simp add: slot_at_now)
    then show ?thesis by (auto simp: pending_def slot_at_now intro!: filter_True [symmetric])
  qed
  have lists: "slot_list ?T' s = (if s = Near ?k then [] else slot_list T s)" if "valid_slot s" for s
    using sh that by (cases s) (auto simp: nth_list_update)
  have at: "slot_at ?T' e = slot_at T e" for e by (simp add: slot_at_def)
  have exec: "timer_execute T = Some (?T', pending T (ttime T))"
  proof (cases "near T ! ?k = []")
    case True
    then have "?T' = T" using sh by (metis list_update_id timer.surjective timer.update_convs(1))
    with True show ?thesis using sh due by (subst timer_execute.simps) (simp add: k Let_def)
  next
    case False
    have "timer_execute ?T' = Some (?T', [])"
      using sh by (subst timer_execute.simps) (simp add: k Let_def)
    then show ?thesis using False sh due
      by (subst timer_execute.simps) (simp add: k Let_def link_clear_def)
  qed
  have inv: "wheel_inv ?T'"
    using assms sh lists at by (auto simp: wheel_inv_def shaped_upd_near split: if_splits)
  have "quiet ?T'" unfolding quiet_def using inv lists [of "Near ?k"] sh
    by (simp add: at slot_at_now)
  moreover have "pending ?T' e = ((pending T)(ttime T := [])) e" for e
    using filter_slot_list [OF assms, of "slot_at T e" e] slot_at_due [of T e] lists
    by (auto simp: pending_def at slot_at_now)
  ultimately show ?thesis using exec by (auto simp: same_clock_def)
qed

lemma moved_Level: "moved t = Some s \<Longrightarrow> \<exists>i k. s = Level i k \<and> i < 4 \<and> k < 64"
  by (auto simp: moved_def split: if_splits)

lemma timer_shift_lists:
  assumes "shaped T"
  defines "t' \<equiv> (unat (ttime T) + 1) mod 2 ^ 32"
  shows "\<exists>T'. timer_shift T = Some T' \<and> shaped T' \<and> same_clock (T\<lparr>ttime := ttime T + 1\<rparr>) T'
    \<and> (\<forall>s. valid_slot s \<longrightarrow> slot_list T' s =
          (if moved t' = Some s then [] else slot_list T s)
          @ filter (\<lambda>n. slot_of (unat (tn_expire n)) t' = s)
              (case moved t' of None \<Rightarrow> [] | Some m \<Rightarrow> slot_list T m))"
proof -
  let ?T1 = "T\<lparr>ttime := ttime T + 1\<rparr>"
  have ct: "unat (ttime T + 1) = t'" by (simp add: t'_def unat_word_ariths)
  have sh: "shaped ?T1" using assms(1) by (simp add: shaped_def del: shaped_row shaped_len)
  have l1: "slot_list ?T1 s = slot_list T s" for s by (cases s) simp_all
  have eq: "timer_shift T = (case moved t' of Some (Level i k) \<Rightarrow> move_list ?T1 i k | _ \<Rightarrow> Some ?T1)"
  proof (cases "ttime T + 1 = 0")
    case True
    then have "t' = 0" using ct by simp
    then show ?thesis using True by (simp add: timer_shift_def moved_def)
  next
    case False
    then show ?thesis using shift_loop_eq [OF False, of ?T1] by (simp add: timer_shift_def ct Let_def)
  qed
  show ?thesis
  proof (cases "moved t'")
    case None
    then show ?thesis using eq sh l1 by auto
  next
    case (Some m)
    then obtain i k where m: "m = Level i k" "i < 4" "k < 64" using moved_Level by blast
    from move_list_correct [OF sh m(2,3)] Some m(1) eq l1 ct show ?thesis by auto
  qed
qed

lemma timer_shift_correct:
  assumes q: "quiet T"
  shows "\<exists>T'. timer_shift T = Some T' \<and> wheel_inv T' \<and> same_clock (T\<lparr>ttime := ttime T + 1\<rparr>) T'
    \<and> pending T' = pending T"
proof -
  define t where "t = unat (ttime T)"
  define t' where "t' = (t + 1) mod 2 ^ 32"
  have inv: "wheel_inv T" and sh: "shaped T" using q by (auto simp: quiet_def wheel_inv_def)
  have t: "t < 2 ^ 32" using unsigned_less [of "ttime T"] by (simp add: t_def)
  let ?M = "case moved t' of None \<Rightarrow> [] | Some m \<Rightarrow> slot_list T m"
  obtain T' where T': "timer_shift T = Some T'" "shaped T'" "same_clock (T\<lparr>ttime := ttime T + 1\<rparr>) T'"
    "\<And>s. valid_slot s \<Longrightarrow> slot_list T' s = (if moved t' = Some s then [] else slot_list T s)
        @ filter (\<lambda>n. slot_of (unat (tn_expire n)) t' = s) ?M"
    using timer_shift_lists [OF sh] unfolding t'_def t_def by blast
  have time: "unat (ttime T') = t'"
    using T'(3) by (simp add: same_clock_def t'_def t_def unat_word_ariths)
  have at: "slot_at T' e = slot_of (unat e) t'" for e by (simp add: slot_at_def time)
  have e32: "unat e < 2 ^ 32" for e :: u32 using unsigned_less [of e] by simp
  note tick = slot_of_tick [OF e32 t, folded t'_def] ahead_tick [OF e32 t, folded t'_def]
  have Mvalid: "valid_slot m" if "moved t' = Some m" for m using moved_Level [OF that] by auto
  have eq': "tn_expire n = ttime T' \<longleftrightarrow> unat (tn_expire n) = t'" for n
    using time by (metis word_unat_eq_iff)
  have old: "slot_at T' (tn_expire n) = s \<and> (tn_expire n = ttime T' \<or> ahead (unat (tn_expire n)) t')"
    if "valid_slot s" "n \<in> set (slot_list T s)" "moved t' \<noteq> Some s" for s n
    using tick quiet_ahead [OF q that(1,2)] wheel_invD(1) [OF inv that(1,2)] that(3)
    unfolding at eq' by (metis slot_at_def t_def)
  have new: "tn_expire n = ttime T' \<or> ahead (unat (tn_expire n)) t'" if "n \<in> set ?M" for n
  proof -
    from that obtain m where "moved t' = Some m" "n \<in> set (slot_list T m)"
      by (cases "moved t'") auto
    then have "ahead (unat (tn_expire n)) t" using quiet_ahead [OF q Mvalid] by (simp add: t_def)
    then show ?thesis using tick(2) unfolding eq' by blast
  qed
  have inv': "wheel_inv T'"
    unfolding wheel_inv_def time using T'(2,4) old new by (auto simp: at split: if_splits)
  have "pending T' e = pending T e" for e
  proof (cases "ahead (unat e) t")
    case True
    let ?s = "slot_of (unat e) t'"
    have f: "filter (\<lambda>n. tn_expire n = e) (filter (\<lambda>n. slot_of (unat (tn_expire n)) t' = ?s) ?M)
        = (if moved t' = Some (slot_at T e) then pending T e else [])"
      using filter_slot_list [OF inv Mvalid, of _ e]
      by (auto simp: filter_filter conj_commute cong: conj_cong split: option.split)
    have "pending T' e = filter (\<lambda>n. tn_expire n = e) (if moved t' = Some ?s then [] else slot_list T ?s)
        @ filter (\<lambda>n. tn_expire n = e) (filter (\<lambda>n. slot_of (unat (tn_expire n)) t' = ?s) ?M)"
      unfolding pending_def [of T'] at T'(4) [OF valid_slot_of] filter_append ..
    also have "\<dots> = pending T e"
      using tick(1) [OF True] filter_slot_list [OF inv, of ?s e] unfolding f
      by (cases "moved t' = Some (slot_at T e)") (auto simp: slot_at_def t_def)
    finally show ?thesis .
  next
    case False
    have "tn_expire n \<noteq> e" if "valid_slot s" "n \<in> set (slot_list T s)" for s n
      using quiet_ahead [OF q that] False by (auto simp: t_def)
    moreover have "\<exists>s. valid_slot s \<and> n \<in> set (slot_list T s)" if "n \<in> set (slot_list T' (slot_at T' e))" for n
    proof -
      have "n \<in> set (slot_list T (slot_at T' e)) \<or> n \<in> set ?M"
        using that T'(4) [OF valid_slot_at, of T' e] by (auto split: if_splits)
      then show ?thesis
      proof
        assume "n \<in> set ?M"
        then show ?thesis using Mvalid by (cases "moved t'") auto
      qed (use valid_slot_at in blast)
    qed
    ultimately have "tn_expire n \<noteq> e" if "n \<in> set (slot_list T' (slot_at T' e))" for n
      using that by blast
    then show ?thesis using pending_behind [OF q] False
      by (auto simp: pending_def [of T'] filter_empty_conv t_def)
  qed
  then show ?thesis using T' inv' by blast
qed


lemma timer_update_correct:
  assumes "quiet T"
  shows "\<exists>T'. timer_update T = Some (T', pending T (ttime T + 1)) \<and> quiet T'
    \<and> same_clock (T\<lparr>ttime := ttime T + 1\<rparr>) T'
    \<and> pending T' = (pending T)(ttime T + 1 := [])"
proof -
  have "wheel_inv T" and none: "pending T (ttime T) = []"
    using assms by (auto simp: quiet_def pending_def)
  from timer_execute_correct [OF this(1)] none obtain T1
    where T1: "timer_execute T = Some (T1, [])" "quiet T1" "same_clock T T1" "pending T1 = pending T"
    by (auto simp: fun_upd_idem)
  have tm: "ttime T1 = ttime T" using T1(3) by (simp add: same_clock_def)
  from timer_shift_correct [OF T1(2)] obtain T2
    where T2: "timer_shift T1 = Some T2" "wheel_inv T2" "same_clock (T1\<lparr>ttime := ttime T1 + 1\<rparr>) T2"
      "pending T2 = pending T1" by blast
  have tm2: "ttime T2 = ttime T + 1" using T2(3) tm by (simp add: same_clock_def)
  from timer_execute_correct [OF T2(2)] obtain T3
    where T3: "timer_execute T2 = Some (T3, pending T2 (ttime T2))" "quiet T3" "same_clock T2 T3"
      "pending T3 = (pending T2)(ttime T2 := [])" by blast
  have "timer_update T = Some (T3, pending T (ttime T + 1))"
    using T1(1,4) T2(1,4) T3(1) tm2 by (simp add: timer_update_def)
  moreover have "same_clock (T\<lparr>ttime := ttime T + 1\<rparr>) T3"
    using T1(3) T2(3) T3(3) by (simp add: same_clock_def)
  ultimately show ?thesis using T3 T2(4) T1(4) tm2 by auto
qed

text \<open>A positive delay is ahead of the clock, whatever the clock shows.\<close>

lemma ahead_delay:
  fixes d t :: u32
  assumes "0 < unat d" "unat d < 2 ^ 31"
  shows "ahead (unat (d + t)) (unat t)" and "d + t \<noteq> t"
proof -
  show "d + t \<noteq> t" using assms(1) by auto
  have tt: "unat t < 2 ^ 32" using unsigned_less [of t] by simp
  have e: "unat (d + t) = (unat d + unat t) mod 2 ^ 32" by (simp add: unat_word_ariths)
  show "ahead (unat (d + t)) (unat t)"
  proof (cases "unat d + unat t < 2 ^ 32")
    case True
    then show ?thesis using assms(1) e by (simp add: ahead_def)
  next
    case False
    then have e': "unat (d + t) + 2 ^ 32 = unat d + unat t"
    proof -
      have "(unat d + unat t) mod 2 ^ 32 = (unat d + unat t - 2 ^ 32) mod 2 ^ 32"
        using False by (intro le_mod_geq) simp
      also have "\<dots> = unat d + unat t - 2 ^ 32" using tt assms(2) by simp
      finally show ?thesis using e False by simp
    qed
    have "unat (d + t) div 2 ^ 26 \<noteq> unat t div 2 ^ 26"
    proof
      assume eq: "unat (d + t) div 2 ^ 26 = unat t div 2 ^ 26"
      have "unat t = unat t div 2 ^ 26 * 2 ^ 26 + unat t mod 2 ^ 26"
        "unat (d + t) = unat t div 2 ^ 26 * 2 ^ 26 + unat (d + t) mod 2 ^ 26"
        "unat t mod 2 ^ 26 < 2 ^ 26"
        by (metis div_mult_mod_eq, metis div_mult_mod_eq eq, simp)
      then have "unat (d + t) mod 2 ^ 26 + 2 ^ 32 = unat d + unat t mod 2 ^ 26" using e' by linarith
      moreover have "unat t mod 2 ^ 26 < 2 ^ 26" by simp
      ultimately show False using assms(2) by simp
    qed
    then show ?thesis unfolding ahead_def div_blocks by blast
  qed
qed

lemma timer_add_correct:
  fixes h :: u32 and sn :: i32
  assumes q: "quiet T" and d: "0 < unat d" "unat d < 2 ^ 31"
  defines "n \<equiv> \<lparr>tn_expire = d + ttime T, tn_handle = h, tn_session = sn\<rparr>"
  shows "\<exists>T'. timer_add T h sn d = Some T' \<and> quiet T' \<and> same_clock T T'
    \<and> pending T' = (pending T)(d + ttime T := pending T (d + ttime T) @ [n])"
proof -
  have inv: "wheel_inv T" and sh: "shaped T" using q by (auto simp: quiet_def wheel_inv_def)
  from add_node_correct [OF sh, of n] obtain T'
    where T': "timer_add T h sn d = Some T'" "shaped T'" "same_clock T T'"
      "\<And>s. valid_slot s \<Longrightarrow> slot_list T' s = slot_list T s @ (if s = slot_at T (d + ttime T) then [n] else [])"
    by (auto simp: timer_add_def n_def slot_at_def)
  have tm: "ttime T' = ttime T" using T'(3) by (simp add: same_clock_def)
  have at: "slot_at T' = slot_at T" by (simp add: slot_at_def tm fun_eq_iff)
  have "wheel_inv T'"
    unfolding wheel_inv_def at tm
  proof (intro conjI allI impI)
    fix s m assume s: "valid_slot s" and m: "m \<in> set (slot_list T' s)"
    from m T'(4) [OF s] consider "m \<in> set (slot_list T s)" | "m = n" "s = slot_at T (d + ttime T)"
      by (auto split: if_splits)
    then have "slot_at T (tn_expire m) = s \<and> ahead (unat (tn_expire m)) (unat (ttime T))"
    proof cases
      case 1
      then show ?thesis using wheel_invD(1) [OF inv s] quiet_ahead [OF q s] by blast
    next
      case 2
      then show ?thesis using ahead_delay(1) [OF d, of "ttime T"] by (simp add: n_def)
    qed
    then show "slot_at T (tn_expire m) = s"
      "tn_expire m = ttime T \<or> ahead (unat (tn_expire m)) (unat (ttime T))" by simp_all
  qed (rule T'(2))
  moreover have "slot_list T' (slot_at T' (ttime T')) = []"
    using q T'(4) [of "slot_at T (ttime T)"] slot_at_due [of T "d + ttime T"] ahead_delay(2) [OF d, of "ttime T"]
    by (auto simp: quiet_def at tm split: if_splits)
  moreover have "pending T' e = ((pending T)(d + ttime T := pending T (d + ttime T) @ [n])) e" for e
    using T'(4) by (auto simp: pending_def at n_def)
  ultimately show ?thesis using T' by (auto simp: quiet_def)
qed

lemma timer_create_quiet: "quiet (timer_create_timer\<lparr>starttime := a, current := b, current_point := c\<rparr>)"
  and timer_create_pending:
    "pending (timer_create_timer\<lparr>starttime := a, current := b, current_point := c\<rparr>) e = []"
proof -
  let ?T = "timer_create_timer\<lparr>starttime := a, current := b, current_point := c\<rparr>"
  have "slot_list ?T s = []" if "valid_slot s" for s
    using that by (cases s) (auto simp: timer_create_timer_def)
  then show "quiet ?T" and "pending ?T e = []"
    by (auto simp: quiet_def wheel_inv_def pending_def shaped_def timer_create_timer_def)
qed

text \<open>Many ticks: the calls of \<^verbatim>\<open>timer_update\<close> hand out the pending nodes, time by time.\<close>

lemma timer_updates_correct:
  assumes "quiet T" "n < 2 ^ 32"
  shows "\<exists>T'. timer_updates n T = Some (T', map (\<lambda>i. pending T (ttime T + of_nat (Suc i))) [0..<n])
    \<and> quiet T' \<and> same_clock (T\<lparr>ttime := ttime T + of_nat n\<rparr>) T'"
  using assms
proof (induction n arbitrary: T)
  case 0
  then show ?case by (auto simp: same_clock_def)
next
  case (Suc n)
  from timer_update_correct [OF Suc.prems(1)] obtain T1
    where T1: "timer_update T = Some (T1, pending T (ttime T + 1))" "quiet T1"
      "same_clock (T\<lparr>ttime := ttime T + 1\<rparr>) T1" "pending T1 = (pending T)(ttime T + 1 := [])" by blast
  have tm: "ttime T1 = ttime T + 1" using T1(3) by (simp add: same_clock_def)
  have "n < 2 ^ 32" using Suc.prems(2) by simp
  from Suc.IH [OF T1(2) this] obtain T2
    where T2: "timer_updates n T1 = Some (T2, map (\<lambda>i. pending T1 (ttime T1 + of_nat (Suc i))) [0..<n])"
      "quiet T2" "same_clock (T1\<lparr>ttime := ttime T1 + of_nat n\<rparr>) T2" by blast
  have ne: "of_nat (Suc i) \<noteq> (0 :: u32)" if "i < n" for i
    using that Suc.prems(2) dvd_imp_le [of "2 ^ 32" "Suc i"]
    by (auto simp: word_of_nat_eq_0_iff simp del: of_nat_Suc)
  have "pending T1 (ttime T1 + of_nat (Suc i)) = pending T (ttime T + of_nat (Suc (Suc i)))" if "i < n" for i
    using ne [OF that] by (simp add: T1(4) tm add.assoc)
  then have "map (\<lambda>i. pending T1 (ttime T1 + of_nat (Suc i))) [0..<n]
      = map (\<lambda>i. pending T (ttime T + of_nat (Suc i))) [1..<Suc n]"
    by (intro nth_equalityI) (auto simp del: of_nat_Suc upt_Suc)
  then have "pending T (ttime T + 1) # map (\<lambda>i. pending T1 (ttime T1 + of_nat (Suc i))) [0..<n]
      = map (\<lambda>i. pending T (ttime T + of_nat (Suc i))) [0..<Suc n]"
    by (simp add: upt_conv_Cons del: upt_Suc)
  then show ?case using T1(1) T2 T1(3) tm
    by (auto simp: same_clock_def algebra_simps simp del: upt_Suc)
qed

section \<open>Runs of the timer\<close>

text \<open>
  The states a timer reaches: it starts as \<^verbatim>\<open>skynet_timer_init\<close> leaves it, services add
  timers with a positive \<^verbatim>\<open>int\<close> delay, and the timer thread calls \<^verbatim>\<open>skynet_updatetime\<close>.
\<close>

inductive timer_reachable :: "timer \<Rightarrow> bool" where
  init: "timer_reachable (skynet_timer_init sec cs cp)"
| add: "timer_reachable T \<Longrightarrow> 0 < unat d \<Longrightarrow> unat d < 2 ^ 31 \<Longrightarrow> timer_add T h sn d = Some T'
    \<Longrightarrow> timer_reachable T'"
| update: "timer_reachable T \<Longrightarrow> skynet_updatetime cp T = Some (T', fired) \<Longrightarrow> timer_reachable T'"

lemma quiet_clock [simp]:
  "quiet (T\<lparr>current := a\<rparr>) = quiet T" "quiet (T\<lparr>current_point := b\<rparr>) = quiet T"
  and pending_clock [simp]:
  "pending (T\<lparr>current := a\<rparr>) = pending T" "pending (T\<lparr>current_point := b\<rparr>) = pending T"
proof -
  have 1: "slot_at (T\<lparr>current := a\<rparr>) = slot_at T" "slot_at (T\<lparr>current_point := b\<rparr>) = slot_at T"
    by (auto simp: slot_at_def fun_eq_iff)
  have 2: "slot_list (T\<lparr>current := a\<rparr>) s = slot_list T s"
    "slot_list (T\<lparr>current_point := b\<rparr>) s = slot_list T s" for s by (cases s; simp)+
  have 3: "shaped (T\<lparr>current := a\<rparr>) = shaped T" "shaped (T\<lparr>current_point := b\<rparr>) = shaped T"
    unfolding shaped_def by (simp_all del: shaped_row shaped_len)
  show "quiet (T\<lparr>current := a\<rparr>) = quiet T" "quiet (T\<lparr>current_point := b\<rparr>) = quiet T"
    unfolding quiet_def wheel_inv_def 1 2 3 by simp_all
  show "pending (T\<lparr>current := a\<rparr>) = pending T" "pending (T\<lparr>current_point := b\<rparr>) = pending T"
    by (simp_all add: pending_def fun_eq_iff 1 2)
qed

lemma unat_u32 [simp]: "unat (d :: u32) < 4294967296"
  using unsigned_less [of d] by simp

lemma skynet_updatetime_correct:
  assumes "quiet T"
  shows "\<exists>T' fired. skynet_updatetime cp T = Some (T', fired) \<and> quiet T' \<and> current_point T' = cp
    \<and> (if cp \<le> current_point T then fired = [] \<and> pending T' = pending T \<and> current T' = current T
       else let diff = (ucast (cp - current_point T) :: u32) in
         current T' = current T + ucast diff \<and> ttime T' = ttime T + diff
         \<and> fired = concat (map (\<lambda>i. pending T (ttime T + of_nat (Suc i))) [0..<unat diff]))"
proof (cases "cp \<le> current_point T")
  case True
  then show ?thesis using assms by (cases "cp = current_point T") (auto simp: skynet_updatetime_def)
next
  case False
  let ?d = "ucast (cp - current_point T) :: u32"
  let ?T = "T\<lparr>current_point := cp, current := current T + ucast ?d\<rparr>"
  from timer_updates_correct [of ?T "unat ?d"] assms obtain T'
    where T': "timer_updates (unat ?d) ?T
        = Some (T', map (\<lambda>i. pending ?T (ttime ?T + of_nat (Suc i))) [0..<unat ?d])"
      "quiet T'" "same_clock (?T\<lparr>ttime := ttime ?T + of_nat (unat ?d)\<rparr>) T'"
    by auto
  have "skynet_updatetime cp T
      = Some (T', concat (map (\<lambda>i. pending T (ttime T + of_nat (Suc i))) [0..<unat ?d]))"
    using False T'(1) by (auto simp: skynet_updatetime_def Let_def simp del: of_nat_Suc)
  then show ?thesis using False T'(2,3)
    by (auto simp: same_clock_def Let_def simp del: of_nat_Suc)
qed

lemma timer_reachable_quiet [inv_intros]: "timer_reachable T \<Longrightarrow> quiet T"
proof (induction rule: timer_reachable.induct)
  case (init sec cs cp)
  show ?case unfolding skynet_timer_init_def by (rule timer_create_quiet)
next
  case (add T d h sn T')
  then show ?case using timer_add_correct [of T d h sn] by auto
next
  case (update T cp T' fired)
  then show ?case using skynet_updatetime_correct [of T cp] by auto
qed

section \<open>Properties\<close>

text \<open>
  Property C8. In every state the timer reaches, also after the 32-bit time has wrapped around,
  \<^verbatim>\<open>timer_update\<close> returns, advances the time by one tick and dispatches exactly the nodes
  whose expiry time is the new time, in the order in which they were added; every other node
  stays scheduled for its own time. The wheel of lists with its cascades implements a plain
  calendar from expiry times to queues.
\<close>

theorem timer_update_fires:
  assumes "timer_reachable T"
  shows "\<exists>T'. timer_update T = Some (T', pending T (ttime T + 1)) \<and> ttime T' = ttime T + 1
    \<and> pending T' = (pending T)(ttime T + 1 := [])"
  using timer_update_correct [OF timer_reachable_quiet [OF assms]] by (auto simp: same_clock_def)

theorem timer_update_fires_witness:
  "\<exists>T'. timer_update (skynet_timer_init 7 0 9)
      = Some (T', pending (skynet_timer_init 7 0 9) (ttime (skynet_timer_init 7 0 9) + 1))
    \<and> ttime T' = ttime (skynet_timer_init 7 0 9) + 1
    \<and> pending T' = (pending (skynet_timer_init 7 0 9))(ttime (skynet_timer_init 7 0 9) + 1 := [])"
  by (rule timer_update_fires) (rule timer_reachable.init)

text \<open>
  Property C5. A timeout of \<open>d\<close> ticks, \<open>d\<close> a positive \<^verbatim>\<open>int\<close>, is dispatched by exactly
  the \<open>d\<close>-th following call of \<^verbatim>\<open>timer_update\<close>, once, after the nodes that were already
  waiting for that tick, and it changes nothing about what any tick up to then dispatches.
\<close>

theorem timeout_exact:
  assumes "timer_reachable T" "0 < unat d" "unat d < 2 ^ 31"
  shows "\<exists>T0 fs0 T1 T2. timer_updates (unat d) T = Some (T0, fs0) \<and> timer_add T h sn d = Some T1
    \<and> timer_updates (unat d) T1 = Some (T2, fs0[unat d - 1 := fs0 ! (unat d - 1)
        @ [\<lparr>tn_expire = d + ttime T, tn_handle = h, tn_session = sn\<rparr>]])"
proof -
  let ?n = "\<lparr>tn_expire = d + ttime T, tn_handle = h, tn_session = sn\<rparr>"
  have q: "quiet T" using assms(1) by (rule timer_reachable_quiet)
  have d: "unat d < 2 ^ 32" by simp
  from timer_add_correct [OF q assms(2,3)] obtain T1 where T1: "timer_add T h sn d = Some T1"
    "quiet T1" "same_clock T T1"
    "pending T1 = (pending T)(d + ttime T := pending T (d + ttime T) @ [?n])" by blast
  have tm: "ttime T1 = ttime T" using T1(3) by (simp add: same_clock_def)
  let ?fs = "\<lambda>T. map (\<lambda>i. pending T (ttime T + of_nat (Suc i))) [0..<unat d]"
  have hit: "of_nat (Suc i) = d \<longleftrightarrow> Suc i = unat d" if "i < unat d" for i
  proof -
    have "Suc i < 2 ^ 32" using that d by linarith
    then have "unat (of_nat (Suc i) :: u32) = Suc i"
      by (simp add: unsigned_of_nat take_bit_nat_eq_self_iff del: of_nat_Suc)
    then show ?thesis by (metis word_unat_eq_iff)
  qed
  have "?fs T1 = (?fs T)[unat d - 1 := ?fs T ! (unat d - 1) @ [?n]]" (is "?l = ?r")
  proof (rule nth_equalityI)
    fix i assume "i < length ?l"
    then have i: "i < unat d" by simp
    have "ttime T + of_nat (Suc i) = d + ttime T \<longleftrightarrow> Suc i = unat d"
      using hit [OF i] by (simp add: add.commute del: of_nat_Suc)
    then show "?l ! i = ?r ! i" using i by (auto simp: T1(4) tm nth_list_update add.commute simp del: of_nat_Suc)
  qed simp
  then show ?thesis
    using timer_updates_correct [OF q d] timer_updates_correct [OF T1(2) d] T1(1) by auto
qed

theorem timeout_exact_witness:
  "\<exists>T0 fs0 T1 T2. timer_updates (unat (300 :: i32)) (skynet_timer_init 7 0 9) = Some (T0, fs0)
    \<and> timer_add (skynet_timer_init 7 0 9) 1 2 300 = Some T1
    \<and> timer_updates (unat (300 :: i32)) T1 = Some (T2, fs0[unat (300 :: i32) - 1 := fs0 ! (unat (300 :: i32) - 1)
        @ [\<lparr>tn_expire = 300 + ttime (skynet_timer_init 7 0 9), tn_handle = 1, tn_session = 2\<rparr>]])"
  by (rule timeout_exact [OF timer_reachable.init]) simp_all

text \<open>
  Property C20. \<^verbatim>\<open>skynet_updatetime\<close> always returns. When the monotonic clock has advanced, the
  timer's clock advances by the same number of ticks and the nodes dispatched are those of
  every tick passed, tick by tick; a clock that went backwards is only recorded: nothing is
  dispatched, no node is lost and \<^verbatim>\<open>skynet_now\<close> does not go back.
\<close>

theorem updatetime_catches_up:
  assumes "timer_reachable T"
  shows "\<exists>T' fired. skynet_updatetime cp T = Some (T', fired) \<and> current_point T' = cp
    \<and> (if cp \<le> current_point T
       then fired = [] \<and> pending T' = pending T \<and> skynet_now T' = skynet_now T
       else let diff = (ucast (cp - current_point T) :: u32) in
         skynet_now T' = skynet_now T + ucast diff \<and> ttime T' = ttime T + diff
         \<and> fired = concat (map (\<lambda>i. pending T (ttime T + of_nat (Suc i))) [0..<unat diff]))"
  using skynet_updatetime_correct [OF timer_reachable_quiet [OF assms], of cp]
  by (fastforce simp: skynet_now_def Let_def simp del: of_nat_Suc)

theorem updatetime_catches_up_witness:
  "\<exists>T' fired. skynet_updatetime 12 (skynet_timer_init 7 0 9) = Some (T', fired) \<and> current_point T' = 12
    \<and> (if 12 \<le> current_point (skynet_timer_init 7 0 9)
       then fired = [] \<and> pending T' = pending (skynet_timer_init 7 0 9)
         \<and> skynet_now T' = skynet_now (skynet_timer_init 7 0 9)
       else let diff = (ucast (12 - current_point (skynet_timer_init 7 0 9)) :: u32) in
         skynet_now T' = skynet_now (skynet_timer_init 7 0 9) + ucast diff
         \<and> ttime T' = ttime (skynet_timer_init 7 0 9) + diff
         \<and> fired = concat (map (\<lambda>i. pending (skynet_timer_init 7 0 9)
             (ttime (skynet_timer_init 7 0 9) + of_nat (Suc i))) [0..<unat diff]))"
  by (rule updatetime_catches_up) (rule timer_reachable.init)

end
