(* ===== verification/Handle.thy ===== *)
theory Handle
  imports Prelude "HOL-Library.Char_ord" "HOL-Library.List_Lexorder"
begin

text \<open>
  \<^verbatim>\<open>skynet/skynet-src/skynet_handle.c\<close>: the handle table, an open hash table without
  collision chains that doubles when it is full, and the sorted array of service names.
  Contexts are addresses; \<open>ch\<close> is \<^verbatim>\<open>skynet_context_handle\<close>, the handle field of each context.
  Entries of a freshly allocated name array are \<open>None\<close> until they are written. The lock
  of the storage is the read/write lock of \<open>Locks\<close>; each function is one critical section.
\<close>

section \<open>The data\<close>

type_synonym handle_name = "string \<times> u32"

record handle_storage =
  hs_harbor :: u32
  handle_index :: u32
  hs_slot :: "ptr list"
  name_cap :: nat
  name_count :: nat
  hs_name :: "handle_name option list"

definition DEFAULT_SLOT_SIZE :: nat where
  "DEFAULT_SLOT_SIZE = 4"

definition MAX_SLOT_SIZE :: nat where
  "MAX_SLOT_SIZE = 0x40000000"

definition HANDLE_MASK :: u32 where
  "HANDLE_MASK = 0xffffff"

definition HANDLE_REMOTE_SHIFT :: nat where
  "HANDLE_REMOTE_SHIFT = 24"

definition slot_size :: "handle_storage \<Rightarrow> nat" where
  "slot_size s = length (hs_slot s)"

section \<open>The operations on handles\<close>

definition slot_hash :: "u32 \<Rightarrow> nat \<Rightarrow> nat" where
  "slot_hash handle sz = unat (handle AND (of_nat sz - 1))"

text \<open>
  The inner loop of \<^verbatim>\<open>skynet_handle_register\<close>: \<open>k\<close> iterations are left. The result is the
  handle and the slot found, or nothing when the loop ends.
\<close>

primrec probe_slots :: "nat \<Rightarrow> u32 \<Rightarrow> ptr list \<Rightarrow> (u32 \<times> nat) option option" where
  "probe_slots 0 handle slots = Some None"
| "probe_slots (Suc k) handle slots = do {
     let handle = (if handle > HANDLE_MASK then 1 else handle);
     let hash = slot_hash handle (length slots);
     c \<leftarrow> array_get slots hash;
     if c = None then Some (Some (handle, hash))
     else probe_slots k (handle + 1) slots
   }"

text \<open>The copy into the doubled table; reading the handle of a null entry does not return.\<close>

primrec rehash_slots :: "(nat \<Rightarrow> u32) \<Rightarrow> ptr list \<Rightarrow> ptr list \<Rightarrow> ptr list option" where
  "rehash_slots ch [] new_slot = Some new_slot"
| "rehash_slots ch (c # rest) new_slot = do {
     ctx \<leftarrow> c;
     let hash = slot_hash (ch ctx) (length new_slot);
     old \<leftarrow> array_get new_slot hash;
     assert_c (old = None);
     new_slot' \<leftarrow> array_set new_slot hash c;
     rehash_slots ch rest new_slot'
   }"

definition grow_slots :: "(nat \<Rightarrow> u32) \<Rightarrow> handle_storage \<Rightarrow> handle_storage option" where
  "grow_slots ch s = do {
     assert_c (slot_size s * 2 - 1 \<le> unat HANDLE_MASK);
     new_slot \<leftarrow> rehash_slots ch (hs_slot s) (replicate (slot_size s * 2) None);
     Some (s\<lparr>hs_slot := new_slot\<rparr>)
   }"

partial_function (option) skynet_handle_register ::
    "(nat \<Rightarrow> u32) \<Rightarrow> nat \<Rightarrow> handle_storage \<Rightarrow> (u32 \<times> handle_storage) option" where
  "skynet_handle_register ch ctx s = do {
     found \<leftarrow> probe_slots (slot_size s) (handle_index s) (hs_slot s);
     case found of
       Some (handle, hash) \<Rightarrow> do {
         slots \<leftarrow> array_set (hs_slot s) hash (Some ctx);
         Some (handle OR hs_harbor s, s\<lparr>hs_slot := slots, handle_index := handle + 1\<rparr>)
       }
     | None \<Rightarrow> do { s1 \<leftarrow> grow_slots ch s; skynet_handle_register ch ctx s1 }
   }"

text \<open>The loop of \<^verbatim>\<open>skynet_handle_retire\<close> that drops the names of a handle, in place.\<close>

primrec compact_names ::
    "u32 \<Rightarrow> nat \<Rightarrow> nat \<Rightarrow> nat \<Rightarrow> handle_name option list \<Rightarrow> (nat \<times> handle_name option list) option" where
  "compact_names handle 0 i j names = Some (j, names)"
| "compact_names handle (Suc k) i j names = do {
     e \<leftarrow> array_get names i;
     (nm, h) \<leftarrow> e;
     if h = handle then compact_names handle k (i + 1) j names
     else if i \<noteq> j then do {
       names' \<leftarrow> array_set names j (Some (nm, h));
       compact_names handle k (i + 1) (j + 1) names'
     } else compact_names handle k (i + 1) (j + 1) names
   }"

text \<open>
  The result is the return value, the context that \<^verbatim>\<open>skynet_context_release\<close> is called
  with after the unlock, and the new storage.
\<close>

definition skynet_handle_retire ::
    "(nat \<Rightarrow> u32) \<Rightarrow> u32 \<Rightarrow> handle_storage \<Rightarrow> (bool \<times> ptr \<times> handle_storage) option" where
  "skynet_handle_retire ch handle s = do {
     let hash = slot_hash handle (slot_size s);
     c \<leftarrow> array_get (hs_slot s) hash;
     case c of
       Some ctx \<Rightarrow>
         if ch ctx = handle then do {
           slots \<leftarrow> array_set (hs_slot s) hash None;
           (j, names) \<leftarrow> compact_names handle (name_count s) 0 0 (hs_name s);
           Some (True, Some ctx, s\<lparr>hs_slot := slots, hs_name := names, name_count := j\<rparr>)
         } else Some (False, None, s)
     | None \<Rightarrow> Some (False, None, s)
   }"

text \<open>One pass of \<^verbatim>\<open>skynet_handle_retireall\<close>: the contexts released, in order, and the storage.\<close>

primrec retire_pass ::
    "(nat \<Rightarrow> u32) \<Rightarrow> nat \<Rightarrow> nat \<Rightarrow> handle_storage \<Rightarrow> (nat list \<times> handle_storage) option" where
  "retire_pass ch 0 i s = Some ([], s)"
| "retire_pass ch (Suc k) i s = do {
     c \<leftarrow> array_get (hs_slot s) i;
     let handle = (case c of Some ctx \<Rightarrow> ch ctx | None \<Rightarrow> 0);
     if handle \<noteq> 0 then do {
       (r, rel, s1) \<leftarrow> skynet_handle_retire ch handle s;
       (rels, s2) \<leftarrow> retire_pass ch k (i + 1) s1;
       Some ((case rel of Some ctx \<Rightarrow> ctx # rels | None \<Rightarrow> rels), s2)
     } else retire_pass ch k (i + 1) s
   }"

partial_function (option) skynet_handle_retireall ::
    "(nat \<Rightarrow> u32) \<Rightarrow> handle_storage \<Rightarrow> (nat list \<times> handle_storage) option" where
  "skynet_handle_retireall ch s = do {
     (rels, s1) \<leftarrow> retire_pass ch (slot_size s) 0 s;
     if rels = [] then Some ([], s1)
     else do { (more, s2) \<leftarrow> skynet_handle_retireall ch s1; Some (rels @ more, s2) }
   }"

text \<open>The caller increments the reference count of the context found.\<close>

definition skynet_handle_grab :: "(nat \<Rightarrow> u32) \<Rightarrow> u32 \<Rightarrow> handle_storage \<Rightarrow> ptr option" where
  "skynet_handle_grab ch handle s = do {
     c \<leftarrow> array_get (hs_slot s) (slot_hash handle (slot_size s));
     Some (case c of Some ctx \<Rightarrow> if ch ctx = handle then Some ctx else None | None \<Rightarrow> None)
   }"

section \<open>The operations on names\<close>

fun strcmp :: "string \<Rightarrow> string \<Rightarrow> int" where
  "strcmp [] [] = 0"
| "strcmp [] (y # ys) = - 1"
| "strcmp (x # xs) [] = 1"
| "strcmp (x # xs) (y # ys) =
     (if x = y then strcmp xs ys
      else if (of_char x :: nat) < of_char y then - 1 else 1)"

text \<open>
  The binary search that \<^verbatim>\<open>skynet_handle_findname\<close> and \<^verbatim>\<open>_insert_name\<close> share: the handle of
  the name, or the final value of \<^verbatim>\<open>begin\<close>. The variables are C \<^verbatim>\<open>int\<close>s, \<^verbatim>\<open>end\<close> may be \<^verbatim>\<open>-1\<close>.
\<close>

function name_search ::
    "handle_name option list \<Rightarrow> string \<Rightarrow> int \<Rightarrow> int \<Rightarrow> (u32 + int) option" where
  "name_search names name b e =
     (if b \<le> e then do {
        let mid = (b + e) div 2;
        entry \<leftarrow> array_get names (nat mid);
        (nm, h) \<leftarrow> entry;
        let c = strcmp nm name;
        if c = 0 then Some (Inl h)
        else if c < 0 then name_search names name (mid + 1) e
        else name_search names name b (mid - 1)
      } else Some (Inr b))"
  by pat_completeness auto
termination
  by (relation "measure (\<lambda>(_, _, b, e). nat (e + 1 - b))") auto

declare name_search.simps [simp del]

definition skynet_handle_findname :: "string \<Rightarrow> handle_storage \<Rightarrow> u32 option" where
  "skynet_handle_findname name s = do {
     r \<leftarrow> name_search (hs_name s) name 0 (int (name_count s) - 1);
     Some (case r of Inl h \<Rightarrow> h | Inr _ \<Rightarrow> 0)
   }"

text \<open>The two copy loops of the growing branch: \<open>k\<close> entries from \<open>i\<close> on, \<open>off\<close> places up.\<close>

primrec copy_names ::
    "nat \<Rightarrow> nat \<Rightarrow> nat \<Rightarrow> handle_name option list \<Rightarrow> handle_name option list
     \<Rightarrow> handle_name option list option" where
  "copy_names 0 i off names n = Some n"
| "copy_names (Suc k) i off names n = do {
     e \<leftarrow> array_get names i;
     n' \<leftarrow> array_set n (i + off) e;
     copy_names k (i + 1) off names n'
   }"

text \<open>The loop of the other branch: \<open>k\<close> entries are moved up, from position \<open>i\<close> down.\<close>

primrec shift_names ::
    "nat \<Rightarrow> nat \<Rightarrow> handle_name option list \<Rightarrow> handle_name option list option" where
  "shift_names 0 i names = Some names"
| "shift_names (Suc k) i names = do {
     e \<leftarrow> array_get names (i - 1);
     names' \<leftarrow> array_set names i e;
     shift_names k (i - 1) names'
   }"

definition insert_name_before ::
    "string \<Rightarrow> u32 \<Rightarrow> nat \<Rightarrow> handle_storage \<Rightarrow> handle_storage option" where
  "insert_name_before name handle before s = do {
     s1 \<leftarrow> (if name_count s \<ge> name_cap s then do {
         let cap = name_cap s * 2;
         assert_c (cap \<le> MAX_SLOT_SIZE);
         n1 \<leftarrow> copy_names before 0 0 (hs_name s) (replicate cap None);
         n2 \<leftarrow> copy_names (name_count s - before) before 1 (hs_name s) n1;
         Some (s\<lparr>name_cap := cap, hs_name := n2\<rparr>)
       } else do {
         n1 \<leftarrow> shift_names (name_count s - before) (name_count s) (hs_name s);
         Some (s\<lparr>hs_name := n1\<rparr>)
       });
     names \<leftarrow> array_set (hs_name s1) before (Some (name, handle));
     Some (s1\<lparr>hs_name := names, name_count := name_count s1 + 1\<rparr>)
   }"

text \<open>The result is the name, or \<open>None\<close> for the null pointer when the name is taken.\<close>

definition insert_name ::
    "string \<Rightarrow> u32 \<Rightarrow> handle_storage \<Rightarrow> (string option \<times> handle_storage) option" where
  "insert_name name handle s = do {
     r \<leftarrow> name_search (hs_name s) name 0 (int (name_count s) - 1);
     case r of
       Inl _ \<Rightarrow> Some (None, s)
     | Inr b \<Rightarrow> do { s1 \<leftarrow> insert_name_before name handle (nat b) s; Some (Some name, s1) }
   }"

definition skynet_handle_namehandle ::
    "u32 \<Rightarrow> string \<Rightarrow> handle_storage \<Rightarrow> (string option \<times> handle_storage) option" where
  "skynet_handle_namehandle handle name s = insert_name name handle s"

declare skynet_handle_register.simps [code] skynet_handle_retireall.simps [code]

definition skynet_handle_init :: "i32 \<Rightarrow> handle_storage" where
  "skynet_handle_init harbor =
     \<lparr>hs_harbor = push_bit HANDLE_REMOTE_SHIFT (harbor AND 0xff), handle_index = 1,
      hs_slot = replicate DEFAULT_SLOT_SIZE None,
      name_cap = 2, name_count = 0, hs_name = replicate 2 None\<rparr>"

section \<open>The handle table\<close>

text \<open>
  The abstraction: the map from handles to contexts. The invariant: the size is a power of
  two of at most \<open>2 ^ 24\<close>, a context sits in the slot its handle hashes to, and a handle is
  a nonzero local part below the harbor id.
\<close>

definition handle_table :: "(nat \<Rightarrow> u32) \<Rightarrow> handle_storage \<Rightarrow> u32 \<rightharpoonup> nat" where
  "handle_table ch s h = (case skynet_handle_grab ch h s of Some r \<Rightarrow> r | None \<Rightarrow> None)"

definition members :: "handle_storage \<Rightarrow> nat set" where
  "members s = {p. Some p \<in> set (hs_slot s)}"

definition local_handle :: "handle_storage \<Rightarrow> u32 \<Rightarrow> bool" where
  "local_handle s h \<longleftrightarrow> h AND HANDLE_MASK \<noteq> 0 \<and> h AND NOT HANDLE_MASK = hs_harbor s"

definition slots_at :: "nat \<Rightarrow> (nat \<Rightarrow> u32) \<Rightarrow> handle_storage \<Rightarrow> bool" where
  "slots_at k ch s \<longleftrightarrow> 2 \<le> k \<and> k \<le> 24 \<and> slot_size s = 2 ^ k
     \<and> (\<forall>i < 2 ^ k. \<forall>p. hs_slot s ! i = Some p \<longrightarrow> unat (ch p) mod 2 ^ k = i \<and> local_handle s (ch p))"

definition slots_inv :: "(nat \<Rightarrow> u32) \<Rightarrow> handle_storage \<Rightarrow> bool" where
  "slots_inv ch s \<longleftrightarrow> (\<exists>k. slots_at k ch s) \<and> hs_harbor s AND HANDLE_MASK = 0
     \<and> 0 < unat (handle_index s) \<and> unat (handle_index s) \<le> 2 ^ 24"

lemma HANDLE_MASK_eq: "HANDLE_MASK = mask 24"
  by (simp add: HANDLE_MASK_def mask_eq_exp_minus_1)

lemma gt_HANDLE_MASK: "h > HANDLE_MASK \<longleftrightarrow> 2 ^ 24 \<le> unat h"
  by (auto simp: HANDLE_MASK_def word_less_nat_alt)

lemma slot_hash_pow: "k \<le> 24 \<Longrightarrow> slot_hash h (2 ^ k) = unat h mod 2 ^ k"
  unfolding slot_hash_def by (simp add: mask_eq_exp_minus_1 [symmetric] unat_and_mask)

lemma unat_succ_handle: "unat (h :: u32) \<le> 2 ^ 24 \<Longrightarrow> unat (h + 1) = unat h + 1"
  by (simp add: unat_word_ariths)

lemma slots_atD:
  assumes "slots_at k ch s"
  shows "2 \<le> k" "k \<le> 24" "length (hs_slot s) = 2 ^ k"
    "i < 2 ^ k \<Longrightarrow> hs_slot s ! i = Some p \<Longrightarrow> unat (ch p) mod 2 ^ k = i"
    "i < 2 ^ k \<Longrightarrow> hs_slot s ! i = Some p \<Longrightarrow> local_handle s (ch p)"
  using assms by (auto simp: slots_at_def slot_size_def)

lemma mem_members: "slots_at k ch s \<Longrightarrow> p \<in> members s \<longleftrightarrow> hs_slot s ! (unat (ch p) mod 2 ^ k) = Some p"
  using slots_atD(3) [of k ch s] slots_atD(4) [of k ch s _ p]
  by (auto simp: members_def in_set_conv_nth intro!: exI [of _ "unat (ch p) mod 2 ^ k"])

lemma handle_table_at:
  assumes "slots_at k ch s"
  shows "handle_table ch s h = (case hs_slot s ! (unat h mod 2 ^ k) of
      Some p \<Rightarrow> if ch p = h then Some p else None | None \<Rightarrow> None)"
  using slots_atD(2,3) [OF assms]
  by (simp add: handle_table_def skynet_handle_grab_def slot_size_def slot_hash_pow)

lemma grab_total:
  assumes "slots_inv ch s"
  shows "skynet_handle_grab ch h s = Some (handle_table ch s h)"
proof -
  from assms obtain k where k: "slots_at k ch s" by (auto simp: slots_inv_def)
  then have "slot_hash h (slot_size s) < length (hs_slot s)"
    using slots_atD(2,3) [OF k] by (simp add: slot_size_def slot_hash_pow)
  then show ?thesis by (simp add: handle_table_def skynet_handle_grab_def)
qed

lemma handle_table_iff:
  assumes "slots_at k ch s"
  shows "handle_table ch s h = Some p \<longleftrightarrow> p \<in> members s \<and> ch p = h"
  unfolding mem_members [OF assms] handle_table_at [OF assms] by (auto split: option.splits)

subsection \<open>Registration\<close>

definition wrap_handle :: "u32 \<Rightarrow> u32" where
  "wrap_handle h = (if h > HANDLE_MASK then 1 else h)"

lemma wrap_handle:
  "unat (wrap_handle h) < 2 ^ 24" "0 < unat h \<Longrightarrow> 0 < unat (wrap_handle h)"
  "unat (wrap_handle h + 1) = unat (wrap_handle h) + 1"
proof -
  show *: "unat (wrap_handle h) < 2 ^ 24" "0 < unat h \<Longrightarrow> 0 < unat (wrap_handle h)"
    by (auto simp: wrap_handle_def gt_HANDLE_MASK)
  show "unat (wrap_handle h + 1) = unat (wrap_handle h) + 1"
    using * by (intro unat_succ_handle) simp
qed

lemma probe_slots_Suc:
  assumes "k \<le> 24" "length slots = 2 ^ k"
  shows "probe_slots (Suc n) h slots =
    (if slots ! (unat (wrap_handle h) mod 2 ^ k) = None
     then Some (Some (wrap_handle h, unat (wrap_handle h) mod 2 ^ k))
     else probe_slots n (wrap_handle h + 1) slots)"
  using assms by (simp add: Let_def slot_hash_pow wrap_handle_def del: split_paired_All)

declare probe_slots.simps(2) [simp del]

lemma probe_slots_total:
  assumes "k \<le> 24" "length slots = 2 ^ k"
  shows "\<exists>r. probe_slots n h slots = Some r"
  by (induction n arbitrary: h) (auto simp: probe_slots_Suc [OF assms])

lemma probe_slots_found:
  assumes "k \<le> 24" "length slots = 2 ^ k" "0 < unat h"
    "probe_slots n h slots = Some (Some (handle, hash))"
  shows "hash = unat handle mod 2 ^ k \<and> slots ! hash = None \<and> 0 < unat handle \<and> unat handle < 2 ^ 24"
  using assms(3,4)
proof (induction n arbitrary: h)
  case (Suc n)
  then show ?case using wrap_handle [of h] Suc.IH [of "wrap_handle h + 1"]
    by (auto simp: probe_slots_Suc [OF assms(1,2)] split: if_splits)
qed simp

text \<open>The \<open>j\<close>-th handle that the loop tries: after the last one it goes on with 1.\<close>

definition visited :: "nat \<Rightarrow> nat \<Rightarrow> nat" where
  "visited h j = (if h + j < 2 ^ 24 then h + j else h + j + 1 - 2 ^ 24)"

lemma probe_slots_none:
  assumes "k \<le> 24" "length slots = 2 ^ k" "unat h \<le> 2 ^ 24"
    "probe_slots n h slots = Some None" "j < n" "unat h + j + 1 < 2 ^ 25"
  shows "slots ! (visited (unat h) j mod 2 ^ k) \<noteq> None"
  using assms(3-6)
proof (induction n arbitrary: h j)
  case (Suc n)
  let ?h = "wrap_handle h"
  have h: "unat ?h = visited (unat h) 0"
    using Suc.prems(1) by (auto simp: wrap_handle_def gt_HANDLE_MASK visited_def)
  have step: "slots ! (unat ?h mod 2 ^ k) \<noteq> None" "probe_slots n (?h + 1) slots = Some None"
    using Suc.prems(2) by (auto simp: probe_slots_Suc [OF assms(1,2)] split: if_splits)
  show ?case
  proof (cases j)
    case 0
    then show ?thesis using step(1) h by simp
  next
    case (Suc i)
    have "visited (unat (?h + 1)) i = visited (unat h) j"
      unfolding wrap_handle(3) h using Suc Suc.prems(1,4) by (auto simp: visited_def)
    moreover have "unat (?h + 1) + i + 1 < 2 ^ 25" unfolding wrap_handle(3) h using Suc Suc.prems(1,4)
      by (auto simp: visited_def)
    ultimately show ?thesis
      using Suc.IH [OF _ step(2), of i] wrap_handle(1,3) [of h] Suc Suc.prems(3) by simp
  qed
qed simp

text \<open>
  When the loop finds nothing, every slot but slot 0 is taken; slot 0 is missed when the
  handles wrap around inside the loop, because handle 0 is skipped.
\<close>

lemma probe_slots_misses_only_0:
  assumes k: "k \<le> 24" "length slots = 2 ^ k" and h: "0 < unat h" "unat h \<le> 2 ^ 24"
    and none: "probe_slots (2 ^ k) h slots = Some None" and i: "i < 2 ^ k"
    and z: "i = 0 \<Longrightarrow> unat h + 2 ^ k \<le> 2 ^ 24"
  shows "slots ! i \<noteq> None"
proof -
  define n :: nat where "n = 2 ^ k"
  have n24: "n \<le> 2 ^ 24" unfolding n_def using k(1) by (intro power_increasing) auto
  have dvd: "n dvd 2 ^ 24" unfolding n_def using k(1) by (rule le_imp_power_dvd)
  have hit: "slots ! i \<noteq> None" if "j < n" "unat h + j + 1 < 2 ^ 25" "visited (unat h) j mod n = i" for j
    using probe_slots_none [OF k h(2) none, of j] that by (simp add: n_def)
  define r where "r = unat h mod n"
  have r: "r < n" "i < n" using i by (simp_all add: r_def n_def)
  define j where "j = (if r \<le> i then i - r else i + n - r)"
  have j: "j < n" using r by (auto simp: j_def)
  have "(r + j) mod n = i" using r by (auto simp: j_def)
  then have jm: "(unat h + j) mod n = i" by (simp add: r_def mod_add_left_eq)
  show ?thesis
  proof (cases "unat h + j < 2 ^ 24")
    case True
    then show ?thesis using hit [OF j] jm by (simp add: visited_def)
  next
    case False
    have i0: "i \<noteq> 0" using False z j by (auto simp: n_def)
    have "2 ^ 24 \<noteq> unat h + j" using jm dvd i0 by (metis dvd_imp_mod_0)
    then have j1: "2 ^ 24 \<le> unat h + (j - 1)" "1 \<le> j" using False h by auto
    have "unat h + (j - 1) + 1 - 2 ^ 24 = unat h + j - 2 ^ 24" using j1 by simp
    also have "\<dots> mod n = i"
    proof -
      from dvd obtain c where "2 ^ 24 = n * c" ..
      then have "(unat h + j - 2 ^ 24 + n * c) mod n = i" using jm False by simp
      then show ?thesis by simp
    qed
    finally have "visited (unat h) (j - 1) mod n = i" using j1 by (simp add: visited_def)
    moreover have "unat h + (j - 1) + 1 < 2 ^ 25" using h(2) j j1(2) n24 by simp
    ultimately show ?thesis using hit [of "j - 1"] j by simp
  qed
qed

lemma rehash_slots_correct:
  assumes "k \<le> 24" "length new = 2 ^ k"
    and "None \<notin> set cs" "distinct (map (\<lambda>c. unat (ch (the c)) mod 2 ^ k) cs)"
    and "\<And>c. c \<in> set cs \<Longrightarrow> new ! (unat (ch (the c)) mod 2 ^ k) = None"
  shows "\<exists>new'. rehash_slots ch cs new = Some new' \<and> length new' = 2 ^ k
    \<and> (\<forall>i < 2 ^ k. \<forall>p. new' ! i = Some p \<longleftrightarrow>
         new ! i = Some p \<or> Some p \<in> set cs \<and> unat (ch p) mod 2 ^ k = i)"
  using assms(2-)
proof (induction cs arbitrary: new)
  case (Cons c cs)
  from Cons.prems(2) obtain q where c: "c = Some q" by (cases c) auto
  let ?i = "unat (ch q) mod 2 ^ k"
  have i: "?i < length new" "new ! ?i = None" using Cons.prems(1) Cons.prems(4) [of c] c by auto
  let ?new = "new[?i := Some q]"
  have hash: "slot_hash (ch q) (length new) = ?i" using assms(1) Cons.prems(1) by (simp add: slot_hash_pow)
  have "\<exists>new'. rehash_slots ch cs ?new = Some new' \<and> length new' = 2 ^ k
    \<and> (\<forall>i < 2 ^ k. \<forall>p. new' ! i = Some p \<longleftrightarrow>
         ?new ! i = Some p \<or> Some p \<in> set cs \<and> unat (ch p) mod 2 ^ k = i)"
  proof (rule Cons.IH)
    fix c' assume "c' \<in> set cs"
    then show "?new ! (unat (ch (the c')) mod 2 ^ k) = None"
      using Cons.prems(3) Cons.prems(4) [of c'] c
      by (cases "unat (ch (the c')) mod 2 ^ k = ?i") (auto simp: image_iff)
  qed (use Cons.prems in auto)
  then obtain new' where new': "rehash_slots ch cs ?new = Some new'" "length new' = 2 ^ k"
    "\<And>i p. i < 2 ^ k \<Longrightarrow> new' ! i = Some p \<longleftrightarrow>
         ?new ! i = Some p \<or> Some p \<in> set cs \<and> unat (ch p) mod 2 ^ k = i" by blast
  have "rehash_slots ch (c # cs) new = Some new'" using new'(1) i hash c by (simp add: Let_def)
  moreover have "new' ! j = Some p \<longleftrightarrow>
      new ! j = Some p \<or> Some p \<in> set (c # cs) \<and> unat (ch p) mod 2 ^ k = j" if "j < 2 ^ k" for j p
    using new'(3) [OF that] i c Cons.prems(1) by (cases "j = ?i") (auto simp: nth_list_update)
  ultimately show ?case using new'(2) by auto
qed simp

lemma grow_slots_correct:
  assumes inv: "slots_at k ch s" and full: "None \<notin> set (hs_slot s)" and k: "k < 24"
  shows "\<exists>s'. grow_slots ch s = Some s' \<and> slots_at (Suc k) ch s' \<and> members s' = members s
    \<and> (\<exists>i < 2 ^ Suc k. 0 < i \<and> hs_slot s' ! i = None) \<and> (\<exists>slots. s' = s\<lparr>hs_slot := slots\<rparr>)"
proof -
  note D = slots_atD [OF inv]
  have mod: "a mod 2 ^ k = b mod 2 ^ k" if "a mod 2 ^ Suc k = b mod 2 ^ Suc k" for a b :: nat
  proof -
    have "a mod 2 ^ Suc k mod 2 ^ k = b mod 2 ^ Suc k mod 2 ^ k" using that by simp
    then show ?thesis by (simp add: mod_mod_cancel)
  qed
  have same: "p = q" if "p \<in> members s" "q \<in> members s" "unat (ch p) mod 2 ^ k = unat (ch q) mod 2 ^ k" for p q
    using that by (simp add: mem_members [OF inv])
  have dis: "distinct (map (\<lambda>c. unat (ch (the c)) mod 2 ^ Suc k) (hs_slot s))"
    unfolding distinct_conv_nth
  proof (intro allI impI)
    fix i j assume ij: "i < length (map (\<lambda>c. unat (ch (the c)) mod 2 ^ Suc k) (hs_slot s))"
      "j < length (map (\<lambda>c. unat (ch (the c)) mod 2 ^ Suc k) (hs_slot s))" "i \<noteq> j"
    then obtain p q where pq: "hs_slot s ! i = Some p" "hs_slot s ! j = Some q"
      using full by (auto simp: in_set_conv_nth) (metis not_None_eq)
    then show "map (\<lambda>c. unat (ch (the c)) mod 2 ^ Suc k) (hs_slot s) ! i
        \<noteq> map (\<lambda>c. unat (ch (the c)) mod 2 ^ Suc k) (hs_slot s) ! j"
      using ij D(3) D(4) [OF _ pq(1)] D(4) [OF _ pq(2)] mod [of "unat (ch p)" "unat (ch q)"] by auto
  qed
  have len: "slot_size s * 2 = 2 ^ Suc k" using D(3) by (simp add: slot_size_def)
  have rep: "replicate (2 ^ Suc k) None ! i = (None :: ptr)" if "i < 2 ^ Suc k" for i
    using that by (rule nth_replicate)
  have "\<exists>slots. rehash_slots ch (hs_slot s) (replicate (2 ^ Suc k) None) = Some slots
    \<and> length slots = 2 ^ Suc k
    \<and> (\<forall>i < 2 ^ Suc k. \<forall>p. slots ! i = Some p \<longleftrightarrow> replicate (2 ^ Suc k) None ! i = Some p
       \<or> Some p \<in> set (hs_slot s) \<and> unat (ch p) mod 2 ^ Suc k = i)"
    by (rule rehash_slots_correct [OF _ _ full dis]) (use k in \<open>simp_all only: length_replicate Suc_leI rep [OF mod_less_divisor] zero_less_numeral zero_less_power\<close>)
  then obtain slots where "rehash_slots ch (hs_slot s) (replicate (2 ^ Suc k) None) = Some slots"
    "length slots = 2 ^ Suc k"
    "\<forall>i < 2 ^ Suc k. \<forall>p. slots ! i = Some p \<longleftrightarrow> replicate (2 ^ Suc k) None ! i = Some p
       \<or> Some p \<in> set (hs_slot s) \<and> unat (ch p) mod 2 ^ Suc k = i" by blast
  then have slots: "rehash_slots ch (hs_slot s) (replicate (slot_size s * 2) None) = Some slots"
    "length slots = 2 ^ Suc k"
    "\<And>i p. i < 2 ^ Suc k \<Longrightarrow> slots ! i = Some p \<longleftrightarrow> p \<in> members s \<and> unat (ch p) mod 2 ^ Suc k = i"
    unfolding len members_def by (auto simp only: rep option.simps mem_Collect_eq)
  let ?s = "s\<lparr>hs_slot := slots\<rparr>"
  have "(2 :: nat) ^ Suc k \<le> 2 ^ 24" using k by (intro power_increasing) auto
  then have grow: "grow_slots ch s = Some ?s"
    using slots(1) D(3) by (simp add: grow_slots_def slot_size_def HANDLE_MASK_def)
  have mem: "local_handle s (ch p)" if "p \<in> members s" for p
    using that D(5) [of "unat (ch p) mod 2 ^ k" p] by (simp add: mem_members [OF inv])
  have at: "slots_at (Suc k) ch ?s" using D(1) k slots(2,3) mem
    by (auto simp: slots_at_def slot_size_def local_handle_def)
  moreover have "members ?s = members s"
  proof (rule set_eqI)
    fix p
    show "p \<in> members ?s \<longleftrightarrow> p \<in> members s"
      using slots(3) [of "unat (ch p) mod 2 ^ Suc k" p] by (simp add: mem_members [OF at])
  qed
  moreover have "\<exists>i < 2 ^ Suc k. 0 < i \<and> slots ! i = None"
  proof (rule ccontr)
    assume none: "\<not> ?thesis"
    have b: "(1 :: nat) < 2 ^ k" using D(1) by (intro one_less_power) auto
    have nn: "slots ! i \<noteq> None" if "i < 2 ^ Suc k" "0 < i" for i using none that by auto
    obtain p q where p: "slots ! 1 = Some p" and q: "slots ! (1 + 2 ^ k) = Some q"
      using nn [of 1] nn [of "1 + 2 ^ k"] b by auto
    from slots(3) [of 1 p] slots(3) [of "1 + 2 ^ k" q] p q b
    have pq: "p \<in> members s" "q \<in> members s" "unat (ch p) mod 2 ^ Suc k = 1"
      "unat (ch q) mod 2 ^ Suc k = 1 + 2 ^ k" by auto
    have low: "x mod 2 ^ Suc k mod 2 ^ k = x mod 2 ^ k" for x :: nat
      by (simp add: mod_mod_cancel)
    have "unat (ch p) mod 2 ^ k = unat (ch q) mod 2 ^ k"
      using low [of "unat (ch p)"] low [of "unat (ch q)"] mod_add_self2 [of 1 "2 ^ k :: nat"]
      unfolding pq(3,4) by argo
    then have "p = q" using same pq by blast
    then show False using pq(3,4) by simp
  qed
  ultimately show ?thesis using grow by auto
qed

text \<open>What a registration does to the slots and to the table.\<close>

lemma or_harbor:
  fixes a h :: u32
  assumes "unat a < 2 ^ 24" "h AND HANDLE_MASK = 0" "k \<le> 24"
  shows "(a OR h) AND HANDLE_MASK = a" "(a OR h) AND NOT HANDLE_MASK = h"
    "unat (a OR h) mod 2 ^ k = unat a mod 2 ^ k"
proof -
  have a: "a AND mask 24 = a"
    using assms(1) unat_and_mask [of a 24] by (simp add: word_unat_eq_iff)
  show 1: "(a OR h) AND HANDLE_MASK = a" using a assms(2) by (simp add: HANDLE_MASK_eq bit.conj_disj_distrib2)
  have "a AND NOT (mask 24) = a AND (mask 24 AND NOT (mask 24))"
    unfolding and.assoc [symmetric] a ..
  moreover have "h = (h AND mask 24) OR (h AND NOT (mask 24))"
    unfolding bit.conj_disj_distrib [symmetric] by simp
  ultimately show "(a OR h) AND NOT HANDLE_MASK = h"
    using assms(2) by (simp add: HANDLE_MASK_eq bit.conj_disj_distrib2)
  have "unat (a OR h) mod 2 ^ 24 = unat a"
    using 1 unat_and_mask [of "a OR h" 24] by (simp add: HANDLE_MASK_eq)
  then have "unat (a OR h) mod 2 ^ 24 mod 2 ^ k = unat a mod 2 ^ k" by simp
  then show "unat (a OR h) mod 2 ^ k = unat a mod 2 ^ k"
    using assms(3) by (simp only: mod_mod_cancel le_imp_power_dvd)
qed

lemma Some_mem_update:
  assumes "i < length xs" "xs ! i = None"
  shows "Some p \<in> set (xs[i := Some c]) \<longleftrightarrow> p = c \<or> Some p \<in> set xs"
proof -
  have "set xs = set (take i xs) \<union> {None} \<union> set (drop (Suc i) xs)"
    using id_take_nth_drop [OF assms(1)] assms(2)
    by (metis Un_insert_right list.simps(15) set_append sup_assoc sup_bot.right_neutral Un_insert_left)
  then show ?thesis using assms(1) by (auto simp: upd_conv_take_nth_drop)
qed

lemma register_found:
  assumes inv: "slots_at k ch s" "hs_harbor s AND HANDLE_MASK = 0" "0 < unat (handle_index s)"
    and new: "ctx \<notin> members s"
    and found: "probe_slots (slot_size s) (handle_index s) (hs_slot s) = Some (Some (a, hash))"
  defines "h \<equiv> a OR hs_harbor s"
  shows "\<exists>s'. skynet_handle_register ch ctx s = Some (h, s') \<and> slots_inv (ch(ctx := h)) s'
    \<and> members s' = insert ctx (members s) \<and> local_handle s' h \<and> handle_table ch s h = None
    \<and> name_cap s' = name_cap s \<and> name_count s' = name_count s \<and> hs_name s' = hs_name s
    \<and> hs_harbor s' = hs_harbor s"
proof -
  note D = slots_atD [OF inv(1)]
  from probe_slots_found [OF D(2,3) inv(3) found]
  have a: "hash = unat a mod 2 ^ k" "hs_slot s ! hash = None" "0 < unat a" "unat a < 2 ^ 24" by auto
  have hash: "hash < 2 ^ k" using a(1) by simp
  have hh: "unat h mod 2 ^ k = hash" unfolding h_def using or_harbor(3) [OF a(4) inv(2) D(2)] a(1) by simp
  let ?s = "s\<lparr>hs_slot := (hs_slot s)[hash := Some ctx], handle_index := a + 1\<rparr>"
  have run: "skynet_handle_register ch ctx s = Some (h, ?s)"
    using found hash D(3) by (subst skynet_handle_register.simps) (simp add: h_def)
  have "a \<noteq> 0" using a(3) by auto
  then have loc: "local_handle s h" using or_harbor(1,2) [OF a(4) inv(2) D(2)] by (simp add: local_handle_def h_def)
  have other: "p \<noteq> ctx" if "i < 2 ^ k" "hs_slot s ! i = Some p" for i p
    using that new D(3) by (auto simp: members_def in_set_conv_nth)
  have "slots_at k (ch(ctx := h)) ?s" unfolding slots_at_def
  proof (intro conjI allI impI)
    fix i p assume i: "i < 2 ^ k" and p: "hs_slot ?s ! i = Some p"
    show "unat ((ch(ctx := h)) p) mod 2 ^ k = i" "local_handle ?s ((ch(ctx := h)) p)"
      using i p hash hh loc D(3) D(4) [OF i, of p] D(5) [OF i, of p] other [OF i, of p]
      by (cases "i = hash"; auto simp: local_handle_def)+
  qed (use D in \<open>auto simp: slot_size_def\<close>)
  then have "slots_inv (ch(ctx := h)) ?s" using inv(2) a(3,4) unat_succ_handle [of a]
    by (auto simp: slots_inv_def)
  moreover have "members ?s = insert ctx (members s)"
    using hash a(2) D(3) by (auto simp: members_def Some_mem_update)
  moreover have "handle_table ch s h = None" using a(2) hh by (simp add: handle_table_at [OF inv(1)])
  ultimately show ?thesis using run loc by (auto simp: local_handle_def)
qed

text \<open>
  A registration succeeds when the probing loop meets a free slot or, with the table full,
  the table may still double.
\<close>

definition can_register :: "handle_storage \<Rightarrow> bool" where
  "can_register s \<longleftrightarrow> (\<exists>i < slot_size s. 0 < i \<and> hs_slot s ! i = None)
     \<or> (if hs_slot s ! 0 = None then unat (handle_index s) + slot_size s \<le> 2 ^ 24 else slot_size s < 2 ^ 24)"

lemma register_correct:
  assumes inv: "slots_inv ch s" and can: "can_register s" and new: "ctx \<notin> members s"
  shows "\<exists>h s'. skynet_handle_register ch ctx s = Some (h, s') \<and> slots_inv (ch(ctx := h)) s'
    \<and> members s' = insert ctx (members s) \<and> local_handle s' h \<and> handle_table ch s h = None
    \<and> name_cap s' = name_cap s \<and> name_count s' = name_count s \<and> hs_name s' = hs_name s
    \<and> hs_harbor s' = hs_harbor s"
proof -
  from inv obtain k where k: "slots_at k ch s" and har: "hs_harbor s AND HANDLE_MASK = 0"
    and idx: "0 < unat (handle_index s)" "unat (handle_index s) \<le> 2 ^ 24" by (auto simp: slots_inv_def)
  note D = slots_atD [OF k]
  have sz: "slot_size s = 2 ^ k" using D(3) by (simp add: slot_size_def)
  from probe_slots_total [OF D(2,3)] obtain r
    where r: "probe_slots (slot_size s) (handle_index s) (hs_slot s) = Some r" by blast
  show ?thesis
  proof (cases r)
    case (Some x)
    then obtain a hash where "r = Some (a, hash)" by (cases x) auto
    from register_found [OF k har idx(1) new r [unfolded this]] show ?thesis by (rule exI)
  next
    case None
    have occ: "hs_slot s ! i \<noteq> None" if "i < 2 ^ k" "i = 0 \<Longrightarrow> unat (handle_index s) + 2 ^ k \<le> 2 ^ 24" for i
    proof (rule probe_slots_misses_only_0 [OF D(2,3) idx _ that])
      show "probe_slots (2 ^ k) (handle_index s) (hs_slot s) = Some None" using r None sz by metis
    qed
    have "\<not> (\<exists>i < slot_size s. 0 < i \<and> hs_slot s ! i = None)" using occ sz by auto
    then have z: "hs_slot s ! 0 \<noteq> None" and small: "slot_size s < 2 ^ 24"
      using can occ [of 0] sz by (auto simp: can_register_def split: if_splits)
    have k24: "k < 24"
    proof (rule ccontr)
      assume "\<not> k < 24"
      then have "(2 :: nat) ^ 24 \<le> 2 ^ k" by (intro power_increasing) auto
      then show False using small sz by linarith
    qed
    have "hs_slot s ! i \<noteq> None" if "i < 2 ^ k" for i using z occ [OF that] by (cases "i = 0") auto
    then have full: "None \<notin> set (hs_slot s)" using D(3) by (auto simp: in_set_conv_nth)
    from grow_slots_correct [OF k full k24] obtain s1 i slots
      where s1: "grow_slots ch s = Some s1" "slots_at (Suc k) ch s1" "members s1 = members s"
        "i < 2 ^ Suc k" "0 < i" "hs_slot s1 ! i = None" "s1 = s\<lparr>hs_slot := slots\<rparr>" by blast
    note D1 = slots_atD [OF s1(2)]
    have idx1: "0 < unat (handle_index s1)" "unat (handle_index s1) \<le> 2 ^ 24" using idx s1(7) by auto
    from probe_slots_total [OF D1(2,3)] obtain r1
      where r1: "probe_slots (slot_size s1) (handle_index s1) (hs_slot s1) = Some r1" by blast
    have "r1 \<noteq> None"
    proof
      assume "r1 = None"
      then have "probe_slots (2 ^ Suc k) (handle_index s1) (hs_slot s1) = Some None"
        using r1 D1(3) by (metis slot_size_def)
      from probe_slots_misses_only_0 [OF D1(2,3) idx1 this s1(4)] s1(5,6) show False by fast
    qed
    then obtain a hash where "r1 = Some (a, hash)" by auto
    then have r1': "probe_slots (slot_size s1) (handle_index s1) (hs_slot s1) = Some (Some (a, hash))"
      using r1 by simp
    have "hs_harbor s1 AND HANDLE_MASK = 0" "ctx \<notin> members s1" using har new s1(3,7) by simp_all
    from register_found [OF s1(2) this(1) idx1(1) this(2) r1'] obtain h s'
      where s': "skynet_handle_register ch ctx s1 = Some (h, s')" "slots_inv (ch(ctx := h)) s'"
      "members s' = insert ctx (members s)" "local_handle s' h" "handle_table ch s1 h = None"
      "name_cap s' = name_cap s" "name_count s' = name_count s" "hs_name s' = hs_name s" "hs_harbor s' = hs_harbor s"
      unfolding s1(3) by (auto simp: s1(7))
    have "handle_table ch s h = None"
      using s'(5) s1(3) handle_table_iff [OF k, of h] handle_table_iff [OF s1(2), of h]
      by (cases "handle_table ch s h") auto
    moreover have "skynet_handle_register ch ctx s = Some (h, s')"
      using r None s1(1) s'(1) by (subst skynet_handle_register.simps) simp
    ultimately show ?thesis using s' by blast
  qed
qed

subsection \<open>Retirement\<close>

text \<open>The names in use, in the order of the array.\<close>

definition entries :: "handle_storage \<Rightarrow> handle_name list" where
  "entries s = map the (take (name_count s) (hs_name s))"

definition names_shape :: "handle_storage \<Rightarrow> bool" where
  "names_shape s \<longleftrightarrow> name_cap s = length (hs_name s) \<and> name_count s \<le> name_cap s \<and> 0 < name_cap s
     \<and> None \<notin> set (take (name_count s) (hs_name s))"

lemma length_entries [simp]: "names_shape s \<Longrightarrow> length (entries s) = name_count s"
  by (simp add: entries_def names_shape_def)

lemma names_nth:
  assumes "names_shape s" "i < name_count s"
  shows "i < length (hs_name s)" "hs_name s ! i = Some (entries s ! i)"
proof -
  show i: "i < length (hs_name s)" using assms by (auto simp: names_shape_def)
  have "take (name_count s) (hs_name s) ! i \<in> set (take (name_count s) (hs_name s))"
    using assms i by (intro nth_mem) simp
  then have "hs_name s ! i \<noteq> None" using assms by (cases "hs_name s ! i") (auto simp: names_shape_def)
  then show "hs_name s ! i = Some (entries s ! i)" using assms i by (auto simp: entries_def)
qed

lemma take_drop_Cons: "i < length xs \<Longrightarrow> take (Suc k) (drop i xs) = xs ! i # take k (drop (Suc i) xs)"
  by (simp add: Cons_nth_drop_Suc [symmetric])

lemma compact_names_correct:
  assumes "i + k \<le> length names" "j \<le> i" "None \<notin> set (take k (drop i names))"
  shows "\<exists>j' names'. compact_names h k i j names = Some (j', names') \<and> length names' = length names
    \<and> j' \<le> i + k
    \<and> take j' names' = take j names @ filter (\<lambda>e. snd (the e) \<noteq> h) (take k (drop i names))"
  using assms
proof (induction k arbitrary: i j names)
  case (Suc k)
  have i: "i < length names" using Suc.prems(1) by simp
  note td = take_drop_Cons [OF i, of k]
  have rest: "None \<notin> set (take k (drop (Suc i) names))" using Suc.prems(3) by (simp add: td)
  obtain nm h' where e: "names ! i = Some (nm, h')" using Suc.prems(3) by (cases "names ! i") (auto simp: td)
  consider "h' = h" | "h' \<noteq> h" "i \<noteq> j" | "h' \<noteq> h" "i = j" by blast
  then show ?case
  proof cases
    case 1
    then show ?thesis using Suc.IH [of "Suc i" names j] Suc.prems(1,2) rest i e by (auto simp: td)
  next
    case 2
    let ?names = "names[j := Some (nm, h')]"
    have j: "j < length names" "j < Suc i" using Suc.prems(2) i by auto
    have d: "drop (Suc i) ?names = drop (Suc i) names" using j(2) by simp
    have t: "take (Suc j) ?names = take j names @ [Some (nm, h')]" using j(1) by (simp add: take_Suc_conv_app_nth)
    from Suc.IH [of "Suc i" ?names "Suc j"] Suc.prems(1,2) rest d t 2 i j e show ?thesis by (auto simp: td)
  next
    case 3
    then have "take (Suc j) names = take j names @ [Some (nm, h')]" using i e by (simp add: take_Suc_conv_app_nth)
    with Suc.IH [of "Suc i" names "Suc j"] Suc.prems(1,2) rest 3 i e show ?thesis
      by (auto simp: td [unfolded 3(2)])
  qed
qed simp

lemma retire_correct:
  assumes inv: "slots_inv ch s" and nm: "names_shape s"
  shows "\<exists>s'. skynet_handle_retire ch h s = Some (handle_table ch s h \<noteq> None, handle_table ch s h, s')
    \<and> slots_inv ch s' \<and> names_shape s' \<and> handle_table ch s' = (handle_table ch s)(h := None)
    \<and> entries s' = (if handle_table ch s h = None then entries s else filter (\<lambda>e. snd e \<noteq> h) (entries s))
    \<and> slot_size s' = slot_size s \<and> name_cap s' = name_cap s \<and> hs_harbor s' = hs_harbor s"
proof -
  from inv obtain k where k: "slots_at k ch s" by (auto simp: slots_inv_def)
  note D = slots_atD [OF k]
  let ?i = "unat h mod 2 ^ k"
  have hash: "slot_hash h (slot_size s) = ?i" "?i < length (hs_slot s)"
    using D(2,3) by (simp_all add: slot_size_def slot_hash_pow)
  show ?thesis
  proof (cases "handle_table ch s h")
    case None
    then have "skynet_handle_retire ch h s = Some (False, None, s)"
      using hash by (auto simp: skynet_handle_retire_def handle_table_at [OF k] split: option.splits if_splits)
    then show ?thesis using inv nm None by (simp add: fun_upd_idem)
  next
    case (Some p)
    then have p: "hs_slot s ! ?i = Some p" "ch p = h" by (auto simp: handle_table_at [OF k] split: option.splits if_splits)
    from compact_names_correct [of 0 "name_count s" "hs_name s" 0 h] nm
    obtain j names where c: "compact_names h (name_count s) 0 0 (hs_name s) = Some (j, names)"
      "length names = length (hs_name s)" "j \<le> name_count s"
      "take j names = filter (\<lambda>e. snd (the e) \<noteq> h) (take (name_count s) (hs_name s))"
      by (auto simp: names_shape_def)
    let ?s = "s\<lparr>hs_slot := (hs_slot s)[?i := None], hs_name := names, name_count := j\<rparr>"
    have run: "skynet_handle_retire ch h s = Some (True, Some p, ?s)"
      using hash p c(1) by (simp add: skynet_handle_retire_def)
    have at: "slots_at k ch ?s" using k hash(2)
      by (auto simp: slots_at_def slot_size_def local_handle_def nth_list_update)
    have "handle_table ch ?s h' = ((handle_table ch s)(h := None)) h'" for h'
    proof (cases "unat h' mod 2 ^ k = ?i")
      case True
      then show ?thesis using hash(2) p
        unfolding handle_table_at [OF k] handle_table_at [OF at] fun_upd_def by simp
    next
      case False
      then have "h' \<noteq> h" by blast
      then show ?thesis using False
        unfolding handle_table_at [OF k] handle_table_at [OF at] fun_upd_def by simp
    qed
    moreover have "slots_inv ch ?s" using inv at by (auto simp: slots_inv_def)
    moreover have "names_shape ?s" using nm c by (auto simp: names_shape_def)
    moreover have "entries ?s = filter (\<lambda>e. snd e \<noteq> h) (entries s)"
      using c(4) by (simp add: entries_def filter_map comp_def)
    ultimately show ?thesis using run Some by (auto simp: slot_size_def)
  qed
qed

section \<open>The name directory\<close>

lemma strcmp_less: "strcmp a b = (if a = b then 0 else if a < b then - 1 else 1)"
  by (induction a b rule: strcmp.induct) (auto simp: less_char_def)

definition names_inv :: "handle_storage \<Rightarrow> bool" where
  "names_inv s \<longleftrightarrow> names_shape s \<and> sorted_wrt (<) (map fst (entries s))"

definition name_map :: "handle_storage \<Rightarrow> string \<rightharpoonup> u32" where
  "name_map s = map_of (entries s)"

text \<open>Where the binary search ends: at the entry, or at the place where the name belongs.\<close>

definition search_result :: "handle_name list \<Rightarrow> string \<Rightarrow> u32 + int \<Rightarrow> bool" where
  "search_result es name r \<longleftrightarrow> (case r of
     Inl h \<Rightarrow> (name, h) \<in> set es
   | Inr b \<Rightarrow> 0 \<le> b \<and> b \<le> int (length es) \<and> (\<forall>i < nat b. fst (es ! i) < name)
       \<and> (\<forall>i < length es. nat b \<le> i \<longrightarrow> name < fst (es ! i)))"

lemma name_search_correct:
  assumes "names_shape s" "sorted_wrt (<) (map fst (entries s))"
    and "0 \<le> b" "b \<le> e + 1" "e < int (name_count s)"
    and "\<And>i. i < nat b \<Longrightarrow> fst (entries s ! i) < name"
    and "\<And>i. i < name_count s \<Longrightarrow> e < int i \<Longrightarrow> name < fst (entries s ! i)"
  shows "\<exists>r. name_search (hs_name s) name b e = Some r \<and> search_result (entries s) name r"
  using assms(3-)
proof (induction "hs_name s" name b e rule: name_search.induct)
  case (1 name b e)
  show ?case
  proof (cases "b \<le> e")
    case False
    then have "b = e + 1" using "1.prems"(2) by simp
    then have "search_result (entries s) name (Inr b)"
      using "1.prems" assms(1) by (auto simp: search_result_def)
    moreover have "name_search (hs_name s) name b e = Some (Inr b)"
      using False by (simp add: name_search.simps)
    ultimately show ?thesis by blast
  next
    case True
    define m where "m = (b + e) div 2"
    have m: "b \<le> m" "m \<le> e" "0 \<le> m" "nat m < name_count s" using True "1.prems"(1,3) by (auto simp: m_def)
    obtain nm h where es: "entries s ! nat m = (nm, h)" by fastforce
    then have at: "array_get (hs_name s) (nat m) = Some (Some (nm, h))" using names_nth [OF assms(1) m(4)] by simp
    have mono: "fst (entries s ! i) < fst (entries s ! j)" if "i < j" "j < name_count s" for i j
      using sorted_wrt_nth_less [OF assms(2), of i j] that assms(1) by simp
    note unf = name_search.simps [of "hs_name s" name b e, folded m_def]
    consider "nm = name" | "nm < name" | "name < nm" using less_linear by blast
    then show ?thesis
    proof cases
      case 1
      then have "(name, h) \<in> set (entries s)" using es m(4) assms(1) nth_mem [of "nat m" "entries s"] by simp
      then show ?thesis using 1 True at by (simp add: unf strcmp_less search_result_def)
    next
      case 2
      have "fst (entries s ! i) < name" if "i < nat (m + 1)" for i
      proof -
        have "i = nat m \<or> i < nat m" using that m(3) by linarith
        then show ?thesis using mono [of i "nat m"] 2 es m by (auto intro: less_trans)
      qed
      then have "\<exists>r. name_search (hs_name s) name (m + 1) e = Some r \<and> search_result (entries s) name r"
        using "1.hyps"(1) [OF True refl, folded m_def, OF at refl refl refl] 2 m "1.prems"
        by (simp add: strcmp_less)
      then show ?thesis using 2 True at by (auto simp: unf strcmp_less)
    next
      case 3
      then have ne: "nm \<noteq> name" "\<not> nm < name" by auto
      have "name < fst (entries s ! i)" if "i < name_count s" "m - 1 < int i" for i
      proof -
        have "i = nat m \<or> nat m < i" using that(2) m(3) by linarith
        then show ?thesis using mono [of "nat m" i] that(1) 3 es m by (auto intro: less_trans)
      qed
      then have "\<exists>r. name_search (hs_name s) name b (m - 1) = Some r \<and> search_result (entries s) name r"
        using "1.hyps"(2) [OF True refl, folded m_def, OF at refl refl refl] ne m "1.prems"
        by (simp add: strcmp_less)
      then show ?thesis using 3 True at by (auto simp: unf strcmp_less)
    qed
  qed
qed

lemma search_names:
  assumes "names_inv s"
  shows "\<exists>r. name_search (hs_name s) name 0 (int (name_count s) - 1) = Some r
    \<and> search_result (entries s) name r"
  using assms by (intro name_search_correct) (auto simp: names_inv_def)

lemma names_inv_distinct:
  assumes "names_inv s"
  shows "distinct (map fst (entries s))"
  using assms unfolding names_inv_def by (metis strict_sorted_iff sorted_wrt_map)

lemma name_map_eq_Some: "names_inv s \<Longrightarrow> name_map s name = Some h \<longleftrightarrow> (name, h) \<in> set (entries s)"
  using names_inv_distinct [of s] by (simp add: name_map_def)

lemma search_result_map:
  assumes "names_inv s" "search_result (entries s) name r"
  shows "name_map s name = (case r of Inl h \<Rightarrow> Some h | Inr _ \<Rightarrow> None)"
proof (cases r)
  case (Inl h)
  then show ?thesis using assms by (simp add: name_map_eq_Some search_result_def)
next
  case (Inr b)
  have "name \<noteq> fst (entries s ! i)" if "i < length (entries s)" for i
    using assms(2) Inr that by (cases "i < nat b") (auto simp: search_result_def)
  then have "name \<notin> fst ` set (entries s)" by (force simp: in_set_conv_nth)
  then show ?thesis using Inr by (simp add: name_map_def map_of_eq_None_iff)
qed

lemma findname_correct:
  assumes "names_inv s"
  shows "skynet_handle_findname name s = Some (case name_map s name of Some h \<Rightarrow> h | None \<Rightarrow> 0)"
  using search_names [OF assms, of name] search_result_map [OF assms, of name]
  by (auto simp: skynet_handle_findname_def split: sum.split)

subsection \<open>Inserting a name\<close>

lemma copy_names_correct:
  assumes "i + k \<le> length names" "i + off + k \<le> length n"
  shows "\<exists>n'. copy_names k i off names n = Some n' \<and> length n' = length n
    \<and> (\<forall>x < length n. n' ! x = (if i + off \<le> x \<and> x < i + off + k then names ! (x - off) else n ! x))"
  using assms
proof (induction k arbitrary: i n)
  case (Suc k)
  let ?n = "n[i + off := names ! i]"
  from Suc.IH [of "i + 1" ?n] Suc.prems obtain n' where n': "copy_names k (i + 1) off names ?n = Some n'"
    "length n' = length n"
    "\<forall>x < length n. n' ! x = (if i + 1 + off \<le> x \<and> x < i + 1 + off + k then names ! (x - off) else ?n ! x)"
    by auto
  have "n' ! x = (if i + off \<le> x \<and> x < i + off + Suc k then names ! (x - off) else n ! x)"
    if "x < length n" for x
    using n'(3) that Suc.prems by (cases "x = i + off") auto
  then show ?case using n'(1,2) Suc.prems by auto
qed auto

lemma shift_names_correct:
  assumes "k \<le> i" "i < length names"
  shows "\<exists>n'. shift_names k i names = Some n' \<and> length n' = length names
    \<and> (\<forall>x < length names. n' ! x = (if i - k < x \<and> x \<le> i then names ! (x - 1) else names ! x))"
  using assms
proof (induction k arbitrary: i names)
  case (Suc k)
  obtain i' where i: "i = Suc i'" using Suc.prems(1) by (cases i) auto
  let ?n = "names[i := names ! i']"
  from Suc.IH [of i' ?n] Suc.prems i obtain n' where n': "shift_names k i' ?n = Some n'"
    "length n' = length names"
    "\<forall>x < length names. n' ! x = (if i' - k < x \<and> x \<le> i' then ?n ! (x - 1) else ?n ! x)"
    by auto
  have "n' ! x = (if i - Suc k < x \<and> x \<le> i then names ! (x - 1) else names ! x)"
    if "x < length names" for x
    using n'(3) that Suc.prems i by (cases "x = i") auto
  then show ?case using n'(1,2) Suc.prems i by auto
qed auto

lemma names_shapeI:
  assumes "name_cap s = length (hs_name s)" "name_count s \<le> name_cap s" "0 < name_cap s"
    "length es = name_count s" "\<And>i. i < name_count s \<Longrightarrow> hs_name s ! i = Some (es ! i)"
  shows "names_shape s" "entries s = es"
proof -
  have t: "take (name_count s) (hs_name s) = map Some es"
    using assms by (intro nth_equalityI) auto
  show "names_shape s" using assms(1-3) by (auto simp: names_shape_def t)
  show "entries s = es" by (simp add: entries_def t comp_def)
qed

definition room_for_name :: "handle_storage \<Rightarrow> bool" where
  "room_for_name s \<longleftrightarrow> name_count s < name_cap s \<or> name_cap s * 2 \<le> MAX_SLOT_SIZE"

lemma insert_name_before_correct:
  assumes sh: "names_shape s" and room: "room_for_name s" and b: "b \<le> name_count s"
  shows "\<exists>s'. insert_name_before name h b s = Some s' \<and> names_shape s'
    \<and> entries s' = take b (entries s) @ (name, h) # drop b (entries s)
    \<and> hs_slot s' = hs_slot s \<and> handle_index s' = handle_index s \<and> hs_harbor s' = hs_harbor s
    \<and> name_count s' = name_count s + 1"
proof -
  let ?c = "name_count s" and ?es = "take b (entries s) @ (name, h) # drop b (entries s)"
  have sh': "name_cap s = length (hs_name s)" "?c \<le> name_cap s" "0 < name_cap s"
    using sh by (auto simp: names_shape_def)
  have "\<exists>cap n. insert_name_before name h b s
      = Some (s\<lparr>name_cap := cap, hs_name := n[b := Some (name, h)], name_count := ?c + 1\<rparr>)
    \<and> cap = length n \<and> ?c < cap \<and> (\<forall>i < b. n ! i = hs_name s ! i) \<and> (\<forall>i < ?c. b \<le> i \<longrightarrow> n ! Suc i = hs_name s ! i)"
  proof (cases "?c \<ge> name_cap s")
    case True
    let ?cap = "name_cap s * 2"
    from copy_names_correct [of 0 b "hs_name s" 0 "replicate ?cap None"] b sh' True
    obtain n1 where n1: "copy_names b 0 0 (hs_name s) (replicate ?cap None) = Some n1" "length n1 = ?cap"
      "\<forall>x < ?cap. x < b \<longrightarrow> n1 ! x = hs_name s ! x" by auto
    from copy_names_correct [of b "?c - b" "hs_name s" 1 n1] b sh' True n1(2)
    obtain n2 where n2: "copy_names (?c - b) b 1 (hs_name s) n1 = Some n2" "length n2 = ?cap"
      "\<forall>x < ?cap. n2 ! x = (if b + 1 \<le> x \<and> x < b + 1 + (?c - b) then hs_name s ! (x - 1) else n1 ! x)" by auto
    have "?cap \<le> MAX_SLOT_SIZE" using room True by (auto simp: room_for_name_def)
    moreover have "array_set n2 b (Some (name, h)) = Some (n2[b := Some (name, h)])"
      using b sh'(2,3) n2(2) by (intro array_set_Some) linarith
    ultimately have "insert_name_before name h b s
        = Some (s\<lparr>name_cap := ?cap, hs_name := n2[b := Some (name, h)], name_count := ?c + 1\<rparr>)"
      using True n1(1) n2(1) by (simp add: insert_name_before_def Let_def)
    moreover have "0 < ?c" using True sh'(3) by linarith
    ultimately show ?thesis using n1(2,3) n2(2,3) b sh'(1,2) True
      by (intro exI [of _ ?cap] exI [of _ n2]) auto
  next
    case False
    from shift_names_correct [of "?c - b" ?c "hs_name s"] b sh' False
    obtain n1 where n1: "shift_names (?c - b) ?c (hs_name s) = Some n1" "length n1 = name_cap s"
      "\<forall>x < name_cap s. n1 ! x = (if ?c - (?c - b) < x \<and> x \<le> ?c then hs_name s ! (x - 1) else hs_name s ! x)"
      by auto
    have "insert_name_before name h b s
        = Some (s\<lparr>name_cap := name_cap s, hs_name := n1[b := Some (name, h)], name_count := ?c + 1\<rparr>)"
      using False n1(1,2) b by (simp add: insert_name_before_def)
    then show ?thesis using n1(2,3) b False by (intro exI [of _ "name_cap s"] exI [of _ n1]) auto
  qed
  then obtain cap n where s': "insert_name_before name h b s
      = Some (s\<lparr>name_cap := cap, hs_name := n[b := Some (name, h)], name_count := ?c + 1\<rparr>)"
    "cap = length n" "?c < cap" "\<And>i. i < b \<Longrightarrow> n ! i = hs_name s ! i"
    "\<And>i. i < ?c \<Longrightarrow> b \<le> i \<Longrightarrow> n ! Suc i = hs_name s ! i" by blast
  have "n[b := Some (name, h)] ! i = Some (?es ! i)" if i: "i < ?c + 1" for i
  proof -
    consider "i < b" | "i = b" | j where "i = Suc j" "b \<le> j" "j < ?c"
      using i by (cases i) (force simp: not_less_eq_eq)+
    then show ?thesis
      using s'(2-) b sh names_nth(2) [OF sh] by cases (auto simp: nth_append min_def)
  qed
  then have nth: "n[b := Some (name, h)] ! i = Some (?es ! i)" if "i < ?c + 1" for i using that by blast
  let ?s = "s\<lparr>name_cap := cap, hs_name := n[b := Some (name, h)], name_count := ?c + 1\<rparr>"
  have "names_shape ?s" "entries ?s = ?es"
    by (rule names_shapeI [of ?s ?es]; use nth s'(2,3) b sh in \<open>auto simp del: nth_list_update_eq\<close>)+
  then show ?thesis using s'(1) by auto
qed

lemma sorted_insert_at:
  assumes "sorted_wrt (<) (map fst es)" "b \<le> length es"
    "\<forall>i < b. fst (es ! i) < name" "\<forall>i < length es. b \<le> i \<longrightarrow> name < fst (es ! i)"
  shows "sorted_wrt (<) (map fst (take b es @ (name :: string, h) # drop b es))"
proof -
  have "x \<in> fst ` set (take b es) \<Longrightarrow> x < name" for x using assms(2,3) by (force simp: in_set_conv_nth)
  moreover have "x \<in> fst ` set (drop b es) \<Longrightarrow> name < x" for x
    using assms(2,4) by (auto simp: in_set_conv_nth) (metis add.commute fst_conv le_add2 less_diff_conv)
  moreover have "sorted_wrt (<) (map fst (take b es) @ map fst (drop b es))"
    using assms(1) by (metis append_take_drop_id map_append)
  ultimately show ?thesis by (auto simp: sorted_wrt_append)
qed

lemma namehandle_correct:
  assumes inv: "names_inv s" and room: "room_for_name s"
  shows "\<exists>s'. skynet_handle_namehandle h name s
      = Some (if name_map s name = None then Some name else None, s') \<and> names_inv s'
    \<and> name_map s' = (if name_map s name = None then (name_map s)(name \<mapsto> h) else name_map s)
    \<and> hs_slot s' = hs_slot s \<and> handle_index s' = handle_index s \<and> hs_harbor s' = hs_harbor s"
proof -
  from search_names [OF inv, of name] obtain r
    where r: "name_search (hs_name s) name 0 (int (name_count s) - 1) = Some r"
      "search_result (entries s) name r" by blast
  show ?thesis
  proof (cases r)
    case (Inl h')
    then show ?thesis using r search_result_map [OF inv r(2)] inv
      by (auto simp: skynet_handle_namehandle_def insert_name_def)
  next
    case (Inr b)
    have none: "name_map s name = None" using search_result_map [OF inv r(2)] Inr by simp
    have sh: "names_shape s" using inv by (simp add: names_inv_def)
    have b: "nat b \<le> name_count s" using r(2) Inr sh by (auto simp: search_result_def)
    from insert_name_before_correct [OF sh room b, of name h] obtain s'
      where s': "insert_name_before name h (nat b) s = Some s'" "names_shape s'"
        "entries s' = take (nat b) (entries s) @ (name, h) # drop (nat b) (entries s)"
        "hs_slot s' = hs_slot s" "handle_index s' = handle_index s" "hs_harbor s' = hs_harbor s" by blast
    have sorted: "names_inv s'" using sorted_insert_at [of "entries s" "nat b" name h] r(2) Inr inv s' sh b
      by (auto simp: names_inv_def search_result_def)
    have set: "set (entries s') = insert (name, h) (set (entries s))"
      unfolding s'(3) by (metis Un_insert_right append_take_drop_id list.simps(15) set_append)
    have "name_map s' x = ((name_map s)(name \<mapsto> h)) x" for x
    proof -
      have "name_map s' x = Some y \<longleftrightarrow> ((name_map s)(name \<mapsto> h)) x = Some y" for y
      proof -
        have "name_map s' x = Some y \<longleftrightarrow> (x, y) = (name, h) \<or> name_map s x = Some y"
          unfolding name_map_eq_Some [OF sorted] name_map_eq_Some [OF inv] set by blast
        then show ?thesis using none by (cases "x = name") auto
      qed
      then show ?thesis by (metis not_None_eq)
    qed
    then show ?thesis using r Inr s' sorted none
      by (auto simp: skynet_handle_namehandle_def insert_name_def)
  qed
qed

section \<open>The whole storage\<close>

definition handle_inv :: "(nat \<Rightarrow> u32) \<Rightarrow> handle_storage \<Rightarrow> bool" where
  "handle_inv ch s \<longleftrightarrow> slots_inv ch s \<and> names_inv s"

lemma handle_init_inv [inv_intros]: "handle_inv ch (skynet_handle_init harbor)"
proof -
  have "(push_bit 24 (harbor AND 0xff) AND mask 24 :: u32) = 0"
    by (rule bit_eqI) (auto simp: bit_simps)
  then show ?thesis
    by (auto simp: handle_inv_def slots_inv_def slots_at_def slot_size_def names_inv_def names_shape_def
        entries_def skynet_handle_init_def DEFAULT_SLOT_SIZE_def HANDLE_REMOTE_SHIFT_def HANDLE_MASK_eq
        intro!: exI [of _ "2 :: nat"])
qed

lemma handle_table_init: "handle_table ch (skynet_handle_init harbor) = Map.empty"
proof -
  have at: "slots_at 2 ch (skynet_handle_init harbor)"
    by (auto simp: slots_at_def slot_size_def skynet_handle_init_def DEFAULT_SLOT_SIZE_def)
  have "hs_slot (skynet_handle_init harbor) ! (unat h mod 2 ^ 2) = None" for h :: u32
    by (simp add: skynet_handle_init_def DEFAULT_SLOT_SIZE_def)
  then show ?thesis unfolding fun_eq_iff handle_table_at [OF at] by simp
qed

lemma retire_inv:
  assumes "handle_inv ch s"
  shows "\<exists>s'. skynet_handle_retire ch h s = Some (handle_table ch s h \<noteq> None, handle_table ch s h, s')
    \<and> handle_inv ch s' \<and> handle_table ch s' = (handle_table ch s)(h := None)
    \<and> entries s' = (if handle_table ch s h = None then entries s else filter (\<lambda>e. snd e \<noteq> h) (entries s))
    \<and> slot_size s' = slot_size s \<and> hs_harbor s' = hs_harbor s"
proof -
  have s: "slots_inv ch s" "names_shape s" "sorted_wrt (<) (map fst (entries s))"
    using assms by (auto simp: handle_inv_def names_inv_def)
  have "sorted_wrt (<) (map fst (filter (\<lambda>e. snd e \<noteq> h) (entries s)))"
    using s(3) by (simp add: sorted_wrt_map sorted_wrt_filter)
  with s(3) retire_correct [OF s(1,2), of h] show ?thesis
    unfolding handle_inv_def names_inv_def by (cases "handle_table ch s h") auto
qed

lemma slots_at_inv: "slots_inv ch s \<Longrightarrow> slot_size s = 2 ^ k \<Longrightarrow> slots_at k ch s"
  by (auto simp: slots_inv_def slots_at_def)

lemma retire_pass_correct:
  assumes "handle_inv ch s" "slot_size s = 2 ^ m" "i + k = 2 ^ m"
  shows "\<exists>rels s'. retire_pass ch k i s = Some (rels, s') \<and> handle_inv ch s' \<and> slot_size s' = 2 ^ m
    \<and> handle_table ch s' = (\<lambda>h. if i \<le> unat h mod 2 ^ m then None else handle_table ch s h)
    \<and> distinct rels \<and> set rels = {p. handle_table ch s (ch p) = Some p \<and> i \<le> unat (ch p) mod 2 ^ m}"
  using assms
proof (induction k arbitrary: i s)
  case 0
  have "\<not> i \<le> unat h mod 2 ^ m" for h :: u32 using 0(3) by (simp add: not_le)
  then show ?case using 0 by auto
next
  case (Suc k)
  have at: "slots_at m ch s" using Suc.prems(1,2) slots_at_inv by (auto simp: handle_inv_def)
  note D = slots_atD [OF at]
  have i: "i < 2 ^ m" using Suc.prems(3) by simp
  have split: "i \<le> x \<longleftrightarrow> x = i \<or> i + 1 \<le> x" for x by auto
  show ?case
  proof (cases "hs_slot s ! i")
    case None
    have none: "handle_table ch s h = None" if "unat h mod 2 ^ m = i" for h
      using that None by (simp add: handle_table_at [OF at])
    have "retire_pass ch (Suc k) i s = retire_pass ch k (i + 1) s" using None i D(3) by simp
    with Suc.IH [OF Suc.prems(1,2), of "i + 1"] Suc.prems(3) none show ?thesis
      unfolding split [of "unat _ mod 2 ^ m"] by (auto simp: fun_eq_iff)
  next
    case (Some p)
    have p: "unat (ch p) mod 2 ^ m = i" "local_handle s (ch p)" using D(4,5) [OF i Some] by auto
    have nz: "ch p \<noteq> 0" using p(2) by (auto simp: local_handle_def)
    have tp: "handle_table ch s (ch p) = Some p" using Some p by (simp add: handle_table_at [OF at])
    have only: "handle_table ch s h = None" if "unat h mod 2 ^ m = i" "h \<noteq> ch p" for h
      using that Some by (simp add: handle_table_at [OF at])
    from retire_inv [OF Suc.prems(1), of "ch p"] tp Suc.prems(2) obtain s1
      where s1: "skynet_handle_retire ch (ch p) s = Some (True, Some p, s1)" "handle_inv ch s1"
        "handle_table ch s1 = (handle_table ch s)(ch p := None)" "slot_size s1 = 2 ^ m" by auto
    from Suc.IH [OF s1(2,4), of "i + 1"] Suc.prems(3) obtain rels s'
      where s': "retire_pass ch k (i + 1) s1 = Some (rels, s')" "handle_inv ch s'" "slot_size s' = 2 ^ m"
        "handle_table ch s' = (\<lambda>h. if i + 1 \<le> unat h mod 2 ^ m then None else handle_table ch s1 h)"
        "distinct rels" "set rels = {q. handle_table ch s1 (ch q) = Some q \<and> i + 1 \<le> unat (ch q) mod 2 ^ m}"
      by auto
    have "retire_pass ch (Suc k) i s = Some (p # rels, s')"
      using Some i D(3) nz s1(1) s'(1) by simp
    moreover have "handle_table ch s' = (\<lambda>h. if i \<le> unat h mod 2 ^ m then None else handle_table ch s h)"
      unfolding s'(4) s1(3) fun_eq_iff using only p(1) by (auto simp: split)
    moreover have "distinct (p # rels)" using s'(5,6) p(1) by auto
    moreover have "set (p # rels) = {q. handle_table ch s (ch q) = Some q \<and> i \<le> unat (ch q) mod 2 ^ m}"
    proof -
      have "q = p" if "handle_table ch s (ch q) = Some q" "unat (ch q) mod 2 ^ m = i" for q
      proof -
        have "ch q = ch p" using only [OF that(2)] that(1) by force
        then show ?thesis using that(1) tp by (metis option.inject)
      qed
      then have one: "(handle_table ch s (ch q) = Some q \<and> unat (ch q) mod 2 ^ m = i) \<longleftrightarrow> q = p" for q
        using tp p(1) by blast
      have "set rels = {q. handle_table ch s (ch q) = Some q \<and> i + 1 \<le> unat (ch q) mod 2 ^ m}"
        unfolding s'(6) s1(3) fun_upd_def using p(1) by (intro Collect_cong) (metis not_less_eq_eq order_refl Suc_eq_plus1)
      then show ?thesis unfolding split conj_disj_distribL one Collect_disj_eq by simp
    qed
    ultimately show ?thesis using s'(2,3) by blast
  qed
qed

lemma retireall_correct:
  assumes "handle_inv ch s"
  shows "\<exists>rels s'. skynet_handle_retireall ch s = Some (rels, s') \<and> handle_inv ch s'
    \<and> handle_table ch s' = Map.empty \<and> distinct rels \<and> set rels = ran (handle_table ch s)"
proof -
  obtain m where m: "slot_size s = 2 ^ m" using assms by (auto simp: handle_inv_def slots_inv_def slots_at_def)
  from retire_pass_correct [OF assms m, of 0] obtain rels s1
    where s1: "retire_pass ch (slot_size s) 0 s = Some (rels, s1)" "handle_inv ch s1" "slot_size s1 = 2 ^ m"
      "handle_table ch s1 = Map.empty" "distinct rels" "set rels = {p. handle_table ch s (ch p) = Some p}"
    by (auto simp: m)
  have "slots_at m ch s" using assms m slots_at_inv by (auto simp: handle_inv_def)
  then have rels: "set rels = ran (handle_table ch s)"
    unfolding s1(6) ran_def by (auto simp: handle_table_iff)
  from retire_pass_correct [OF s1(2,3), of 0] obtain rels2 s2
    where s2: "retire_pass ch (slot_size s1) 0 s1 = Some (rels2, s2)" "handle_inv ch s2"
      "handle_table ch s2 = Map.empty" "set rels2 = {}"
    by (auto simp: s1(3,4))
  have stop: "skynet_handle_retireall ch s1 = Some ([], s2)"
    using s2(1,4) by (subst skynet_handle_retireall.simps) simp
  show ?thesis
  proof (cases "rels = []")
    case True
    then have "skynet_handle_retireall ch s = Some ([], s1)"
      using s1(1) by (subst skynet_handle_retireall.simps) simp
    then show ?thesis using True s1 rels by auto
  next
    case False
    then have "skynet_handle_retireall ch s = Some (rels, s2)"
      using s1(1) stop by (subst skynet_handle_retireall.simps) simp
    then show ?thesis using s2 s1(5) rels by auto
  qed
qed

section \<open>The interface of a directory\<close>

text \<open>
  What the name functions promise to their callers: a map to which names are added once.
\<close>

locale directory =
  fixes inv :: "'s \<Rightarrow> bool"
    and contents :: "'s \<Rightarrow> 'k \<rightharpoonup> 'v"
    and room :: "'s \<Rightarrow> bool"
    and valid :: "'v \<Rightarrow> bool"
    and add :: "'k \<Rightarrow> 'v \<Rightarrow> 's \<Rightarrow> (bool \<times> 's) option"
    and find :: "'k \<Rightarrow> 's \<Rightarrow> 'v option option"
  assumes add_law: "inv s \<Longrightarrow> room s \<Longrightarrow> valid v \<Longrightarrow> \<exists>s'. add k v s = Some (contents s k = None, s') \<and> inv s'
      \<and> contents s' = (if contents s k = None then (contents s)(k \<mapsto> v) else contents s)"
    and find_law: "inv s \<Longrightarrow> find k s = Some (contents s k)"
begin

lemma find_added:
  assumes "inv s" "room s" "valid v" "find k s = Some None"
  shows "\<exists>s'. add k v s = Some (True, s') \<and> inv s' \<and> find k s' = Some (Some v)
    \<and> (\<forall>k'. k' \<noteq> k \<longrightarrow> find k' s' = find k' s)"
  using add_law [OF assms(1-3), of k] find_law assms by auto

lemma first_wins:
  assumes "inv s" "room s" "valid v" "find k s = Some (Some v0)"
  shows "\<exists>s'. add k v s = Some (False, s') \<and> inv s' \<and> (\<forall>k'. find k' s' = find k' s)"
  using add_law [OF assms(1-3), of k] find_law assms by auto

end

text \<open>
  The name functions as a directory: a null result is a refused name, handle 0 an absent one.
  Handles in use are not 0.
\<close>

definition names_ok :: "handle_storage \<Rightarrow> bool" where
  "names_ok s \<longleftrightarrow> names_inv s \<and> 0 \<notin> ran (name_map s)"

definition dir_add :: "string \<Rightarrow> u32 \<Rightarrow> handle_storage \<Rightarrow> (bool \<times> handle_storage) option" where
  "dir_add name h s = map_option (\<lambda>(r, s'). (r \<noteq> None, s')) (skynet_handle_namehandle h name s)"

definition dir_find :: "string \<Rightarrow> handle_storage \<Rightarrow> u32 option option" where
  "dir_find name s = map_option (\<lambda>h. if h = 0 then None else Some h) (skynet_handle_findname name s)"

lemma dir_find_eq: "names_ok s \<Longrightarrow> dir_find name s = Some (name_map s name)"
  using findname_correct [of s name]
  by (cases "name_map s name") (auto simp: names_ok_def dir_find_def ran_def)

lemma findname_dir:
  "names_ok s \<Longrightarrow> skynet_handle_findname name s = Some (case dir_find name s of Some (Some h) \<Rightarrow> h | _ \<Rightarrow> 0)"
  using findname_correct [of s name] dir_find_eq [of s name]
  by (cases "name_map s name") (simp_all add: names_ok_def)

lemma dir_add_eq:
  assumes "names_ok s" "room_for_name s" "h \<noteq> 0"
  shows "\<exists>s'. dir_add name h s = Some (name_map s name = None, s') \<and> names_ok s'
    \<and> name_map s' = (if name_map s name = None then (name_map s)(name \<mapsto> h) else name_map s)"
  using namehandle_correct [of s h name] assms
  by (cases "name_map s name") (auto simp: names_ok_def dir_add_def ran_def)

interpretation names: directory names_ok name_map room_for_name "\<lambda>h. h \<noteq> 0" dir_add dir_find
  by unfold_locales (simp_all add: dir_add_eq dir_find_eq)

section \<open>Properties\<close>

text \<open>
  Property C9. \<^verbatim>\<open>skynet_handle_register\<close> returns a handle that was not in use, with a nonzero
  local part below the harbor id, doubling the table as often as needed; once the context
  carries the handle, \<^verbatim>\<open>skynet_handle_grab\<close> finds exactly this context under it, and every
  other handle still leads where it led before. The hypothesis is that the probing loop can
  reach a free slot or the table may grow.
\<close>

theorem register_fresh:
  assumes "handle_inv ch s" "can_register s" "ctx \<notin> members s"
  shows "\<exists>h s'. skynet_handle_register ch ctx s = Some (h, s') \<and> handle_inv (ch(ctx := h)) s'
    \<and> h AND HANDLE_MASK \<noteq> 0 \<and> h AND NOT HANDLE_MASK = hs_harbor s'
    \<and> skynet_handle_grab ch h s = Some None \<and> skynet_handle_grab (ch(ctx := h)) h s' = Some (Some ctx)
    \<and> (\<forall>h'. h' \<noteq> h \<longrightarrow> skynet_handle_grab (ch(ctx := h)) h' s' = skynet_handle_grab ch h' s)"
proof -
  have inv: "slots_inv ch s" using assms(1) by (simp add: handle_inv_def)
  from register_correct [OF inv assms(2,3)] obtain h s'
    where s': "skynet_handle_register ch ctx s = Some (h, s')" "slots_inv (ch(ctx := h)) s'"
      "members s' = insert ctx (members s)" "local_handle s' h" "handle_table ch s h = None"
      "name_cap s' = name_cap s" "name_count s' = name_count s" "hs_name s' = hs_name s" by blast
  obtain k k' where k: "slots_at k ch s" "slots_at k' (ch(ctx := h)) s'" using inv s'(2) by (auto simp: slots_inv_def)
  have names: "names_inv s'" using assms(1) s'(6-8) by (auto simp: handle_inv_def names_inv_def names_shape_def entries_def)
  have "handle_table (ch(ctx := h)) s' h' = ((handle_table ch s)(h \<mapsto> ctx)) h'" for h'
  proof -
    have "handle_table (ch(ctx := h)) s' h' = Some p \<longleftrightarrow> ((handle_table ch s)(h \<mapsto> ctx)) h' = Some p" for p
      using s'(5) assms(3) handle_table_iff [OF k(1), of h p] unfolding handle_table_iff [OF k(2)] s'(3)
      by (cases "h' = h"; cases "p = ctx") (auto simp: handle_table_iff [OF k(1)])
    then show ?thesis by (metis not_None_eq)
  qed
  then show ?thesis using s'(1,2,4,5) names
    by (auto simp: handle_inv_def local_handle_def grab_total [OF inv] grab_total [OF s'(2)])
qed

theorem register_fresh_witness:
  "\<exists>h s'. skynet_handle_register (\<lambda>_. 0) 7 (skynet_handle_init 1) = Some (h, s')
    \<and> handle_inv ((\<lambda>_. 0)(7 := h)) s' \<and> h AND HANDLE_MASK \<noteq> 0 \<and> h AND NOT HANDLE_MASK = hs_harbor s'
    \<and> skynet_handle_grab (\<lambda>_. 0) h (skynet_handle_init 1) = Some None
    \<and> skynet_handle_grab ((\<lambda>_. 0)(7 := h)) h s' = Some (Some 7)
    \<and> (\<forall>h'. h' \<noteq> h \<longrightarrow> skynet_handle_grab ((\<lambda>_. 0)(7 := h)) h' s'
         = skynet_handle_grab (\<lambda>_. 0) h' (skynet_handle_init 1))"
proof (rule register_fresh)
  show "can_register (skynet_handle_init 1)"
    by (auto simp: can_register_def skynet_handle_init_def slot_size_def DEFAULT_SLOT_SIZE_def)
  show "7 \<notin> members (skynet_handle_init 1)" by (auto simp: members_def skynet_handle_init_def)
qed (rule handle_init_inv)

text \<open>
  Property C10. \<^verbatim>\<open>skynet_handle_retire\<close> returns; when the handle is in use it gives back its
  context for release, afterwards the handle leads nowhere and no name leads to it any more,
  while every other handle and every name of another handle is kept. Retiring a handle that
  is not in use changes nothing.
\<close>

theorem retire_forgets:
  assumes "handle_inv ch s"
  shows "\<exists>r s'. skynet_handle_grab ch h s = Some r \<and> skynet_handle_retire ch h s = Some (r \<noteq> None, r, s')
    \<and> handle_inv ch s' \<and> skynet_handle_grab ch h s' = Some None
    \<and> (\<forall>h'. h' \<noteq> h \<longrightarrow> skynet_handle_grab ch h' s' = skynet_handle_grab ch h' s)
    \<and> (r \<noteq> None \<longrightarrow> name_map s' = (\<lambda>n. if name_map s n = Some h then None else name_map s n))
    \<and> (r = None \<longrightarrow> name_map s' = name_map s)"
proof -
  from retire_inv [OF assms, of h] obtain s'
    where s': "skynet_handle_retire ch h s = Some (handle_table ch s h \<noteq> None, handle_table ch s h, s')"
      "handle_inv ch s'" "handle_table ch s' = (handle_table ch s)(h := None)"
      "entries s' = (if handle_table ch s h = None then entries s else filter (\<lambda>e. snd e \<noteq> h) (entries s))"
    by blast
  have inv: "names_inv s" "names_inv s'" "slots_inv ch s" "slots_inv ch s'"
    using assms s'(2) by (auto simp: handle_inv_def)
  have "name_map s' = (\<lambda>n. if name_map s n = Some h then None else name_map s n)" if "handle_table ch s h \<noteq> None"
  proof
    fix n
    have iff: "name_map s' n = Some x \<longleftrightarrow> name_map s n = Some x \<and> x \<noteq> h" for x
      using that unfolding name_map_eq_Some [OF inv(2)] name_map_eq_Some [OF inv(1)] s'(4) by auto
    show "name_map s' n = (if name_map s n = Some h then None else name_map s n)"
    proof (cases "name_map s n")
      case None
      then show ?thesis using iff by (metis not_None_eq option.discI)
    next
      case (Some x)
      then show ?thesis using iff [of x] iff [of "the (name_map s' n)"] by (cases "name_map s' n") auto
    qed
  qed
  moreover have "name_map s' = name_map s" if "handle_table ch s h = None"
    using that s'(4) by (simp add: name_map_def)
  ultimately show ?thesis using s' by (auto simp: grab_total [OF inv(3)] grab_total [OF inv(4)])
qed

definition demo_storage :: handle_storage where
  "demo_storage = \<lparr>hs_harbor = 0x01000000, handle_index = 2, hs_slot = [None, Some 7, None, None],
     name_cap = 2, name_count = 1, hs_name = [Some (''gate'', 0x01000001), None]\<rparr>"

definition demo_ch :: "nat \<Rightarrow> u32" where
  "demo_ch p = 0x01000001"

lemma demo_storage_inv: "handle_inv demo_ch demo_storage"
proof -
  have "slots_at 2 demo_ch demo_storage"
    by (auto simp: slots_at_def slot_size_def local_handle_def demo_storage_def demo_ch_def HANDLE_MASK_def
        nth_Cons split: nat.splits)
  then show ?thesis
    by (auto simp: handle_inv_def slots_inv_def names_inv_def names_shape_def entries_def demo_storage_def
        HANDLE_MASK_def)
qed

lemma demo_storage_grab: "skynet_handle_grab demo_ch 0x01000001 demo_storage = Some (Some 7)"
  by (simp add: skynet_handle_grab_def demo_storage_def demo_ch_def slot_size_def slot_hash_def)

theorem retire_forgets_witness:
  "\<exists>s'. skynet_handle_retire demo_ch 0x01000001 demo_storage = Some (True, Some 7, s')
    \<and> skynet_handle_grab demo_ch 0x01000001 s' = Some None \<and> name_map s' ''gate'' = None"
  using retire_forgets [OF demo_storage_inv, of "0x01000001"] demo_storage_grab
  by (auto simp: name_map_def entries_def demo_storage_def)

text \<open>
  Property C19. \<^verbatim>\<open>skynet_handle_retireall\<close> ends: it gives every registered context back for
  release, each exactly once, and leaves no handle in use.
\<close>

theorem retireall_empties:
  assumes "handle_inv ch s"
  shows "\<exists>rels s'. skynet_handle_retireall ch s = Some (rels, s') \<and> handle_inv ch s'
    \<and> (\<forall>h. skynet_handle_grab ch h s' = Some None)
    \<and> distinct rels \<and> set rels = {p. \<exists>h. skynet_handle_grab ch h s = Some (Some p)}"
proof -
  from retireall_correct [OF assms] obtain rels s'
    where s': "skynet_handle_retireall ch s = Some (rels, s')" "handle_inv ch s'"
      "handle_table ch s' = Map.empty" "distinct rels" "set rels = ran (handle_table ch s)" by blast
  have "skynet_handle_grab ch h s = Some (handle_table ch s h)"
    "skynet_handle_grab ch h s' = Some (handle_table ch s' h)" for h
    using grab_total assms s'(2) by (auto simp: handle_inv_def)
  then show ?thesis using s' by (auto simp: ran_def)
qed

theorem retireall_empties_witness:
  "\<exists>rels s'. skynet_handle_retireall demo_ch demo_storage = Some (rels, s') \<and> handle_inv demo_ch s'
    \<and> (\<forall>h. skynet_handle_grab demo_ch h s' = Some None)
    \<and> distinct rels \<and> set rels = {p. \<exists>h. skynet_handle_grab demo_ch h demo_storage = Some (Some p)}"
  by (rule retireall_empties [OF demo_storage_inv])

text \<open>
  Property C18. Names: the binary search of \<^verbatim>\<open>skynet_handle_findname\<close> and the sorted insertion of
  \<^verbatim>\<open>skynet_handle_namehandle\<close> implement a map. A new name is found afterwards with its handle
  and every other name as before, also when the array doubles; a name that is taken is
  refused and nothing changes, so the first registration wins.
\<close>

theorem name_roundtrip:
  assumes "names_ok s" "room_for_name s" "h \<noteq> 0" "skynet_handle_findname name s = Some h0"
  shows "\<exists>r s'. skynet_handle_namehandle h name s = Some (r, s') \<and> names_ok s'
    \<and> (if h0 = 0 then r = Some name \<and> skynet_handle_findname name s' = Some h
       else r = None \<and> skynet_handle_findname name s' = Some h0)
    \<and> (\<forall>name'. name' \<noteq> name \<longrightarrow> skynet_handle_findname name' s' = skynet_handle_findname name' s)"
proof -
  have found: "dir_find name s = Some (if h0 = 0 then None else Some h0)" using assms(4) by (simp add: dir_find_def)
  obtain r s' where s': "skynet_handle_namehandle h name s = Some (r, s')" "r = None \<or> r = Some name"
    using namehandle_correct [of s h name] assms(1,2) by (auto simp: names_ok_def)
  then have add: "dir_add name h s = Some (r \<noteq> None, s')" by (simp add: dir_add_def)
  show ?thesis
  proof (cases "h0 = 0")
    case True
    with names.find_added [OF assms(1-3), of name] found add
    have "r \<noteq> None" "names_ok s'" "dir_find name s' = Some (Some h)"
      "\<forall>n. n \<noteq> name \<longrightarrow> dir_find n s' = dir_find n s" by auto
    then show ?thesis using True s' assms(1) by (auto simp: findname_dir)
  next
    case False
    with names.first_wins [OF assms(1-3), of name h0] found add
    have "r = None" "names_ok s'" "\<forall>n. dir_find n s' = dir_find n s" by auto
    then show ?thesis using False s' assms(1,4) by (auto simp: findname_dir)
  qed
qed

lemma demo_names_ok: "names_ok demo_storage" "room_for_name demo_storage"
  using demo_storage_inv
  by (auto simp: names_ok_def handle_inv_def name_map_def entries_def demo_storage_def room_for_name_def ran_def
      split: if_splits)

theorem name_roundtrip_witness:
  "\<exists>s'. skynet_handle_namehandle 9 ''db'' demo_storage = Some (Some ''db'', s')
    \<and> skynet_handle_findname ''db'' s' = Some 9"
proof -
  have "skynet_handle_findname ''db'' demo_storage = Some 0"
    using findname_correct [of demo_storage "''db''"] demo_names_ok
    by (simp add: names_ok_def name_map_def entries_def demo_storage_def)
  from name_roundtrip [OF demo_names_ok _ this, of 9] show ?thesis by auto
qed

lemma register_unfold:
  "probe_slots (slot_size s) (handle_index s) (hs_slot s) = Some (Some (h, i)) \<Longrightarrow> i < slot_size s \<Longrightarrow>
    skynet_handle_register ch ctx s
      = Some (h OR hs_harbor s, s\<lparr>hs_slot := (hs_slot s)[i := Some ctx], handle_index := h + 1\<rparr>)"
  "probe_slots (slot_size s) (handle_index s) (hs_slot s) = Some None \<Longrightarrow>
    skynet_handle_register ch ctx s = grow_slots ch s \<bind> skynet_handle_register ch ctx"
  by (subst skynet_handle_register.simps, simp add: slot_size_def)+

text \<open>A table whose only free slot is slot 0, when the next handle is the last one.\<close>

definition wrapped_storage :: handle_storage where
  "wrapped_storage = \<lparr>hs_harbor = 0, handle_index = 0xffffff, hs_slot = [None, Some 1, Some 2, Some 3],
     name_cap = 2, name_count = 0, hs_name = [None, None]\<rparr>"

text \<open>
  The hypothesis of \<open>register_fresh\<close> is needed: when the handles wrap around
  inside the probing loop, handle 0 is skipped and with it slot 0. With slot 0 the only free
  one, the loop ends as if the table were full and the copy reads the handle of the null
  entry: the call does not return although a slot is free and the table is small.
\<close>

theorem register_skips_slot_0:
  "handle_inv of_nat wrapped_storage \<and> hs_slot wrapped_storage ! 0 = None
    \<and> skynet_handle_register of_nat 9 wrapped_storage = None"
proof -
  have "slots_at 2 of_nat wrapped_storage"
    by (auto simp: slots_at_def slot_size_def local_handle_def wrapped_storage_def HANDLE_MASK_def
        nth_Cons split: nat.splits)
  then have "handle_inv of_nat wrapped_storage"
    by (auto simp: handle_inv_def slots_inv_def names_inv_def names_shape_def entries_def wrapped_storage_def)
  moreover have "skynet_handle_register of_nat 9 wrapped_storage
      = grow_slots of_nat wrapped_storage \<bind> skynet_handle_register of_nat 9"
    by (rule register_unfold) code_simp
  moreover have "grow_slots of_nat wrapped_storage = None"
    by (simp add: grow_slots_def wrapped_storage_def)
  ultimately show ?thesis by (simp add: wrapped_storage_def)
qed

text \<open>A full table in which context 4 has just got its slot, but not yet its handle.\<close>

definition racing_storage :: handle_storage where
  "racing_storage = \<lparr>hs_harbor = 0, handle_index = 4, hs_slot = [None, Some 1, Some 2, Some 3],
     name_cap = 2, name_count = 0, hs_name = [None, None]\<rparr>"

text \<open>
  \<^verbatim>\<open>skynet_context_new\<close> stores the handle into the context only after
  \<^verbatim>\<open>skynet_handle_register\<close> has released the lock. When another thread registers a context in
  between and the table grows, the first context is copied with handle 0 into slot 0. In this run on
  a table of four slots both registrations return, but afterwards handle 4, which belongs into slot 4
  of the doubled table, leads nowhere. (A handle that belongs into slot 0 would still be found.)
\<close>

theorem register_race:
  "\<exists>s1 s2. skynet_handle_register (of_nat(4 := 0)) 4 racing_storage = Some (4, s1)
    \<and> skynet_handle_register (of_nat(4 := 0)) 5 s1 = Some (5, s2)
    \<and> skynet_handle_grab of_nat 4 s2 = Some None \<and> skynet_handle_grab of_nat 5 s2 = Some (Some 5)"
proof -
  let ?ch = "of_nat(4 := 0) :: nat \<Rightarrow> u32"
  let ?a1 = "[Some 4, Some 1, Some 2, Some 3] :: ptr list"
  let ?a2 = "[Some 4, Some 1, Some 2, Some 3, None, None, None, None] :: ptr list"
  let ?s1 = "racing_storage\<lparr>hs_slot := ?a1, handle_index := 5\<rparr>"
  let ?s2 = "racing_storage\<lparr>hs_slot := ?a2[5 := Some 5], handle_index := 6\<rparr>"
  let ?s = "racing_storage\<lparr>hs_slot := ?a2, handle_index := 5\<rparr>"
  have "skynet_handle_register ?ch 4 racing_storage = Some (4 OR hs_harbor racing_storage,
      racing_storage\<lparr>hs_slot := (hs_slot racing_storage)[0 := Some 4], handle_index := 4 + 1\<rparr>)"
    by (rule register_unfold) code_simp+
  then have 1: "skynet_handle_register ?ch 4 racing_storage = Some (4, ?s1)"
    by (simp add: racing_storage_def)
  have "rehash_slots ?ch ?a1 (replicate 8 None) = Some ?a2" by code_simp
  then have grow: "grow_slots ?ch ?s1 = Some ?s"
    by (simp add: grow_slots_def slot_size_def racing_storage_def HANDLE_MASK_def)
  have "skynet_handle_register ?ch 5 ?s1 = grow_slots ?ch ?s1 \<bind> skynet_handle_register ?ch 5"
    by (rule register_unfold) code_simp
  moreover have "skynet_handle_register ?ch 5 ?s = Some (5 OR hs_harbor ?s,
      ?s\<lparr>hs_slot := (hs_slot ?s)[5 := Some 5], handle_index := 5 + 1\<rparr>)"
    by (rule register_unfold) code_simp+
  ultimately have 2: "skynet_handle_register ?ch 5 ?s1 = Some (5, ?s2)"
    using grow by (simp add: racing_storage_def)
  have "skynet_handle_grab of_nat 4 ?s2 = Some None" "skynet_handle_grab of_nat 5 ?s2 = Some (Some 5)"
    by code_simp+
  with 1 2 show ?thesis by blast
qed

end
