(* ===== verification/Databuffer.thy ===== *)
theory Databuffer
  imports Prelude
begin

text \<open>
  \<^verbatim>\<open>skynet/service-src/databuffer.h\<close>: byte buffers made of linked messages that come from a pool
  shared by all connections of a gate. Messages live in a store of addresses, so that the
  theorems can speak about aliasing: \<open>pool_inv\<close> says that no message is in two buffers or in
  a buffer and in the free list. A buffer handed to \<^verbatim>\<open>skynet_free\<close> is dropped from its message.
  Sizes and offsets are mathematical integers: a buffer holds fewer than \<open>2 ^ 31\<close> bytes.
\<close>

section \<open>The data\<close>

record message =
  m_buffer :: "u8 list option"
  m_size :: int
  m_next :: ptr

record databuffer =
  db_header :: int
  db_offset :: int
  db_size :: int
  db_head :: ptr
  db_tail :: ptr

text \<open>\<open>mp_pool\<close> holds the base addresses of the blocks, the newest first.\<close>

record messagepool =
  mp_mem :: "nat \<rightharpoonup> message"
  mp_fresh :: nat
  mp_pool :: "nat list"
  mp_freelist :: ptr

definition MESSAGEPOOL :: nat where
  "MESSAGEPOOL = 1023"

definition empty_buffer :: databuffer where
  "empty_buffer = \<lparr>db_header = 0, db_offset = 0, db_size = 0, db_head = None, db_tail = None\<rparr>"

definition empty_pool :: messagepool where
  "empty_pool = \<lparr>mp_mem = Map.empty, mp_fresh = 0, mp_pool = [], mp_freelist = None\<rparr>"

section \<open>The operations\<close>

definition set_message :: "nat \<Rightarrow> message \<Rightarrow> messagepool \<Rightarrow> messagepool" where
  "set_message a m mp = mp\<lparr>mp_mem := (mp_mem mp)(a \<mapsto> m)\<rparr>"

definition messagepool_free :: "messagepool \<Rightarrow> messagepool" where
  "messagepool_free mp = mp\<lparr>mp_mem := (\<lambda>a. if \<exists>b \<in> set (mp_pool mp). b \<le> a \<and> a < b + MESSAGEPOOL then None
       else mp_mem mp a), mp_pool := [], mp_freelist := None\<rparr>"

definition return_message :: "databuffer \<Rightarrow> messagepool \<Rightarrow> (databuffer \<times> messagepool) option" where
  "return_message db mp = do {
     a \<leftarrow> db_head db;
     m \<leftarrow> mp_mem mp a;
     db1 \<leftarrow> (if m_next m = None then do {
         assert_c (db_tail db = Some a);
         Some (db\<lparr>db_head := None, db_tail := None\<rparr>)
       } else Some (db\<lparr>db_head := m_next m\<rparr>));
     let mp1 = set_message a \<lparr>m_buffer = None, m_size = 0, m_next = mp_freelist mp\<rparr> mp;
     Some (db1, mp1\<lparr>mp_freelist := Some a\<rparr>)
   }"

definition slice :: "int \<Rightarrow> int \<Rightarrow> u8 list \<Rightarrow> u8 list" where
  "slice off sz b = take (nat sz) (drop (nat off) b)"

text \<open>The loop of \<^verbatim>\<open>databuffer_read\<close>: the bytes copied out, and the state.\<close>

partial_function (option) read_loop ::
    "databuffer \<Rightarrow> messagepool \<Rightarrow> int \<Rightarrow> (u8 list \<times> databuffer \<times> messagepool) option" where
  "read_loop db mp sz = do {
     a \<leftarrow> db_head db;
     m \<leftarrow> mp_mem mp a;
     buf \<leftarrow> m_buffer m;
     let bsz = m_size m - db_offset db;
     if bsz > sz then
       Some (slice (db_offset db) sz buf, db\<lparr>db_offset := db_offset db + sz\<rparr>, mp)
     else do {
       (db1, mp1) \<leftarrow> return_message db mp;
       if bsz = sz then Some (slice (db_offset db) sz buf, db1\<lparr>db_offset := 0\<rparr>, mp1)
       else do {
         (rest, db2, mp2) \<leftarrow> read_loop (db1\<lparr>db_offset := 0\<rparr>) mp1 (sz - bsz);
         Some (slice (db_offset db) bsz buf @ rest, db2, mp2)
       }
     }
   }"

definition databuffer_read ::
    "databuffer \<Rightarrow> messagepool \<Rightarrow> int \<Rightarrow> (u8 list \<times> databuffer \<times> messagepool) option" where
  "databuffer_read db mp sz = do {
     assert_c (db_size db \<ge> sz);
     read_loop (db\<lparr>db_size := db_size db - sz\<rparr>) mp sz
   }"

text \<open>
  A fresh block: message 0 is handed out, messages 1 to \<^verbatim>\<open>MESSAGEPOOL-1\<close> are linked into the
  free list.
\<close>

definition new_block :: "messagepool \<Rightarrow> messagepool" where
  "new_block mp =
     (let b = mp_fresh mp in
      mp\<lparr>mp_mem := (\<lambda>a. if b \<le> a \<and> a < b + MESSAGEPOOL
           then Some \<lparr>m_buffer = None, m_size = 0,
             m_next = (if a + 1 < b + MESSAGEPOOL then Some (a + 1) else None)\<rparr>
           else mp_mem mp a),
         mp_fresh := b + MESSAGEPOOL, mp_pool := b # mp_pool mp, mp_freelist := Some (b + 1)\<rparr>)"

definition pool_alloc :: "messagepool \<Rightarrow> (nat \<times> messagepool) option" where
  "pool_alloc mp = (case mp_freelist mp of
     Some a \<Rightarrow> do { m \<leftarrow> mp_mem mp a; Some (a, mp\<lparr>mp_freelist := m_next m\<rparr>) }
   | None \<Rightarrow> Some (mp_fresh mp, new_block mp))"

definition databuffer_push ::
    "databuffer \<Rightarrow> messagepool \<Rightarrow> u8 list \<Rightarrow> (databuffer \<times> messagepool) option" where
  "databuffer_push db mp data = do {
     (a, mp1) \<leftarrow> pool_alloc mp;
     let mp2 = set_message a \<lparr>m_buffer = Some data, m_size = int (length data), m_next = None\<rparr> mp1;
     let db1 = db\<lparr>db_size := db_size db + int (length data)\<rparr>;
     (case db_head db1 of
        None \<Rightarrow> do {
          assert_c (db_tail db1 = None);
          Some (db1\<lparr>db_head := Some a, db_tail := Some a\<rparr>, mp2)
        }
      | Some _ \<Rightarrow> do {
          t \<leftarrow> db_tail db1;
          m \<leftarrow> mp_mem mp2 t;
          Some (db1\<lparr>db_tail := Some a\<rparr>, set_message t (m\<lparr>m_next := Some a\<rparr>) mp2)
        })
   }"

text \<open>
  The header is assembled from bytes promoted to \<^verbatim>\<open>int\<close>; in the 4-byte case the value is the
  signed reading of 32 bits.
\<close>

fun header_value :: "u8 list \<Rightarrow> int" where
  "header_value [p0, p1] = int (unat p0 * 256 + unat p1)"
| "header_value [p0, p1, p2, p3] =
     sint (word_of_nat (((unat p0 * 256 + unat p1) * 256 + unat p2) * 256 + unat p3) :: i32)"
| "header_value _ = 0"

definition databuffer_readheader ::
    "databuffer \<Rightarrow> messagepool \<Rightarrow> int \<Rightarrow> (int \<times> databuffer \<times> messagepool) option" where
  "databuffer_readheader db mp header_size =
     (if db_header db = 0 then
        if db_size db < header_size then Some (- 1, db, mp)
        else do {
          (plen, db1, mp1) \<leftarrow> databuffer_read db mp header_size;
          let db2 = db1\<lparr>db_header := header_value plen\<rparr>;
          if db_size db2 < db_header db2 then Some (- 1, db2, mp1)
          else Some (db_header db2, db2, mp1)
        }
      else if db_size db < db_header db then Some (- 1, db, mp)
      else Some (db_header db, db, mp))"

definition databuffer_reset :: "databuffer \<Rightarrow> databuffer" where
  "databuffer_reset db = db\<lparr>db_header := 0\<rparr>"

partial_function (option) return_all ::
    "databuffer \<Rightarrow> messagepool \<Rightarrow> (databuffer \<times> messagepool) option" where
  "return_all db mp =
     (if db_head db = None then Some (db, mp)
      else do { (db1, mp1) \<leftarrow> return_message db mp; return_all db1 mp1 })"

definition databuffer_clear :: "databuffer \<Rightarrow> messagepool \<Rightarrow> (databuffer \<times> messagepool) option" where
  "databuffer_clear db mp = do {
     (db1, mp1) \<leftarrow> return_all db mp;
     Some (empty_buffer, mp1)
   }"

section \<open>The contents of a buffer\<close>

definition next_of :: "messagepool \<Rightarrow> nat \<rightharpoonup> ptr" where
  "next_of mp a = map_option m_next (mp_mem mp a)"

definition data_of :: "messagepool \<Rightarrow> nat \<Rightarrow> u8 list" where
  "data_of mp a = (case mp_mem mp a of Some m \<Rightarrow> (case m_buffer m of Some b \<Rightarrow> b | None \<Rightarrow> []) | None \<Rightarrow> [])"

definition holds :: "messagepool \<Rightarrow> nat \<Rightarrow> bool" where
  "holds mp a \<longleftrightarrow> (\<exists>m. mp_mem mp a = Some m \<and> m_buffer m = Some (data_of mp a)
     \<and> m_size m = int (length (data_of mp a)))"

text \<open>\<open>repr mp db xs bs\<close>: the buffer is the list \<open>xs\<close> of messages and its unread bytes are \<open>bs\<close>.\<close>

definition repr :: "messagepool \<Rightarrow> databuffer \<Rightarrow> nat list \<Rightarrow> u8 list \<Rightarrow> bool" where
  "repr mp db xs bs \<longleftrightarrow> linked (next_of mp) (db_head db) xs \<and> distinct xs
     \<and> db_tail db = (if xs = [] then None else Some (last xs)) \<and> (\<forall>a \<in> set xs. holds mp a)
     \<and> 0 \<le> db_offset db
     \<and> (case xs of [] \<Rightarrow> db_offset db = 0 | a # _ \<Rightarrow> db_offset db \<le> int (length (data_of mp a)))
     \<and> bs = drop (nat (db_offset db)) (concat (map (data_of mp) xs))"

text \<open>
  A pool with a family of buffers: the buffers and the free list share no message, and the
  pool has handed out only addresses below the fresh one.
\<close>

definition pool_at ::
    "messagepool \<Rightarrow> (nat \<Rightarrow> databuffer) \<Rightarrow> (nat \<Rightarrow> u8 list) \<Rightarrow> (nat \<Rightarrow> nat list) \<Rightarrow> nat list \<Rightarrow> bool" where
  "pool_at mp dbs bss xss fs \<longleftrightarrow> linked (next_of mp) (mp_freelist mp) fs \<and> distinct fs
     \<and> (\<forall>i. repr mp (dbs i) (xss i) (bss i) \<and> db_size (dbs i) = int (length (bss i)) \<and> set (xss i) \<inter> set fs = {})
     \<and> (\<forall>i j. i \<noteq> j \<longrightarrow> set (xss i) \<inter> set (xss j) = {})
     \<and> (\<forall>a \<in> set fs. a < mp_fresh mp) \<and> (\<forall>i. \<forall>a \<in> set (xss i). a < mp_fresh mp)"

definition pool_inv :: "messagepool \<Rightarrow> (nat \<Rightarrow> databuffer) \<Rightarrow> (nat \<Rightarrow> u8 list) \<Rightarrow> bool" where
  "pool_inv mp dbs bss \<longleftrightarrow> (\<exists>xss fs. pool_at mp dbs bss xss fs)"

text \<open>One buffer together with the free list, and what an operation may change.\<close>

definition owned :: "messagepool \<Rightarrow> databuffer \<Rightarrow> nat list \<Rightarrow> u8 list \<Rightarrow> nat list \<Rightarrow> bool" where
  "owned mp db xs bs fs \<longleftrightarrow> repr mp db xs bs \<and> linked (next_of mp) (mp_freelist mp) fs \<and> distinct (xs @ fs)
     \<and> (\<forall>a \<in> set (xs @ fs). a < mp_fresh mp)"

definition evolves :: "messagepool \<Rightarrow> nat list \<Rightarrow> nat list \<Rightarrow> messagepool \<Rightarrow> nat list \<Rightarrow> nat list \<Rightarrow> bool" where
  "evolves mp xs fs mp' ys gs \<longleftrightarrow> mp_fresh mp \<le> mp_fresh mp'
     \<and> (\<forall>a < mp_fresh mp. a \<notin> set (xs @ fs) \<longrightarrow> mp_mem mp' a = mp_mem mp a)
     \<and> set (ys @ gs) \<subseteq> set (xs @ fs) \<union> {mp_fresh mp..<mp_fresh mp'}"

lemma evolves_refl [simp]: "evolves mp xs fs mp xs fs"
  by (auto simp: evolves_def)

lemma evolves_trans:
  "evolves mp xs fs mp' ys gs \<Longrightarrow> evolves mp' ys gs mp'' zs hs \<Longrightarrow> evolves mp xs fs mp'' zs hs"
  unfolding evolves_def by (auto simp: subset_iff) (metis leD le_less_trans linorder_not_le order.trans)+

lemma linked_next_cong:
  "(\<And>a. a \<in> set xs \<Longrightarrow> mp_mem mp' a = mp_mem mp a) \<Longrightarrow> linked (next_of mp') p xs = linked (next_of mp) p xs"
  by (rule linked_cong) (simp add: next_of_def)

lemma repr_cong:
  assumes "\<And>a. a \<in> set xs \<Longrightarrow> mp_mem mp' a = mp_mem mp a"
  shows "repr mp' db xs bs = repr mp db xs bs"
proof -
  have d: "data_of mp' a = data_of mp a" "holds mp' a = holds mp a" if "a \<in> set xs" for a
    using assms [OF that] by (simp_all add: data_of_def holds_def)
  have m: "map (data_of mp') xs = map (data_of mp) xs" using d(1) by simp
  have l: "linked (next_of mp') (db_head db) xs = linked (next_of mp) (db_head db) xs"
    using assms by (rule linked_next_cong)
  have h: "(\<forall>a \<in> set xs. holds mp' a) = (\<forall>a \<in> set xs. holds mp a)" using d(2) by simp
  have c: "(case xs of [] \<Rightarrow> db_offset db = 0 | a # _ \<Rightarrow> db_offset db \<le> int (length (data_of mp' a)))
      = (case xs of [] \<Rightarrow> db_offset db = 0 | a # _ \<Rightarrow> db_offset db \<le> int (length (data_of mp a)))"
    using d(1) by (cases xs) simp_all
  show ?thesis unfolding repr_def m l h c ..
qed

lemma pool_at_step:
  assumes pool: "pool_at mp dbs bss xss fs" and ev: "evolves mp (xss i) fs mp' ys gs"
    and own: "owned mp' db' ys cs gs" and sz: "db_size db' = int (length cs)"
  shows "pool_at mp' (dbs(i := db')) (bss(i := cs)) (xss(i := ys)) gs"
proof -
  have old: "repr mp (dbs j) (xss j) (bss j)" "db_size (dbs j) = int (length (bss j))"
    "set (xss j) \<inter> set fs = {}" "\<And>a. a \<in> set (xss j) \<Longrightarrow> a < mp_fresh mp" for j
    using pool by (auto simp: pool_at_def)
  have dis: "set (xss j) \<inter> set (xss i) = {}" if "j \<noteq> i" for j using pool that by (auto simp: pool_at_def)
  have same: "mp_mem mp' a = mp_mem mp a" if "j \<noteq> i" "a \<in> set (xss j)" for j a
    using ev old(3) [of j] old(4) [OF that(2)] dis [OF that(1)] that(2) by (auto simp: evolves_def)
  have fresh: "a < mp_fresh mp'" if "a \<in> set (xss j)" for a j
    using ev old(4) [OF that] by (simp add: evolves_def)
  have sub: "set ys \<inter> set (xss j) = {}" "set gs \<inter> set (xss j) = {}" if "j \<noteq> i" for j
  proof -
    have "a \<notin> set (xss i) \<union> set fs \<union> {mp_fresh mp..<mp_fresh mp'}" if "a \<in> set (xss j)" for a
      using old(3) [of j] old(4) [OF that] dis [OF \<open>j \<noteq> i\<close>] that by auto
    moreover have "set ys \<subseteq> set (xss i) \<union> set fs \<union> {mp_fresh mp..<mp_fresh mp'}"
      "set gs \<subseteq> set (xss i) \<union> set fs \<union> {mp_fresh mp..<mp_fresh mp'}"
      using ev by (auto simp: evolves_def)
    ultimately show "set ys \<inter> set (xss j) = {}" "set gs \<inter> set (xss j) = {}" by blast+
  qed
  show ?thesis
    unfolding pool_at_def
  proof (intro conjI allI impI)
    fix j
    show "repr mp' ((dbs(i := db')) j) ((xss(i := ys)) j) ((bss(i := cs)) j)"
      using own old(1) [of j] repr_cong [of "xss j" mp' mp "dbs j" "bss j"] same [of j]
      by (auto simp: owned_def)
    show "set ((xss(i := ys)) j) \<inter> set gs = {}" using own sub(2) [of j] by (auto simp: owned_def)
  next
    fix j k :: nat assume "j \<noteq> k"
    then show "set ((xss(i := ys)) j) \<inter> set ((xss(i := ys)) k) = {}"
      using sub(1) [of j] sub(1) [of k] pool by (auto simp: pool_at_def)
  qed (use own old(2) fresh sz in \<open>auto simp: owned_def\<close>)
qed

lemma pool_at_owned: "pool_at mp dbs bss xss fs \<Longrightarrow> owned mp (dbs i) (xss i) (bss i) fs"
  by (auto simp: pool_at_def owned_def repr_def)

section \<open>The operations on the contents\<close>

lemma next_of_set [simp]: "next_of (set_message a m mp) = (next_of mp)(a \<mapsto> m_next m)"
  by (auto simp: next_of_def set_message_def)

lemma set_message_simps [simp]:
  "mp_fresh (set_message a m mp) = mp_fresh mp" "mp_freelist (set_message a m mp) = mp_freelist mp"
  "mp_mem (set_message a m mp) = (mp_mem mp)(a \<mapsto> m)"
  "next_of (mp\<lparr>mp_freelist := f\<rparr>) = next_of mp" "data_of (mp\<lparr>mp_freelist := f\<rparr>) = data_of mp"
  "holds (mp\<lparr>mp_freelist := f\<rparr>) = holds mp"
  by (auto simp: set_message_def next_of_def data_of_def holds_def fun_eq_iff)

lemma repr_rebase:
  "linked (next_of mp) p xs \<Longrightarrow> distinct xs \<Longrightarrow> t = (if xs = [] then None else Some (last xs)) \<Longrightarrow>
    (\<And>a. a \<in> set xs \<Longrightarrow> holds mp a) \<Longrightarrow> db_head db = p \<Longrightarrow> db_tail db = t \<Longrightarrow> db_offset db = 0 \<Longrightarrow>
    repr mp db xs (concat (map (data_of mp) xs))"
  by (auto simp: repr_def split: list.splits)

lemma return_message_owned:
  assumes own: "owned mp (db\<lparr>db_offset := off\<rparr>) (x # xs) bs fs"
  shows "\<exists>db' mp'. return_message db mp = Some (db', mp') \<and> db_size db' = db_size db \<and> db_header db' = db_header db
    \<and> owned mp' (db'\<lparr>db_offset := 0\<rparr>) xs (concat (map (data_of mp) xs)) (x # fs)
    \<and> evolves mp (x # xs) fs mp' xs (x # fs)"
proof -
  have head: "db_head db = Some x" using own by (simp add: owned_def repr_def)
  from own obtain m where m: "mp_mem mp x = Some m" by (auto simp: owned_def repr_def holds_def)
  then have l: "linked (next_of mp) (m_next m) xs" using own by (auto simp: owned_def repr_def next_of_def)
  have dis: "x \<notin> set xs" "x \<notin> set fs" "distinct xs" using own by (auto simp: owned_def)
  have tail: "db_tail db = Some (if xs = [] then x else last xs)" using own by (auto simp: owned_def repr_def)
  let ?db = "db\<lparr>db_head := m_next m, db_tail := if xs = [] then None else Some (last xs)\<rparr>"
  let ?mp = "set_message x \<lparr>m_buffer = None, m_size = 0, m_next = mp_freelist mp\<rparr> mp\<lparr>mp_freelist := Some x\<rparr>"
  have "m_next m = None \<longleftrightarrow> xs = []" using l by (cases xs) auto
  then have run: "return_message db mp = Some (?db, ?mp)"
    using head m tail by (cases "xs = []") (auto simp: return_message_def)
  have "repr mp (?db\<lparr>db_offset := 0\<rparr>) xs (concat (map (data_of mp) xs))"
    by (rule repr_rebase [of mp "m_next m"]) (use l dis own in \<open>auto simp: owned_def repr_def\<close>)
  then have "repr ?mp (?db\<lparr>db_offset := 0\<rparr>) xs (concat (map (data_of mp) xs))"
    using dis by (subst repr_cong [of xs ?mp mp]) auto
  then have "owned ?mp (?db\<lparr>db_offset := 0\<rparr>) xs (concat (map (data_of mp) xs)) (x # fs)"
    using own dis by (auto simp: owned_def)
  moreover have "evolves mp (x # xs) fs ?mp xs (x # fs)" by (auto simp: evolves_def)
  ultimately show ?thesis using run by fastforce
qed

lemma read_loop_owned:
  assumes "owned mp db xs bs fs" "0 < sz" "sz \<le> int (length bs)"
  shows "\<exists>db' mp' ys gs. read_loop db mp sz = Some (take (nat sz) bs, db', mp')
    \<and> db_size db' = db_size db \<and> db_header db' = db_header db
    \<and> owned mp' db' ys (drop (nat sz) bs) gs \<and> evolves mp xs fs mp' ys gs"
  using assms
proof (induction xs arbitrary: mp db bs fs sz)
  case Nil
  then show ?case by (auto simp: owned_def repr_def)
next
  case (Cons x xs)
  note own = Cons.prems(1)
  have head: "db_head db = Some x" and hx: "holds mp x" and off: "0 \<le> db_offset db"
    "db_offset db \<le> int (length (data_of mp x))"
    and bs: "bs = drop (nat (db_offset db)) (data_of mp x) @ concat (map (data_of mp) xs)"
    using own by (auto simp: owned_def repr_def)
  from hx obtain m where m: "mp_mem mp x = Some m" "m_buffer m = Some (data_of mp x)"
    "m_size m = int (length (data_of mp x))" by (auto simp: holds_def)
  let ?n = "m_size m - db_offset db"
  have n: "nat ?n = length (drop (nat (db_offset db)) (data_of mp x))" "0 \<le> ?n" using off m(3) by auto
  have "owned mp (db\<lparr>db_offset := db_offset db\<rparr>) (x # xs) bs fs" using own by simp
  from return_message_owned [OF this] obtain db1 mp1
    where r: "return_message db mp = Some (db1, mp1)" "db_size db1 = db_size db" "db_header db1 = db_header db"
      "owned mp1 (db1\<lparr>db_offset := 0\<rparr>) xs (concat (map (data_of mp) xs)) (x # fs)"
      "evolves mp (x # xs) fs mp1 xs (x # fs)" by blast
  consider "?n > sz" | "?n = sz" | "?n < sz" by linarith
  then show ?case
  proof cases
    case 1
    let ?db = "db\<lparr>db_offset := db_offset db + sz\<rparr>"
    have run: "read_loop db mp sz = Some (slice (db_offset db) sz (data_of mp x), ?db, mp)"
      using head m 1 by (subst read_loop.simps) simp
    have "repr mp ?db (x # xs) (drop (nat sz) bs)" "slice (db_offset db) sz (data_of mp x) = take (nat sz) bs"
      using own 1 m(3) off Cons.prems(2) n(1)
      by (auto simp: owned_def repr_def slice_def bs nat_add_distrib add.commute)
    then show ?thesis using run own
      by (intro exI [of _ ?db] exI [of _ mp] exI [of _ "x # xs"] exI [of _ fs]) (auto simp: owned_def)
  next
    case 2
    have "read_loop db mp sz = Some (slice (db_offset db) sz (data_of mp x), db1\<lparr>db_offset := 0\<rparr>, mp1)"
      using head m r(1) 2 by (subst read_loop.simps) simp
    moreover have "slice (db_offset db) sz (data_of mp x) = take (nat sz) bs"
      "drop (nat sz) bs = concat (map (data_of mp) xs)" using 2 n(1) by (auto simp: slice_def bs)
    ultimately show ?thesis using r by (intro exI conjI) auto
  next
    case 3
    let ?r = "concat (map (data_of mp) xs)"
    have rest: "0 < sz - ?n" "sz - ?n \<le> int (length ?r)" using 3 n Cons.prems(3) by (auto simp: bs)
    from Cons.IH [OF r(4) rest] obtain db' mp' ys gs
      where ih: "read_loop (db1\<lparr>db_offset := 0\<rparr>) mp1 (sz - ?n) = Some (take (nat (sz - ?n)) ?r, db', mp')"
        "db_size db' = db_size db" "db_header db' = db_header db"
        "owned mp' db' ys (drop (nat (sz - ?n)) ?r) gs" "evolves mp1 xs (x # fs) mp' ys gs"
      using r(2,3) by auto
    have "read_loop db mp sz = Some (slice (db_offset db) ?n (data_of mp x) @ take (nat (sz - ?n)) ?r, db', mp')"
      using head m r(1) 3 ih(1) by (subst read_loop.simps) (simp add: Let_def)
    moreover define d where "d = drop (nat (db_offset db)) (data_of mp x)"
    have "nat sz = length d + nat (sz - ?n)" "slice (db_offset db) ?n (data_of mp x) = d"
      using 3 n unfolding d_def by (simp_all add: slice_def)
    then have "slice (db_offset db) ?n (data_of mp x) @ take (nat (sz - ?n)) ?r = take (nat sz) bs"
      "drop (nat (sz - ?n)) ?r = drop (nat sz) bs" unfolding bs d_def [symmetric] by simp_all
    ultimately show ?thesis using ih evolves_trans [OF r(5) ih(5)] by (intro exI conjI) auto
  qed
qed

lemma databuffer_read_owned:
  assumes "owned mp db xs bs fs" "db_size db = int (length bs)" "0 < sz" "sz \<le> int (length bs)"
  shows "\<exists>db' mp' ys gs. databuffer_read db mp sz = Some (take (nat sz) bs, db', mp')
    \<and> db_size db' = int (length (drop (nat sz) bs)) \<and> db_header db' = db_header db
    \<and> owned mp' db' ys (drop (nat sz) bs) gs \<and> evolves mp xs fs mp' ys gs"
proof -
  have "owned mp (db\<lparr>db_size := db_size db - sz\<rparr>) xs bs fs"
    using assms(1) by (simp add: owned_def repr_def split: list.splits)
  from read_loop_owned [OF this assms(3,4)] assms show ?thesis
    by (fastforce simp: databuffer_read_def)
qed

lemma pool_alloc_owned:
  assumes own: "owned mp db xs bs fs"
  shows "\<exists>a mp' gs. pool_alloc mp = Some (a, mp') \<and> owned mp' db xs bs gs \<and> a \<notin> set (xs @ gs)
    \<and> a < mp_fresh mp' \<and> evolves mp xs fs mp' xs (a # gs)"
proof (cases "mp_freelist mp")
  case (Some a)
  then obtain q gs where fs: "fs = a # gs" "next_of mp a = Some q" "linked (next_of mp) q gs"
    using own by (auto simp: owned_def linked_Some)
  then obtain m where m: "mp_mem mp a = Some m" "m_next m = q" by (auto simp: next_of_def)
  let ?mp = "mp\<lparr>mp_freelist := q\<rparr>"
  have "pool_alloc mp = Some (a, ?mp)" using Some m by (simp add: pool_alloc_def)
  moreover have "owned ?mp db xs bs gs" using own fs by (auto simp: owned_def repr_def split: list.splits)
  moreover have "evolves mp xs fs ?mp xs (a # gs)" using fs by (auto simp: evolves_def)
  ultimately show ?thesis using own fs by (auto simp: owned_def)
next
  case None
  let ?b = "mp_fresh mp" and ?mp = "new_block mp"
  let ?gs = "[?b + 1..<?b + MESSAGEPOOL]"
  have old: "mp_mem ?mp a = mp_mem mp a" if "a < ?b" for a using that by (simp add: new_block_def Let_def)
  have fs: "fs = []" using own None by (simp add: owned_def)
  have "linked (next_of ?mp) (Some (?b + 1)) ?gs"
    by (rule linked_range) (auto simp: next_of_def new_block_def Let_def MESSAGEPOOL_def)
  moreover have "repr ?mp db xs bs"
    using own old repr_cong [of xs ?mp mp db bs] by (auto simp: owned_def)
  moreover have "mp_freelist ?mp = Some (?b + 1)" "mp_fresh ?mp = ?b + MESSAGEPOOL"
    by (simp_all add: new_block_def Let_def)
  moreover have lt: "x < ?b" if "x \<in> set xs" for x using own that by (simp add: owned_def)
  then have "set xs \<inter> set ?gs = {}" by force
  then have "distinct (xs @ ?gs)" "\<forall>x \<in> set (xs @ ?gs). x < ?b + MESSAGEPOOL"
    using own lt by (auto simp: owned_def intro: trans_less_add1)
  ultimately have "owned ?mp db xs bs ?gs" by (simp add: owned_def)
  moreover have "evolves mp xs fs ?mp xs (?b # ?gs)" using old
    by (auto simp: evolves_def new_block_def Let_def MESSAGEPOOL_def)
  moreover have "?b \<notin> set (xs @ ?gs)" using own by (auto simp: owned_def)
  ultimately show ?thesis using None
    by (auto simp: pool_alloc_def new_block_def Let_def MESSAGEPOOL_def)
qed

lemma databuffer_push_owned:
  assumes own: "owned mp db xs bs fs"
  shows "\<exists>db' mp' ys gs. databuffer_push db mp data = Some (db', mp')
    \<and> db_size db' = db_size db + int (length data) \<and> db_header db' = db_header db
    \<and> owned mp' db' ys (bs @ data) gs \<and> evolves mp xs fs mp' ys gs"
proof -
  from pool_alloc_owned [OF own] obtain a mp1 gs where a: "pool_alloc mp = Some (a, mp1)"
    "owned mp1 db xs bs gs" "a \<notin> set (xs @ gs)" "a < mp_fresh mp1" "evolves mp xs fs mp1 xs (a # gs)" by blast
  let ?m = "\<lparr>m_buffer = Some data, m_size = int (length data), m_next = None\<rparr>"
  let ?mp = "set_message a ?m mp1"
  have da: "data_of ?mp a = data" "holds ?mp a" by (simp_all add: data_of_def holds_def)
  have same: "data_of ?mp x = data_of mp1 x" "holds ?mp x = holds mp1 x" if "x \<noteq> a" for x
    using that by (simp_all add: data_of_def holds_def)
  show ?thesis
  proof (cases "xs = []")
    case True
    let ?db = "db\<lparr>db_size := db_size db + int (length data), db_head := Some a, db_tail := Some a\<rparr>"
    have e: "db_head db = None" "db_tail db = None" "bs = []" "db_offset db = 0"
      using own True by (auto simp: owned_def repr_def)
    have "databuffer_push db mp data = Some (?db, ?mp)" using a(1) e by (simp add: databuffer_push_def)
    moreover have "repr ?mp ?db [a] (bs @ data)" using e da by (simp add: repr_def)
    then have "owned ?mp ?db [a] (bs @ data) gs" using a(2-4) by (auto simp: owned_def)
    moreover have "evolves mp xs fs ?mp [a] gs" using a(5) True by (auto simp: evolves_def)
    ultimately show ?thesis by fastforce
  next
    case False
    have r: "repr mp1 db xs bs" "distinct xs" using a(2) by (auto simp: owned_def)
    then obtain h where h: "db_head db = Some h" "db_tail db = Some (last xs)"
      using False by (cases xs) (auto simp: repr_def)
    have "holds mp1 (last xs)" using r(1) False by (auto simp: repr_def)
    then obtain lm where lm: "mp_mem mp1 (last xs) = Some lm" by (auto simp: holds_def)
    have la: "last xs \<noteq> a" "last xs \<in> set xs" using a(3) False by auto
    let ?db = "db\<lparr>db_size := db_size db + int (length data), db_tail := Some a\<rparr>"
    let ?mp2 = "set_message (last xs) (lm\<lparr>m_next := Some a\<rparr>) ?mp"
    have run: "databuffer_push db mp data = Some (?db, ?mp2)"
      using a(1) h lm la by (simp add: databuffer_push_def)
    have d2: "data_of ?mp2 x = data_of ?mp x" "holds ?mp2 x = holds ?mp x" for x
      using lm la by (auto simp: data_of_def holds_def split: option.split)
    have "linked ((next_of mp1)(last xs \<mapsto> Some a, a \<mapsto> None)) (db_head db) (xs @ [a])"
      using r a(3) False by (intro linked_snoc) (auto simp: repr_def)
    then have l: "linked (next_of ?mp2) (db_head db) (xs @ [a])" using la(1) by (simp add: fun_upd_twist)
    have "data_of ?mp2 x = data_of mp1 x" if "x \<in> set xs" for x
      using same(1) [of x] d2(1) [of x] that a(3) by auto
    then have map: "map (data_of ?mp2) xs = map (data_of mp1) xs" by simp
    have off: "nat (db_offset db) \<le> length (concat (map (data_of mp1) xs))"
      using r(1) False by (cases xs) (auto simp: repr_def)
    have bs: "bs = drop (nat (db_offset db)) (concat (map (data_of mp1) xs))" using r(1) by (simp add: repr_def)
    have "repr ?mp2 ?db (xs @ [a]) (bs @ data)"
      unfolding repr_def
    proof (intro conjI)
      show "bs @ data = drop (nat (db_offset ?db)) (concat (map (data_of ?mp2) (xs @ [a])))"
        unfolding map_append concat_append map using off bs d2(1) [of a] da(1) by simp
      show "case xs @ [a] of [] \<Rightarrow> db_offset ?db = 0 | b # _ \<Rightarrow> db_offset ?db \<le> int (length (data_of ?mp2 b))"
        using r(1) False map by (cases xs) (auto simp: repr_def)
      show "\<forall>x \<in> set (xs @ [a]). holds ?mp2 x"
      proof
        fix x assume "x \<in> set (xs @ [a])"
        then have "x = a \<or> x \<noteq> a \<and> holds mp1 x" using r(1) by (auto simp: repr_def)
        then show "holds ?mp2 x" using d2(2) [of x] same(2) [of x] da(2) by metis
      qed
    qed (use l r a(3) in \<open>auto simp: repr_def\<close>)
    moreover have "last xs \<notin> set gs" using a(2) la(2) by (auto simp: owned_def)
    ultimately have "owned ?mp2 ?db (xs @ [a]) (bs @ data) gs"
      using a(2-4) by (auto simp: owned_def)
    moreover have "evolves mp xs fs ?mp2 (xs @ [a]) gs" using a(5) la by (auto simp: evolves_def)
    ultimately show ?thesis using run by fastforce
  qed
qed

lemma return_all_owned:
  assumes "owned mp (db\<lparr>db_offset := off\<rparr>) xs bs fs"
  shows "\<exists>db' mp' gs. return_all db mp = Some (db', mp') \<and> owned mp' empty_buffer [] [] gs
    \<and> evolves mp xs fs mp' [] gs"
  using assms
proof (induction xs arbitrary: mp db bs fs off)
  case Nil
  then have "return_all db mp = Some (db, mp)"
    by (subst return_all.simps) (simp add: owned_def repr_def)
  then show ?case using Nil by (fastforce simp: owned_def repr_def empty_buffer_def)
next
  case (Cons x xs)
  from return_message_owned [OF Cons.prems] obtain db1 mp1
    where r: "return_message db mp = Some (db1, mp1)"
      "owned mp1 (db1\<lparr>db_offset := 0\<rparr>) xs (concat (map (data_of mp) xs)) (x # fs)"
      "evolves mp (x # xs) fs mp1 xs (x # fs)" by blast
  from Cons.IH [OF r(2)] obtain db' mp' gs where ih: "return_all db1 mp1 = Some (db', mp')"
    "owned mp' empty_buffer [] [] gs" "evolves mp1 xs (x # fs) mp' [] gs" by blast
  have "db_head db = Some x" using Cons.prems by (simp add: owned_def repr_def)
  then have "return_all db mp = Some (db', mp')" using r(1) ih(1) by (subst return_all.simps) simp
  then show ?case using ih(2) evolves_trans [OF r(3) ih(3)] by blast
qed

lemma databuffer_clear_owned:
  assumes "owned mp db xs bs fs"
  shows "\<exists>mp' gs. databuffer_clear db mp = Some (empty_buffer, mp') \<and> owned mp' empty_buffer [] [] gs
    \<and> evolves mp xs fs mp' [] gs"
  using return_all_owned [of mp "db_offset db" db xs bs fs] assms by (auto simp: databuffer_clear_def)

section \<open>The interface: byte queues over a shared pool\<close>

text \<open>
  The contract the gate relies on. \<open>inv\<close> relates the pool and the family of buffers to the
  unread bytes of each buffer.
\<close>

locale byte_buffers =
  fixes inv :: "'p \<Rightarrow> (nat \<Rightarrow> 'b) \<Rightarrow> (nat \<Rightarrow> u8 list) \<Rightarrow> bool"
    and header :: "'b \<Rightarrow> int"
    and set_header :: "int \<Rightarrow> 'b \<Rightarrow> 'b"
    and push :: "'b \<Rightarrow> 'p \<Rightarrow> u8 list \<Rightarrow> ('b \<times> 'p) option"
    and read :: "'b \<Rightarrow> 'p \<Rightarrow> int \<Rightarrow> (u8 list \<times> 'b \<times> 'p) option"
    and clear :: "'b \<Rightarrow> 'p \<Rightarrow> ('b \<times> 'p) option"
    and none :: 'b
  assumes push_law: "inv p bs cs \<Longrightarrow> \<exists>b' p'. push (bs i) p d = Some (b', p') \<and> header b' = header (bs i)
      \<and> inv p' (bs(i := b')) (cs(i := cs i @ d))"
    and read_law: "inv p bs cs \<Longrightarrow> 0 < n \<Longrightarrow> n \<le> int (length (cs i)) \<Longrightarrow>
      \<exists>b' p'. read (bs i) p n = Some (take (nat n) (cs i), b', p') \<and> header b' = header (bs i)
      \<and> inv p' (bs(i := b')) (cs(i := drop (nat n) (cs i)))"
    and clear_law: "inv p bs cs \<Longrightarrow> \<exists>p'. clear (bs i) p = Some (none, p') \<and> inv p' (bs(i := none)) (cs(i := []))"
    and header_law: "inv p bs cs \<Longrightarrow> inv p (bs(i := set_header h (bs i))) cs"
begin

text \<open>Bytes come out in the order they went in, whatever the sizes of the chunks.\<close>

lemma push_read:
  assumes "inv p bs cs" "0 < n" "n \<le> int (length (cs i @ d))"
  shows "\<exists>b1 p1 b2 p2. push (bs i) p d = Some (b1, p1) \<and> read b1 p1 n = Some (take (nat n) (cs i @ d), b2, p2)
    \<and> inv p2 (bs(i := b2)) (cs(i := drop (nat n) (cs i @ d)))"
proof -
  from push_law [OF assms(1), of i d] obtain b1 p1
    where p: "push (bs i) p d = Some (b1, p1)" "inv p1 (bs(i := b1)) (cs(i := cs i @ d))" by blast
  from read_law [OF p(2) assms(2), of i] assms(3) p(1) show ?thesis by fastforce
qed

end

lemma repr_header [simp]: "repr mp (db\<lparr>db_header := h\<rparr>) xs bs = repr mp db xs bs"
  by (cases xs) (simp_all add: repr_def)

lemma pool_header [simp]:
  "pool_at mp (dbs(i := (dbs i)\<lparr>db_header := h\<rparr>)) bss xss fs = pool_at mp dbs bss xss fs"
proof -
  have r: "repr mp ((dbs(i := (dbs i)\<lparr>db_header := h\<rparr>)) j) (xss j) (bss j) = repr mp (dbs j) (xss j) (bss j)"
    "db_size ((dbs(i := (dbs i)\<lparr>db_header := h\<rparr>)) j) = db_size (dbs j)" for j
    by auto
  show ?thesis unfolding pool_at_def r ..
qed

interpretation buf: byte_buffers pool_inv db_header "\<lambda>h db. db\<lparr>db_header := h\<rparr>"
  databuffer_push databuffer_read databuffer_clear empty_buffer
proof
  fix p bs cs i d assume "pool_inv p bs cs"
  then obtain xss fs where pool: "pool_at p bs cs xss fs" by (auto simp: pool_inv_def)
  from databuffer_push_owned [OF pool_at_owned [OF pool], of i d]
  show "\<exists>b' p'. databuffer_push (bs i) p d = Some (b', p') \<and> db_header b' = db_header (bs i)
      \<and> pool_inv p' (bs(i := b')) (cs(i := cs i @ d))"
    using pool_at_step [OF pool] pool by (fastforce simp: pool_inv_def pool_at_def [of p])
next
  fix p bs cs n i assume "pool_inv p bs cs" and n: "0 < n" "n \<le> int (length (cs i))"
  then obtain xss fs where pool: "pool_at p bs cs xss fs" by (auto simp: pool_inv_def)
  then have "db_size (bs i) = int (length (cs i))" by (simp add: pool_at_def)
  from databuffer_read_owned [OF pool_at_owned [OF pool] this n]
  show "\<exists>b' p'. databuffer_read (bs i) p n = Some (take (nat n) (cs i), b', p') \<and> db_header b' = db_header (bs i)
      \<and> pool_inv p' (bs(i := b')) (cs(i := drop (nat n) (cs i)))"
    using pool_at_step [OF pool] unfolding pool_inv_def by blast
next
  fix p bs cs i assume "pool_inv p bs cs"
  then obtain xss fs where pool: "pool_at p bs cs xss fs" by (auto simp: pool_inv_def)
  from databuffer_clear_owned [OF pool_at_owned [OF pool, of i]] obtain p' gs
    where c: "databuffer_clear (bs i) p = Some (empty_buffer, p')" "owned p' empty_buffer [] [] gs"
      "evolves p (xss i) fs p' [] gs" by blast
  then show "\<exists>p'. databuffer_clear (bs i) p = Some (empty_buffer, p')
      \<and> pool_inv p' (bs(i := empty_buffer)) (cs(i := []))"
    using pool_at_step [OF pool c(3,2)] by (auto simp: pool_inv_def empty_buffer_def)
next
  fix p bs cs i and h :: int assume "pool_inv p bs cs"
  then show "pool_inv p (bs(i := (bs i)\<lparr>db_header := h\<rparr>)) cs" by (simp add: pool_inv_def)
qed

lemma pool_inv_size: "pool_inv mp dbs bss \<Longrightarrow> db_size (dbs i) = int (length (bss i))"
  by (auto simp: pool_inv_def pool_at_def)

lemma pool_inv_empty [inv_intros]: "pool_inv empty_pool (\<lambda>_. empty_buffer) (\<lambda>_. [])"
  unfolding pool_inv_def pool_at_def
  by (intro exI [of _ "\<lambda>_. []"] exI [of _ "[]"]) (auto simp: repr_def empty_pool_def empty_buffer_def)

end
