(* ===== verification/Hashid.thy ===== *)
theory Hashid
  imports Prelude
begin

text \<open>
  \<^verbatim>\<open>skynet/service-src/hashid.h\<close>: the table from socket ids to connection slots, a fixed array of
  nodes with hash chains threaded through it. Node pointers are indices into the array.
  Socket ids are nonnegative; \<open>-1\<close> marks a free node.
\<close>

section \<open>The data and the operations\<close>

record hashid_node =
  hn_id :: int
  hn_next :: ptr

record hashid =
  hi_hashmod :: int
  hi_cap :: int
  hi_count :: int
  hi_id :: "hashid_node list"
  hi_hash :: "ptr list"

text \<open>The loop of \<^verbatim>\<open>hashid_init\<close> that doubles \<^verbatim>\<open>hashcap\<close>.\<close>

partial_function (option) hash_cap :: "int \<Rightarrow> int \<Rightarrow> int option" where
  "hash_cap hashcap mx = (if hashcap < mx then hash_cap (hashcap * 2) mx else Some hashcap)"

definition hashid_init :: "int \<Rightarrow> hashid option" where
  "hashid_init mx = do {
     hashcap \<leftarrow> hash_cap 16 mx;
     Some \<lparr>hi_hashmod = hashcap - 1, hi_cap = mx, hi_count = 0,
       hi_id = replicate (nat mx) \<lparr>hn_id = - 1, hn_next = None\<rparr>,
       hi_hash = replicate (nat hashcap) None\<rparr>
   }"

definition hashid_clear :: "hashid \<Rightarrow> hashid" where
  "hashid_clear hi = \<lparr>hi_hashmod = 1, hi_cap = 0, hi_count = 0, hi_id = [], hi_hash = []\<rparr>"

definition hash_of :: "hashid \<Rightarrow> int \<Rightarrow> nat" where
  "hash_of hi i = nat (i AND hi_hashmod hi)"

partial_function (option) lookup_loop :: "hashid_node list \<Rightarrow> int \<Rightarrow> ptr \<Rightarrow> int option" where
  "lookup_loop nodes i c = (case c of
     None \<Rightarrow> Some (- 1)
   | Some k \<Rightarrow> do {
       n \<leftarrow> array_get nodes k;
       if hn_id n = i then Some (int k) else lookup_loop nodes i (hn_next n)
     })"

definition hashid_lookup :: "hashid \<Rightarrow> int \<Rightarrow> int option" where
  "hashid_lookup hi i = do {
     c \<leftarrow> array_get (hi_hash hi) (hash_of hi i);
     lookup_loop (hi_id hi) i c
   }"

text \<open>
  The loop of \<^verbatim>\<open>hashid_remove\<close> behind the head of a chain: the node taken out of the chain,
  with the nodes after the unlinking.
\<close>

partial_function (option) remove_loop ::
    "hashid_node list \<Rightarrow> int \<Rightarrow> nat \<Rightarrow> (nat \<times> hashid_node list) option option" where
  "remove_loop nodes i c = do {
     n \<leftarrow> array_get nodes c;
     (case hn_next n of
        None \<Rightarrow> Some None
      | Some t \<Rightarrow> do {
          tn \<leftarrow> array_get nodes t;
          if hn_id tn = i then do {
            nodes' \<leftarrow> array_set nodes c (n\<lparr>hn_next := hn_next tn\<rparr>);
            Some (Some (t, nodes'))
          } else remove_loop nodes i t
        })
   }"

definition clear_node :: "nat \<Rightarrow> hashid \<Rightarrow> (int \<times> hashid) option" where
  "clear_node c hi = do {
     nodes \<leftarrow> array_set (hi_id hi) c \<lparr>hn_id = - 1, hn_next = None\<rparr>;
     Some (int c, hi\<lparr>hi_id := nodes, hi_count := hi_count hi - 1\<rparr>)
   }"

definition hashid_remove :: "hashid \<Rightarrow> int \<Rightarrow> (int \<times> hashid) option" where
  "hashid_remove hi i = do {
     let h = hash_of hi i;
     p \<leftarrow> array_get (hi_hash hi) h;
     (case p of
        None \<Rightarrow> Some (- 1, hi)
      | Some c \<Rightarrow> do {
          n \<leftarrow> array_get (hi_id hi) c;
          if hn_id n = i then do {
            hash \<leftarrow> array_set (hi_hash hi) h (hn_next n);
            clear_node c (hi\<lparr>hi_hash := hash\<rparr>)
          } else do {
            r \<leftarrow> remove_loop (hi_id hi) i c;
            (case r of
               None \<Rightarrow> Some (- 1, hi)
             | Some (t, nodes) \<Rightarrow> clear_node t (hi\<lparr>hi_id := nodes\<rparr>))
          }
        })
   }"

text \<open>
  The search for a free node: \<open>k\<close> iterations are left. The sum of the loop counter and the id
  is an \<^verbatim>\<open>int\<close>, which an id close to \<^verbatim>\<open>INT_MAX\<close> overflows; a negative remainder lies outside
  of the array.
\<close>

primrec free_node :: "nat \<Rightarrow> int \<Rightarrow> int \<Rightarrow> hashid \<Rightarrow> nat option option" where
  "free_node 0 j i hi = Some None"
| "free_node (Suc k) j i hi = do {
     sum \<leftarrow> c_int (j + i);
     let index = c_rem sum (hi_cap hi);
     assert_c (0 \<le> index);
     n \<leftarrow> array_get (hi_id hi) (nat index);
     if hn_id n = - 1 then Some (Some (nat index)) else free_node k (j + 1) i hi
   }"

definition hashid_insert :: "hashid \<Rightarrow> int \<Rightarrow> (int \<times> hashid) option" where
  "hashid_insert hi i = do {
     r \<leftarrow> free_node (nat (hi_cap hi)) 0 i hi;
     c \<leftarrow> r;
     n \<leftarrow> array_get (hi_id hi) c;
     assert_c (hn_next n = None);
     let h = hash_of hi i;
     old \<leftarrow> array_get (hi_hash hi) h;
     nodes \<leftarrow> array_set (hi_id hi) c \<lparr>hn_id = i, hn_next = old\<rparr>;
     hash \<leftarrow> array_set (hi_hash hi) h (Some c);
     Some (int c, hi\<lparr>hi_count := hi_count hi + 1, hi_id := nodes, hi_hash := hash\<rparr>)
   }"

definition hashid_full :: "hashid \<Rightarrow> bool" where
  "hashid_full hi \<longleftrightarrow> hi_count hi = hi_cap hi"

section \<open>The table as a map\<close>

definition node_next :: "hashid_node list \<Rightarrow> nat \<rightharpoonup> ptr" where
  "node_next nodes k = (if k < length nodes then Some (hn_next (nodes ! k)) else None)"

definition used :: "hashid_node list \<Rightarrow> nat set" where
  "used nodes = {k. k < length nodes \<and> hn_id (nodes ! k) \<noteq> - 1}"

definition id_map :: "hashid \<Rightarrow> int \<rightharpoonup> nat" where
  "id_map hi i = (if i = - 1 then None else find (\<lambda>k. hn_id (hi_id hi ! k) = i) [0..<length (hi_id hi)])"

text \<open>
  The invariant, with the chain \<open>cs h\<close> of every bucket \<open>h\<close>: a chain holds exactly the used
  nodes whose id hashes to the bucket, ids are unique, and the counter counts the used nodes.
\<close>

definition hashid_at :: "nat \<Rightarrow> (nat \<Rightarrow> nat list) \<Rightarrow> hashid \<Rightarrow> bool" where
  "hashid_at b cs hi \<longleftrightarrow> hi_hashmod hi = 2 ^ b - 1 \<and> length (hi_hash hi) = 2 ^ b
     \<and> hi_cap hi = int (length (hi_id hi)) \<and> hi_count hi = int (card (used (hi_id hi)))
     \<and> (\<forall>h < 2 ^ b. linked (node_next (hi_id hi)) (hi_hash hi ! h) (cs h) \<and> distinct (cs h)
          \<and> set (cs h) = {k \<in> used (hi_id hi). hash_of hi (hn_id (hi_id hi ! k)) = h})
     \<and> (\<forall>k \<in> used (hi_id hi). \<forall>l \<in> used (hi_id hi). hn_id (hi_id hi ! k) = hn_id (hi_id hi ! l) \<longrightarrow> k = l)
     \<and> (\<forall>k < length (hi_id hi). k \<notin> used (hi_id hi) \<longrightarrow> hn_next (hi_id hi ! k) = None)"

definition hashid_inv :: "hashid \<Rightarrow> bool" where
  "hashid_inv hi \<longleftrightarrow> (\<exists>b cs. hashid_at b cs hi)"

lemma hashid_atD:
  assumes "hashid_at b cs hi"
  shows "hi_hashmod hi = 2 ^ b - 1" "length (hi_hash hi) = 2 ^ b" "hi_cap hi = int (length (hi_id hi))"
    "hi_count hi = int (card (used (hi_id hi)))"
    "h < 2 ^ b \<Longrightarrow> linked (node_next (hi_id hi)) (hi_hash hi ! h) (cs h)"
    "h < 2 ^ b \<Longrightarrow> distinct (cs h)"
    "h < 2 ^ b \<Longrightarrow> set (cs h) = {k \<in> used (hi_id hi). hash_of hi (hn_id (hi_id hi ! k)) = h}"
    "k \<in> used (hi_id hi) \<Longrightarrow> l \<in> used (hi_id hi) \<Longrightarrow> hn_id (hi_id hi ! k) = hn_id (hi_id hi ! l) \<Longrightarrow> k = l"
    "k < length (hi_id hi) \<Longrightarrow> k \<notin> used (hi_id hi) \<Longrightarrow> hn_next (hi_id hi ! k) = None"
  using assms unfolding hashid_at_def by blast+

lemma hash_of_less:
  assumes "hashid_at b cs hi"
  shows "hash_of hi i < 2 ^ b"
proof -
  have "i AND hi_hashmod hi = i mod 2 ^ b"
    unfolding hashid_atD(1) [OF assms] by (simp add: mask_eq_exp_minus_1 [symmetric] take_bit_eq_mask [symmetric] take_bit_eq_mod)
  then show ?thesis by (simp add: hash_of_def nat_less_iff)
qed

lemma usedD: "k \<in> used nodes \<Longrightarrow> k < length nodes \<and> hn_id (nodes ! k) \<noteq> - 1"
  by (simp add: used_def)

lemma finite_used [simp]: "finite (used nodes)"
  by (rule finite_subset [of _ "{..<length nodes}"]) (auto simp: used_def)

lemma id_map_iff:
  assumes "hashid_at b cs hi"
  shows "id_map hi i = Some k \<longleftrightarrow> k \<in> used (hi_id hi) \<and> hn_id (hi_id hi ! k) = i"
proof
  assume "id_map hi i = Some k"
  then show "k \<in> used (hi_id hi) \<and> hn_id (hi_id hi ! k) = i"
    by (auto simp: id_map_def used_def find_Some_iff split: if_splits)
next
  assume k: "k \<in> used (hi_id hi) \<and> hn_id (hi_id hi ! k) = i"
  then have "i \<noteq> - 1" "\<exists>l. l < length (hi_id hi) \<and> hn_id (hi_id hi ! l) = i" by (auto simp: used_def)
  then obtain l where l: "id_map hi i = Some l"
    by (cases "find (\<lambda>k. hn_id (hi_id hi ! k) = i) [0..<length (hi_id hi)]")
      (auto simp: id_map_def find_None_iff)
  then have "l \<in> used (hi_id hi) \<and> hn_id (hi_id hi ! l) = i"
    by (auto simp: id_map_def used_def find_Some_iff split: if_splits)
  then show "id_map hi i = Some k" using k l hashid_atD(8) [OF assms] by metis
qed

lemma node_next_Some [simp]: "node_next nodes k = Some q \<longleftrightarrow> k < length nodes \<and> q = hn_next (nodes ! k)"
  by (auto simp: node_next_def)

lemma lookup_loop_correct:
  assumes "linked (node_next nodes) c xs"
  shows "lookup_loop nodes i c = Some (case find (\<lambda>k. hn_id (nodes ! k) = i) xs of Some k \<Rightarrow> int k | None \<Rightarrow> - 1)"
  using assms
proof (induction xs arbitrary: c)
  case Nil
  then show ?case by (subst lookup_loop.simps) simp
next
  case (Cons x xs)
  then have "x < length nodes" "linked (node_next nodes) (hn_next (nodes ! x)) xs" "c = Some x"
    by auto
  then show ?case using Cons.IH by (subst lookup_loop.simps) simp
qed

lemma find_chain:
  assumes "hashid_at b cs hi" "i \<noteq> - 1"
  shows "find (\<lambda>k. hn_id (hi_id hi ! k) = i) (cs (hash_of hi i)) = id_map hi i"
proof -
  let ?f = "find (\<lambda>k. hn_id (hi_id hi ! k) = i) (cs (hash_of hi i))"
  note cs = hashid_atD(7) [OF assms(1) hash_of_less [OF assms(1), of i]]
  have "?f = Some k \<longleftrightarrow> id_map hi i = Some k" for k
  proof
    assume "?f = Some k"
    then have "k \<in> set (cs (hash_of hi i))" "hn_id (hi_id hi ! k) = i" by (auto simp: find_Some_iff)
    then show "id_map hi i = Some k" using cs by (simp add: id_map_iff [OF assms(1)])
  next
    assume "id_map hi i = Some k"
    then have k: "k \<in> used (hi_id hi)" "hn_id (hi_id hi ! k) = i" by (auto simp: id_map_iff [OF assms(1)])
    then have "k \<in> set (cs (hash_of hi i))" using cs by simp
    then obtain l where l: "?f = Some l" using k(2) by (cases ?f) (auto simp: find_None_iff)
    then have "l \<in> used (hi_id hi)" "hn_id (hi_id hi ! l) = i" using cs by (auto simp: find_Some_iff)
    then show "?f = Some k" using l k hashid_atD(8) [OF assms(1)] by metis
  qed
  then show ?thesis by (metis not_None_eq)
qed

lemma hashid_lookup_correct:
  assumes "hashid_at b cs hi" "i \<noteq> - 1"
  shows "hashid_lookup hi i = Some (case id_map hi i of Some k \<Rightarrow> int k | None \<Rightarrow> - 1)"
  using hash_of_less [OF assms(1), of i] hashid_atD(2) [OF assms(1)]
    lookup_loop_correct [OF hashid_atD(5) [OF assms(1) hash_of_less [OF assms(1)]], of i i] find_chain [OF assms]
  by (simp add: hashid_lookup_def)

subsection \<open>Insertion\<close>

lemma free_node_correct:
  assumes "hi_cap hi = int (length (hi_id hi))" "0 < hi_cap hi" "0 \<le> i" "0 \<le> j" "j + int n + i \<le> 2 ^ 31"
  shows "free_node n j i hi = Some None \<and> (\<forall>x < n. nat ((j + int x + i) mod hi_cap hi) \<in> used (hi_id hi))
    \<or> (\<exists>k. free_node n j i hi = Some (Some k) \<and> k < length (hi_id hi) \<and> k \<notin> used (hi_id hi))"
  using assms(4,5)
proof (induction n arbitrary: j)
  case (Suc n)
  let ?k = "nat ((j + i) mod hi_cap hi)"
  have k: "?k < length (hi_id hi)" using assms by (simp add: nat_less_iff)
  have sum: "c_int (j + i) = Some (j + i)" "0 \<le> j + i" "0 \<le> (j + i) mod hi_cap hi"
    using Suc.prems assms(2,3) by simp_all
  have step1: "free_node (Suc n) j i hi
      = (if ?k \<in> used (hi_id hi) then free_node n (j + 1) i hi else Some (Some ?k))"
    using k sum assms(2) by (simp add: used_def)
  show ?case
  proof (cases "?k \<in> used (hi_id hi)")
    case False
    then show ?thesis using k step1 by simp
  next
    case True
    then have step: "free_node (Suc n) j i hi = free_node n (j + 1) i hi" using step1 by simp
    have "nat ((j + int x + i) mod hi_cap hi) \<in> used (hi_id hi)"
      if "\<forall>x < n. nat ((j + 1 + int x + i) mod hi_cap hi) \<in> used (hi_id hi)" "x < Suc n" for x
      using that True by (cases x) (auto simp: algebra_simps)
    moreover have "0 \<le> j + 1" "j + 1 + int n + i \<le> 2 ^ 31" using Suc.prems by simp_all
    ultimately show ?thesis using Suc.IH [of "j + 1"] unfolding step by blast
  qed
qed simp

lemma free_node_exists:
  assumes at: "hashid_at b cs hi" and "\<not> hashid_full hi" "0 \<le> i" "i + hi_cap hi \<le> 2 ^ 31"
  shows "\<exists>k. free_node (nat (hi_cap hi)) 0 i hi = Some (Some k) \<and> k < length (hi_id hi) \<and> k \<notin> used (hi_id hi)"
proof -
  let ?n = "length (hi_id hi)"
  have cap: "hi_cap hi = int ?n" using hashid_atD(3) [OF at] .
  have sub: "used (hi_id hi) \<subseteq> {..<?n}" by (auto simp: used_def)
  have "card (used (hi_id hi)) \<noteq> ?n" using assms(2) hashid_atD(4) [OF at] cap by (simp add: hashid_full_def)
  then have "used (hi_id hi) \<noteq> {..<?n}" by (metis card_lessThan)
  then obtain m where m: "m < ?n" "m \<notin> used (hi_id hi)" using sub by blast
  then have pos: "0 < hi_cap hi" using cap by linarith
  define x where "x = nat ((int m - i) mod int ?n)"
  have x: "x < ?n" "int x = (int m - i) mod int ?n" using pos cap by (simp_all add: x_def nat_less_iff)
  have "(0 + int x + i) mod hi_cap hi = int m mod int ?n" unfolding x(2) cap by (simp add: mod_simps)
  then have "nat ((0 + int x + i) mod hi_cap hi) = m" using m(1) by simp
  then have "\<not> (\<forall>x < nat (hi_cap hi). nat ((0 + int x + i) mod hi_cap hi) \<in> used (hi_id hi))"
    using m(2) x(1) cap by (metis nat_int)
  then show ?thesis using free_node_correct [OF cap pos assms(3), of 0 "nat (hi_cap hi)"] assms(4) pos
    by (simp add: add.commute) blast
qed

text \<open>The map of a table is determined by the ids of its nodes.\<close>

lemma id_map_cong:
  assumes "hashid_at b cs hi" "hashid_at b' cs' hi'"
    "\<And>i k. (k \<in> used (hi_id hi') \<and> hn_id (hi_id hi' ! k) = i) \<longleftrightarrow> f i = Some k"
  shows "id_map hi' = f"
proof
  fix i
  have "id_map hi' i = Some k \<longleftrightarrow> f i = Some k" for k using assms(3) by (simp add: id_map_iff [OF assms(2)])
  then show "id_map hi' i = f i" by (metis not_None_eq)
qed

lemma hashid_insert_correct:
  assumes at: "hashid_at b cs hi" and room: "\<not> hashid_full hi" and i: "0 \<le> i" "i + hi_cap hi \<le> 2 ^ 31" "id_map hi i = None"
  shows "\<exists>k hi'. hashid_insert hi i = Some (int k, hi') \<and> hashid_inv hi' \<and> k < length (hi_id hi)
    \<and> k \<notin> ran (id_map hi) \<and> id_map hi' = (id_map hi)(i \<mapsto> k) \<and> hi_cap hi' = hi_cap hi"
proof -
  note D = hashid_atD [OF at]
  from free_node_exists [OF at room i(1,2)] obtain k
    where k: "free_node (nat (hi_cap hi)) 0 i hi = Some (Some k)" "k < length (hi_id hi)" "k \<notin> used (hi_id hi)" by blast
  let ?h = "hash_of hi i"
  let ?nodes = "(hi_id hi)[k := \<lparr>hn_id = i, hn_next = hi_hash hi ! ?h\<rparr>]"
  let ?hi = "hi\<lparr>hi_count := hi_count hi + 1, hi_id := ?nodes, hi_hash := (hi_hash hi)[?h := Some k]\<rparr>"
  have h: "?h < 2 ^ b" using hash_of_less [OF at] .
  have run: "hashid_insert hi i = Some (int k, ?hi)"
    using k D(2) D(9) [OF k(2,3)] h by (simp add: hashid_insert_def Let_def)
  have u: "used ?nodes = insert k (used (hi_id hi))"
    using k(2,3) i(1) by (auto simp: used_def nth_list_update split: if_splits)
  have hash [simp]: "hash_of ?hi = hash_of hi" by (simp add: hash_of_def fun_eq_iff)
  have idk: "hn_id (?nodes ! l) = (if l = k then i else hn_id (hi_id hi ! l))" for l
    using k(2) by (simp add: nth_list_update)
  have kc: "k \<notin> set (cs g)" if "g < 2 ^ b" for g using D(7) [OF that] k(3) by auto
  have nn: "node_next ?nodes = (node_next (hi_id hi))(k \<mapsto> hi_hash hi ! ?h)"
    using k(2) by (auto simp: node_next_def fun_eq_iff nth_list_update)
  have new: "hn_id (hi_id hi ! l) \<noteq> i" if "l \<in> used (hi_id hi)" for l
    using i(3) that id_map_iff [OF at, of i l] by auto
  have at': "hashid_at b (cs(?h := k # cs ?h)) ?hi"
    unfolding hashid_at_def hash
  proof (intro conjI allI impI ballI)
    show "hi_count ?hi = int (card (used (hi_id ?hi)))" using D(4) k(3) by (simp add: u)
    fix g :: nat assume g: "g < 2 ^ b"
    show "linked (node_next (hi_id ?hi)) (hi_hash ?hi ! g) ((cs(?h := k # cs ?h)) g)"
      using D(5) [OF g] D(5) [OF h] kc [OF g] kc [OF h] D(2) h by (auto simp: nn nth_list_update)
    show "distinct ((cs(?h := k # cs ?h)) g)" using D(6) [OF g] kc [OF g] by auto
    show "set ((cs(?h := k # cs ?h)) g) = {l \<in> used (hi_id ?hi). hash_of hi (hn_id (hi_id ?hi ! l)) = g}"
      using D(7) [OF g] D(7) [OF h] k(3) by (auto simp: u idk)
  next
    fix l m assume "l \<in> used (hi_id ?hi)" "m \<in> used (hi_id ?hi)" "hn_id (hi_id ?hi ! l) = hn_id (hi_id ?hi ! m)"
    then show "l = m" using new D(8) [of l m] by (auto simp: u idk split: if_splits)
  next
    fix l assume "l < length (hi_id ?hi)" "l \<notin> used (hi_id ?hi)"
    then show "hn_next (hi_id ?hi ! l) = None" using D(9) [of l] by (auto simp: u)
  qed (use D in auto)
  have "id_map ?hi = (id_map hi)(i \<mapsto> k)"
  proof (rule id_map_cong [OF at at'])
    fix j l
    show "(l \<in> used (hi_id ?hi) \<and> hn_id (hi_id ?hi ! l) = j) \<longleftrightarrow> ((id_map hi)(i \<mapsto> k)) j = Some l"
      using new [of l] k(3) by (auto simp: u idk id_map_iff [OF at])
  qed
  moreover have "k \<notin> ran (id_map hi)" using k(3) by (auto simp: ran_def id_map_iff [OF at])
  moreover have "hashid_inv ?hi" using at' by (auto simp: hashid_inv_def)
  ultimately show ?thesis using run k(2) by auto
qed

subsection \<open>Removal\<close>

lemma linked_head_node:
  "linked (node_next nodes) (Some c) xs \<longleftrightarrow>
    (\<exists>ys. xs = c # ys \<and> c < length nodes \<and> linked (node_next nodes) (hn_next (nodes ! c)) ys)"
  by (cases xs) auto

text \<open>The loop unlinks the node from the chain and changes no other field of any node.\<close>

lemma remove_loop_correct:
  assumes "linked (node_next nodes) (Some c) (c # xs)" "distinct (c # xs)"
  shows "case find (\<lambda>k. hn_id (nodes ! k) = i) xs of
      None \<Rightarrow> remove_loop nodes i c = Some None
    | Some t \<Rightarrow> \<exists>nodes'. remove_loop nodes i c = Some (Some (t, nodes')) \<and> length nodes' = length nodes
        \<and> (\<forall>k. hn_id (nodes' ! k) = hn_id (nodes ! k)) \<and> (\<forall>k. k \<notin> set (c # xs) \<longrightarrow> nodes' ! k = nodes ! k)
        \<and> linked (node_next nodes') (Some c) (c # remove1 t xs)"
  using assms
proof (induction xs arbitrary: c)
  case Nil
  then show ?case by (subst remove_loop.simps) simp
next
  case (Cons t xs)
  from Cons.prems have c: "c < length nodes" "hn_next (nodes ! c) = Some t"
    and t: "t < length nodes" "linked (node_next nodes) (hn_next (nodes ! t)) xs"
    and dis: "c \<noteq> t" "c \<notin> set xs" "t \<notin> set xs" by auto
  show ?case
  proof (cases "hn_id (nodes ! t) = i")
    case True
    let ?nodes = "nodes[c := (nodes ! c)\<lparr>hn_next := hn_next (nodes ! t)\<rparr>]"
    have "remove_loop nodes i c = Some (Some (t, ?nodes))"
      using c t True by (subst remove_loop.simps) simp
    moreover have "hn_id (?nodes ! k) = hn_id (nodes ! k)" for k
      using c(1) by (cases "k = c") auto
    moreover have "linked (node_next ?nodes) (hn_next (nodes ! t)) xs"
    proof (subst linked_cong [of xs _ "node_next nodes"])
      fix x assume "x \<in> set xs"
      then have "x \<noteq> c" using dis(2) by blast
      then show "node_next ?nodes x = node_next nodes x" by (simp add: node_next_def)
    qed (rule t(2))
    then have "linked (node_next ?nodes) (Some c) (c # xs)" using c(1) by simp
    ultimately show ?thesis using True by auto
  next
    case False
    have "linked (node_next nodes) (Some t) (t # xs)" "distinct (t # xs)" using t Cons.prems(2) by auto
    note ih = Cons.IH [OF this]
    have step: "remove_loop nodes i c = remove_loop nodes i t"
      using c t(1) False by (subst remove_loop.simps) simp
    show ?thesis
    proof (cases "find (\<lambda>k. hn_id (nodes ! k) = i) xs")
      case None
      then show ?thesis using ih False step by simp
    next
      case (Some u)
      with ih obtain nodes' where n: "remove_loop nodes i t = Some (Some (u, nodes'))" "length nodes' = length nodes"
        "\<forall>k. hn_id (nodes' ! k) = hn_id (nodes ! k)" "\<forall>k. k \<notin> set (t # xs) \<longrightarrow> nodes' ! k = nodes ! k"
        "linked (node_next nodes') (Some t) (t # remove1 u xs)" by auto
      have "nodes' ! c = nodes ! c" using n(4) dis by auto
      then have "linked (node_next nodes') (Some c) (c # t # remove1 u xs)" using n(2,5) c by auto
      moreover have "u \<noteq> t" using Some False by (auto simp: find_Some_iff)
      ultimately show ?thesis using Some False step n by auto
    qed
  qed
qed

text \<open>Taking a used node out of its chain and clearing it.\<close>

lemma unlink_correct:
  assumes at: "hashid_at b cs hi" and k: "k \<in> used (hi_id hi)"
    and len: "length nodes = length (hi_id hi)" "length hash = 2 ^ b"
    and ids: "\<And>l. hn_id (nodes ! l) = hn_id (hi_id hi ! l)"
    and h: "h = hash_of hi (hn_id (hi_id hi ! k))"
    and same: "\<And>l. l < length nodes \<Longrightarrow> l \<notin> set (cs h) \<Longrightarrow> nodes ! l = hi_id hi ! l"
    and heads: "\<And>g. g < 2 ^ b \<Longrightarrow> g \<noteq> h \<Longrightarrow> hash ! g = hi_hash hi ! g"
    and link: "linked (node_next nodes) (hash ! h) (remove1 k (cs h))"
  defines "hi' \<equiv> hi\<lparr>hi_id := nodes[k := \<lparr>hn_id = - 1, hn_next = None\<rparr>], hi_hash := hash, hi_count := hi_count hi - 1\<rparr>"
  shows "hashid_inv hi' \<and> id_map hi' = (id_map hi)(hn_id (hi_id hi ! k) := None)"
proof -
  note D = hashid_atD [OF at]
  have kl: "k < length nodes" using usedD [OF k] len by simp
  have hb: "h < 2 ^ b" unfolding h by (rule hash_of_less [OF at])
  have hash [simp]: "hash_of hi' = hash_of hi" by (simp add: hash_of_def hi'_def fun_eq_iff)
  have idk: "hn_id (hi_id hi' ! l) = (if l = k then - 1 else hn_id (hi_id hi ! l))" for l
    using kl ids by (simp add: hi'_def nth_list_update)
  have u: "used (hi_id hi') = used (hi_id hi) - {k}"
    using idk len by (auto simp: used_def hi'_def)
  have nn: "node_next (hi_id hi') = (node_next nodes)(k \<mapsto> None)"
    using kl by (auto simp: hi'_def node_next_def fun_eq_iff nth_list_update)
  have other: "set (cs g) \<inter> set (cs h) = {}" if "g < 2 ^ b" "g \<noteq> h" for g using D(7) that hb by auto
  have "hashid_at b (cs(h := remove1 k (cs h))) hi'"
    unfolding hashid_at_def hash
  proof (intro conjI allI impI ballI)
    show "hi_count hi' = int (card (used (hi_id hi')))"
      using D(4) k card_Suc_Diff1 [OF finite_used k] by (simp add: u) (simp add: hi'_def)
    fix g :: nat assume g: "g < 2 ^ b"
    have ng: "k \<notin> set (cs g)" if "g \<noteq> h" using D(7) [OF g] that h by auto
    show "distinct ((cs(h := remove1 k (cs h))) g)" using D(6) [OF g] by auto
    show "set ((cs(h := remove1 k (cs h))) g) = {l \<in> used (hi_id hi'). hash_of hi (hn_id (hi_id hi' ! l)) = g}"
      using D(7) [OF g] D(6) [OF hb] ng by (auto simp: u idk)
    show "linked (node_next (hi_id hi')) (hi_hash hi' ! g) ((cs(h := remove1 k (cs h))) g)"
    proof (cases "g = h")
      case True
      then show ?thesis using link D(6) [OF hb] unfolding nn by (simp add: hi'_def)
    next
      case False
      have "linked (node_next nodes) (hash ! g) (cs g)"
      proof (subst linked_cong [of _ _ "node_next (hi_id hi)"])
        fix x assume "x \<in> set (cs g)"
        then have "x \<notin> set (cs h)" using other [OF g False] by blast
        then show "node_next nodes x = node_next (hi_id hi) x" using same [of x] len(1) by (simp add: node_next_def)
      qed (use D(5) [OF g] heads [OF g False] in simp)
      then show ?thesis using False ng unfolding nn by (simp add: hi'_def)
    qed
  next
    fix l m assume "l \<in> used (hi_id hi')" "m \<in> used (hi_id hi')" "hn_id (hi_id hi' ! l) = hn_id (hi_id hi' ! m)"
    then show "l = m" using D(8) [of l m] by (auto simp: u idk)
  next
    fix l assume l: "l < length (hi_id hi')" "l \<notin> used (hi_id hi')"
    show "hn_next (hi_id hi' ! l) = None"
    proof (cases "l = k")
      case True
      then show ?thesis using kl by (simp add: hi'_def)
    next
      case False
      then have "l \<notin> used (hi_id hi)" "l < length nodes" using l u by (auto simp: hi'_def)
      moreover from this have "l \<notin> set (cs h)" using D(7) [OF hb] by auto
      ultimately show ?thesis using same D(9) [of l] False len(1) by (simp add: hi'_def)
    qed
  qed (use D len in \<open>auto simp: hi'_def\<close>)
  note at' = this
  have "id_map hi' = (id_map hi)(hn_id (hi_id hi ! k) := None)"
  proof (rule id_map_cong [OF at at'])
    fix j l
    show "(l \<in> used (hi_id hi') \<and> hn_id (hi_id hi' ! l) = j)
        \<longleftrightarrow> ((id_map hi)(hn_id (hi_id hi ! k) := None)) j = Some l"
      using D(8) [of l k] k by (auto simp: u idk id_map_iff [OF at])
  qed
  then show ?thesis using at' by (auto simp: hashid_inv_def)
qed

lemma hashid_remove_correct:
  assumes at: "hashid_at b cs hi" and i: "i \<noteq> - 1"
  shows "\<exists>hi'. hashid_remove hi i = Some (case id_map hi i of Some k \<Rightarrow> int k | None \<Rightarrow> - 1, hi')
    \<and> hashid_inv hi' \<and> id_map hi' = (id_map hi)(i := None) \<and> hi_cap hi' = hi_cap hi"
proof -
  note D = hashid_atD [OF at]
  let ?h = "hash_of hi i"
  have h: "?h < 2 ^ b" by (rule hash_of_less [OF at])
  have len: "?h < length (hi_hash hi)" using h D(2) by simp
  note link = D(5) [OF h] and find = find_chain [OF at i]
  have gone: "\<exists>hi'. hashid_remove hi i = Some (- 1, hi') \<and> hashid_inv hi' \<and> id_map hi' = (id_map hi)(i := None)
      \<and> hi_cap hi' = hi_cap hi" if "hashid_remove hi i = Some (- 1, hi)" "id_map hi i = None"
    using that at by (auto simp: hashid_inv_def fun_upd_idem)
  show ?thesis
  proof (cases "hi_hash hi ! ?h")
    case None
    then have "hashid_remove hi i = Some (- 1, hi)" using len by (simp add: hashid_remove_def)
    moreover have "id_map hi i = None" using None link find by simp
    ultimately show ?thesis using gone by simp
  next
    case (Some c)
    then obtain ys where ys: "cs ?h = c # ys" "c < length (hi_id hi)"
      "linked (node_next (hi_id hi)) (hn_next (hi_id hi ! c)) ys"
      using link by (auto simp: linked_head_node)
    show ?thesis
    proof (cases "hn_id (hi_id hi ! c) = i")
      case True
      then have m: "id_map hi i = Some c" using find ys(1) by simp
      then have c: "c \<in> used (hi_id hi)" by (simp add: id_map_iff [OF at])
      let ?hash = "(hi_hash hi)[?h := hn_next (hi_id hi ! c)]"
      let ?hi = "hi\<lparr>hi_id := (hi_id hi)[c := \<lparr>hn_id = - 1, hn_next = None\<rparr>], hi_hash := ?hash,
          hi_count := hi_count hi - 1\<rparr>"
      have "hashid_remove hi i = Some (int c, ?hi)"
        using len Some ys(2) True by (simp add: hashid_remove_def clear_node_def)
      moreover have "hashid_inv ?hi \<and> id_map ?hi = (id_map hi)(hn_id (hi_id hi ! c) := None)"
        by (rule unlink_correct [OF at c, where h = ?h]) (use True D(2) h ys in simp_all)
      ultimately show ?thesis using True m by simp
    next
      case False
      have fy: "find (\<lambda>k. hn_id (hi_id hi ! k) = i) ys = id_map hi i" using find ys(1) False by simp
      have "linked (node_next (hi_id hi)) (Some c) (c # ys)" "distinct (c # ys)"
        using link Some ys(1) D(6) [OF h] by auto
      note loop = remove_loop_correct [OF this, of i, unfolded fy]
      show ?thesis
      proof (cases "id_map hi i")
        case None
        then have "hashid_remove hi i = Some (- 1, hi)" using loop len Some ys(2) False by (simp add: hashid_remove_def)
        then show ?thesis using gone None by simp
      next
        case (Some t)
        then have t: "t \<in> used (hi_id hi)" "hn_id (hi_id hi ! t) = i" by (auto simp: id_map_iff [OF at])
        from loop Some obtain nodes where n: "remove_loop (hi_id hi) i c = Some (Some (t, nodes))"
          "length nodes = length (hi_id hi)" "\<forall>k. hn_id (nodes ! k) = hn_id (hi_id hi ! k)"
          "\<forall>k. k \<notin> set (c # ys) \<longrightarrow> nodes ! k = hi_id hi ! k"
          "linked (node_next nodes) (Some c) (c # remove1 t ys)" by auto
        have tl: "t < length nodes" using usedD [OF t(1)] n(2) by simp
        let ?hi = "hi\<lparr>hi_id := nodes[t := \<lparr>hn_id = - 1, hn_next = None\<rparr>], hi_hash := hi_hash hi,
            hi_count := hi_count hi - 1\<rparr>"
        have "hashid_remove hi i = Some (int t, ?hi)"
          using len \<open>hi_hash hi ! ?h = Some c\<close> ys(2) False n(1) tl by (simp add: hashid_remove_def clear_node_def)
        moreover have "t \<noteq> c" using t(2) False by auto
        then have "linked (node_next nodes) (hi_hash hi ! ?h) (remove1 t (cs ?h))"
          using n(5) ys(1) \<open>hi_hash hi ! ?h = Some c\<close> by simp
        then have "hashid_inv ?hi \<and> id_map ?hi = (id_map hi)(hn_id (hi_id hi ! t) := None)"
          by (intro unlink_correct [OF at t(1) n(2) D(2), where h = ?h]) (use t n(3,4) ys(1) in auto)
        ultimately show ?thesis using t Some by simp
      qed
    qed
  qed
qed

lemma hash_cap_correct: "0 < c \<Longrightarrow> \<exists>n. hash_cap c mx = Some (c * 2 ^ n) \<and> mx \<le> c * 2 ^ n"
proof (induction "nat (mx - c)" arbitrary: c rule: less_induct)
  case less
  show ?case
  proof (cases "c < mx")
    case True
    then obtain n where "hash_cap (c * 2) mx = Some (c * 2 * 2 ^ n)" "mx \<le> c * 2 * 2 ^ n"
      using less(1) [of "c * 2"] less(2) by auto
    then have "hash_cap c mx = Some (c * 2 ^ Suc n)" "mx \<le> c * 2 ^ Suc n"
      using True by (subst hash_cap.simps, simp_all add: algebra_simps)
    then show ?thesis by blast
  next
    case False
    then have "hash_cap c mx = Some (c * 2 ^ 0)" by (subst hash_cap.simps) simp
    then show ?thesis using False by (intro exI [of _ 0]) simp
  qed
qed

lemma hashid_init_correct:
  assumes "0 \<le> mx"
  shows "\<exists>hi. hashid_init mx = Some hi \<and> hashid_inv hi \<and> id_map hi = Map.empty \<and> hi_cap hi = mx"
proof -
  obtain n where n: "hash_cap 16 mx = Some (16 * 2 ^ n)" using hash_cap_correct [of 16 mx] by auto
  have p: "(16 :: int) * 2 ^ n = 2 ^ (n + 4)" by (simp add: power_add)
  let ?hi = "\<lparr>hi_hashmod = 2 ^ (n + 4) - 1, hi_cap = mx, hi_count = 0,
       hi_id = replicate (nat mx) \<lparr>hn_id = - 1, hn_next = None\<rparr>, hi_hash = replicate (2 ^ (n + 4)) None\<rparr>"
  have u: "used (hi_id ?hi) = {}" by (auto simp: used_def)
  have at: "hashid_at (n + 4) (\<lambda>_. []) ?hi" using assms u by (auto simp: hashid_at_def)
  have "id_map ?hi i = None" for i using u by (cases "id_map ?hi i") (auto simp: id_map_iff [OF at])
  moreover have "hashid_init mx = Some ?hi" using n p by (simp add: hashid_init_def nat_power_eq)
  ultimately show ?thesis using at by (auto simp: hashid_inv_def)
qed

text \<open>
  The largest id: when its first slot is taken, the search computes \<^verbatim>\<open>INT_MAX + 1\<close>, although
  the table may have room.
\<close>

lemma insert_overflow:
  assumes "0 < hi_cap hi" "nat ((2 ^ 31 - 1) mod hi_cap hi) \<in> used (hi_id hi)"
  shows "hashid_insert hi (2 ^ 31 - 1) = None"
proof -
  obtain n where n: "nat (hi_cap hi) = Suc n" using assms(1) by (cases "nat (hi_cap hi)") simp_all
  have "free_node (Suc n) 0 (2 ^ 31 - 1) hi = free_node n 1 (2 ^ 31 - 1) hi"
    using usedD [OF assms(2)] assms(1) by simp
  moreover have "free_node n 1 (2 ^ 31 - 1) hi \<in> {None, Some None}" by (cases n) (simp_all add: c_int_def)
  ultimately show ?thesis unfolding hashid_insert_def n by auto
qed

section \<open>The interface: a bounded map from ids to slots\<close>

locale slot_map =
  fixes inv :: "'s \<Rightarrow> bool"
    and slots :: "'s \<Rightarrow> int \<rightharpoonup> nat"
    and cap :: "'s \<Rightarrow> int"
    and lookup :: "'s \<Rightarrow> int \<Rightarrow> int option"
    and insert :: "'s \<Rightarrow> int \<Rightarrow> (int \<times> 's) option"
    and remove :: "'s \<Rightarrow> int \<Rightarrow> (int \<times> 's) option"
    and full :: "'s \<Rightarrow> bool"
  assumes lookup_law: "inv s \<Longrightarrow> i \<noteq> - 1 \<Longrightarrow>
      lookup s i = Some (case slots s i of Some k \<Rightarrow> int k | None \<Rightarrow> - 1)"
    and insert_law: "inv s \<Longrightarrow> \<not> full s \<Longrightarrow> 0 \<le> i \<Longrightarrow> i + cap s \<le> 2 ^ 31 \<Longrightarrow> slots s i = None \<Longrightarrow>
      \<exists>k s'. insert s i = Some (int k, s') \<and> inv s' \<and> int k < cap s \<and> k \<notin> ran (slots s)
        \<and> slots s' = (slots s)(i \<mapsto> k) \<and> cap s' = cap s"
    and remove_law: "inv s \<Longrightarrow> i \<noteq> - 1 \<Longrightarrow>
      \<exists>s'. remove s i = Some (case slots s i of Some k \<Rightarrow> int k | None \<Rightarrow> - 1, s') \<and> inv s'
        \<and> slots s' = (slots s)(i := None) \<and> cap s' = cap s"
    and range_law: "inv s \<Longrightarrow> slots s i = Some k \<Longrightarrow> int k < cap s"
    and inj_law: "inv s \<Longrightarrow> slots s i = Some k \<Longrightarrow> slots s j = Some k \<Longrightarrow> i = j"
begin

lemma lookup_inserted:
  assumes "inv s" "\<not> full s" "0 \<le> i" "i + cap s \<le> 2 ^ 31" "lookup s i = Some (- 1)"
  shows "\<exists>k s'. insert s i = Some (k, s') \<and> inv s' \<and> 0 \<le> k \<and> k < cap s \<and> lookup s' i = Some k
    \<and> (\<forall>j. j \<noteq> i \<longrightarrow> j \<noteq> - 1 \<longrightarrow> lookup s' j = lookup s j \<and> lookup s j \<noteq> Some k)"
proof -
  have none: "slots s i = None" using lookup_law [OF assms(1), of i] assms(3,5) by (auto split: option.splits)
  from insert_law [OF assms(1-4) none] obtain k s' where s': "insert s i = Some (int k, s')" "inv s'"
    "int k < cap s" "k \<notin> ran (slots s)" "slots s' = (slots s)(i \<mapsto> k)" by blast
  then show ?thesis using assms(1,3) lookup_law
    by (intro exI [of _ "int k"] exI [of _ s']) (auto simp: ran_def split: option.split)
qed

lemma lookup_removed:
  assumes "inv s" "i \<noteq> - 1"
  shows "\<exists>k s'. lookup s i = Some k \<and> remove s i = Some (k, s') \<and> inv s' \<and> lookup s' i = Some (- 1)
    \<and> (\<forall>j. j \<noteq> i \<longrightarrow> j \<noteq> - 1 \<longrightarrow> lookup s' j = lookup s j)"
  using remove_law [OF assms] lookup_law assms by auto

end

interpretation ids: slot_map hashid_inv id_map hi_cap hashid_lookup hashid_insert hashid_remove hashid_full
proof
  fix s i assume s: "hashid_inv s"
  then obtain b cs where at: "hashid_at b cs s" by (auto simp: hashid_inv_def)
  show "hashid_lookup s i = Some (case id_map s i of Some k \<Rightarrow> int k | None \<Rightarrow> - 1)" if "i \<noteq> - 1"
    using hashid_lookup_correct [OF at that] .
  show "\<exists>k s'. hashid_insert s i = Some (int k, s') \<and> hashid_inv s' \<and> int k < hi_cap s \<and> k \<notin> ran (id_map s)
      \<and> id_map s' = (id_map s)(i \<mapsto> k) \<and> hi_cap s' = hi_cap s"
    if "\<not> hashid_full s" "0 \<le> i" "i + hi_cap s \<le> 2 ^ 31" "id_map s i = None"
    using hashid_insert_correct [OF at that] hashid_atD(3) [OF at] by fastforce
  show "\<exists>s'. hashid_remove s i = Some (case id_map s i of Some k \<Rightarrow> int k | None \<Rightarrow> - 1, s') \<and> hashid_inv s'
      \<and> id_map s' = (id_map s)(i := None) \<and> hi_cap s' = hi_cap s" if "i \<noteq> - 1"
    using hashid_remove_correct [OF at that] .
  show "int k < hi_cap s" if "id_map s i = Some k" for k
    using that hashid_atD(3) [OF at] by (auto simp: id_map_iff [OF at] used_def)
  show "i = j" if "id_map s i = Some k" "id_map s j = Some k" for j k
    using that by (auto simp: id_map_iff [OF at])
qed

section \<open>Properties\<close>

text \<open>
  Property C15. The socket table is a bounded map: an id inserted while the table is not full
  gets a slot below the capacity that no other id has, and is found there; removing an id
  makes it unknown and gives its slot back; all other ids keep their slots. The id must leave
  room for the search: the \<^verbatim>\<open>int\<close> sum of the id and the loop counter overflows above
  \<^verbatim>\<open>INT_MAX\<close> minus the capacity.
\<close>

theorem hashid_is_map:
  assumes "hashid_inv hi" "\<not> hashid_full hi" "0 \<le> i" "i + hi_cap hi \<le> 2 ^ 31" "hashid_lookup hi i = Some (- 1)"
  shows "\<exists>k hi1 hi2. hashid_insert hi i = Some (k, hi1) \<and> 0 \<le> k \<and> k < hi_cap hi
    \<and> hashid_lookup hi1 i = Some k
    \<and> (\<forall>j. j \<noteq> i \<longrightarrow> j \<noteq> - 1 \<longrightarrow> hashid_lookup hi1 j = hashid_lookup hi j \<and> hashid_lookup hi j \<noteq> Some k)
    \<and> hashid_remove hi1 i = Some (k, hi2) \<and> hashid_lookup hi2 i = Some (- 1)
    \<and> (\<forall>j. j \<noteq> i \<longrightarrow> j \<noteq> - 1 \<longrightarrow> hashid_lookup hi2 j = hashid_lookup hi j)"
proof -
  from ids.lookup_inserted [OF assms] obtain k hi1 where 1: "hashid_insert hi i = Some (k, hi1)" "hashid_inv hi1"
    "0 \<le> k" "k < hi_cap hi" "hashid_lookup hi1 i = Some k"
    "\<forall>j. j \<noteq> i \<longrightarrow> j \<noteq> - 1 \<longrightarrow> hashid_lookup hi1 j = hashid_lookup hi j \<and> hashid_lookup hi j \<noteq> Some k" by blast
  have "i \<noteq> - 1" using assms(3) by auto
  from ids.lookup_removed [OF 1(2) this] 1 show ?thesis by auto
qed

definition demo_table :: hashid where
  "demo_table = \<lparr>hi_hashmod = 15, hi_cap = 2, hi_count = 0,
     hi_id = replicate 2 \<lparr>hn_id = - 1, hn_next = None\<rparr>, hi_hash = replicate 16 None\<rparr>"

lemma demo_table_inv: "hashid_inv demo_table"
proof -
  have "used (hi_id demo_table) = {}" by (auto simp: used_def demo_table_def nth_Cons split: nat.splits)
  then have "hashid_at 4 (\<lambda>_. []) demo_table" by (auto simp: hashid_at_def) (auto simp: demo_table_def)
  then show ?thesis by (auto simp: hashid_inv_def)
qed

theorem hashid_is_map_witness:
  "\<exists>k hi1 hi2. hashid_insert demo_table 5 = Some (k, hi1) \<and> hashid_lookup hi1 5 = Some k
    \<and> hashid_remove hi1 5 = Some (k, hi2) \<and> hashid_lookup hi2 5 = Some (- 1)"
proof -
  have "hashid_lookup demo_table 5 = Some (- 1)"
    by (simp add: hashid_lookup_def hash_of_def demo_table_def lookup_loop.simps)
  from hashid_is_map [OF demo_table_inv _ _ _ this] show ?thesis by (auto simp: hashid_full_def demo_table_def)
qed

end
