(* ===== verification/Cstring.thy ===== *)
theory Cstring
  imports Prelude
begin

text \<open>
  What the services use of the C library's text functions, on byte lists without the
  terminating zero: decimal and hexadecimal printing, \<^verbatim>\<open>strtol\<close>, \<^verbatim>\<open>strtoul\<close>, \<^verbatim>\<open>strsep\<close>.
\<close>

type_synonym bytes = "u8 list"

definition ascii :: "string \<Rightarrow> bytes" where
  "ascii s = map (\<lambda>c. word_of_nat (of_char c)) s"

fun digits_of :: "nat \<Rightarrow> bytes" where
  "digits_of n = (if n < 10 then [word_of_nat (48 + n)] else digits_of (n div 10) @ [word_of_nat (48 + n mod 10)])"

declare digits_of.simps [simp del]

text \<open>\<^verbatim>\<open>%d\<close>\<close>

definition dec_int :: "int \<Rightarrow> bytes" where
  "dec_int i = (if i < 0 then 45 # digits_of (nat (- i)) else digits_of (nat i))"

definition is_space :: "u8 \<Rightarrow> bool" where
  "is_space c \<longleftrightarrow> c = 32 \<or> 9 \<le> c \<and> c \<le> 13"

definition digit_value :: "u8 \<Rightarrow> nat" where
  "digit_value c = (if 48 \<le> c \<and> c \<le> 57 then unat c - 48
     else if 97 \<le> c \<and> c \<le> 122 then unat c - 87
     else if 65 \<le> c \<and> c \<le> 90 then unat c - 55 else 36)"

definition number :: "nat \<Rightarrow> bytes \<Rightarrow> nat" where
  "number base s = foldl (\<lambda>n c. n * base + digit_value c) 0 (takeWhile (\<lambda>c. digit_value c < base) s)"

definition signed_text :: "bytes \<Rightarrow> bool \<times> bytes" where
  "signed_text s = (case dropWhile is_space s of
     [] \<Rightarrow> (False, [])
   | c # cs \<Rightarrow> if c = 45 then (True, cs) else if c = 43 then (False, cs) else (False, c # cs))"

text \<open>\<^verbatim>\<open>(int)strtol(s, NULL, 10)\<close> on a machine with 64-bit \<^verbatim>\<open>long\<close>: saturated, then truncated.\<close>

definition strtol10 :: "bytes \<Rightarrow> int" where
  "strtol10 s = (let (neg, ds) = signed_text s; n = int (number 10 ds);
       v = (if neg then max (- n) (- (2 ^ 63)) else min n (2 ^ 63 - 1))
     in sint (word_of_int v :: i32))"

text \<open>\<^verbatim>\<open>(int)strtol(s, NULL, 0)\<close>: the prefix \<^verbatim>\<open>0x\<close> or \<^verbatim>\<open>0\<close> selects the base.\<close>

definition strtol0 :: "bytes \<Rightarrow> int" where
  "strtol0 s = (let (neg, ds) = signed_text s;
       n = int (case ds of
           a # b # c # rest \<Rightarrow>
             if a = 48 \<and> (b = 120 \<or> b = 88) \<and> digit_value c < 16 then number 16 (c # rest)
             else if a = 48 then number 8 ds else number 10 ds
         | a # _ \<Rightarrow> if a = 48 then number 8 ds else number 10 ds
         | [] \<Rightarrow> 0);
       v = (if neg then max (- n) (- (2 ^ 63)) else min n (2 ^ 63 - 1))
     in sint (word_of_int v :: i32))"

text \<open>\<^verbatim>\<open>(uint32_t)strtoul(s, NULL, 16)\<close>, with the optional \<^verbatim>\<open>0x\<close>.\<close>

definition strtoul16 :: "bytes \<Rightarrow> u32" where
  "strtoul16 s = (let (neg, ds) = signed_text s;
       ds' = (case ds of a # b # c # rest \<Rightarrow>
           if a = 48 \<and> (b = 120 \<or> b = 88) \<and> digit_value c < 16 then c # rest else ds | _ \<Rightarrow> ds);
       n = number 16 ds'
     in if n \<ge> 2 ^ 64 then - 1 else if neg then - word_of_nat n else word_of_nat n)"

text \<open>\<^verbatim>\<open>strsep(&s, " ")\<close>: the token, and what is left unless the string ended.\<close>

definition strsep :: "bytes \<Rightarrow> bytes \<times> bytes option" where
  "strsep s = (let tok = takeWhile (\<lambda>c. c \<noteq> 32) s in
     (tok, case dropWhile (\<lambda>c. c \<noteq> 32) s of [] \<Rightarrow> None | _ # rest \<Rightarrow> Some rest))"

text \<open>\<^verbatim>\<open>%x\<close>\<close>

definition hex_digit :: "nat \<Rightarrow> char" where
  "hex_digit n = ''0123456789abcdef'' ! n"

fun hex_nat :: "nat \<Rightarrow> string" where
  "hex_nat n = (if n < 16 then [hex_digit n] else hex_nat (n div 16) @ [hex_digit (n mod 16)])"

declare hex_nat.simps [simp del]

text \<open>\<^verbatim>\<open>%0wx\<close>\<close>

definition hex_pad :: "nat \<Rightarrow> nat \<Rightarrow> string" where
  "hex_pad w n = (let s = hex_nat n in replicate (w - length s) (CHR ''0'') @ s)"

fun dec_nat :: "nat \<Rightarrow> string" where
  "dec_nat n = (if n < 10 then [hex_digit n] else dec_nat (n div 10) @ [hex_digit (n mod 10)])"

declare dec_nat.simps [simp del]

definition dec_string :: "int \<Rightarrow> string" where
  "dec_string i = (if i < 0 then CHR ''-'' # dec_nat (nat (- i)) else dec_nat (nat i))"

section \<open>Reading back printed numbers\<close>

definition hex_text :: "bytes \<Rightarrow> bool" where
  "hex_text s \<longleftrightarrow> (\<forall>c \<in> set s. digit_value c < 16)"

lemma hex_byte:
  assumes "digit_value c < 16"
  shows "\<not> is_space c" "c \<noteq> 45" "c \<noteq> 43" "c \<noteq> 120" "c \<noteq> 88"
proof -
  have "\<forall>c :: u8 \<in> {32, 9, 10, 11, 12, 13, 45, 43, 120, 88}. \<not> digit_value c < 16"
    by (simp add: digit_value_def)
  moreover have "is_space c \<Longrightarrow> c \<in> {32, 9, 10, 11, 12, 13}"
  proof -
    assume "is_space c"
    then have "c = 32 \<or> unat c \<in> {9, 10, 11, 12, 13}" by (auto simp: is_space_def word_le_nat_alt)
    then show ?thesis by (auto simp: word_unat_eq_iff)
  qed
  ultimately show "\<not> is_space c" "c \<noteq> 45" "c \<noteq> 43" "c \<noteq> 120" "c \<noteq> 88" using assms by blast+
qed

lemma strtoul16_hex:
  assumes "hex_text s" "foldl (\<lambda>n c. n * 16 + digit_value c) 0 s < 2 ^ 64"
  shows "strtoul16 s = word_of_nat (foldl (\<lambda>n c. n * 16 + digit_value c) 0 s)"
proof -
  have all: "takeWhile (\<lambda>c. digit_value c < 16) s = s" using assms(1) by (auto simp: hex_text_def)
  have sg: "signed_text s = (False, s)" using assms(1) hex_byte
    by (cases s) (auto simp: signed_text_def hex_text_def)
  have pre: "(case s of a # b # c # rest \<Rightarrow>
       if a = 48 \<and> (b = 120 \<or> b = 88) \<and> digit_value c < 16 then c # rest else s | _ \<Rightarrow> s) = s"
    using assms(1) hex_byte(4,5) by (auto simp: hex_text_def split: list.splits)
  show ?thesis using assms(2) unfolding strtoul16_def sg by (simp add: pre number_def all)
qed

lemma digit_tables:
  assumes "d < 16"
  shows "digit_value (word_of_nat (of_char (hex_digit d))) = d"
    "digit_value (word_of_nat (of_char (''0123456789ABCDEF'' ! d))) = d"
proof -
  have "\<forall>d \<in> set [0..<16]. digit_value (word_of_nat (of_char (hex_digit d))) = d
      \<and> digit_value (word_of_nat (of_char (''0123456789ABCDEF'' ! d))) = d"
    by code_simp
  then show "digit_value (word_of_nat (of_char (hex_digit d))) = d"
    "digit_value (word_of_nat (of_char (''0123456789ABCDEF'' ! d))) = d" using assms by auto
qed

lemma hex_nat_reads:
  "hex_text (ascii (hex_nat n)) \<and> foldl (\<lambda>n c. n * 16 + digit_value c) 0 (ascii (hex_nat n)) = n"
proof (induction n rule: hex_nat.induct)
  case (1 n)
  show ?case
  proof (cases "n < 16")
    case True
    then show ?thesis using digit_tables(1) [of n] by (simp add: hex_nat.simps [of n] ascii_def hex_text_def)
  next
    case False
    have "n mod 16 < 16" by simp
    with False "1.IH" [OF False] show ?thesis using digit_tables(1) [of "n mod 16"]
      by (simp add: hex_nat.simps [of n] ascii_def hex_text_def ball_Un)
  qed
qed

text \<open>The digits of a number in base 16, most significant first.\<close>

lemma foldl_digits:
  "foldl (\<lambda>n d. n * 16 + d) 0 (map (\<lambda>k. x div 16 ^ (m - 1 - k) mod 16) [0..<m]) = (x :: nat) mod 16 ^ m"
proof (induction m arbitrary: x)
  case (Suc m)
  have eq: "map (\<lambda>k. x div 16 ^ (m - k) mod 16) [0..<m] = map (\<lambda>k. x div 16 div 16 ^ (m - 1 - k) mod 16) [0..<m]"
    by (rule map_cong) (auto simp: div_mult2_eq [symmetric] power_Suc [symmetric] Suc_diff_Suc simp del: power_Suc)
  show ?case using Suc.IH [of "x div 16"] by (simp add: eq mod_mult2_eq)
qed simp

end
