(* ===== verification/Gate.thy ===== *)
theory Gate
  imports Databuffer Hashid Cstring
begin

text \<open>
  \<^verbatim>\<open>skynet/service-src/service_gate.c\<close>: the gate service, which accepts connections, cuts their byte
  streams into length-prefixed packets and forwards the packets. It uses the socket table of
  \<open>Hashid\<close> and the buffers of \<open>Databuffer\<close>. What the service does to the outside (sends, socket
  calls, log lines) is returned as a list of events, in order. \<^verbatim>\<open>skynet_queryname\<close> and
  \<^verbatim>\<open>skynet_socket_listen\<close> are parameters of the functions that call them. Texts are byte lists
  without the terminating zero.
\<close>

section \<open>The data\<close>

record connection =
  c_id :: int
  c_agent :: u32
  c_client :: u32
  c_remote_name :: bytes
  c_buffer :: databuffer

record gate =
  listen_id :: int
  watchdog :: u32
  broker :: u32
  client_tag :: u32
  header_size :: int
  max_connection :: int
  g_hash :: hashid
  conn :: "connection list"
  g_mp :: messagepool

datatype gate_log =
    UnknownCommand bytes
  | TooBig
  | DropUnknown int
  | CloseUnknown int
  | SocketOpen int
  | SendBuffer int int
  | InvalidClient u32
  | InvalidClientId int u32
  | InvalidAddress bytes
  | InvalidParm
  | NeedMaxConnection
  | InvalidHeader
  | InvalidWatchdog bytes

datatype gate_event =
    SocketClose int
  | SocketStart int
  | SocketSend int bytes
  | Send u32 u32 u32 int bytes    \<comment> \<open>source, destination, type and tags, session, payload\<close>
  | Log gate_log

datatype socket_type = SData | SConnect | SClose | SError | SAccept | SWarning

text \<open>
  \<^verbatim>\<open>struct skynet_socket_message\<close>: \<open>sm_buffer\<close> is the payload of a data message (its length is
  \<^verbatim>\<open>ud\<close>), \<open>sm_name\<close> the address text stored behind an accept message.
\<close>

record socket_message =
  sm_type :: socket_type
  sm_id :: int
  sm_ud :: int
  sm_buffer :: bytes
  sm_name :: bytes

definition no_connection :: connection where
  "no_connection = \<lparr>c_id = - 1, c_agent = 0, c_client = 0, c_remote_name = [], c_buffer = empty_buffer\<rparr>"

section \<open>The operations\<close>

definition gate_create :: gate where
  "gate_create = \<lparr>listen_id = - 1, watchdog = 0, broker = 0, client_tag = 0, header_size = 0, max_connection = 0,
     g_hash = \<lparr>hi_hashmod = 0, hi_cap = 0, hi_count = 0, hi_id = [], hi_hash = []\<rparr>, conn = [], g_mp = empty_pool\<rparr>"

text \<open>The socket calls of \<^verbatim>\<open>gate_release\<close>, with the pool and the table it leaves before freeing the gate.\<close>

definition gate_release :: "gate \<Rightarrow> gate_event list \<times> gate" where
  "gate_release g =
     (map (\<lambda>c. SocketClose (c_id c)) (filter (\<lambda>c. c_id c \<ge> 0) (take (nat (max_connection g)) (conn g)))
       @ (if listen_id g \<ge> 0 then [SocketClose (listen_id g)] else []),
      g\<lparr>g_mp := messagepool_free (g_mp g), g_hash := hashid_clear (g_hash g), conn := []\<rparr>)"

text \<open>\<open>parm\<close> moves what follows the blanks after the command to the front of the text.\<close>

definition parm :: "bytes \<Rightarrow> nat \<Rightarrow> bytes" where
  "parm msg command_sz = takeWhile (\<lambda>c. c \<noteq> 0) (dropWhile (\<lambda>c. c = 32) (drop command_sz msg))"

text \<open>
  \<^verbatim>\<open>memcmp(command, lit, i) == 0\<close> where \<^verbatim>\<open>lit\<close> is a string literal with its final zero; when the
  literal is a proper prefix, the comparison would leave the literal.
\<close>

definition memcmp_lit :: "bytes \<Rightarrow> bytes \<Rightarrow> nat \<Rightarrow> bool option" where
  "memcmp_lit command lit i =
     (if i \<le> length lit + 1 then Some (take i command = take i (lit @ [0]))
      else if take (length lit + 1) command = lit @ [0] then None else Some False)"

definition forward_agent :: "gate \<Rightarrow> int \<Rightarrow> u32 \<Rightarrow> u32 \<Rightarrow> gate option" where
  "forward_agent g fd agentaddr clientaddr = do {
     k \<leftarrow> hashid_lookup (g_hash g) fd;
     if k \<ge> 0 then do {
       c \<leftarrow> array_get (conn g) (nat k);
       cs \<leftarrow> array_set (conn g) (nat k) (c\<lparr>c_agent := agentaddr, c_client := clientaddr\<rparr>);
       Some (g\<lparr>conn := cs\<rparr>)
     } else Some g
   }"

definition ctrl_kick :: "gate \<Rightarrow> bytes \<Rightarrow> gate_event list option" where
  "ctrl_kick g command = do {
     let uid = strtol10 command;
     k \<leftarrow> hashid_lookup (g_hash g) uid;
     Some (if k \<ge> 0 then [SocketClose uid] else [])
   }"

definition ctrl_forward :: "gate \<Rightarrow> bytes \<Rightarrow> gate option" where
  "ctrl_forward g tmp =
     (let (idstr, client) = strsep tmp in
      case client of None \<Rightarrow> Some g | Some rest \<Rightarrow>
        let (agent, client) = strsep rest in
        case client of None \<Rightarrow> Some g | Some client \<Rightarrow> do {
          client1 \<leftarrow> (case client of [] \<Rightarrow> None | _ # r \<Rightarrow> Some r);
          let agent1 = (case agent of [] \<Rightarrow> client | _ # r \<Rightarrow> r);
          forward_agent g (strtol10 idstr) (strtoul16 agent1) (strtoul16 client1)
        })"

definition ctrl_start :: "gate \<Rightarrow> bytes \<Rightarrow> gate_event list option" where
  "ctrl_start g command = do {
     let uid = strtol10 command;
     k \<leftarrow> hashid_lookup (g_hash g) uid;
     Some (if k \<ge> 0 then [SocketStart uid] else [])
   }"

definition ctrl :: "(bytes \<Rightarrow> u32) \<Rightarrow> gate \<Rightarrow> bytes \<Rightarrow> (gate_event list \<times> gate) option" where
  "ctrl query g msg =
     (if msg = [] then Some ([], g)
      else do {
        let i = length (takeWhile (\<lambda>c. c \<noteq> 32) msg);
        kick \<leftarrow> memcmp_lit msg (ascii ''kick'') i;
        if kick then do { ev \<leftarrow> ctrl_kick g (parm msg i); Some (ev, g) }
        else do {
          forward \<leftarrow> memcmp_lit msg (ascii ''forward'') i;
          if forward then do { g1 \<leftarrow> ctrl_forward g (parm msg i); Some ([], g1) }
          else do {
            brk \<leftarrow> memcmp_lit msg (ascii ''broker'') i;
            if brk then Some ([], g\<lparr>broker := query (parm msg i)\<rparr>)
            else do {
              start \<leftarrow> memcmp_lit msg (ascii ''start'') i;
              if start then do { ev \<leftarrow> ctrl_start g (parm msg i); Some (ev, g) }
              else do {
                close \<leftarrow> memcmp_lit msg (ascii ''close'') i;
                if close then
                  if listen_id g \<ge> 0 then Some ([SocketClose (listen_id g)], g\<lparr>listen_id := - 1\<rparr>)
                  else Some ([], g)
                else Some ([Log (UnknownCommand (takeWhile (\<lambda>c. c \<noteq> 0) msg))], g)
              }
            }
          }
        }
      })"

definition report :: "gate \<Rightarrow> bytes \<Rightarrow> gate_event list" where
  "report g data = (if watchdog g = 0 then [] else [Send 0 (watchdog g) PTYPE_TEXT 0 data])"

definition forward ::
    "gate \<Rightarrow> connection \<Rightarrow> messagepool \<Rightarrow> int \<Rightarrow> (gate_event list \<times> databuffer \<times> messagepool) option" where
  "forward g c mp sz =
     (let fd = c_id c in
      if fd \<le> 0 then Some ([], c_buffer c, mp)
      else if broker g \<noteq> 0 then do {
        (temp, b, mp1) \<leftarrow> databuffer_read (c_buffer c) mp sz;
        Some ([Send 0 (broker g) (client_tag g OR PTYPE_TAG_DONTCOPY) fd temp], b, mp1)
      } else if c_agent c \<noteq> 0 then do {
        (temp, b, mp1) \<leftarrow> databuffer_read (c_buffer c) mp sz;
        Some ([Send (c_client c) (c_agent c) (client_tag g OR PTYPE_TAG_DONTCOPY) fd temp], b, mp1)
      } else if watchdog g \<noteq> 0 then do {
        (temp, b, mp1) \<leftarrow> databuffer_read (c_buffer c) mp sz;
        Some ([Send 0 (watchdog g) (PTYPE_TEXT OR PTYPE_TAG_DONTCOPY) fd (dec_int (c_id c) @ ascii '' data '' @ temp)],
              b, mp1)
      } else Some ([], c_buffer c, mp))"

text \<open>The loop of \<^verbatim>\<open>dispatch_message\<close>.\<close>

partial_function (option) dispatch_loop ::
    "gate \<Rightarrow> connection \<Rightarrow> messagepool \<Rightarrow> int \<Rightarrow> (gate_event list \<times> databuffer \<times> messagepool) option" where
  "dispatch_loop g c mp sid = do {
     (sz, b, mp1) \<leftarrow> databuffer_readheader (c_buffer c) mp (header_size g);
     if sz < 0 then Some ([], b, mp1)
     else if sz > 0 then
       if sz \<ge> 0x1000000 then do {
         (b1, mp2) \<leftarrow> databuffer_clear b mp1;
         Some ([SocketClose sid, Log TooBig], b1, mp2)
       } else do {
         (ev, b1, mp2) \<leftarrow> forward g (c\<lparr>c_buffer := b\<rparr>) mp1 sz;
         (evs, b2, mp3) \<leftarrow> dispatch_loop g (c\<lparr>c_buffer := databuffer_reset b1\<rparr>) mp2 sid;
         Some (ev @ evs, b2, mp3)
       }
     else dispatch_loop g (c\<lparr>c_buffer := b\<rparr>) mp1 sid
   }"

definition dispatch_message :: "gate \<Rightarrow> nat \<Rightarrow> int \<Rightarrow> bytes \<Rightarrow> (gate_event list \<times> gate) option" where
  "dispatch_message g k sid data = do {
     c \<leftarrow> array_get (conn g) k;
     (b, mp) \<leftarrow> databuffer_push (c_buffer c) (g_mp g) data;
     (evs, b1, mp1) \<leftarrow> dispatch_loop g (c\<lparr>c_buffer := b\<rparr>) mp sid;
     cs \<leftarrow> array_set (conn g) k (c\<lparr>c_buffer := b1\<rparr>);
     Some (evs, g\<lparr>conn := cs, g_mp := mp1\<rparr>)
   }"

definition dispatch_socket_message :: "gate \<Rightarrow> socket_message \<Rightarrow> (gate_event list \<times> gate) option" where
  "dispatch_socket_message g m = (case sm_type m of
     SData \<Rightarrow> do {
       k \<leftarrow> hashid_lookup (g_hash g) (sm_id m);
       if k \<ge> 0 then dispatch_message g (nat k) (sm_id m) (sm_buffer m)
       else Some ([Log (DropUnknown (sm_id m)), SocketClose (sm_id m)], g)
     }
   | SConnect \<Rightarrow>
       if sm_id m = listen_id g then Some ([], g)
       else do {
         k \<leftarrow> hashid_lookup (g_hash g) (sm_id m);
         Some (if k < 0 then [Log (CloseUnknown (sm_id m)), SocketClose (sm_id m)] else [], g)
       }
   | SAccept \<Rightarrow> do {
       assert_c (listen_id g = sm_id m);
       if hashid_full (g_hash g) then Some ([SocketClose (sm_ud m)], g)
       else do {
         (k, h) \<leftarrow> hashid_insert (g_hash g) (sm_ud m);
         c \<leftarrow> array_get (conn g) (nat k);
         let name = takeWhile (\<lambda>x. x \<noteq> 0) (take 31 (sm_name m));
         let c1 = c\<lparr>c_id := sm_ud m, c_remote_name := name\<rparr>;
         cs \<leftarrow> array_set (conn g) (nat k) c1;
         Some (report g (dec_int (c_id c1) @ ascii '' open '' @ dec_int (c_id c1) @ ascii '' '' @ name @ ascii '':0'')
                 @ [Log (SocketOpen (c_id c1))],
               g\<lparr>g_hash := h, conn := cs\<rparr>)
       }
     }
   | SWarning \<Rightarrow> Some ([Log (SendBuffer (sm_id m) (sm_ud m))], g)
   | _ \<Rightarrow> do {
       (k, h) \<leftarrow> hashid_remove (g_hash g) (sm_id m);
       if k \<ge> 0 then do {
         c \<leftarrow> array_get (conn g) (nat k);
         (b, mp) \<leftarrow> databuffer_clear (c_buffer c) (g_mp g);
         cs \<leftarrow> array_set (conn g) (nat k) no_connection;
         Some (report g (dec_int (sm_id m) @ ascii '' close''), g\<lparr>g_hash := h, conn := cs, g_mp := mp\<rparr>)
       } else Some ([], g\<lparr>g_hash := h\<rparr>)
     })"

text \<open>The messages of \<^verbatim>\<open>_cb\<close>; the result says whether the message is kept (not freed by the caller).\<close>

datatype gate_input =
    TextMsg bytes
  | ClientMsg u32 bytes    \<comment> \<open>source and payload\<close>
  | SocketMsg socket_message
  | OtherMsg

fun little_endian4 :: "bytes \<Rightarrow> u32" where
  "little_endian4 [b0, b1, b2, b3] =
     word_of_nat (unat b0 + unat b1 * 2 ^ 8 + unat b2 * 2 ^ 16 + unat b3 * 2 ^ 24)"
| "little_endian4 _ = 0"

definition gate_cb :: "(bytes \<Rightarrow> u32) \<Rightarrow> gate \<Rightarrow> gate_input \<Rightarrow> (bool \<times> gate_event list \<times> gate) option" where
  "gate_cb query g inp = (case inp of
     TextMsg msg \<Rightarrow> do { (ev, g1) \<leftarrow> ctrl query g msg; Some (False, ev, g1) }
   | ClientMsg source msg \<Rightarrow>
       if length msg \<le> 4 then Some (False, [Log (InvalidClient source)], g)
       else do {
         let uid = little_endian4 (drop (length msg - 4) msg);
         k \<leftarrow> hashid_lookup (g_hash g) (sint uid);
         if k \<ge> 0 then Some (True, [SocketSend (sint uid) (take (length msg - 4) msg)], g)
         else Some (False, [Log (InvalidClientId (sint uid) source)], g)
       }
   | SocketMsg m \<Rightarrow> do { (ev, g1) \<leftarrow> dispatch_socket_message g m; Some (False, ev, g1) }
   | OtherMsg \<Rightarrow> Some (False, [], g))"

definition BACKLOG :: int where "BACKLOG = 128"

text \<open>\<open>listen\<close> is \<^verbatim>\<open>skynet_socket_listen\<close>: host, port, backlog.\<close>

definition start_listen ::
    "(bytes \<Rightarrow> int \<Rightarrow> int \<Rightarrow> int) \<Rightarrow> gate \<Rightarrow> bytes \<Rightarrow> int \<times> gate_event list \<times> gate" where
  "start_listen listen g listen_addr =
     (let rev_port = takeWhile (\<lambda>c. c \<noteq> 58) (rev listen_addr);
          has_colon = 58 \<in> set listen_addr;
          host = (if has_colon then take (length listen_addr - length rev_port - 1) listen_addr else []);
          port = strtol10 (if has_colon then rev rev_port else listen_addr)
      in if port \<le> 0 then (1, [Log (InvalidAddress listen_addr)], g)
         else let g1 = g\<lparr>listen_id := listen host port BACKLOG\<rparr> in
           if listen_id g1 < 0 then (1, [], g1) else (0, [SocketStart (listen_id g1)], g1))"

text \<open>
  The conversions of \<^verbatim>\<open>sscanf(parm, "%c %s %s %d %d", ...)\<close> are given as their results: the
  header letter, watchdog, binding, client tag, the maximum, when \<^verbatim>\<open>sscanf\<close> assigned at least four.
\<close>

definition gate_init ::
    "(bytes \<Rightarrow> u32) \<Rightarrow> (bytes \<Rightarrow> int \<Rightarrow> int \<Rightarrow> int) \<Rightarrow> gate
     \<Rightarrow> (u8 \<times> bytes \<times> bytes \<times> i32 \<times> int) option \<Rightarrow> (int \<times> gate_event list \<times> gate) option" where
  "gate_init query listen g scanned = (case scanned of
     None \<Rightarrow> Some (1, [Log InvalidParm], g)
   | Some (header, wd, binding, tag, mx) \<Rightarrow>
       if mx \<le> 0 then Some (1, [Log NeedMaxConnection], g)
       else if header \<noteq> 83 \<and> header \<noteq> 76 then Some (1, [Log InvalidHeader], g)
       else
         let tag1 = (if tag = 0 then PTYPE_CLIENT else tag);
             bang = (case wd of [] \<Rightarrow> False | c # _ \<Rightarrow> c = 33);
             g1 = g\<lparr>watchdog := if bang then 0 else query wd\<rparr>
         in if \<not> bang \<and> watchdog g1 = 0 then Some (1, [Log (InvalidWatchdog wd)], g1)
         else do {
           h \<leftarrow> hashid_init mx;
           let g2 = g1\<lparr>g_hash := h, conn := replicate (nat mx) no_connection, max_connection := mx,
               client_tag := tag1, header_size := if header = 83 then 2 else 4\<rparr>;
           Some (start_listen listen g2 binding)
         })"

declare read_loop.simps [code] return_all.simps [code] dispatch_loop.simps [code]
  lookup_loop.simps [code] remove_loop.simps [code] hash_cap.simps [code]

section \<open>The packets of a byte stream\<close>

text \<open>
  The reference: \<open>h\<close> is the header already read (0 for none), \<open>bs\<close> the unread bytes. The
  result is the list of complete packets and the state left over, or nothing when a packet
  is too big. Packets of length 0 are skipped.
\<close>

function packets :: "int \<Rightarrow> int \<Rightarrow> bytes \<Rightarrow> bytes list \<times> (int \<times> bytes) option" where
  "packets hs h bs =
     (if h = 0 then
        if hs \<le> 0 \<or> int (length bs) < hs then ([], Some (0, bs))
        else packets hs (header_value (take (nat hs) bs)) (drop (nat hs) bs)
      else if h < 0 \<or> int (length bs) < h then ([], Some (h, bs))
      else if h \<ge> 0x1000000 then ([], None)
      else let (ms, r) = packets hs 0 (drop (nat h) bs) in (take (nat h) bs # ms, r))"
  by pat_completeness auto
termination
  by (relation "measure (\<lambda>(_, _, bs). length bs)") auto

declare packets.simps [simp del]

definition has_dest :: "gate \<Rightarrow> connection \<Rightarrow> bool" where
  "has_dest g c \<longleftrightarrow> c_id c > 0 \<and> (broker g \<noteq> 0 \<or> c_agent c \<noteq> 0 \<or> watchdog g \<noteq> 0)"

definition deliver :: "gate \<Rightarrow> connection \<Rightarrow> bytes \<Rightarrow> gate_event" where
  "deliver g c m =
     (if broker g \<noteq> 0 then Send 0 (broker g) (client_tag g OR PTYPE_TAG_DONTCOPY) (c_id c) m
      else if c_agent c \<noteq> 0 then Send (c_client c) (c_agent c) (client_tag g OR PTYPE_TAG_DONTCOPY) (c_id c) m
      else Send 0 (watchdog g) (PTYPE_TEXT OR PTYPE_TAG_DONTCOPY) (c_id c) (dec_int (c_id c) @ ascii '' data '' @ m))"

lemma deliver_buffer [simp]: "deliver g (c\<lparr>c_buffer := b\<rparr>) = deliver g c" "has_dest g (c\<lparr>c_buffer := b\<rparr>) = has_dest g c"
  by (simp_all add: deliver_def has_dest_def fun_eq_iff)

lemma forward_correct:
  assumes "has_dest g c" "pool_inv mp bufs cs" "bufs k = c_buffer c" "0 < sz" "sz \<le> int (length (cs k))"
  shows "\<exists>b mp'. forward g c mp sz = Some ([deliver g c (take (nat sz) (cs k))], b, mp')
    \<and> pool_inv mp' (bufs(k := b)) (cs(k := drop (nat sz) (cs k)))"
  using buf.read_law [OF assms(2,4,5)] assms(1,3)
  by (auto simp: forward_def Let_def has_dest_def deliver_def)

text \<open>Reading a header and going round the loop is going round the loop with the header read.\<close>

lemma dispatch_loop_header:
  assumes "pool_inv mp bufs cs" "bufs k = b" "db_header b = 0" "0 < header_size g"
    "header_size g \<le> int (length (cs k))"
  shows "\<exists>b' mp'. dispatch_loop g (c\<lparr>c_buffer := b\<rparr>) mp sid = dispatch_loop g (c\<lparr>c_buffer := b'\<rparr>) mp' sid
    \<and> db_header b' = header_value (take (nat (header_size g)) (cs k))
    \<and> pool_inv mp' (bufs(k := b')) (cs(k := drop (nat (header_size g)) (cs k)))"
proof -
  let ?n = "header_size g" and ?h = "header_value (take (nat (header_size g)) (cs k))"
  from buf.read_law [OF assms(1,4,5)] assms(2) obtain b1 mp1
    where r: "databuffer_read b mp ?n = Some (take (nat ?n) (cs k), b1, mp1)"
      "pool_inv mp1 (bufs(k := b1)) (cs(k := drop (nat ?n) (cs k)))" by blast
  let ?b = "b1\<lparr>db_header := ?h\<rparr>"
  have inv: "pool_inv mp1 (bufs(k := ?b)) (cs(k := drop (nat ?n) (cs k)))"
    using buf.header_law [OF r(2), of k ?h] by simp
  have "\<not> db_size b < ?n" using pool_inv_size [OF assms(1), of k] assms(2,5) by simp
  then have "databuffer_readheader b mp ?n = (if db_size ?b < ?h then Some (- 1, ?b, mp1) else Some (?h, ?b, mp1))"
    using r(1) assms(3) by (simp add: databuffer_readheader_def Let_def)
  moreover have "databuffer_readheader ?b mp1 ?n
      = (if db_size ?b < ?h then Some (- 1, ?b, mp1) else Some (?h, ?b, mp1))" if "?h \<noteq> 0"
    using that by (simp add: databuffer_readheader_def)
  moreover have "\<not> db_size ?b < 0" using pool_inv_size [OF r(2), of k] by simp
  ultimately have "dispatch_loop g (c\<lparr>c_buffer := b\<rparr>) mp sid = dispatch_loop g (c\<lparr>c_buffer := ?b\<rparr>) mp1 sid"
    by (cases "?h = 0") (subst dispatch_loop.simps, simp, subst (1 2) dispatch_loop.simps, simp)
  then show ?thesis using inv by (intro exI [of _ ?b] exI [of _ mp1]) simp
qed

definition leftover :: "int \<Rightarrow> (int \<times> bytes) option \<Rightarrow> gate_event list \<times> int \<times> bytes" where
  "leftover sid r = (case r of Some (h, bs) \<Rightarrow> ([], h, bs) | None \<Rightarrow> ([SocketClose sid, Log TooBig], 0, []))"

lemma dispatch_loop_correct:
  assumes "has_dest g c" "pool_inv mp bufs cs" "bufs k = b" "0 < header_size g"
    "packets (header_size g) (db_header b) (cs k) = (ms, r)" "leftover sid r = (ev, h', bs')"
  shows "\<exists>b' mp'. dispatch_loop g (c\<lparr>c_buffer := b\<rparr>) mp sid = Some (map (deliver g c) ms @ ev, b', mp')
    \<and> pool_inv mp' (bufs(k := b')) (cs(k := bs')) \<and> db_header b' = h'"
  using assms(2-)
proof (induction "length (cs k)" arbitrary: b mp bufs cs ms rule: less_induct)
  case less
  let ?hs = "header_size g"
  note inv = less.prems(1) and bk = less.prems(2)
  note pk = less.prems(4) [unfolded packets.simps [of ?hs "db_header b" "cs k"]]
  have sz: "db_size b = int (length (cs k))" using pool_inv_size [OF inv, of k] bk by simp
  have idem: "bufs(k := b) = bufs" "cs(k := cs k) = cs" using bk by auto
  consider "db_header b = 0" "int (length (cs k)) < ?hs" | "db_header b = 0" "?hs \<le> int (length (cs k))"
    | "db_header b \<noteq> 0" "db_header b < 0 \<or> int (length (cs k)) < db_header b"
    | "0 < db_header b" "db_header b \<le> int (length (cs k))" "0x1000000 \<le> db_header b"
    | "0 < db_header b" "db_header b \<le> int (length (cs k))" "db_header b < 0x1000000" by linarith
  then show ?case
  proof cases
    case 1
    then have "dispatch_loop g (c\<lparr>c_buffer := b\<rparr>) mp sid = Some ([], b, mp)"
      using sz by (subst dispatch_loop.simps) (simp add: databuffer_readheader_def)
    then show ?thesis using 1 pk less.prems(5) inv idem by (auto simp: leftover_def)
  next
    case 2
    from dispatch_loop_header [OF inv bk 2(1) less.prems(3) 2(2), of c sid] obtain b1 mp1
      where s1: "dispatch_loop g (c\<lparr>c_buffer := b\<rparr>) mp sid = dispatch_loop g (c\<lparr>c_buffer := b1\<rparr>) mp1 sid"
        "db_header b1 = header_value (take (nat ?hs) (cs k))"
        "pool_inv mp1 (bufs(k := b1)) (cs(k := drop (nat ?hs) (cs k)))" by blast
    have "length (drop (nat ?hs) (cs k)) < length (cs k)" using 2(2) less.prems(3) by auto
    moreover have "packets ?hs (db_header b1) (drop (nat ?hs) (cs k)) = (ms, r)"
      using pk 2 less.prems(3) s1(2) by simp
    ultimately show ?thesis using less.hyps [of "cs(k := drop (nat ?hs) (cs k))", OF _ s1(3)] less.prems(3,5)
      unfolding s1(1) by simp
  next
    case 3
    have "dispatch_loop g (c\<lparr>c_buffer := b\<rparr>) mp sid = Some ([], b, mp)"
      using 3 sz by (subst dispatch_loop.simps) (auto simp: databuffer_readheader_def)
    then show ?thesis using 3 pk less.prems(5) inv idem by (auto simp: leftover_def)
  next
    case 4
    from buf.clear_law [OF inv, of k] bk obtain mp1 where c: "databuffer_clear b mp = Some (empty_buffer, mp1)"
      "pool_inv mp1 (bufs(k := empty_buffer)) (cs(k := []))" by auto
    have "dispatch_loop g (c\<lparr>c_buffer := b\<rparr>) mp sid = Some ([SocketClose sid, Log TooBig], empty_buffer, mp1)"
      using 4 sz c(1) by (subst dispatch_loop.simps) (simp add: databuffer_readheader_def)
    then show ?thesis using 4 pk less.prems(5) c(2) by (auto simp: leftover_def empty_buffer_def)
  next
    case 5
    let ?h = "db_header b"
    obtain ms1 where p1: "packets ?hs 0 (drop (nat ?h) (cs k)) = (ms1, r)" "ms = take (nat ?h) (cs k) # ms1"
      using pk 5 by (cases "packets ?hs 0 (drop (nat ?h) (cs k))") auto
    from forward_correct [of g "c\<lparr>c_buffer := b\<rparr>" mp bufs cs k ?h] assms(1) inv bk 5 obtain b1 mp1
      where f: "forward g (c\<lparr>c_buffer := b\<rparr>) mp ?h = Some ([deliver g c (take (nat ?h) (cs k))], b1, mp1)"
        "pool_inv mp1 (bufs(k := b1)) (cs(k := drop (nat ?h) (cs k)))" by auto
    let ?b = "databuffer_reset b1"
    have inv1: "pool_inv mp1 (bufs(k := ?b)) (cs(k := drop (nat ?h) (cs k)))"
      using buf.header_law [OF f(2), of k 0] by (simp add: databuffer_reset_def)
    have "length (drop (nat ?h) (cs k)) < length (cs k)" using 5 by auto
    then obtain b' mp' where ih: "dispatch_loop g (c\<lparr>c_buffer := ?b\<rparr>) mp1 sid = Some (map (deliver g c) ms1 @ ev, b', mp')"
      "pool_inv mp' (bufs(k := b')) (cs(k := bs'))" "db_header b' = h'"
      using less.hyps [OF _ inv1, of ?b ms1] p1(1) less.prems(3,5) by (auto simp: databuffer_reset_def)
    have "dispatch_loop g (c\<lparr>c_buffer := b\<rparr>) mp sid = Some (map (deliver g c) ms @ ev, b', mp')"
      using 5 sz f(1) ih(1) p1(2) by (subst dispatch_loop.simps) (simp add: databuffer_readheader_def)
    then show ?thesis using ih by auto
  qed
qed

text \<open>Cutting the stream into chunks does not matter.\<close>

lemma packets_append:
  "packets hs h bs = (ms, Some (h', rest)) \<Longrightarrow>
    packets hs h (bs @ d) = (case packets hs h' (rest @ d) of (ms', r) \<Rightarrow> (ms @ ms', r))"
proof (induction hs h bs arbitrary: ms rule: packets.induct)
  case (1 hs h bs)
  note pk = "1.prems" [unfolded packets.simps [of hs h bs]]
  note pd = packets.simps [of hs h "bs @ d"]
  consider "h = 0" "hs \<le> 0 \<or> int (length bs) < hs" | "h = 0" "0 < hs" "hs \<le> int (length bs)"
    | "h \<noteq> 0" "h < 0 \<or> int (length bs) < h"
    | "0 < h" "h \<le> int (length bs)" "0x1000000 \<le> h" | "0 < h" "h \<le> int (length bs)" "h < 0x1000000" by linarith
  then show ?case
  proof cases
    case 1
    then have "ms = []" "h' = h" "rest = bs" using pk by auto
    then show ?thesis by (simp split: prod.split)
  next
    case 2
    have "packets hs h (bs @ d) = packets hs (header_value (take (nat hs) bs)) (drop (nat hs) bs @ d)"
      unfolding pd using 2 by simp
    then show ?thesis using "1.IH"(1) [of ms] 2 pk by simp
  next
    case 3
    then have "ms = []" "h' = h" "rest = bs" using pk by (auto split: if_splits)
    then show ?thesis by (simp split: prod.split)
  next
    case 4
    then show ?thesis using pk by simp
  next
    case 5
    obtain ms1 where p1: "packets hs 0 (drop (nat h) bs) = (ms1, Some (h', rest))" "ms = take (nat h) bs # ms1"
      using pk 5 by (cases "packets hs 0 (drop (nat h) bs)") auto
    have "packets hs h (bs @ d) = (let (ms, r) = packets hs 0 (drop (nat h) bs @ d) in (take (nat h) bs # ms, r))"
      unfolding pd using 5 by simp
    moreover have "packets hs 0 (drop (nat h) bs @ d) = (case packets hs h' (rest @ d) of (ms', r) \<Rightarrow> (ms1 @ ms', r))"
      using "1.IH"(2) [of ms1] p1(1) 5 by simp
    ultimately show ?thesis using p1(2) by (simp split: prod.split)
  qed
qed

text \<open>The encoding of a packet: its length as a big-endian number of 2 or 4 bytes, and the payload.\<close>

definition encode_header :: "int \<Rightarrow> nat \<Rightarrow> bytes" where
  "encode_header hs n = (if hs = 2 then [word_of_nat (n div 2 ^ 8), word_of_nat n]
     else [word_of_nat (n div 2 ^ 24), word_of_nat (n div 2 ^ 16), word_of_nat (n div 2 ^ 8), word_of_nat n])"

definition packet_ok :: "int \<Rightarrow> bytes \<Rightarrow> bool" where
  "packet_ok hs m \<longleftrightarrow> m \<noteq> [] \<and> length m < (if hs = 2 then 2 ^ 16 else 2 ^ 24)"

definition stream :: "int \<Rightarrow> bytes list \<Rightarrow> bytes" where
  "stream hs ms = concat (map (\<lambda>m. encode_header hs (length m) @ m) ms)"

lemma unat_byte: "unat (word_of_nat n :: u8) = n mod 256"
  by (simp add: unsigned_of_nat take_bit_eq_mod)

lemma horner4: "((n div 2 ^ 24 * 256 + n div 2 ^ 16 mod 256) * 256 + n div 2 ^ 8 mod 256) * 256 + n mod 256 = (n :: nat)"
  using div_mult_mod_eq [of n 256] div_mult_mod_eq [of "n div 2 ^ 8" 256] div_mult_mod_eq [of "n div 2 ^ 16" 256]
  by (simp add: div_mult2_eq [symmetric])

lemma header_encode:
  assumes "hs = 2 \<or> hs = 4" "packet_ok hs m"
  shows "header_value (encode_header hs (length m)) = int (length m)" "length (encode_header hs (length m)) = nat hs"
proof -
  show "length (encode_header hs (length m)) = nat hs" using assms(1) by (auto simp: encode_header_def)
  show "header_value (encode_header hs (length m)) = int (length m)"
  proof (cases "hs = 2")
    case True
    then have "length m < 2 ^ 16" using assms(2) by (simp add: packet_ok_def)
    then have "length m div 2 ^ 8 mod 256 = length m div 256" by simp
    then show ?thesis using True by (simp add: encode_header_def unat_byte)
  next
    case False
    then have n: "length m < 2 ^ 24" using assms(2) by (simp add: packet_ok_def)
    then have "length m div 2 ^ 24 mod 256 = length m div 2 ^ 24" by simp
    then have "header_value (encode_header hs (length m)) = sint (word_of_nat (length m) :: i32)"
      using False horner4 [of "length m"] by (simp add: encode_header_def unat_byte)
    also have "\<dots> = int (length m)" using n by (simp add: signed_of_nat signed_take_bit_int_eq_self)
    finally show ?thesis .
  qed
qed

lemma packets_stream:
  assumes "hs = 2 \<or> hs = 4" "\<forall>m \<in> set ms. packet_ok hs m"
  shows "packets hs 0 (stream hs ms) = (ms, Some (0, []))"
  using assms(2)
proof (induction ms)
  case Nil
  then show ?case using assms(1) by (subst packets.simps) (auto simp: stream_def)
next
  case (Cons m ms)
  let ?e = "encode_header hs (length m)"
  have m: "packet_ok hs m" using Cons.prems by simp
  note e = header_encode [OF assms(1) m]
  have st: "stream hs (m # ms) = ?e @ m @ stream hs ms" by (simp add: stream_def)
  have len: "hs \<le> int (length (?e @ m @ stream hs ms))" "0 < hs" using e(2) assms(1) by auto
  have "packets hs 0 (stream hs (m # ms)) = packets hs (int (length m)) (m @ stream hs ms)"
    unfolding st packets.simps [of hs 0 "?e @ m @ stream hs ms"] using len e by simp
  also have "\<dots> = (let (ms, r) = packets hs 0 (stream hs ms) in (m # ms, r))"
    using m by (subst packets.simps) (auto simp: packet_ok_def split: if_splits)
  finally show ?case using Cons by simp
qed

section \<open>The invariant of the gate\<close>

definition buffers :: "gate \<Rightarrow> nat \<Rightarrow> databuffer" where
  "buffers g k = (if k < length (conn g) then c_buffer (conn g ! k) else empty_buffer)"

text \<open>
  The table and the connection array agree, a slot without a connection is blank, so that
  the next connection in it inherits neither an agent nor unread bytes, and the buffers
  share no message. \<open>bss\<close> are the unread bytes of the connections.
\<close>

definition gate_at :: "gate \<Rightarrow> (nat \<Rightarrow> bytes) \<Rightarrow> bool" where
  "gate_at g bss \<longleftrightarrow> hashid_inv (g_hash g) \<and> hi_cap (g_hash g) = int (length (conn g))
     \<and> (header_size g = 2 \<or> header_size g = 4)
     \<and> (\<forall>i k. id_map (g_hash g) i = Some k \<longrightarrow> c_id (conn g ! k) = i)
     \<and> (\<forall>k < length (conn g). k \<notin> ran (id_map (g_hash g)) \<longrightarrow> conn g ! k = no_connection)
     \<and> pool_inv (g_mp g) (buffers g) bss"


lemma gate_atD:
  assumes "gate_at g bss"
  shows "hashid_inv (g_hash g)" "hi_cap (g_hash g) = int (length (conn g))" "0 < header_size g"
    "id_map (g_hash g) i = Some k \<Longrightarrow> c_id (conn g ! k) = i"
    "k < length (conn g) \<Longrightarrow> k \<notin> ran (id_map (g_hash g)) \<Longrightarrow> conn g ! k = no_connection"
    "pool_inv (g_mp g) (buffers g) bss"
    "id_map (g_hash g) i = Some k \<Longrightarrow> k < length (conn g)"
  using assms ids.range_law [of "g_hash g" i k] by (auto simp: gate_at_def)

lemma buffers_upd: "k < length (conn g) \<Longrightarrow> conn g' = (conn g)[k := c] \<Longrightarrow> buffers g' = (buffers g)(k := c_buffer c)"
  by (auto simp: buffers_def fun_eq_iff nth_list_update)

text \<open>Replacing the buffer of a connection.\<close>

lemma gate_at_buffer:
  assumes at: "gate_at g bss" and k: "id_map (g_hash g) i = Some k"
    and inv: "pool_inv mp ((buffers g)(k := b)) (bss(k := bs))"
  shows "gate_at (g\<lparr>conn := (conn g)[k := (conn g ! k)\<lparr>c_buffer := b\<rparr>], g_mp := mp\<rparr>) (bss(k := bs))"
proof -
  have kl: "k < length (conn g)" using gate_atD(7) [OF at k] .
  let ?g = "g\<lparr>conn := (conn g)[k := (conn g ! k)\<lparr>c_buffer := b\<rparr>], g_mp := mp\<rparr>"
  have "buffers ?g = (buffers g)(k := b)" using buffers_upd [OF kl, of ?g] by simp
  moreover have "c_id (conn ?g ! l) = c_id (conn g ! l)" for l
    using kl by (simp add: nth_list_update)
  moreover have "conn ?g ! l = conn g ! l" if "l \<notin> ran (id_map (g_hash g))" for l
    using that k by (cases "l = k") (auto simp: ran_def)
  ultimately show ?thesis using at inv by (auto simp: gate_at_def)
qed

definition data_msg :: "int \<Rightarrow> bytes \<Rightarrow> socket_message" where
  "data_msg sid d = \<lparr>sm_type = SData, sm_id = sid, sm_ud = int (length d), sm_buffer = d, sm_name = []\<rparr>"

lemma lookup_known:
  assumes "gate_at g bss" "id_map (g_hash g) sid = Some k"
  shows "hashid_lookup (g_hash g) sid = Some (int k)" "sid \<noteq> - 1"
proof -
  show "sid \<noteq> - 1" using assms(2) by (auto simp: id_map_def)
  then show "hashid_lookup (g_hash g) sid = Some (int k)" using ids.lookup_law [OF gate_atD(1) [OF assms(1)]] assms(2) by simp
qed

lemma data_step:
  assumes at: "gate_at g bss" and k: "id_map (g_hash g) sid = Some k" and dest: "has_dest g (conn g ! k)"
    and pk: "packets (header_size g) (db_header (c_buffer (conn g ! k))) (bss k @ d) = (ms, Some (h', bs'))"
  shows "\<exists>b mp. dispatch_socket_message g (data_msg sid d)
      = Some (map (deliver g (conn g ! k)) ms, g\<lparr>conn := (conn g)[k := (conn g ! k)\<lparr>c_buffer := b\<rparr>], g_mp := mp\<rparr>)
    \<and> gate_at (g\<lparr>conn := (conn g)[k := (conn g ! k)\<lparr>c_buffer := b\<rparr>], g_mp := mp\<rparr>) (bss(k := bs')) \<and> db_header b = h'"
proof -
  let ?c = "conn g ! k"
  have kl: "k < length (conn g)" using gate_atD(7) [OF at k] .
  have bk: "buffers g k = c_buffer ?c" using kl by (simp add: buffers_def)
  from buf.push_law [OF gate_atD(6) [OF at], of k d] bk obtain b1 mp1
    where p: "databuffer_push (c_buffer ?c) (g_mp g) d = Some (b1, mp1)" "db_header b1 = db_header (c_buffer ?c)"
      "pool_inv mp1 ((buffers g)(k := b1)) (bss(k := bss k @ d))" by auto
  from dispatch_loop_correct [OF dest p(3), of k b1 ms "Some (h', bs')" sid "[]" h' bs'] gate_atD(3) [OF at] pk p(2)
  obtain b mp where l: "dispatch_loop g (?c\<lparr>c_buffer := b1\<rparr>) mp1 sid = Some (map (deliver g ?c) ms, b, mp)"
    "pool_inv mp ((buffers g)(k := b)) (bss(k := bs'))" "db_header b = h'" by (auto simp: leftover_def)
  have "dispatch_socket_message g (data_msg sid d)
      = Some (map (deliver g ?c) ms, g\<lparr>conn := (conn g)[k := ?c\<lparr>c_buffer := b\<rparr>], g_mp := mp\<rparr>)"
    using lookup_known [OF at k] kl p(1) l(1)
    by (simp add: dispatch_socket_message_def data_msg_def dispatch_message_def)
  then show ?thesis using gate_at_buffer [OF at k l(2)] l(3) by blast
qed

text \<open>A sequence of data messages of one socket.\<close>

primrec feed :: "int \<Rightarrow> bytes list \<Rightarrow> gate \<Rightarrow> (gate_event list \<times> gate) option" where
  "feed sid [] g = Some ([], g)"
| "feed sid (d # ds) g = do {
     (e1, g1) \<leftarrow> dispatch_socket_message g (data_msg sid d);
     (e2, g2) \<leftarrow> feed sid ds g1;
     Some (e1 @ e2, g2)
   }"

lemma deliver_cong:
  "broker g' = broker g \<Longrightarrow> watchdog g' = watchdog g \<Longrightarrow> client_tag g' = client_tag g \<Longrightarrow> deliver g' c = deliver g c"
  "broker g' = broker g \<Longrightarrow> watchdog g' = watchdog g \<Longrightarrow> has_dest g' c = has_dest g c"
  by (simp_all add: deliver_def has_dest_def fun_eq_iff)

lemma packets_settled: "packets hs h bs = (ms, Some (h', bs')) \<Longrightarrow> packets hs h' bs' = ([], Some (h', bs'))"
proof (induction hs h bs arbitrary: ms rule: packets.induct)
  case (1 hs h bs)
  note pk = "1.prems" [unfolded packets.simps [of hs h bs]]
  show ?case
  proof (cases "h = 0")
    case True
    then show ?thesis using pk "1.IH"(1) [of ms] by (auto simp: packets.simps [of hs 0 bs'] split: if_splits)
  next
    case False
    then show ?thesis using pk "1.IH"(2)
      by (cases "packets hs 0 (drop (nat h) bs)") (auto simp: packets.simps [of hs h' bs'] split: if_splits)
  qed
qed

lemma packets_too_big: "snd (packets hs h bs) = None \<Longrightarrow> snd (packets hs h (bs @ d)) = None"
proof (induction hs h bs rule: packets.induct)
  case (1 hs h bs)
  note pk = "1.prems" [unfolded packets.simps [of hs h bs]]
  note pd = packets.simps [of hs h "bs @ d"]
  show ?case
  proof (cases "h = 0")
    case True
    then have hs: "0 < hs" "hs \<le> int (length bs)" using pk by (auto split: if_splits)
    then have "packets hs h (bs @ d) = packets hs (header_value (take (nat hs) bs)) (drop (nat hs) bs @ d)"
      unfolding pd using True by simp
    then show ?thesis using "1.IH"(1) True hs pk by simp
  next
    case False
    then have h: "0 < h" "h \<le> int (length bs)" using pk by (auto split: if_splits)
    show ?thesis
    proof (cases "h \<ge> 0x1000000")
      case True
      then show ?thesis unfolding pd using h by simp
    next
      case small: False
      have "snd (packets hs 0 (drop (nat h) bs @ d)) = None"
        using "1.IH"(2) False h small pk by (auto simp: split_beta)
      then show ?thesis unfolding pd using h small by (simp add: split_beta)
    qed
  qed
qed

lemma feed_correct:
  assumes "gate_at g bss" "id_map (g_hash g) sid = Some k" "has_dest g (conn g ! k)"
    "packets (header_size g) (db_header (c_buffer (conn g ! k))) (bss k) = ([], Some (db_header (c_buffer (conn g ! k)), bss k))"
    "packets (header_size g) (db_header (c_buffer (conn g ! k))) (bss k @ concat ds) = (ms, Some (h', bs'))"
  shows "\<exists>g'. feed sid ds g = Some (map (deliver g (conn g ! k)) ms, g') \<and> gate_at g' (bss(k := bs'))"
  using assms
proof (induction ds arbitrary: g bss ms)
  case Nil
  then show ?case by (auto simp: fun_upd_idem)
next
  case (Cons d ds)
  let ?c = "conn g ! k" and ?hs = "header_size g"
  have kl: "k < length (conn g)" using gate_atD(7) [OF Cons.prems(1,2)] .
  obtain m1 r1 where p1: "packets ?hs (db_header (c_buffer ?c)) (bss k @ d) = (m1, r1)" by fastforce
  have all: "packets ?hs (db_header (c_buffer ?c)) ((bss k @ d) @ concat ds) = (ms, Some (h', bs'))"
    using Cons.prems(5) by simp
  then have "r1 \<noteq> None" using packets_too_big [of ?hs "db_header (c_buffer ?c)" "bss k @ d" "concat ds"] p1
    by (cases r1) auto
  then obtain h1 bs1 where r1: "r1 = Some (h1, bs1)" by auto
  from data_step [OF Cons.prems(1-3) p1 [unfolded r1]] obtain b mp
    where s1: "dispatch_socket_message g (data_msg sid d)
        = Some (map (deliver g ?c) m1, g\<lparr>conn := (conn g)[k := ?c\<lparr>c_buffer := b\<rparr>], g_mp := mp\<rparr>)"
      "gate_at (g\<lparr>conn := (conn g)[k := ?c\<lparr>c_buffer := b\<rparr>], g_mp := mp\<rparr>) (bss(k := bs1))" "db_header b = h1" by blast
  let ?g = "g\<lparr>conn := (conn g)[k := ?c\<lparr>c_buffer := b\<rparr>], g_mp := mp\<rparr>"
  have ck: "conn ?g ! k = ?c\<lparr>c_buffer := b\<rparr>" using kl by simp
  obtain m2 where m2: "packets ?hs h1 (bs1 @ concat ds) = (m2, Some (h', bs'))" "ms = m1 @ m2"
    using packets_append [OF p1 [unfolded r1], of "concat ds"] all by (auto split: prod.splits)
  have "\<exists>g'. feed sid ds ?g = Some (map (deliver ?g (conn ?g ! k)) m2, g') \<and> gate_at g' ((bss(k := bs1))(k := bs'))"
    by (rule Cons.IH [OF s1(2)])
      (use Cons.prems(2,3) ck s1(3) m2(1) packets_settled [OF p1 [unfolded r1]] deliver_cong(2) [of ?g g] in simp_all)
  moreover have "deliver ?g (conn ?g ! k) = deliver g ?c" unfolding ck by (simp add: deliver_cong(1) [of ?g g])
  ultimately obtain g' where "feed sid ds ?g = Some (map (deliver g ?c) m2, g')" "gate_at g' (bss(k := bs'))"
    by (auto simp only: fun_upd_upd)
  moreover from this(1) have "feed sid (d # ds) g = Some (map (deliver g ?c) ms, g')" using s1(1) m2(2) by simp
  ultimately show ?case by blast
qed

section \<open>Properties\<close>

text \<open>
  Property C2. Framing: whatever the sizes of the chunks in which a socket delivers the
  stream of a list of packets, each packet is forwarded exactly once, unchanged and in
  order, to the broker, the agent or the watchdog of the connection, nothing else is
  forwarded, and no byte is left over; the other connections are untouched.
\<close>

theorem gate_framing:
  assumes "gate_at g bss" "id_map (g_hash g) sid = Some k" "has_dest g (conn g ! k)"
    "db_header (c_buffer (conn g ! k)) = 0" "bss k = []"
    "\<forall>m \<in> set ms. packet_ok (header_size g) m" "concat chunks = stream (header_size g) ms"
  shows "\<exists>g'. feed sid chunks g = Some (map (deliver g (conn g ! k)) ms, g') \<and> gate_at g' bss"
proof -
  have hs: "header_size g = 2 \<or> header_size g = 4" using assms(1) by (simp add: gate_at_def)
  have "packets (header_size g) 0 [] = ([], Some (0, []))" by (subst packets.simps) (use hs in auto)
  moreover have "bss(k := []) = bss" using assms(5) by auto
  ultimately show ?thesis
    using feed_correct [OF assms(1-3), of chunks ms 0 "[]"] packets_stream [OF hs assms(6)] assms(4,5,7) by auto
qed

text \<open>A gate with one connection, and an agent for it.\<close>

definition demo_gate :: gate where
  "demo_gate = \<lparr>listen_id = 1, watchdog = 0, broker = 0, client_tag = 3, header_size = 2, max_connection = 1,
     g_hash = \<lparr>hi_hashmod = 15, hi_cap = 1, hi_count = 1, hi_id = [\<lparr>hn_id = 5, hn_next = None\<rparr>],
       hi_hash = (replicate 16 None)[5 := Some 0]\<rparr>,
     conn = [no_connection\<lparr>c_id := 5, c_agent := 9\<rparr>], g_mp = empty_pool\<rparr>"

lemma demo_gate_at: "gate_at demo_gate (\<lambda>_. [])" and demo_gate_id: "id_map (g_hash demo_gate) 5 = Some 0"
proof -
  have u: "used (hi_id (g_hash demo_gate)) = {0}" by (auto simp: used_def demo_gate_def)
  have "hashid_at 4 (\<lambda>h. if h = 5 then [0] else []) (g_hash demo_gate)"
    unfolding hashid_at_def u by (auto simp: demo_gate_def hash_of_def nth_list_update)
  note at = this
  have m: "id_map (g_hash demo_gate) i = Some k \<longleftrightarrow> k = 0 \<and> i = 5" for i k
    unfolding id_map_iff [OF at] u by (auto simp: demo_gate_def)
  have "buffers demo_gate = (\<lambda>_. empty_buffer)"
    by (auto simp: buffers_def demo_gate_def no_connection_def fun_eq_iff)
  then have "pool_inv (g_mp demo_gate) (buffers demo_gate) (\<lambda>_. [])"
    using pool_inv_empty by (simp add: demo_gate_def)
  then show "gate_at demo_gate (\<lambda>_. [])"
    using at m by (auto simp: gate_at_def hashid_inv_def ran_def) (auto simp: demo_gate_def no_connection_def)
  show "id_map (g_hash demo_gate) 5 = Some 0" using m by simp
qed

theorem gate_framing_witness:
  "\<exists>g'. feed 5 [[0], [1, 7, 0, 2, 8], [9]] demo_gate
    = Some (map (deliver demo_gate (conn demo_gate ! 0)) [[7], [8, 9]], g') \<and> gate_at g' (\<lambda>_. [])"
  by (rule gate_framing [OF demo_gate_at demo_gate_id])
    (simp_all add: demo_gate_def has_dest_def no_connection_def empty_buffer_def packet_ok_def stream_def encode_header_def)




section \<open>The gate on every message\<close>








text \<open>
  When a connection has no agent and the gate neither a broker nor a watchdog,
  the payload of a packet is neither forwarded nor removed from the buffer: its bytes are
  then read as the header of the next packet. Here the packet with payload \<open>[0, 3]\<close> arrives
  before the agent is set and the packet \<open>[7]\<close> after: the agent gets the three bytes of the
  second packet, header included, as one payload.
\<close>

theorem no_destination_desync:
  "(do {
      (ev1, g1) \<leftarrow> dispatch_socket_message (demo_gate\<lparr>conn := [no_connection\<lparr>c_id := 5\<rparr>]\<rparr>) (data_msg 5 [0, 2, 0, 3]);
      g2 \<leftarrow> forward_agent g1 5 9 0;
      (ev2, g3) \<leftarrow> dispatch_socket_message g2 (data_msg 5 [0, 1, 7]);
      Some (ev1, ev2)
    }) = Some ([], [Send 0 9 0x10003 5 [0, 1, 7]])"
  by code_simp

end
