(* ===== verification/Server.thy ===== *)
theory Server
  imports Cstring Handle Timer
begin

text \<open>
  \<^verbatim>\<open>skynet/skynet-src/skynet_server.c\<close> with \<^verbatim>\<open>skynet_harbor.c\<close>, \<^verbatim>\<open>skynet_monitor.c\<close>,
  \<^verbatim>\<open>skynet_error.c\<close>, \<^verbatim>\<open>skynet_env.c\<close>, the end of \<^verbatim>\<open>skynet_mq.c\<close> (dropping a released queue) and
  \<^verbatim>\<open>skynet_timeout\<close>: service contexts and their reference counts, sending, dispatching and the
  text commands. One record holds the state of a node: the contexts by address, the handle
  storage, the queues, the timer and the memory blocks. \<^verbatim>\<open>skynet_free\<close> of a block that is
  not allocated does not return. What a service module does (its create, init, release and
  signal functions and its callback) is code of the modules: a record of parameters that act
  on the state of the node. Formatted log lines are passed to \<open>skynet_error\<close> as text.
\<close>

section \<open>The data\<close>

record remote_message =
  rm_name :: string
  rm_handle :: u32
  rm_message :: ptr
  rm_sz :: u64
  rm_type :: u32

text \<open>\<^verbatim>\<open>struct skynet_socket_message\<close> of \<^verbatim>\<open>skynet_socket.h\<close>.\<close>

record socket_message =
  so_type :: i32
  so_id :: i32
  so_ud :: i32
  so_buffer :: ptr

text \<open>A socket message may have bytes behind its structure, when its buffer is null.\<close>

datatype block = Bytes bytes | Remote remote_message | Socket socket_message bytes

record skynet_context =
  cx_instance :: nat
  cx_mod :: nat
  cx_cb :: ptr          \<comment> \<open>the callback, with its \<^verbatim>\<open>cb_ud\<close>\<close>
  cx_queue :: nat
  cx_logfile :: "string option"   \<comment> \<open>the text written since the file was opened\<close>
  cx_cpu_cost :: u64
  cx_cpu_start :: u64
  cx_result :: string
  cx_handle :: u32
  cx_session_id :: i32
  cx_ref :: int
  cx_message_count :: i32
  cx_init :: bool
  cx_endless :: bool
  cx_profile :: bool

record node =
  n_total :: int
  n_monitor_exit :: u32
  n_profile :: bool
  n_current :: u32      \<comment> \<open>the thread's \<^verbatim>\<open>handle_key\<close>\<close>
  n_ctx :: "nat \<rightharpoonup> skynet_context"
  n_ctx_fresh :: nat
  n_handles :: handle_storage
  n_mq :: mq_store
  n_timer :: timer
  n_mem :: "nat \<rightharpoonup> block"
  n_mem_fresh :: nat
  n_harbor :: u32
  n_remote :: ptr
  n_logger :: u32       \<comment> \<open>the static variable of \<^verbatim>\<open>skynet_error\<close>\<close>
  n_env :: "string \<rightharpoonup> string"

record skynet_monitor =
  sm_version :: i32
  sm_check_version :: i32
  sm_source :: u32
  sm_destination :: u32

text \<open>The code of the modules, and the clock of the thread in microseconds.\<close>

record modules =
  md_query :: "string \<Rightarrow> ptr"
  md_create :: "nat \<Rightarrow> ptr"
  md_init :: "nat \<Rightarrow> nat \<Rightarrow> nat \<Rightarrow> string option \<Rightarrow> node \<Rightarrow> (i32 \<times> node) option"
  md_release :: "nat \<Rightarrow> nat \<Rightarrow> node \<Rightarrow> node option"
  md_signal :: "nat \<Rightarrow> nat \<Rightarrow> i32 \<Rightarrow> node \<Rightarrow> node option"
  md_cb :: "nat \<Rightarrow> nat \<Rightarrow> u32 \<Rightarrow> i32 \<Rightarrow> u32 \<Rightarrow> ptr \<Rightarrow> u64 \<Rightarrow> node \<Rightarrow> (bool \<times> node) option"
  md_time :: "node \<Rightarrow> u64"
  md_fopen :: "string \<Rightarrow> bool"
  md_ctime :: "u64 \<Rightarrow> string"

definition MESSAGE_TYPE_SHIFT :: nat where
  "MESSAGE_TYPE_SHIFT = 56"

definition MESSAGE_TYPE_MASK :: u64 where
  "MESSAGE_TYPE_MASK = mask 56"

definition GLOBALNAME_LENGTH :: nat where
  "GLOBALNAME_LENGTH = 16"

section \<open>Memory and contexts\<close>

definition skynet_malloc :: "block \<Rightarrow> node \<Rightarrow> nat \<times> node" where
  "skynet_malloc b n = (n_mem_fresh n, n\<lparr>n_mem := (n_mem n)(n_mem_fresh n \<mapsto> b), n_mem_fresh := n_mem_fresh n + 1\<rparr>)"

definition skynet_free :: "ptr \<Rightarrow> node \<Rightarrow> node option" where
  "skynet_free p n = (case p of
     None \<Rightarrow> Some n
   | Some a \<Rightarrow> do { assert_c (n_mem n a \<noteq> None); Some (n\<lparr>n_mem := (n_mem n)(a := None)\<rparr>) })"

definition ctx_get :: "nat \<Rightarrow> node \<Rightarrow> skynet_context option" where
  "ctx_get c n = n_ctx n c"

definition ctx_put :: "nat \<Rightarrow> skynet_context \<Rightarrow> node \<Rightarrow> node" where
  "ctx_put c x n = n\<lparr>n_ctx := (n_ctx n)(c \<mapsto> x)\<rparr>"

definition skynet_context_handle :: "node \<Rightarrow> nat \<Rightarrow> u32" where
  "skynet_context_handle n c = (case n_ctx n c of Some x \<Rightarrow> cx_handle x | None \<Rightarrow> 0)"

definition skynet_context_total :: "node \<Rightarrow> int" where
  "skynet_context_total n = n_total n"

definition context_inc :: "node \<Rightarrow> node" where
  "context_inc n = n\<lparr>n_total := n_total n + 1\<rparr>"

definition context_dec :: "node \<Rightarrow> node" where
  "context_dec n = n\<lparr>n_total := n_total n - 1\<rparr>"

definition skynet_current_handle :: "node \<Rightarrow> u32" where
  "skynet_current_handle n = n_current n"

definition id_to_hex :: "u32 \<Rightarrow> string" where
  "id_to_hex i = CHR '':'' # map (\<lambda>k. ''0123456789ABCDEF'' ! unat (drop_bit ((7 - k) * 4) i AND 0xf)) [0..<8]"

definition skynet_context_newsession :: "nat \<Rightarrow> node \<Rightarrow> (i32 \<times> node) option" where
  "skynet_context_newsession c n = do {
     x \<leftarrow> ctx_get c n;
     let session = cx_session_id x + 1;
     if sint session \<le> 0 then Some (1, ctx_put c (x\<lparr>cx_session_id := 1\<rparr>) n)
     else Some (session, ctx_put c (x\<lparr>cx_session_id := session\<rparr>) n)
   }"

definition skynet_context_grab :: "nat \<Rightarrow> node \<Rightarrow> node option" where
  "skynet_context_grab c n = do { x \<leftarrow> ctx_get c n; Some (ctx_put c (x\<lparr>cx_ref := cx_ref x + 1\<rparr>) n) }"

definition skynet_context_reserve :: "nat \<Rightarrow> node \<Rightarrow> node option" where
  "skynet_context_reserve c n = do { n1 \<leftarrow> skynet_context_grab c n; Some (context_dec n1) }"

definition delete_context :: "modules \<Rightarrow> nat \<Rightarrow> node \<Rightarrow> node option" where
  "delete_context M c n = do {
     x \<leftarrow> ctx_get c n;
     n1 \<leftarrow> md_release M (cx_mod x) (cx_instance x) n;
     q \<leftarrow> skynet_mq_mark_release (cx_queue x) (n_mq n1);
     Some (context_dec (n1\<lparr>n_mq := q, n_ctx := (n_ctx n1)(c := None)\<rparr>))
   }"

definition skynet_context_release :: "modules \<Rightarrow> nat \<Rightarrow> node \<Rightarrow> (ptr \<times> node) option" where
  "skynet_context_release M c n = do {
     x \<leftarrow> ctx_get c n;
     let n1 = ctx_put c (x\<lparr>cx_ref := cx_ref x - 1\<rparr>) n;
     if cx_ref x - 1 = 0 then do { n2 \<leftarrow> delete_context M c n1; Some (None, n2) }
     else Some (Some c, n1)
   }"

text \<open>\<^verbatim>\<open>skynet_handle_grab\<close> with the increment of the reference count.\<close>

definition handle_grab :: "u32 \<Rightarrow> node \<Rightarrow> (ptr \<times> node) option" where
  "handle_grab h n = do {
     r \<leftarrow> skynet_handle_grab (skynet_context_handle n) h (n_handles n);
     (case r of None \<Rightarrow> Some (None, n) | Some c \<Rightarrow> do { n1 \<leftarrow> skynet_context_grab c n; Some (Some c, n1) })
   }"

text \<open>\<^verbatim>\<open>skynet_handle_retire\<close> with the release of the context.\<close>

definition handle_retire :: "modules \<Rightarrow> u32 \<Rightarrow> node \<Rightarrow> (bool \<times> node) option" where
  "handle_retire M h n = do {
     (r, rel, hs) \<leftarrow> skynet_handle_retire (skynet_context_handle n) h (n_handles n);
     let n1 = n\<lparr>n_handles := hs\<rparr>;
     (case rel of
        None \<Rightarrow> Some (r, n1)
      | Some c \<Rightarrow> do { (_, n2) \<leftarrow> skynet_context_release M c n1; Some (r, n2) })
   }"

section \<open>Sending\<close>

definition skynet_context_push :: "modules \<Rightarrow> u32 \<Rightarrow> skynet_message \<Rightarrow> node \<Rightarrow> (int \<times> node) option" where
  "skynet_context_push M h message n = do {
     (r, n1) \<leftarrow> handle_grab h n;
     (case r of
        None \<Rightarrow> Some (- 1, n1)
      | Some c \<Rightarrow> do {
          x \<leftarrow> ctx_get c n1;
          q \<leftarrow> skynet_mq_push (cx_queue x) message (n_mq n1);
          (_, n2) \<leftarrow> skynet_context_release M c (n1\<lparr>n_mq := q\<rparr>);
          Some (0, n2)
        })
   }"

text \<open>
  \<open>msg\<close> is the formatted line. The buffer holds its bytes and a zero; for a line of
  \<open>LOG_MESSAGE_SIZE\<close> bytes or more it is a block whose size the loop doubles until the line
  fits, zero here behind the line.
\<close>

definition LOG_MESSAGE_SIZE :: nat where
  "LOG_MESSAGE_SIZE = 256"

function grow_line :: "nat \<Rightarrow> nat \<Rightarrow> nat" where
  "grow_line max_size len =
     (let max_size = max_size * 2 in if len < max_size \<or> max_size = 0 then max_size else grow_line max_size len)"
  by pat_completeness auto
termination
  by (relation "measure (\<lambda>(m, len). len - m)") auto

declare grow_line.simps [simp del]

definition line_buffer :: "string \<Rightarrow> bytes" where
  "line_buffer msg =
     (if length msg < LOG_MESSAGE_SIZE then ascii msg @ [0]
      else ascii msg @ replicate (grow_line LOG_MESSAGE_SIZE (length msg) - length msg) 0)"

definition skynet_error :: "modules \<Rightarrow> ptr \<Rightarrow> string \<Rightarrow> node \<Rightarrow> node option" where
  "skynet_error M context msg n = do {
     n1 \<leftarrow> (if n_logger n = 0 then do {
         h \<leftarrow> skynet_handle_findname ''logger'' (n_handles n);
         Some (n\<lparr>n_logger := h\<rparr>)
       } else Some n);
     if n_logger n1 = 0 then Some n1
     else do {
       let (data, n2) = skynet_malloc (Bytes (line_buffer msg)) n1;
       let source = (case context of None \<Rightarrow> 0 | Some c \<Rightarrow> skynet_context_handle n2 c);
       (_, n3) \<leftarrow> skynet_context_push M (n_logger n2)
         \<lparr>msg_source = source, msg_session = 0, msg_data = Some data,
          msg_sz = word_of_nat (length msg) OR push_bit MESSAGE_TYPE_SHIFT (ucast PTYPE_TEXT)\<rparr> n2;
       Some n3
     }
   }"

definition skynet_context_endless :: "modules \<Rightarrow> u32 \<Rightarrow> node \<Rightarrow> node option" where
  "skynet_context_endless M h n = do {
     (r, n1) \<leftarrow> handle_grab h n;
     (case r of
        None \<Rightarrow> Some n1
      | Some c \<Rightarrow> do {
          x \<leftarrow> ctx_get c n1;
          (_, n2) \<leftarrow> skynet_context_release M c (ctx_put c (x\<lparr>cx_endless := True\<rparr>) n1);
          Some n2
        })
   }"

definition invalid_type :: "u32 \<Rightarrow> bool" where
  "invalid_type t \<longleftrightarrow> t \<noteq> PTYPE_SYSTEM \<and> t \<noteq> PTYPE_HARBOR"

definition skynet_harbor_message_isremote :: "node \<Rightarrow> u32 \<Rightarrow> bool option" where
  "skynet_harbor_message_isremote n h = do {
     assert_c (n_harbor n \<noteq> - 1);
     let a = h AND NOT HANDLE_MASK;
     Some (a \<noteq> n_harbor n \<and> a \<noteq> 0)
   }"

definition skynet_harbor_init :: "i32 \<Rightarrow> node \<Rightarrow> node" where
  "skynet_harbor_init harbor n = n\<lparr>n_harbor := push_bit HANDLE_REMOTE_SHIFT harbor\<rparr>"

definition skynet_harbor_start :: "nat \<Rightarrow> node \<Rightarrow> node option" where
  "skynet_harbor_start c n = do { n1 \<leftarrow> skynet_context_reserve c n; Some (n1\<lparr>n_remote := Some c\<rparr>) }"

definition skynet_harbor_exit :: "modules \<Rightarrow> node \<Rightarrow> node option" where
  "skynet_harbor_exit M n = (case n_remote n of
     None \<Rightarrow> Some n
   | Some c \<Rightarrow> do { (_, n1) \<leftarrow> skynet_context_release M c (n\<lparr>n_remote := None\<rparr>); Some n1 })"

definition skynet_isremote :: "node \<Rightarrow> u32 \<Rightarrow> (bool \<times> u32) option" where
  "skynet_isremote n h = do {
     r \<leftarrow> skynet_harbor_message_isremote n h;
     Some (r, drop_bit HANDLE_REMOTE_SHIFT h)
   }"

definition skynet_context_send :: "nat \<Rightarrow> ptr \<Rightarrow> u64 \<Rightarrow> u32 \<Rightarrow> u32 \<Rightarrow> i32 \<Rightarrow> node \<Rightarrow> node option" where
  "skynet_context_send c msg sz source t session n = do {
     x \<leftarrow> ctx_get c n;
     q \<leftarrow> skynet_mq_push (cx_queue x)
       \<lparr>msg_source = source, msg_session = session, msg_data = msg,
        msg_sz = sz OR push_bit MESSAGE_TYPE_SHIFT (ucast t)\<rparr> (n_mq n);
     Some (n\<lparr>n_mq := q\<rparr>)
   }"

text \<open>\<^verbatim>\<open>sizeof(struct remote_message)\<close> on a 64-bit machine.\<close>

definition remote_message_size :: u64 where
  "remote_message_size = 48"

definition skynet_harbor_send :: "nat \<Rightarrow> u32 \<Rightarrow> i32 \<Rightarrow> node \<Rightarrow> node option" where
  "skynet_harbor_send rmsg source session n = do {
     b \<leftarrow> n_mem n rmsg;
     t \<leftarrow> (case b of Remote r \<Rightarrow> Some (rm_type r) | Bytes _ \<Rightarrow> None);
     assert_c (invalid_type t);
     c \<leftarrow> n_remote n;
     skynet_context_send c (Some rmsg) remote_message_size source PTYPE_SYSTEM session n
   }"

text \<open>The session, the payload and the size with the type, as \<^verbatim>\<open>_filter_args\<close> leaves them.\<close>

definition filter_args ::
    "ptr \<Rightarrow> u32 \<Rightarrow> i32 \<Rightarrow> ptr \<Rightarrow> u64 \<Rightarrow> node \<Rightarrow> (i32 \<times> ptr \<times> u64 \<times> node) option" where
  "filter_args context t session data sz n = do {
     let needcopy = (t AND PTYPE_TAG_DONTCOPY = 0);
     let allocsession = (t AND PTYPE_TAG_ALLOCSESSION \<noteq> 0);
     (session1, n1) \<leftarrow> (if allocsession then do {
         assert_c (session = 0);
         c \<leftarrow> context;
         skynet_context_newsession c n
       } else Some (session, n));
     (data1, n2) \<leftarrow> (case data of
         Some a \<Rightarrow> if needcopy then do {
             b \<leftarrow> n_mem n1 a;
             bs \<leftarrow> (case b of Bytes bs \<Rightarrow> if unat sz \<le> length bs then Some bs else None | _ \<Rightarrow> None);
             let (a', n') = skynet_malloc (Bytes (take (unat sz) bs @ [0])) n1;
             Some (Some a', n')
           } else Some (data, n1)
       | None \<Rightarrow> Some (data, n1));
     Some (session1, data1, sz OR push_bit MESSAGE_TYPE_SHIFT (ucast (t AND 0xff)), n2)
   }"

text \<open>The result is the session, or \<open>-1\<close> or \<open>-2\<close>.\<close>

definition skynet_send ::
    "modules \<Rightarrow> ptr \<Rightarrow> u32 \<Rightarrow> u32 \<Rightarrow> u32 \<Rightarrow> i32 \<Rightarrow> ptr \<Rightarrow> u64 \<Rightarrow> node \<Rightarrow> (i32 \<times> node) option" where
  "skynet_send M context source destination t session data sz n =
     (if (sz AND MESSAGE_TYPE_MASK) \<noteq> sz then do {
        n1 \<leftarrow> skynet_error M context (''The message to '' @ hex_nat (unat destination) @ '' is too large'') n;
        n2 \<leftarrow> (if t AND PTYPE_TAG_DONTCOPY \<noteq> 0 then skynet_free data n1 else Some n1);
        Some (- 2, n2)
      } else do {
        (session, data, sz, n1) \<leftarrow> filter_args context t session data sz n;
        source \<leftarrow> (if source = 0 then do { c \<leftarrow> context; x \<leftarrow> ctx_get c n1; Some (cx_handle x) } else Some source);
        if destination = 0 then
          if data \<noteq> None then do {
            n2 \<leftarrow> skynet_error M context ''Destination address can't be 0'' n1;
            n3 \<leftarrow> skynet_free data n2;
            Some (- 1, n3)
          } else Some (session, n1)
        else do {
          remote \<leftarrow> skynet_harbor_message_isremote n1 destination;
          if remote then do {
            let (rmsg, n2) = skynet_malloc (Remote \<lparr>rm_name = [], rm_handle = destination, rm_message = data,
                rm_sz = sz AND MESSAGE_TYPE_MASK, rm_type = ucast (drop_bit MESSAGE_TYPE_SHIFT sz)\<rparr>) n1;
            n3 \<leftarrow> skynet_harbor_send rmsg source session n2;
            Some (session, n3)
          } else do {
            (r, n2) \<leftarrow> skynet_context_push M destination
              \<lparr>msg_source = source, msg_session = session, msg_data = data, msg_sz = sz\<rparr> n1;
            if r \<noteq> 0 then do { n3 \<leftarrow> skynet_free data n2; Some (- 1, n3) }
            else Some (session, n2)
          }
        }
      })"

definition copy_name :: "string \<Rightarrow> string" where
  "copy_name addr = take GLOBALNAME_LENGTH addr @ replicate (GLOBALNAME_LENGTH - length addr) (char_of (0 :: nat))"

definition parse_handle :: "string \<Rightarrow> u32" where
  "parse_handle s = strtoul16 (ascii s)"

definition skynet_sendname ::
    "modules \<Rightarrow> nat \<Rightarrow> u32 \<Rightarrow> string \<Rightarrow> u32 \<Rightarrow> i32 \<Rightarrow> ptr \<Rightarrow> u64 \<Rightarrow> node \<Rightarrow> (i32 \<times> node) option" where
  "skynet_sendname M context source addr t session data sz n = do {
     source \<leftarrow> (if source = 0 then do { x \<leftarrow> ctx_get context n; Some (cx_handle x) } else Some source);
     (case addr of
        CHR '':'' # rest \<Rightarrow> skynet_send M (Some context) source (parse_handle rest) t session data sz n
      | CHR ''.'' # rest \<Rightarrow> do {
          des \<leftarrow> skynet_handle_findname rest (n_handles n);
          if des = 0 then do {
            n1 \<leftarrow> (if t AND PTYPE_TAG_DONTCOPY \<noteq> 0 then skynet_free data n else Some n);
            Some (- 1, n1)
          } else skynet_send M (Some context) source des t session data sz n
        }
      | _ \<Rightarrow>
          if (sz AND MESSAGE_TYPE_MASK) \<noteq> sz then do {
            n1 \<leftarrow> skynet_error M (Some context) (''The message to '' @ addr @ '' is too large'') n;
            n2 \<leftarrow> (if t AND PTYPE_TAG_DONTCOPY \<noteq> 0 then skynet_free data n1 else Some n1);
            Some (- 2, n2)
          } else do {
            (session, data, sz, n1) \<leftarrow> filter_args (Some context) t session data sz n;
            let (rmsg, n2) = skynet_malloc (Remote \<lparr>rm_name = copy_name addr, rm_handle = 0, rm_message = data,
                rm_sz = sz AND MESSAGE_TYPE_MASK, rm_type = ucast (drop_bit MESSAGE_TYPE_SHIFT sz)\<rparr>) n1;
            n3 \<leftarrow> skynet_harbor_send rmsg source session n2;
            Some (session, n3)
          })
   }"

section \<open>Releasing queues and creating contexts\<close>

definition drop_message :: "modules \<Rightarrow> u32 \<Rightarrow> skynet_message \<Rightarrow> node \<Rightarrow> node option" where
  "drop_message M h msg n = do {
     n1 \<leftarrow> skynet_free (msg_data msg) n;
     assert_c (h \<noteq> 0);
     (_, n2) \<leftarrow> skynet_send M None h (msg_source msg) PTYPE_ERROR 0 None 0 n1;
     Some n2
   }"

text \<open>\<^verbatim>\<open>_drop_queue\<close>: the loop, and the release of the queue.\<close>

partial_function (option) drop_queue :: "modules \<Rightarrow> nat \<Rightarrow> u32 \<Rightarrow> node \<Rightarrow> node option" where
  "drop_queue M q h n = do {
     (m, s) \<leftarrow> skynet_mq_pop q (n_mq n);
     (case m of
        None \<Rightarrow> do { s1 \<leftarrow> mq_free q s; Some (n\<lparr>n_mq := s1\<rparr>) }
      | Some msg \<Rightarrow> do { n1 \<leftarrow> drop_message M h msg (n\<lparr>n_mq := s\<rparr>); drop_queue M q h n1 })
   }"

definition skynet_mq_release :: "modules \<Rightarrow> nat \<Rightarrow> u32 \<Rightarrow> node \<Rightarrow> node option" where
  "skynet_mq_release M q h n = do {
     x \<leftarrow> mq_get (n_mq n) q;
     if q_release x then drop_queue M q h n
     else do { s \<leftarrow> skynet_globalmq_push q (n_mq n); Some (n\<lparr>n_mq := s\<rparr>) }
   }"

definition new_context :: "nat \<Rightarrow> nat \<Rightarrow> bool \<Rightarrow> skynet_context" where
  "new_context md inst profile = \<lparr>cx_instance = inst, cx_mod = md, cx_cb = None, cx_queue = 0, cx_logfile = None,
     cx_cpu_cost = 0, cx_cpu_start = 0, cx_result = [], cx_handle = 0, cx_session_id = 0, cx_ref = 2,
     cx_message_count = 0, cx_init = False, cx_endless = False, cx_profile = profile\<rparr>"

definition skynet_context_new :: "modules \<Rightarrow> string \<Rightarrow> string option \<Rightarrow> node \<Rightarrow> (ptr \<times> node) option" where
  "skynet_context_new M name param n = (case md_query M name of
     None \<Rightarrow> Some (None, n)
   | Some md \<Rightarrow> (case md_create M md of
       None \<Rightarrow> Some (None, n)
     | Some inst \<Rightarrow> do {
         let c = n_ctx_fresh n;
         let n1 = ctx_put c (new_context md inst (n_profile n)) (n\<lparr>n_ctx_fresh := c + 1\<rparr>);
         (h, hs) \<leftarrow> skynet_handle_register (skynet_context_handle n1) c (n_handles n1);
         let (q, s) = skynet_mq_create h (n_mq n1);
         let n2 = context_inc (ctx_put c ((new_context md inst (n_profile n))\<lparr>cx_handle := h, cx_queue := q\<rparr>)
             (n1\<lparr>n_handles := hs, n_mq := s\<rparr>));
         (r, n3) \<leftarrow> md_init M md inst c param n2;
         if r = 0 then do {
           (ret, n4) \<leftarrow> skynet_context_release M c n3;
           n5 \<leftarrow> (if ret \<noteq> None then do { x \<leftarrow> ctx_get c n4; Some (ctx_put c (x\<lparr>cx_init := True\<rparr>) n4) } else Some n4);
           s5 \<leftarrow> skynet_globalmq_push q (n_mq n5);
           Some (ret, n5\<lparr>n_mq := s5\<rparr>)
         } else do {
           n4 \<leftarrow> skynet_error M (Some c) (''FAILED launch '' @ name) n3;
           x \<leftarrow> ctx_get c n4;
           (_, n5) \<leftarrow> skynet_context_release M c n4;
           (_, n6) \<leftarrow> handle_retire M (cx_handle x) n5;
           n7 \<leftarrow> skynet_mq_release M q (cx_handle x) n6;
           Some (None, n7)
         }
       }))"

section \<open>Dispatching\<close>

text \<open>
  \<^verbatim>\<open>skynet_log.c\<close>: the text a message adds to the log file of its service. A block that is
  not there, or shorter than said, does not return; \<^verbatim>\<open>%*s\<close> prints up to a zero byte, so that
  there has to be one in the bytes behind a socket message.
\<close>

definition log_blob :: "bytes \<Rightarrow> string" where
  "log_blob buf = concat (map (\<lambda>b. hex_pad 2 (unat b)) buf)"

definition block_bytes :: "ptr \<Rightarrow> nat \<Rightarrow> node \<Rightarrow> bytes option" where
  "block_bytes p sz n =
     (if sz = 0 then Some []
      else case p of
        Some a \<Rightarrow> (case n_mem n a of
            Some (Bytes bs) \<Rightarrow> if sz \<le> length bs then Some (take sz bs) else None
          | _ \<Rightarrow> None)
      | None \<Rightarrow> None)"

definition log_socket :: "ptr \<Rightarrow> node \<Rightarrow> string option" where
  "log_socket p n = (case p of
     Some a \<Rightarrow> (case n_mem n a of
         Some (Socket m tail) \<Rightarrow> do {
           let head = ''[socket] '' @ dec_string (sint (so_type m)) @ '' '' @ dec_string (sint (so_id m)) @ '' ''
             @ dec_string (sint (so_ud m)) @ '' '';
           txt \<leftarrow> (case so_buffer m of
               None \<Rightarrow> if 0 \<in> set tail
                 then Some (''['' @ map (\<lambda>b. char_of (unat b)) (takeWhile (\<lambda>b. b \<noteq> 0) tail) @ '']'') else None
             | Some _ \<Rightarrow> map_option log_blob (block_bytes (so_buffer m) (unat (so_ud m)) n));
           Some (head @ txt @ [CHR 0x0A])
         }
       | _ \<Rightarrow> None)
   | None \<Rightarrow> None)"

definition skynet_log_output :: "u32 \<Rightarrow> u32 \<Rightarrow> i32 \<Rightarrow> ptr \<Rightarrow> u64 \<Rightarrow> node \<Rightarrow> string option" where
  "skynet_log_output source t session buffer sz n =
     (if t = PTYPE_SOCKET then log_socket buffer n
      else do {
        let ti = (ucast (skynet_now (n_timer n)) :: u32);
        bs \<leftarrow> block_bytes buffer (unat sz) n;
        Some ('':'' @ hex_pad 8 (unat source) @ '' '' @ dec_string (sint t) @ '' '' @ dec_string (sint session)
          @ '' '' @ dec_nat (unat ti) @ '' '' @ log_blob bs @ [CHR 0x0A])
      })"

definition dispatch_message :: "modules \<Rightarrow> nat \<Rightarrow> skynet_message \<Rightarrow> node \<Rightarrow> node option" where
  "dispatch_message M c msg n = do {
     x \<leftarrow> ctx_get c n;
     assert_c (cx_init x);
     f \<leftarrow> cx_cb x;
     let t = (ucast (drop_bit MESSAGE_TYPE_SHIFT (msg_sz msg)) :: u32);
     let sz = msg_sz msg AND MESSAGE_TYPE_MASK;
     log \<leftarrow> (case cx_logfile x of
         None \<Rightarrow> Some None
       | Some old \<Rightarrow> do {
           line \<leftarrow> skynet_log_output (msg_source msg) t (msg_session msg) (msg_data msg) sz n;
           Some (Some (old @ line))
         });
     let start = (if cx_profile x then md_time M n else cx_cpu_start x);
     let n1 = ctx_put c (x\<lparr>cx_logfile := log, cx_message_count := cx_message_count x + 1, cx_cpu_start := start\<rparr>)
         (n\<lparr>n_current := cx_handle x\<rparr>);
     (reserve_msg, n2) \<leftarrow> md_cb M f c t (msg_session msg) (msg_source msg) (msg_data msg) sz n1;
     n3 \<leftarrow> (if cx_profile x then do {
         y \<leftarrow> ctx_get c n2;
         Some (ctx_put c (y\<lparr>cx_cpu_cost := cx_cpu_cost y + (md_time M n2 - cx_cpu_start y)\<rparr>) n2)
       } else Some n2);
     if \<not> reserve_msg then skynet_free (msg_data msg) n3 else Some n3
   }"

partial_function (option) dispatchall_loop :: "modules \<Rightarrow> nat \<Rightarrow> nat \<Rightarrow> node \<Rightarrow> node option" where
  "dispatchall_loop M c q n = do {
     (m, s) \<leftarrow> skynet_mq_pop q (n_mq n);
     (case m of
        None \<Rightarrow> Some (n\<lparr>n_mq := s\<rparr>)
      | Some msg \<Rightarrow> do { n1 \<leftarrow> dispatch_message M c msg (n\<lparr>n_mq := s\<rparr>); dispatchall_loop M c q n1 })
   }"

definition skynet_context_dispatchall :: "modules \<Rightarrow> nat \<Rightarrow> node \<Rightarrow> node option" where
  "skynet_context_dispatchall M c n = do { x \<leftarrow> ctx_get c n; dispatchall_loop M c (cx_queue x) n }"

definition skynet_monitor_new :: skynet_monitor where
  "skynet_monitor_new = \<lparr>sm_version = 0, sm_check_version = 0, sm_source = 0, sm_destination = 0\<rparr>"

definition skynet_monitor_trigger :: "u32 \<Rightarrow> u32 \<Rightarrow> skynet_monitor \<Rightarrow> skynet_monitor" where
  "skynet_monitor_trigger source destination sm =
     sm\<lparr>sm_source := source, sm_destination := destination, sm_version := sm_version sm + 1\<rparr>"

definition skynet_monitor_check :: "modules \<Rightarrow> skynet_monitor \<Rightarrow> node \<Rightarrow> (skynet_monitor \<times> node) option" where
  "skynet_monitor_check M sm n =
     (if sm_version sm = sm_check_version sm then
        if sm_destination sm \<noteq> 0 then do {
          n1 \<leftarrow> skynet_context_endless M (sm_destination sm) n;
          n2 \<leftarrow> skynet_error M None (''A message from [ '' @ id_to_hex (sm_source sm) @ '' ] to [ ''
            @ id_to_hex (sm_destination sm) @ '' ] maybe in an endless loop (version = ''
            @ dec_string (sint (sm_version sm)) @ '')'') n1;
          Some (sm, n2)
        } else Some (sm, n)
      else Some (sm\<lparr>sm_check_version := sm_version sm\<rparr>, n))"

text \<open>One message of the loop of \<^verbatim>\<open>skynet_context_message_dispatch\<close>, after it has been popped.\<close>

definition dispatch_one ::
    "modules \<Rightarrow> skynet_monitor \<Rightarrow> nat \<Rightarrow> nat \<Rightarrow> u32 \<Rightarrow> skynet_message \<Rightarrow> node \<Rightarrow> (skynet_monitor \<times> node) option" where
  "dispatch_one M sm c q h msg n = do {
     (overload, s) \<leftarrow> skynet_mq_overload q (n_mq n);
     let n1 = n\<lparr>n_mq := s\<rparr>;
     n2 \<leftarrow> (if overload \<noteq> 0
         then skynet_error M (Some c) (''May overload, message queue length = '' @ dec_nat overload) n1
         else Some n1);
     let sm1 = skynet_monitor_trigger (msg_source msg) h sm;
     x \<leftarrow> ctx_get c n2;
     n3 \<leftarrow> (if cx_cb x = None then skynet_free (msg_data msg) n2 else dispatch_message M c msg n2);
     Some (skynet_monitor_trigger 0 0 sm1, n3)
   }"

text \<open>\<open>k\<close> iterations are left; the flag says that the queue ran empty.\<close>

primrec dispatch_rest ::
    "nat \<Rightarrow> modules \<Rightarrow> skynet_monitor \<Rightarrow> nat \<Rightarrow> nat \<Rightarrow> u32 \<Rightarrow> node \<Rightarrow> (bool \<times> skynet_monitor \<times> node) option" where
  "dispatch_rest 0 M sm c q h n = Some (False, sm, n)"
| "dispatch_rest (Suc k) M sm c q h n = do {
     (m, s) \<leftarrow> skynet_mq_pop q (n_mq n);
     let n1 = n\<lparr>n_mq := s\<rparr>;
     (case m of
        None \<Rightarrow> Some (True, sm, n1)
      | Some msg \<Rightarrow> do {
          (sm1, n2) \<leftarrow> dispatch_one M sm c q h msg n1;
          dispatch_rest k M sm1 c q h n2
        })
   }"

definition global_pop :: "node \<Rightarrow> (ptr \<times> node) option" where
  "global_pop n = do { (p, s) \<leftarrow> skynet_globalmq_pop (n_mq n); Some (p, n\<lparr>n_mq := s\<rparr>) }"

text \<open>A queue that ran empty is left alone; the worker goes on with the next one.\<close>

definition leave_queue :: "modules \<Rightarrow> nat \<Rightarrow> skynet_monitor \<Rightarrow> node \<Rightarrow> (ptr \<times> skynet_monitor \<times> node) option" where
  "leave_queue M c sm n = do {
     (_, n1) \<leftarrow> skynet_context_release M c n;
     (p, n2) \<leftarrow> global_pop n1;
     Some (p, sm, n2)
   }"

definition skynet_context_message_dispatch ::
    "modules \<Rightarrow> skynet_monitor \<Rightarrow> ptr \<Rightarrow> int \<Rightarrow> node \<Rightarrow> (ptr \<times> skynet_monitor \<times> node) option" where
  "skynet_context_message_dispatch M sm q weight n = do {
     (q1, n1) \<leftarrow> (case q of None \<Rightarrow> global_pop n | Some _ \<Rightarrow> Some (q, n));
     (case q1 of
        None \<Rightarrow> Some (None, sm, n1)
      | Some q \<Rightarrow> do {
          h \<leftarrow> skynet_mq_handle q (n_mq n1);
          (r, n2) \<leftarrow> handle_grab h n1;
          (case r of
             None \<Rightarrow> do {
               n3 \<leftarrow> skynet_mq_release M q h n2;
               (p, n4) \<leftarrow> global_pop n3;
               Some (p, sm, n4)
             }
           | Some c \<Rightarrow> do {
               (m, s) \<leftarrow> skynet_mq_pop q (n_mq n2);
               let n3 = n2\<lparr>n_mq := s\<rparr>;
               (case m of
                  None \<Rightarrow> leave_queue M c sm n3
                | Some msg \<Rightarrow> do {
                    len \<leftarrow> skynet_mq_length q (n_mq n3);
                    let k = (if weight \<ge> 0 then drop_bit (nat weight) len else 1);
                    (sm1, n4) \<leftarrow> dispatch_one M sm c q h msg n3;
                    (empty, sm2, n5) \<leftarrow> dispatch_rest (k - 1) M sm1 c q h n4;
                    if empty then leave_queue M c sm2 n5
                    else do {
                      x \<leftarrow> ctx_get c n5;
                      assert_c (q = cx_queue x);
                      (nq, n6) \<leftarrow> global_pop n5;
                      (q2, n7) \<leftarrow> (case nq of
                          None \<Rightarrow> Some (q, n6)
                        | Some p \<Rightarrow> do { s6 \<leftarrow> skynet_globalmq_push q (n_mq n6); Some (p, n6\<lparr>n_mq := s6\<rparr>) });
                      (_, n8) \<leftarrow> skynet_context_release M c n7;
                      Some (Some q2, sm2, n8)
                    }
                  })
             })
        })
   }"


section \<open>The invariant of a node\<close>

text \<open>
  The handle storage and the queues satisfy their invariants, every registered context is
  alive, holds a reference and owns a live queue, allocation has not reached the fresh
  address, and harbor and handle storage agree on the harbor id.
\<close>

definition mq_ok :: "mq_store \<Rightarrow> bool" where
  "mq_ok s \<longleftrightarrow> (\<exists>xs. gq_inv s xs \<and> (\<forall>p v. views s p = Some v \<longrightarrow> \<not> v_in_global v \<longrightarrow> p \<notin> set xs))"

definition services_ok :: "node \<Rightarrow> bool" where
  "services_ok n \<longleftrightarrow> (\<forall>c \<in> members (n_handles n). \<exists>x v. n_ctx n c = Some x \<and> 1 \<le> cx_ref x
     \<and> views (n_mq n) (cx_queue x) = Some v)"

definition node_inv :: "node \<Rightarrow> bool" where
  "node_inv n \<longleftrightarrow> handle_inv (skynet_context_handle n) (n_handles n) \<and> mq_ok (n_mq n) \<and> services_ok n
     \<and> (\<forall>a. n_mem n a \<noteq> None \<longrightarrow> a < n_mem_fresh n) \<and> n_harbor n = hs_harbor (n_handles n)"

text \<open>The service a handle leads to, and its context.\<close>

definition service :: "node \<Rightarrow> u32 \<Rightarrow> ptr" where
  "service n h = handle_table (skynet_context_handle n) (n_handles n) h"

lemma node_invD:
  assumes "node_inv n"
  shows "handle_inv (skynet_context_handle n) (n_handles n)" "slots_inv (skynet_context_handle n) (n_handles n)"
    "names_inv (n_handles n)" "mq_ok (n_mq n)" "services_ok n" "n_harbor n = hs_harbor (n_handles n)"
    "\<And>a. n_mem n a \<noteq> None \<Longrightarrow> a < n_mem_fresh n"
  using assms by (auto simp: node_inv_def handle_inv_def)

lemma service_member: "node_inv n \<Longrightarrow> service n h = Some c \<Longrightarrow> c \<in> members (n_handles n)"
  using node_invD(2) [of n] unfolding service_def slots_inv_def by (metis handle_table_iff)

lemma service_obtain:
  assumes "node_inv n" "service n h = Some c"
  obtains x v where "n_ctx n c = Some x" "1 \<le> cx_ref x" "views (n_mq n) (cx_queue x) = Some v" "cx_handle x = h"
proof -
  have m: "c \<in> members (n_handles n)" using service_member [OF assms] .
  obtain k where "slots_at k (skynet_context_handle n) (n_handles n)"
    using node_invD(2) [OF assms(1)] by (auto simp: slots_inv_def)
  then have h: "skynet_context_handle n c = h" using assms(2) by (simp add: service_def handle_table_iff)
  from m node_invD(5) [OF assms(1)] obtain x v where
    "n_ctx n c = Some x" "1 \<le> cx_ref x" "views (n_mq n) (cx_queue x) = Some v"
    unfolding services_ok_def by blast
  with h that show ?thesis by (simp add: skynet_context_handle_def)
qed

lemma mq_ok_push:
  assumes "mq_ok s" "views s p = Some v"
  shows "\<exists>s'. skynet_mq_push p m s = Some s' \<and> mq_ok s'
    \<and> views s' = (views s)(p \<mapsto> v\<lparr>v_in_global := True, v_msgs := v_msgs v @ [m]\<rparr>)"
proof -
  from assms(1) obtain xs where xs: "gq_inv s xs" "\<forall>p v. views s p = Some v \<longrightarrow> \<not> v_in_global v \<longrightarrow> p \<notin> set xs"
    by (auto simp: mq_ok_def)
  then have "\<not> v_in_global v \<Longrightarrow> p \<notin> set xs" using assms(2) by blast
  from skynet_mq_push_correct [OF xs(1) assms(2) this, of m] obtain s' where
    s': "skynet_mq_push p m s = Some s'" "gq_inv s' (if v_in_global v then xs else xs @ [p])"
    "views s' = (views s)(p \<mapsto> v\<lparr>v_in_global := True, v_msgs := v_msgs v @ [m]\<rparr>)" by blast
  have "mq_ok s'" unfolding mq_ok_def using s'(2,3) xs(2) by (intro exI conjI) (auto split: if_splits)
  with s' show ?thesis by blast
qed

lemma services_ok_views:
  assumes "services_ok n" "\<And>p. views s p = None \<Longrightarrow> views (n_mq n) p = None"
  shows "services_ok (n\<lparr>n_mq := s\<rparr>)"
  unfolding services_ok_def
proof
  fix c assume "c \<in> members (n_handles (n\<lparr>n_mq := s\<rparr>))"
  with assms(1) obtain x v where x: "n_ctx n c = Some x" "1 \<le> cx_ref x" "views (n_mq n) (cx_queue x) = Some v"
    unfolding services_ok_def by auto
  then obtain v' where "views s (cx_queue x) = Some v'" using assms(2) [of "cx_queue x"] by fastforce
  with x show "\<exists>x v. n_ctx (n\<lparr>n_mq := s\<rparr>) c = Some x \<and> 1 \<le> cx_ref x \<and> views (n_mq (n\<lparr>n_mq := s\<rparr>)) (cx_queue x) = Some v"
    by auto
qed

lemma context_handle_upd [simp]:
  "skynet_context_handle (n\<lparr>n_mq := s\<rparr>) = skynet_context_handle n"
  "skynet_context_handle (n\<lparr>n_mem := m\<rparr>) = skynet_context_handle n"
  "skynet_context_handle (n\<lparr>n_mem_fresh := k\<rparr>) = skynet_context_handle n"
  "skynet_context_handle (n\<lparr>n_logger := h\<rparr>) = skynet_context_handle n"
  "skynet_context_handle (n\<lparr>n_timer := T\<rparr>) = skynet_context_handle n"
  "skynet_context_handle (n\<lparr>n_ctx_fresh := k\<rparr>) = skynet_context_handle n"
  by (simp_all add: skynet_context_handle_def fun_eq_iff)

lemma node_inv_mq:
  assumes "node_inv n" "mq_ok s" "\<And>p. views s p = None \<Longrightarrow> views (n_mq n) p = None"
  shows "node_inv (n\<lparr>n_mq := s\<rparr>)"
  using assms services_ok_views [OF node_invD(5) [OF assms(1)] assms(3)] by (simp add: node_inv_def)

lemma handle_grab_total:
  assumes "node_inv n"
  shows "handle_grab h n = Some (case service n h of
      None \<Rightarrow> (None, n)
    | Some c \<Rightarrow> (Some c, ctx_put c ((the (n_ctx n c))\<lparr>cx_ref := cx_ref (the (n_ctx n c)) + 1\<rparr>) n))"
proof (cases "service n h")
  case None
  then show ?thesis using grab_total [OF node_invD(2) [OF assms], of h]
    by (simp add: handle_grab_def service_def)
next
  case (Some c)
  obtain x where "n_ctx n c = Some x" using service_obtain [OF assms Some] by metis
  then show ?thesis using grab_total [OF node_invD(2) [OF assms], of h] Some
    by (simp add: handle_grab_def service_def skynet_context_grab_def ctx_get_def)
qed

text \<open>What a push does: it appends to the queue of the service, and nothing else changes.\<close>

lemma context_push_total:
  assumes inv: "node_inv n"
  shows "service n h = None \<Longrightarrow> skynet_context_push M h m n = Some (- 1, n)"
    and "service n h = Some c \<Longrightarrow> \<exists>x v s. n_ctx n c = Some x \<and> views (n_mq n) (cx_queue x) = Some v
      \<and> skynet_context_push M h m n = Some (0, n\<lparr>n_mq := s\<rparr>)
      \<and> views s = (views (n_mq n))(cx_queue x \<mapsto> v\<lparr>v_in_global := True, v_msgs := v_msgs v @ [m]\<rparr>)
      \<and> node_inv (n\<lparr>n_mq := s\<rparr>) \<and> skynet_mq_push (cx_queue x) m (n_mq n) = Some s"
proof -
  assume "service n h = None"
  then show "skynet_context_push M h m n = Some (- 1, n)"
    by (simp add: skynet_context_push_def handle_grab_total [OF inv])
next
  assume c: "service n h = Some c"
  obtain x v where x: "n_ctx n c = Some x" "1 \<le> cx_ref x" "views (n_mq n) (cx_queue x) = Some v"
    using service_obtain [OF inv c] by metis
  from mq_ok_push [OF node_invD(4) [OF inv] x(3), of m] obtain s where
    s: "skynet_mq_push (cx_queue x) m (n_mq n) = Some s" "mq_ok s"
      "views s = (views (n_mq n))(cx_queue x \<mapsto> v\<lparr>v_in_global := True, v_msgs := v_msgs v @ [m]\<rparr>)" by blast
  have same: "(n_ctx n)(c \<mapsto> x) = n_ctx n" using x(1) by auto
  have "skynet_context_push M h m n = Some (0, n\<lparr>n_mq := s\<rparr>)"
    using x s(1) c same by (simp add: skynet_context_push_def handle_grab_total [OF inv] ctx_get_def ctx_put_def
      skynet_context_release_def)
  moreover have "node_inv (n\<lparr>n_mq := s\<rparr>)" by (rule node_inv_mq [OF inv s(2)]) (simp add: s(3) split: if_splits)
  ultimately show "\<exists>x v s. n_ctx n c = Some x \<and> views (n_mq n) (cx_queue x) = Some v
      \<and> skynet_context_push M h m n = Some (0, n\<lparr>n_mq := s\<rparr>)
      \<and> views s = (views (n_mq n))(cx_queue x \<mapsto> v\<lparr>v_in_global := True, v_msgs := v_msgs v @ [m]\<rparr>)
      \<and> node_inv (n\<lparr>n_mq := s\<rparr>) \<and> skynet_mq_push (cx_queue x) m (n_mq n) = Some s" using x s(1,3) by blast
qed

lemma isremote_local:
  assumes "node_inv n"
  shows "skynet_harbor_message_isremote n h = Some (h AND NOT HANDLE_MASK \<noteq> n_harbor n \<and> h AND NOT HANDLE_MASK \<noteq> 0)"
proof -
  have "n_harbor n AND HANDLE_MASK = 0"
    using node_invD(2,6) [OF assms] by (simp add: slots_inv_def)
  then have "n_harbor n \<noteq> - 1" by (auto simp: HANDLE_MASK_def)
  then show ?thesis by (simp add: skynet_harbor_message_isremote_def Let_def)
qed

lemma service_not_remote:
  assumes "node_inv n" "service n h = Some c"
  shows "skynet_harbor_message_isremote n h = Some False" "h \<noteq> 0"
proof -
  obtain k where k: "slots_at k (skynet_context_handle n) (n_handles n)"
    using node_invD(2) [OF assms(1)] by (auto simp: slots_inv_def)
  have "c \<in> members (n_handles n)" "skynet_context_handle n c = h"
    using assms(2) by (simp_all add: service_def handle_table_iff [OF k])
  then have "local_handle (n_handles n) h" using slots_atD(5) [OF k mod_less_divisor [OF zero_less_power], of _ c]
    by (auto simp: mem_members [OF k])
  then show "skynet_harbor_message_isremote n h = Some False" "h \<noteq> 0"
    using node_invD(6) [OF assms(1)] by (auto simp: isremote_local [OF assms(1)] local_handle_def)
qed

text \<open>What a log line may change: new blocks, and messages at the end of the logger's queue.\<close>

definition log_step :: "node \<Rightarrow> node \<Rightarrow> bool" where
  "log_step n n' \<longleftrightarrow> node_inv n' \<and> n_ctx n' = n_ctx n \<and> n_handles n' = n_handles n \<and> n_remote n' = n_remote n
     \<and> (\<forall>a. n_mem n a \<noteq> None \<longrightarrow> n_mem n' a = n_mem n a) \<and> n_mem_fresh n \<le> n_mem_fresh n'
     \<and> (\<forall>p v. views (n_mq n) p = Some v \<longrightarrow> views (n_mq n') p = Some v
        \<or> (\<exists>c x v'. service n (n_logger n') = Some c \<and> n_ctx n c = Some x \<and> cx_queue x = p
            \<and> views (n_mq n') p = Some v' \<and> butlast (v_msgs v') = v_msgs v))"

lemma log_step_refl: "node_inv n \<Longrightarrow> log_step n n"
  by (simp add: log_step_def)

lemma node_inv_malloc:
  assumes "node_inv n"
  shows "skynet_malloc b n = (n_mem_fresh n,
      n\<lparr>n_mem := (n_mem n)(n_mem_fresh n \<mapsto> b), n_mem_fresh := n_mem_fresh n + 1\<rparr>)"
    "node_inv (n\<lparr>n_mem := (n_mem n)(n_mem_fresh n \<mapsto> b), n_mem_fresh := n_mem_fresh n + 1\<rparr>)"
    "n_mem n (n_mem_fresh n) = None"
proof -
  show "n_mem n (n_mem_fresh n) = None" using node_invD(7) [OF assms, of "n_mem_fresh n"] by (cases "n_mem n (n_mem_fresh n)") auto
  show "node_inv (n\<lparr>n_mem := (n_mem n)(n_mem_fresh n \<mapsto> b), n_mem_fresh := n_mem_fresh n + 1\<rparr>)"
    using assms node_invD(7) [OF assms] by (auto simp: node_inv_def services_ok_def less_Suc_eq)
qed (simp add: skynet_malloc_def)

lemma node_inv_logger: "node_inv n \<Longrightarrow> node_inv (n\<lparr>n_logger := h\<rparr>)"
  by (simp add: node_inv_def services_ok_def)

lemma service_upd [simp]:
  "service (n\<lparr>n_mq := s\<rparr>) = service n" "service (n\<lparr>n_mem := m\<rparr>) = service n"
  "service (n\<lparr>n_mem_fresh := k\<rparr>) = service n" "service (n\<lparr>n_logger := h\<rparr>) = service n"
  by (simp_all add: service_def fun_eq_iff)

lemma skynet_error_total:
  assumes inv: "node_inv n"
  shows "\<exists>n'. skynet_error M context msg n = Some n' \<and> log_step n n'"
proof -
  have "\<exists>h. (if n_logger n = 0 then do {
         h \<leftarrow> skynet_handle_findname ''logger'' (n_handles n);
         Some (n\<lparr>n_logger := h\<rparr>)
       } else Some n) = Some (n\<lparr>n_logger := h\<rparr>)"
    using findname_correct [OF node_invD(3) [OF inv]] by (cases "n_logger n = 0") (auto intro: exI [of _ "n_logger n"])
  then obtain h where h: "(if n_logger n = 0 then do {
         h \<leftarrow> skynet_handle_findname ''logger'' (n_handles n);
         Some (n\<lparr>n_logger := h\<rparr>)
       } else Some n) = Some (n\<lparr>n_logger := h\<rparr>)" ..
  define n1 where "n1 = n\<lparr>n_logger := h\<rparr>"
  have inv1: "node_inv n1" unfolding n1_def by (rule node_inv_logger [OF inv])
  show ?thesis
  proof (cases "h = 0")
    case True
    then show ?thesis using h inv1 by (auto simp: skynet_error_def n1_def log_step_def)
  next
    case False
    define n2 where "n2 = n1\<lparr>n_mem := (n_mem n1)(n_mem_fresh n1 \<mapsto> Bytes (line_buffer msg)), n_mem_fresh := n_mem_fresh n1 + 1\<rparr>"
    define m where "m = \<lparr>msg_source = (case context of None \<Rightarrow> 0 | Some c \<Rightarrow> skynet_context_handle n2 c), msg_session = 0,
      msg_data = Some (n_mem_fresh n1), msg_sz = word_of_nat (length msg) OR push_bit MESSAGE_TYPE_SHIFT (ucast PTYPE_TEXT)\<rparr>"
    have inv2: "node_inv n2" unfolding n2_def by (rule node_inv_malloc(2) [OF inv1])
    have run: "skynet_error M context msg n = map_option snd (skynet_context_push M h m n2)"
      using h False node_inv_malloc(1) [OF inv1, of "Bytes (line_buffer msg)"]
      by (simp add: skynet_error_def n1_def [symmetric] n2_def [symmetric] m_def Let_def)
        (simp add: n2_def n1_def map_option_case split_beta split: option.splits prod.splits)
    have base: "log_step n n2" using inv2 node_inv_malloc(3) [OF inv1]
      by (auto simp: log_step_def n2_def n1_def)
    have sv: "service n2 h = service n h" "n_ctx n2 = n_ctx n" "n_mq n2 = n_mq n" by (simp_all add: n2_def n1_def)
    show ?thesis
    proof (cases "service n h")
      case None
      then have "skynet_context_push M h m n2 = Some (- 1, n2)" using context_push_total(1) [OF inv2] sv by simp
      then show ?thesis using run base by simp
    next
      case (Some c)
      with context_push_total(2) [OF inv2, of h c M m] sv obtain x v s where
        s: "n_ctx n c = Some x" "views (n_mq n) (cx_queue x) = Some v"
          "skynet_context_push M h m n2 = Some (0, n2\<lparr>n_mq := s\<rparr>)"
          "views s = (views (n_mq n))(cx_queue x \<mapsto> v\<lparr>v_in_global := True, v_msgs := v_msgs v @ [m]\<rparr>)"
          "node_inv (n2\<lparr>n_mq := s\<rparr>)" by auto
      have lg: "n_logger (n2\<lparr>n_mq := s\<rparr>) = h" by (simp add: n2_def n1_def)
      have "log_step n (n2\<lparr>n_mq := s\<rparr>)" using base s Some lg unfolding log_step_def by auto
      with run s(3) show ?thesis by simp
    qed
  qed
qed

section \<open>Sending\<close>

text \<open>The payload that a send works with: the block of the caller, or a copy with a zero behind it.\<close>

definition handed :: "u32 \<Rightarrow> u64 \<Rightarrow> bytes \<Rightarrow> nat \<Rightarrow> node \<Rightarrow> nat \<times> node" where
  "handed t sz bs a n = (if t AND PTYPE_TAG_DONTCOPY \<noteq> 0 then (a, n)
     else skynet_malloc (Bytes (take (unat sz) bs @ [0])) n)"

definition typed_size :: "u32 \<Rightarrow> u64 \<Rightarrow> u64" where
  "typed_size t sz = sz OR push_bit MESSAGE_TYPE_SHIFT (ucast (t AND 0xff))"

lemma typed_size_decodes:
  assumes "sz AND MESSAGE_TYPE_MASK = sz"
  shows "typed_size t sz AND MESSAGE_TYPE_MASK = sz"
    "ucast (drop_bit MESSAGE_TYPE_SHIFT (typed_size t sz)) = (t AND 0xff :: u32)"
proof -
  have sz: "bit sz i \<Longrightarrow> i < 56" for i
    using assms unfolding MESSAGE_TYPE_MASK_def by (metis bit_and_iff bit_mask_iff)
  have ff: "t AND 0xff = take_bit 8 t" by (simp add: take_bit_eq_mask mask_eq_exp_minus_1)
  show "typed_size t sz AND MESSAGE_TYPE_MASK = sz"
    using sz by (intro bit_eqI) (auto simp: typed_size_def MESSAGE_TYPE_MASK_def MESSAGE_TYPE_SHIFT_def bit_simps)
  show "ucast (drop_bit MESSAGE_TYPE_SHIFT (typed_size t sz)) = (t AND 0xff :: u32)"
  proof (rule bit_eqI)
    fix i assume "possible_bit TYPE(u32) i"
    then have i: "i < 32" by simp
    have "\<not> bit sz (56 + i)" using sz [of "56 + i"] by auto
    then show "bit (ucast (drop_bit MESSAGE_TYPE_SHIFT (typed_size t sz)) :: u32) i \<longleftrightarrow> bit (t AND 0xff) i"
      using i unfolding typed_size_def MESSAGE_TYPE_SHIFT_def ff by (auto simp: bit_simps)
  qed
qed

lemma filter_args_handed:
  assumes "t AND PTYPE_TAG_ALLOCSESSION = 0" "n_mem n a = Some (Bytes bs)" "unat sz \<le> length bs"
  shows "filter_args context t session (Some a) sz n
    = (case handed t sz bs a n of (a', n1) \<Rightarrow> Some (session, Some a', typed_size t sz, n1))"
  using assms by (auto simp: filter_args_def handed_def typed_size_def Let_def split_beta)

lemma handed_facts:
  assumes "node_inv n" "n_mem n a = Some (Bytes bs)" "handed t sz bs a n = (a', n1)"
  shows "node_inv n1" "service n1 = service n" "n_ctx n1 = n_ctx n" "n_mq n1 = n_mq n" "n_handles n1 = n_handles n"
    "t AND PTYPE_TAG_DONTCOPY \<noteq> 0 \<Longrightarrow> a' = a \<and> n1 = n"
    "t AND PTYPE_TAG_DONTCOPY = 0 \<Longrightarrow> n_mem n a' = None \<and> n_mem n1 = (n_mem n)(a' \<mapsto> Bytes (take (unat sz) bs @ [0]))"
    "n_mem n1 a' \<noteq> None"
  using assms node_inv_malloc [OF assms(1)]
  by (auto simp: handed_def split: if_splits)

lemma node_inv_free: "node_inv n \<Longrightarrow> node_inv (n\<lparr>n_mem := (n_mem n)(a := None)\<rparr>)"
  by (auto simp: node_inv_def services_ok_def)

lemma skynet_free_Some: "n_mem n a \<noteq> None \<Longrightarrow> skynet_free (Some a) n = Some (n\<lparr>n_mem := (n_mem n)(a := None)\<rparr>)"
  by (auto simp: skynet_free_def)

lemma newsession_positive_lemma:
  assumes "skynet_context_newsession c n = Some (s, n')"
  shows "0 < sint s" "skynet_context_newsession c n' \<noteq> None"
    "\<exists>x. n_ctx n c = Some x \<and> n' = ctx_put c (x\<lparr>cx_session_id := s\<rparr>) n"
  using assms by (auto simp: skynet_context_newsession_def ctx_get_def ctx_put_def Let_def split: option.splits bind_splits if_splits)

text \<open>A node with one service, for the examples.\<close>

definition demo_context :: skynet_context where
  "demo_context = (new_context 0 0 False)\<lparr>cx_cb := Some 0, cx_handle := 0x01000001, cx_ref := 1, cx_init := True\<rparr>"

definition demo_node :: node where
  "demo_node = \<lparr>n_total = 1, n_monitor_exit = 0, n_profile = False, n_current = 0, n_ctx = [7 \<mapsto> demo_context],
     n_ctx_fresh = 8, n_handles = demo_storage, n_mq = snd (skynet_mq_create 0x01000001 skynet_mq_init),
     n_timer = timer_create_timer, n_mem = [0 \<mapsto> Bytes [104, 105]], n_mem_fresh = 1, n_harbor = 0x01000000,
     n_remote = None, n_logger = 0, n_env = Map.empty\<rparr>"

definition demo_modules :: modules where
  "demo_modules = \<lparr>md_query = \<lambda>_. None, md_create = \<lambda>_. None, md_init = \<lambda>_ _ _ _ n. Some (0, n),
     md_release = \<lambda>_ _ n. Some n, md_signal = \<lambda>_ _ _ n. Some n, md_cb = \<lambda>_ _ _ _ _ _ _ n. Some (False, n),
     md_time = \<lambda>_. 0, md_fopen = \<lambda>_. False, md_ctime = \<lambda>_. []\<rparr>"

lemma demo_queue:
  "views (n_mq demo_node) = [0 \<mapsto> \<lparr>v_in_global = True, v_release = False, v_handle = 0x01000001, v_msgs = []\<rparr>]"
  "mq_ok (n_mq demo_node)"
proof -
  from skynet_mq_create_correct [OF skynet_mq_init_inv, of "0x01000001"] obtain s' where
    s': "skynet_mq_create 0x01000001 skynet_mq_init = (0, s')" "gq_inv s' []"
      "views s' = [0 \<mapsto> \<lparr>v_in_global = True, v_release = False, v_handle = 0x01000001, v_msgs = []\<rparr>]"
    by (auto simp: skynet_mq_init_def views_def)
  then show "views (n_mq demo_node) = [0 \<mapsto> \<lparr>v_in_global = True, v_release = False, v_handle = 0x01000001, v_msgs = []\<rparr>]"
    by (simp add: demo_node_def)
  show "mq_ok (n_mq demo_node)" using s'(1,2) by (auto simp: mq_ok_def demo_node_def)
qed

lemma demo_node_inv: "node_inv demo_node" "service demo_node 0x01000001 = Some 7"
proof -
  let ?ch = "skynet_context_handle demo_node"
  have hd: "n_handles demo_node = demo_storage" and ctx: "n_ctx demo_node = [7 \<mapsto> demo_context]"
    by (simp_all add: demo_node_def)
  have ch: "?ch 7 = 0x01000001" by (simp add: skynet_context_handle_def ctx demo_context_def)
  have "slots_at 2 ?ch demo_storage"
    by (auto simp: slots_at_def slot_size_def local_handle_def demo_storage_def ch HANDLE_MASK_def
        nth_Cons split: nat.splits)
  then have "handle_inv ?ch demo_storage"
    by (auto simp: handle_inv_def slots_inv_def names_inv_def names_shape_def entries_def demo_storage_def
        HANDLE_MASK_def)
  moreover have "services_ok demo_node"
    by (auto simp: services_ok_def hd ctx members_def demo_storage_def demo_queue(1) demo_context_def new_context_def)
  ultimately show "node_inv demo_node" using demo_queue(2) unfolding node_inv_def hd
    by (auto simp: demo_node_def demo_storage_def)
  show "service demo_node 0x01000001 = Some 7"
    by (simp add: service_def handle_table_def skynet_handle_grab_def hd demo_storage_def ch slot_size_def slot_hash_def)
qed

section \<open>Dropping the messages of a released queue\<close>

text \<open>A queue that is linked nowhere, as a worker has it in its hands.\<close>

definition held :: "nat \<Rightarrow> mq_store \<Rightarrow> bool" where
  "held q s \<longleftrightarrow> (\<exists>xs. gq_inv s xs \<and> q \<notin> set xs
     \<and> (\<forall>p v. views s p = Some v \<longrightarrow> \<not> v_in_global v \<longrightarrow> p \<notin> set xs))"

lemma held_ok: "held q s \<Longrightarrow> mq_ok s"
  by (auto simp: held_def mq_ok_def)

lemma held_push:
  assumes "held q s" "views s p = Some v" "p \<noteq> q"
  shows "\<exists>s'. skynet_mq_push p m s = Some s' \<and> held q s'
    \<and> views s' = (views s)(p \<mapsto> v\<lparr>v_in_global := True, v_msgs := v_msgs v @ [m]\<rparr>)"
proof -
  from assms(1) obtain xs where xs: "gq_inv s xs" "q \<notin> set xs"
    "\<forall>p v. views s p = Some v \<longrightarrow> \<not> v_in_global v \<longrightarrow> p \<notin> set xs" by (auto simp: held_def)
  then have "\<not> v_in_global v \<Longrightarrow> p \<notin> set xs" using assms(2) by blast
  from skynet_mq_push_correct [OF xs(1) assms(2) this, of m] obtain s' where
    s': "skynet_mq_push p m s = Some s'" "gq_inv s' (if v_in_global v then xs else xs @ [p])"
    "views s' = (views s)(p \<mapsto> v\<lparr>v_in_global := True, v_msgs := v_msgs v @ [m]\<rparr>)" by blast
  have "held q s'" unfolding held_def using s'(2,3) xs assms(3)
    by (intro exI [of _ "if v_in_global v then xs else xs @ [p]"] conjI) (auto split: if_splits)
  with s' show ?thesis by blast
qed

lemma held_pop:
  assumes "held q s" "views s q = Some v" "v_msgs v = m # ms"
  shows "\<exists>s'. skynet_mq_pop q s = Some (Some m, s') \<and> held q s' \<and> views s' = (views s)(q \<mapsto> v\<lparr>v_msgs := ms\<rparr>)"
proof -
  from assms(1) obtain xs where xs: "gq_inv s xs" "q \<notin> set xs"
    "\<forall>p v. views s p = Some v \<longrightarrow> \<not> v_in_global v \<longrightarrow> p \<notin> set xs" by (auto simp: held_def)
  from skynet_mq_pop_correct [OF xs(1) assms(2)] assms(3) obtain s' where
    s': "skynet_mq_pop q s = Some (Some m, s')" "gq_inv s' xs" "views s' = (views s)(q \<mapsto> v\<lparr>v_msgs := ms\<rparr>)" by auto
  have "held q s'" unfolding held_def using s'(2,3) xs by (intro exI conjI) (auto split: if_splits)
  with s' show ?thesis by blast
qed

lemma held_finish:
  assumes "held q s" "views s q = Some v" "v_msgs v = []"
  shows "\<exists>s1 s2. skynet_mq_pop q s = Some (None, s1) \<and> mq_free q s1 = Some s2 \<and> mq_ok s2 \<and> views s2 = (views s)(q := None)"
proof -
  from assms(1) obtain xs where xs: "gq_inv s xs" "q \<notin> set xs"
    "\<forall>p v. views s p = Some v \<longrightarrow> \<not> v_in_global v \<longrightarrow> p \<notin> set xs" by (auto simp: held_def)
  from skynet_mq_pop_correct [OF xs(1) assms(2)] assms(3) obtain s1 where
    s1: "skynet_mq_pop q s = Some (None, s1)" "gq_inv s1 xs" "views s1 = (views s)(q \<mapsto> v\<lparr>v_in_global := False\<rparr>)" by auto
  from mq_free_correct [OF s1(2) _ xs(2)] s1(3) obtain s2 where
    s2: "mq_free q s1 = Some s2" "gq_inv s2 xs" "views s2 = (views s)(q := None)" by auto
  have "mq_ok s2" unfolding mq_ok_def using s2(2,3) xs(3) by (intro exI conjI) (auto split: if_splits)
  with s1(1) s2 show ?thesis by blast
qed

text \<open>The queue of the service behind a handle, and the message that reports a lost one.\<close>

definition queue_of :: "node \<Rightarrow> u32 \<Rightarrow> ptr" where
  "queue_of n h = (case service n h of None \<Rightarrow> None | Some c \<Rightarrow> map_option cx_queue (n_ctx n c))"

definition error_message :: "u32 \<Rightarrow> skynet_message" where
  "error_message h = \<lparr>msg_source = h, msg_session = 0, msg_data = None, msg_sz = typed_size PTYPE_ERROR 0\<rparr>"

definition local_address :: "node \<Rightarrow> u32 \<Rightarrow> bool" where
  "local_address n h \<longleftrightarrow> h AND NOT HANDLE_MASK = 0 \<or> h AND NOT HANDLE_MASK = n_harbor n"

text \<open>The messages of each queue after \<open>k p\<close> error messages from \<open>h\<close> were added to queue \<open>p\<close>.\<close>

definition errors_added :: "u32 \<Rightarrow> (nat \<Rightarrow> nat) \<Rightarrow> nat \<Rightarrow> node \<Rightarrow> node \<Rightarrow> bool" where
  "errors_added h k q n n' \<longleftrightarrow> (\<forall>p. p \<noteq> q \<longrightarrow> map_option v_msgs (views (n_mq n') p)
     = map_option (\<lambda>v. v_msgs v @ replicate (k p) (error_message h)) (views (n_mq n) p))"

lemma queue_of_upd [simp]:
  "queue_of (n\<lparr>n_mq := s\<rparr>) = queue_of n" "queue_of (n\<lparr>n_mem := m\<rparr>) = queue_of n"
  by (simp_all add: queue_of_def fun_eq_iff split: option.split)

lemma send_error_total:
  assumes inv: "node_inv n" "held q (n_mq n)" and h: "h \<noteq> 0" and d: "local_address n d" and q: "queue_of n d \<noteq> Some q"
  shows "\<exists>r s. skynet_send M None h d PTYPE_ERROR 0 None 0 n = Some (r, n\<lparr>n_mq := s\<rparr>)
    \<and> node_inv (n\<lparr>n_mq := s\<rparr>) \<and> held q s \<and> views s q = views (n_mq n) q
    \<and> errors_added h (\<lambda>p. if queue_of n d = Some p then 1 else 0) q n (n\<lparr>n_mq := s\<rparr>)"
proof -
  have fa: "filter_args None PTYPE_ERROR 0 None 0 n = Some (0, None, typed_size PTYPE_ERROR 0, n)"
    by (simp add: filter_args_def typed_size_def PTYPE_ERROR_def PTYPE_TAG_ALLOCSESSION_def PTYPE_TAG_DONTCOPY_def)
  show ?thesis
  proof (cases "service n d")
    case None
    have "d \<noteq> 0 \<Longrightarrow> skynet_harbor_message_isremote n d = Some False"
      using d by (auto simp: isremote_local [OF inv(1)] local_address_def)
    then have "\<exists>r. skynet_send M None h d PTYPE_ERROR 0 None 0 n = Some (r, n)"
      using None h by (cases "d = 0") (simp_all add: skynet_send_def fa context_push_total(1) [OF inv(1)] skynet_free_def)
    then obtain r where r: "skynet_send M None h d PTYPE_ERROR 0 None 0 n = Some (r, n\<lparr>n_mq := n_mq n\<rparr>)" by auto
    have "errors_added h (\<lambda>p. if queue_of n d = Some p then 1 else 0) q n (n\<lparr>n_mq := n_mq n\<rparr>)"
      using None by (simp add: errors_added_def queue_of_def)
    then show ?thesis using inv r by (intro exI conjI) auto
  next
    case (Some c)
    note L = service_not_remote [OF inv(1) Some]
    from context_push_total(2) [OF inv(1) Some, of M "error_message h"] obtain x v s where
      s: "n_ctx n c = Some x" "views (n_mq n) (cx_queue x) = Some v"
        "skynet_context_push M d (error_message h) n = Some (0, n\<lparr>n_mq := s\<rparr>)"
        "views s = (views (n_mq n))(cx_queue x \<mapsto> v\<lparr>v_in_global := True, v_msgs := v_msgs v @ [error_message h]\<rparr>)"
        "node_inv (n\<lparr>n_mq := s\<rparr>)" "skynet_mq_push (cx_queue x) (error_message h) (n_mq n) = Some s" by blast
    have qo: "queue_of n d = Some (cx_queue x)" using Some s(1) by (simp add: queue_of_def)
    have ne: "cx_queue x \<noteq> q" using q qo by simp
    have "held q s" using held_push [OF inv(2) s(2) ne, of "error_message h"] s(6) by auto
    moreover have "skynet_send M None h d PTYPE_ERROR 0 None 0 n = Some (0, n\<lparr>n_mq := s\<rparr>)"
      using L s(3) h by (simp add: skynet_send_def fa error_message_def)
    moreover have "errors_added h (\<lambda>p. if queue_of n d = Some p then 1 else 0) q n (n\<lparr>n_mq := s\<rparr>)"
      using s(2,4) qo by (auto simp: errors_added_def option.map_ident)
    ultimately show ?thesis using s(4,5) ne by auto
  qed
qed

text \<open>The payloads of messages, and the number of messages from the service with queue \<open>p\<close>.\<close>

definition payloads :: "skynet_message list \<Rightarrow> nat list" where
  "payloads ms = List.map_filter msg_data ms"

definition sent_from :: "node \<Rightarrow> skynet_message list \<Rightarrow> nat \<Rightarrow> nat" where
  "sent_from n ms p = length (filter (\<lambda>m. queue_of n (msg_source m) = Some p) ms)"

lemma payloads_Cons: "payloads (m # ms) = (case msg_data m of None \<Rightarrow> payloads ms | Some a \<Rightarrow> a # payloads ms)"
  by (auto simp: payloads_def List.map_filter_def split: option.splits)

lemma errors_added_trans:
  assumes "errors_added h k1 q n n1" "errors_added h k2 q n1 n2"
  shows "errors_added h (\<lambda>p. k1 p + k2 p) q n n2"
  unfolding errors_added_def
proof (intro allI impI)
  fix p assume p: "p \<noteq> q"
  from assms p have "map_option v_msgs (views (n_mq n1) p)
      = map_option (\<lambda>v. v_msgs v @ replicate (k1 p) (error_message h)) (views (n_mq n) p)"
    "map_option v_msgs (views (n_mq n2) p)
      = map_option (\<lambda>v. v_msgs v @ replicate (k2 p) (error_message h)) (views (n_mq n1) p)"
    by (simp_all add: errors_added_def)
  then show "map_option v_msgs (views (n_mq n2) p)
      = map_option (\<lambda>v. v_msgs v @ replicate (k1 p + k2 p) (error_message h)) (views (n_mq n) p)"
    by (cases "views (n_mq n) p"; cases "views (n_mq n1) p") (auto simp: replicate_add)
qed

lemma no_service_on:
  assumes inv: "node_inv n" and q: "\<And>d. queue_of n d \<noteq> Some q" and c: "c \<in> members (n_handles n)" "n_ctx n c = Some x"
  shows "cx_queue x \<noteq> q"
proof -
  obtain k where k: "slots_at k (skynet_context_handle n) (n_handles n)"
    using node_invD(2) [OF inv] by (auto simp: slots_inv_def)
  have "service n (skynet_context_handle n c) = Some c" using c(1) by (simp add: service_def handle_table_iff [OF k])
  then show ?thesis using q [of "skynet_context_handle n c"] c(2) by (simp add: queue_of_def)
qed

lemma drop_message_total:
  assumes inv: "node_inv n" "held q (n_mq n)" and h: "h \<noteq> 0" and d: "local_address n (msg_source m)"
    and q: "queue_of n (msg_source m) \<noteq> Some q" and pay: "\<And>a. msg_data m = Some a \<Longrightarrow> n_mem n a \<noteq> None"
  shows "\<exists>s. drop_message M h m n = Some (n\<lparr>n_mem := n_mem n |` (- set_option (msg_data m)), n_mq := s\<rparr>)
    \<and> node_inv (n\<lparr>n_mem := n_mem n |` (- set_option (msg_data m)), n_mq := s\<rparr>) \<and> held q s \<and> views s q = views (n_mq n) q
    \<and> errors_added h (\<lambda>p. if queue_of n (msg_source m) = Some p then 1 else 0) q n (n\<lparr>n_mq := s\<rparr>)"
proof -
  define n1 where "n1 = n\<lparr>n_mem := n_mem n |` (- set_option (msg_data m))\<rparr>"
  have "(n_mem n)(a := None) = n_mem n |` (- {a})" "n_mem n |` UNIV = n_mem n" for a by (auto simp: restrict_map_def)
  then have free: "skynet_free (msg_data m) n = Some n1"
    using pay by (cases "msg_data m") (auto simp: n1_def skynet_free_def)
  have inv1: "node_inv n1" using inv(1) by (auto simp: n1_def node_inv_def services_ok_def restrict_map_def)
  have h1: "held q (n_mq n1)" "local_address n1 (msg_source m)" "queue_of n1 = queue_of n"
    using inv(2) d by (simp_all add: n1_def local_address_def)
  from send_error_total [OF inv1 h1(1) h h1(2), of M] q obtain r s where
    "skynet_send M None h (msg_source m) PTYPE_ERROR 0 None 0 n1 = Some (r, n1\<lparr>n_mq := s\<rparr>)"
    "node_inv (n1\<lparr>n_mq := s\<rparr>)" "held q s" "views s q = views (n_mq n1) q"
    "errors_added h (\<lambda>p. if queue_of n1 (msg_source m) = Some p then 1 else 0) q n1 (n1\<lparr>n_mq := s\<rparr>)"
    by (auto simp: h1(3))
  then show ?thesis using h free by (intro exI [of _ s]) (simp add: drop_message_def n1_def errors_added_def)
qed

lemma drop_queue_total:
  assumes "node_inv n" "held q (n_mq n)" "views (n_mq n) q = Some v" "v_msgs v = ms" "h \<noteq> 0"
    "\<And>m. m \<in> set ms \<Longrightarrow> local_address n (msg_source m)" "\<And>d. queue_of n d \<noteq> Some q"
    "distinct (payloads ms)" "\<And>a. a \<in> set (payloads ms) \<Longrightarrow> n_mem n a \<noteq> None"
  shows "\<exists>n'. drop_queue M q h n = Some n' \<and> node_inv n' \<and> views (n_mq n') q = None
    \<and> n_mem n' = n_mem n |` (- set (payloads ms)) \<and> errors_added h (sent_from n ms) q n n'"
  using assms
proof (induction ms arbitrary: n v)
  case Nil
  from held_finish [OF Nil.prems(2-4)] obtain s1 s2 where
    s: "skynet_mq_pop q (n_mq n) = Some (None, s1)" "mq_free q s1 = Some s2" "mq_ok s2" "views s2 = (views (n_mq n))(q := None)"
    by blast
  have run: "drop_queue M q h n = Some (n\<lparr>n_mq := s2\<rparr>)" using s(1,2) by (subst drop_queue.simps) simp
  have "services_ok (n\<lparr>n_mq := s2\<rparr>)" unfolding services_ok_def
  proof
    fix c assume c: "c \<in> members (n_handles (n\<lparr>n_mq := s2\<rparr>))"
    then obtain x v where x: "n_ctx n c = Some x" "1 \<le> cx_ref x" "views (n_mq n) (cx_queue x) = Some v"
      using node_invD(5) [OF Nil.prems(1)] unfolding services_ok_def by auto
    have "cx_queue x \<noteq> q" using no_service_on [OF Nil.prems(1,7) _ x(1)] c by simp
    then show "\<exists>x v. n_ctx (n\<lparr>n_mq := s2\<rparr>) c = Some x \<and> 1 \<le> cx_ref x
        \<and> views (n_mq (n\<lparr>n_mq := s2\<rparr>)) (cx_queue x) = Some v" using x s(4) by simp
  qed
  then have "node_inv (n\<lparr>n_mq := s2\<rparr>)" using Nil.prems(1) s(3) by (simp add: node_inv_def)
  then show ?case using run s(4) by (simp add: payloads_def List.map_filter_def sent_from_def errors_added_def)
next
  case (Cons m ms)
  from held_pop [OF Cons.prems(2-4)] obtain s where
    s: "skynet_mq_pop q (n_mq n) = Some (Some m, s)" "held q s" "views s = (views (n_mq n))(q \<mapsto> v\<lparr>v_msgs := ms\<rparr>)" by blast
  define n1 where "n1 = n\<lparr>n_mq := s\<rparr>"
  have inv1: "node_inv n1" unfolding n1_def
    by (rule node_inv_mq [OF Cons.prems(1) held_ok [OF s(2)]]) (simp add: s(3) split: if_splits)
  have f1: "held q (n_mq n1)" "local_address n1 = local_address n" "queue_of n1 = queue_of n" "n_mem n1 = n_mem n"
    "views (n_mq n1) = (views (n_mq n))(q \<mapsto> v\<lparr>v_msgs := ms\<rparr>)"
    using s(2,3) by (simp_all add: n1_def local_address_def fun_eq_iff)
  let ?n2 = "\<lambda>s2. n1\<lparr>n_mem := n_mem n |` (- set_option (msg_data m)), n_mq := s2\<rparr>"
  have "\<exists>s2. drop_message M h m n1 = Some (?n2 s2) \<and> node_inv (?n2 s2) \<and> held q s2 \<and> views s2 q = views (n_mq n1) q
    \<and> errors_added h (\<lambda>p. if queue_of n1 (msg_source m) = Some p then 1 else 0) q n1 (n1\<lparr>n_mq := s2\<rparr>)"
    using drop_message_total [OF inv1 f1(1) Cons.prems(5), of m M] Cons.prems(6,7,9)
    by (simp add: f1 payloads_Cons split: option.splits)
  then obtain s2 where
    s2: "drop_message M h m n1 = Some (?n2 s2)" "node_inv (?n2 s2)" "held q s2" "views s2 q = views (n_mq n1) q"
      "errors_added h (\<lambda>p. if queue_of n1 (msg_source m) = Some p then 1 else 0) q n1 (n1\<lparr>n_mq := s2\<rparr>)" by blast
  have qs: "queue_of (?n2 s2) = queue_of n" "local_address (?n2 s2) = local_address n"
    using f1(3) by (simp_all add: n1_def local_address_def fun_eq_iff)
  have pay: "n_mem (?n2 s2) a \<noteq> None" if "a \<in> set (payloads ms)" for a
    using that Cons.prems(8,9) by (auto simp: payloads_Cons restrict_map_def split: option.splits)
  have "\<exists>n'. drop_queue M q h (?n2 s2) = Some n' \<and> node_inv n' \<and> views (n_mq n') q = None
    \<and> n_mem n' = n_mem (?n2 s2) |` (- set (payloads ms)) \<and> errors_added h (sent_from (?n2 s2) ms) q (?n2 s2) n'"
  proof (rule Cons.IH [OF s2(2)])
    show "views (n_mq (?n2 s2)) q = Some (v\<lparr>v_msgs := ms\<rparr>)" using s2(4) f1(5) by simp
    show "distinct (payloads ms)" using Cons.prems(8) by (simp add: payloads_Cons split: option.splits)
  qed (use s2(3) Cons.prems(5-7) pay in \<open>simp_all add: qs f1(3)\<close>)
  then obtain n' where n': "drop_queue M q h (?n2 s2) = Some n'" "node_inv n'" "views (n_mq n') q = None"
    "n_mem n' = n_mem (?n2 s2) |` (- set (payloads ms))" "errors_added h (sent_from (?n2 s2) ms) q (?n2 s2) n'" by blast
  have run: "drop_queue M q h n = Some n'"
    using s(1) s2(1) n'(1) by (subst drop_queue.simps) (simp add: n1_def)
  have "errors_added h (sent_from n (m # ms)) q n n'"
  proof -
    have "errors_added h (\<lambda>p. if queue_of n (msg_source m) = Some p then 1 else 0) q n (?n2 s2)"
      using s2(5) s(3) by (simp add: errors_added_def n1_def f1)
    from errors_added_trans [OF this n'(5)] show ?thesis
      unfolding sent_from_def qs by (simp add: errors_added_def)
  qed
  moreover have "n_mem n' = n_mem n |` (- set (payloads (m # ms)))"
    using n'(4) by (auto simp: payloads_Cons restrict_map_def fun_eq_iff split: option.splits)
  ultimately show ?case using run n'(2,3) by blast
qed

section \<open>Properties\<close>

text \<open>
  Property C6. \<^verbatim>\<open>skynet_send\<close> to a registered local service delivers: it returns the session,
  the queue of the service gets exactly one more message at its end, and no other queue
  changes. The size field decodes to the type byte and the size that were given; the payload
  is the caller's block itself when the message is tagged \<^verbatim>\<open>PTYPE_TAG_DONTCOPY\<close>, and otherwise a
  fresh block with the same bytes and a zero behind them, the caller's block being left alone.
\<close>

theorem send_delivers:
  assumes inv: "node_inv n" and dest: "service n destination = Some c" "n_ctx n c = Some x"
    and v: "views (n_mq n) (cx_queue x) = Some v"
    and args: "source \<noteq> 0" "t AND PTYPE_TAG_ALLOCSESSION = 0" "sz AND MESSAGE_TYPE_MASK = sz"
    and data: "n_mem n a = Some (Bytes bs)" "unat sz \<le> length bs"
  shows "\<exists>n' a' msg. skynet_send M context source destination t session (Some a) sz n = Some (session, n') \<and> node_inv n'
    \<and> views (n_mq n') = (views (n_mq n))(cx_queue x \<mapsto> v\<lparr>v_in_global := True, v_msgs := v_msgs v @ [msg]\<rparr>)
    \<and> msg_source msg = source \<and> msg_session msg = session \<and> msg_data msg = Some a'
    \<and> msg_sz msg AND MESSAGE_TYPE_MASK = sz \<and> ucast (drop_bit MESSAGE_TYPE_SHIFT (msg_sz msg)) = (t AND 0xff :: u32)
    \<and> (if t AND PTYPE_TAG_DONTCOPY \<noteq> 0 then a' = a \<and> n_mem n' = n_mem n
       else n_mem n a' = None \<and> n_mem n' = (n_mem n)(a' \<mapsto> Bytes (take (unat sz) bs @ [0])))"
proof -
  obtain a' n1 where h: "handed t sz bs a n = (a', n1)" by fastforce
  note H = handed_facts [OF inv data(1) h]
  let ?m = "\<lparr>msg_source = source, msg_session = session, msg_data = Some a', msg_sz = typed_size t sz\<rparr>"
  from context_push_total(2) [OF H(1), of destination c M ?m] dest v H(2-4) obtain s where
    s: "skynet_context_push M destination ?m n1 = Some (0, n1\<lparr>n_mq := s\<rparr>)"
      "views s = (views (n_mq n))(cx_queue x \<mapsto> v\<lparr>v_in_global := True, v_msgs := v_msgs v @ [?m]\<rparr>)"
      "node_inv (n1\<lparr>n_mq := s\<rparr>)" by auto
  have "service n1 destination = Some c" using dest H(2) by simp
  note L = service_not_remote [OF H(1) this]
  have run: "skynet_send M context source destination t session (Some a) sz n = Some (session, n1\<lparr>n_mq := s\<rparr>)"
    using args L s(1) by (simp add: skynet_send_def filter_args_handed [OF args(2) data] h)
  show ?thesis
    using s(2,3) H(6,7) typed_size_decodes [OF args(3), of t]
    by (intro exI [of _ "n1\<lparr>n_mq := s\<rparr>"] exI [of _ a'] exI [of _ ?m]) (simp add: run)
qed

theorem send_delivers_witness:
  "\<exists>n' msg. skynet_send demo_modules None 5 0x01000001 PTYPE_TEXT 3 (Some 0) 2 demo_node = Some (3, n')
    \<and> map_option v_msgs (views (n_mq n') 0) = Some [msg] \<and> msg_session msg = 3
    \<and> n_mem n' 0 = Some (Bytes [104, 105])"
proof -
  have x: "n_ctx demo_node 7 = Some demo_context" "cx_queue demo_context = 0" "n_mem demo_node 0 = Some (Bytes [104, 105])"
    by (simp_all add: demo_node_def demo_context_def new_context_def)
  have t: "PTYPE_TEXT AND PTYPE_TAG_ALLOCSESSION = 0" "(2 :: u64) AND MESSAGE_TYPE_MASK = 2"
    by (simp_all add: PTYPE_TEXT_def PTYPE_TAG_ALLOCSESSION_def MESSAGE_TYPE_MASK_def take_bit_eq_mask [symmetric])
  obtain n' a' msg where n': "skynet_send demo_modules None 5 0x01000001 PTYPE_TEXT 3 (Some 0) 2 demo_node = Some (3, n')"
    "map_option v_msgs (views (n_mq n') 0) = Some [msg]" "msg_session msg = 3"
    "n_mem demo_node a' = None \<and> n_mem n' = (n_mem demo_node)(a' \<mapsto> Bytes [104, 105, 0])"
    using send_delivers [OF demo_node_inv x(1), of _ 5 PTYPE_TEXT 2 0 "[104, 105]" demo_modules None 3] t x
    by (auto simp: demo_queue(1) PTYPE_TEXT_def PTYPE_TAG_DONTCOPY_def)
  moreover have "a' \<noteq> 0" using n'(4) x(3) by (cases "a' = 0") auto
  ultimately show ?thesis using x(3) by auto
qed

lemma send_failures:
  assumes inv: "node_inv n" and args: "source \<noteq> 0" "t AND PTYPE_TAG_ALLOCSESSION = 0"
    and data: "n_mem n a = Some (Bytes bs)"
  shows "sz AND MESSAGE_TYPE_MASK = sz \<Longrightarrow> unat sz \<le> length bs \<Longrightarrow> destination \<noteq> 0
    \<Longrightarrow> destination AND NOT HANDLE_MASK \<in> {0, n_harbor n} \<Longrightarrow> service n destination = None
    \<Longrightarrow> \<exists>n'. skynet_send M context source destination t session (Some a) sz n = Some (- 1, n')
      \<and> n_mem n' = (if t AND PTYPE_TAG_DONTCOPY \<noteq> 0 then (n_mem n)(a := None) else n_mem n)
      \<and> n_mq n' = n_mq n \<and> n_ctx n' = n_ctx n \<and> node_inv n'"
    and "sz AND MESSAGE_TYPE_MASK = sz \<Longrightarrow> unat sz \<le> length bs
    \<Longrightarrow> \<exists>n1. log_step (snd (handed t sz bs a n)) n1 \<and> skynet_send M context source 0 t session (Some a) sz n
      = Some (- 1, n1\<lparr>n_mem := (n_mem n1)(fst (handed t sz bs a n) := None)\<rparr>)"
    and "sz AND MESSAGE_TYPE_MASK \<noteq> sz
    \<Longrightarrow> \<exists>n1. log_step n n1 \<and> skynet_send M context source destination t session (Some a) sz n
      = Some (- 2, if t AND PTYPE_TAG_DONTCOPY \<noteq> 0 then n1\<lparr>n_mem := (n_mem n1)(a := None)\<rparr> else n1)"
proof -
  obtain a' n0 where h: "handed t sz bs a n = (a', n0)" by fastforce
  note H = handed_facts [OF inv data h]
  {
    assume sz: "sz AND MESSAGE_TYPE_MASK = sz" "unat sz \<le> length bs"
      and d: "destination \<noteq> 0" "destination AND NOT HANDLE_MASK \<in> {0, n_harbor n}" "service n destination = None"
    have "n_harbor n0 = n_harbor n" using H(5) node_invD(6) [OF inv] node_invD(6) [OF H(1)] by simp
    then have "skynet_harbor_message_isremote n0 destination = Some False" using d(2) by (auto simp: isremote_local [OF H(1)])
    then have "skynet_send M context source destination t session (Some a) sz n
        = Some (- 1, n0\<lparr>n_mem := (n_mem n0)(a' := None)\<rparr>)"
      using args sz d H(2,8) by (simp add: skynet_send_def filter_args_handed [OF args(2) data sz(2)] h
        context_push_total(1) [OF H(1)] skynet_free_Some)
    then show "\<exists>n'. skynet_send M context source destination t session (Some a) sz n = Some (- 1, n')
      \<and> n_mem n' = (if t AND PTYPE_TAG_DONTCOPY \<noteq> 0 then (n_mem n)(a := None) else n_mem n)
      \<and> n_mq n' = n_mq n \<and> n_ctx n' = n_ctx n \<and> node_inv n'"
      using H(3,4,6,7) node_inv_free [OF H(1), of a'] by (auto simp: fun_upd_idem)
  next
    assume sz: "sz AND MESSAGE_TYPE_MASK = sz" "unat sz \<le> length bs"
    obtain n1 where n1: "skynet_error M context ''Destination address can't be 0'' n0 = Some n1" "log_step n0 n1"
      using skynet_error_total [OF H(1)] by blast
    then have "n_mem n1 a' \<noteq> None" using H(8) by (auto simp: log_step_def)
    then show "\<exists>n1. log_step (snd (handed t sz bs a n)) n1 \<and> skynet_send M context source 0 t session (Some a) sz n
      = Some (- 1, n1\<lparr>n_mem := (n_mem n1)(fst (handed t sz bs a n) := None)\<rparr>)"
      using n1 args sz by (intro exI [of _ n1]) (simp add: skynet_send_def filter_args_handed [OF args(2) data sz(2)] h skynet_free_Some)
  next
    assume sz: "sz AND MESSAGE_TYPE_MASK \<noteq> sz"
    obtain n1 where n1: "skynet_error M context (''The message to '' @ hex_nat (unat destination) @ '' is too large'') n = Some n1"
      "log_step n n1" using skynet_error_total [OF inv] by blast
    then have "n_mem n1 a \<noteq> None" using data by (auto simp: log_step_def)
    then show "\<exists>n1. log_step n n1 \<and> skynet_send M context source destination t session (Some a) sz n
      = Some (- 2, if t AND PTYPE_TAG_DONTCOPY \<noteq> 0 then n1\<lparr>n_mem := (n_mem n1)(a := None)\<rparr> else n1)"
      using n1 sz by (intro exI [of _ n1]) (simp add: skynet_send_def skynet_free_Some)
  }
qed

text \<open>
  Property C21. A send that fails neither loses nor double-frees the payload. To a local handle
  without a service the result is \<open>-1\<close>, a copy made for the message is freed again, a block
  handed over is freed, and nothing else changes. With destination 0 the result is \<open>-1\<close> and all
  that happens is the hand-over, a log line and the freeing of what was handed over; with a size
  that leaves no room for the type byte the result is \<open>-2\<close> and, after a log line, the block is
  freed exactly when it was handed over.
\<close>

theorem send_failure_frees:
  assumes "node_inv n" "source \<noteq> 0" "t AND PTYPE_TAG_ALLOCSESSION = 0" "n_mem n a = Some (Bytes bs)"
  shows "(sz AND MESSAGE_TYPE_MASK = sz \<longrightarrow> unat sz \<le> length bs \<longrightarrow> destination \<noteq> 0
      \<longrightarrow> destination AND NOT HANDLE_MASK \<in> {0, n_harbor n} \<longrightarrow> service n destination = None
      \<longrightarrow> (\<exists>n'. skynet_send M context source destination t session (Some a) sz n = Some (- 1, n')
        \<and> n_mem n' = (if t AND PTYPE_TAG_DONTCOPY \<noteq> 0 then (n_mem n)(a := None) else n_mem n)
        \<and> n_mq n' = n_mq n \<and> n_ctx n' = n_ctx n \<and> node_inv n'))
    \<and> (sz AND MESSAGE_TYPE_MASK = sz \<longrightarrow> unat sz \<le> length bs
      \<longrightarrow> (\<exists>n1. log_step (snd (handed t sz bs a n)) n1 \<and> skynet_send M context source 0 t session (Some a) sz n
        = Some (- 1, n1\<lparr>n_mem := (n_mem n1)(fst (handed t sz bs a n) := None)\<rparr>)))
    \<and> (sz AND MESSAGE_TYPE_MASK \<noteq> sz
      \<longrightarrow> (\<exists>n1. log_step n n1 \<and> skynet_send M context source destination t session (Some a) sz n
        = Some (- 2, if t AND PTYPE_TAG_DONTCOPY \<noteq> 0 then n1\<lparr>n_mem := (n_mem n1)(a := None)\<rparr> else n1)))"
  by (intro conjI impI) (rule send_failures [OF assms]; assumption)+

theorem send_failure_frees_witness:
  "\<exists>n'. skynet_send demo_modules None 5 0x01000002 PTYPE_TAG_DONTCOPY 3 (Some 0) 2 demo_node = Some (- 1, n')
    \<and> n_mem n' 0 = None"
proof -
  have x: "n_mem demo_node 0 = Some (Bytes [104, 105])" "n_harbor demo_node = 0x01000000"
    by (simp_all add: demo_node_def)
  have t: "PTYPE_TAG_DONTCOPY AND PTYPE_TAG_ALLOCSESSION = 0" "(2 :: u64) AND MESSAGE_TYPE_MASK = 2"
    "PTYPE_TAG_DONTCOPY AND PTYPE_TAG_DONTCOPY \<noteq> 0" "(0x01000002 :: u32) AND NOT HANDLE_MASK = 0x01000000"
    by (simp_all add: PTYPE_TAG_DONTCOPY_def PTYPE_TAG_ALLOCSESSION_def MESSAGE_TYPE_MASK_def HANDLE_MASK_def
        take_bit_eq_mask [symmetric])
  have s: "service demo_node 0x01000002 = None"
    by (simp add: service_def handle_table_def skynet_handle_grab_def demo_node_def demo_storage_def slot_size_def slot_hash_def)
  show ?thesis
    using send_failure_frees [OF demo_node_inv(1) _ t(1) x(1), of 5 2 "0x01000002" demo_modules None 3] t x(2) s by auto
qed

lemma global_pop_total:
  assumes "node_inv n"
  shows "\<exists>p s. global_pop n = Some (p, n\<lparr>n_mq := s\<rparr>) \<and> views s = views (n_mq n)"
proof -
  obtain xs where xs: "gq_inv (n_mq n) xs" using node_invD(4) [OF assms] by (auto simp: mq_ok_def)
  show ?thesis
  proof (cases xs)
    case Nil
    then show ?thesis using skynet_globalmq_pop_empty [of "n_mq n"] xs
      by (intro exI [of _ None] exI [of _ "n_mq n"]) (simp add: global_pop_def)
  next
    case (Cons p ys)
    then show ?thesis using skynet_globalmq_pop_Cons [of "n_mq n" p ys] xs by (auto simp: global_pop_def)
  qed
qed

text \<open>
  Property C11. A worker that takes the queue of a service that is gone gets rid of it: the
  loop that drops the messages ends, every payload is freed exactly once and nothing else
  is, the queue itself is freed, and for every message dropped the service that sent it, if
  it is still there, finds one error message from the dead service at the end of its queue.
\<close>

theorem dead_letters:
  assumes "node_inv n" "held q (n_mq n)" and v: "views (n_mq n) q = Some v" "v_release v" "v_handle v = h" "h \<noteq> 0"
    and gone: "service n h = None" "\<And>d. queue_of n d \<noteq> Some q"
    and msgs: "\<And>m. m \<in> set (v_msgs v) \<Longrightarrow> local_address n (msg_source m)"
      "distinct (payloads (v_msgs v))" "\<And>a. a \<in> set (payloads (v_msgs v)) \<Longrightarrow> n_mem n a \<noteq> None"
  shows "\<exists>p n'. skynet_context_message_dispatch M sm (Some q) weight n = Some (p, sm, n') \<and> views (n_mq n') q = None
    \<and> n_mem n' = n_mem n |` (- set (payloads (v_msgs v))) \<and> errors_added h (sent_from n (v_msgs v)) q n n'"
proof -
  from drop_queue_total [OF assms(1,2) v(1) refl v(4) msgs(1) gone(2) msgs(2,3), of M] obtain n1 where
    n1: "drop_queue M q h n = Some n1" "node_inv n1" "views (n_mq n1) q = None"
      "n_mem n1 = n_mem n |` (- set (payloads (v_msgs v)))" "errors_added h (sent_from n (v_msgs v)) q n n1" by blast
  from global_pop_total [OF n1(2)] obtain p s where s: "global_pop n1 = Some (p, n1\<lparr>n_mq := s\<rparr>)" "views s = views (n_mq n1)"
    by blast
  obtain x where x: "mqs (n_mq n) q = Some x" "v = view x" using v(1) by (auto simp: views_eq_Some)
  have "skynet_context_message_dispatch M sm (Some q) weight n = Some (p, sm, n1\<lparr>n_mq := s\<rparr>)"
    using x v(2,3) n1(1) s(1) gone(1) by (simp add: skynet_context_message_dispatch_def skynet_mq_handle_def mq_get_def
        handle_grab_total [OF assms(1)] skynet_mq_release_def)
  with n1(3-5) s(2) show ?thesis by (auto simp: errors_added_def)
qed

text \<open>The example node with a released queue that still holds a message from its service.\<close>

definition lost_message :: skynet_message where
  "lost_message = \<lparr>msg_source = 0x01000001, msg_session = 4, msg_data = Some 0, msg_sz = 2\<rparr>"

lemma dead_queue_store:
  "\<exists>s. held 1 s \<and> views s = [0 \<mapsto> \<lparr>v_in_global = True, v_release = False, v_handle = 0x01000001, v_msgs = []\<rparr>,
    1 \<mapsto> \<lparr>v_in_global = True, v_release = True, v_handle = 0x01000003, v_msgs = [lost_message]\<rparr>]"
proof -
  have "gq_inv (n_mq demo_node) []"
    using skynet_mq_create_correct [OF skynet_mq_init_inv, of "0x01000001"] by (auto simp: demo_node_def)
  moreover have "mq_fresh (n_mq demo_node) = 1"
    by (simp add: demo_node_def skynet_mq_create_def skynet_mq_init_def)
  ultimately obtain s1 where s1: "gq_inv s1 []" "views s1 = (views (n_mq demo_node))(1 \<mapsto>
      \<lparr>v_in_global = True, v_release = False, v_handle = 0x01000003, v_msgs = []\<rparr>)"
    using skynet_mq_create_correct [of "n_mq demo_node" "[]" "0x01000003"] by auto
  from skynet_mq_push_correct [OF s1(1), of 1 _ lost_message] s1(2) obtain s2 where s2: "gq_inv s2 []"
    "views s2 = (views (n_mq demo_node))(1 \<mapsto> \<lparr>v_in_global = True, v_release = False, v_handle = 0x01000003, v_msgs = [lost_message]\<rparr>)"
    by auto
  from skynet_mq_mark_release_correct [OF s2(1), of 1] s2(2) obtain s3 where s3: "gq_inv s3 []"
    "views s3 = (views (n_mq demo_node))(1 \<mapsto> \<lparr>v_in_global = True, v_release = True, v_handle = 0x01000003, v_msgs = [lost_message]\<rparr>)"
    by auto
  then show ?thesis unfolding demo_queue(1) held_def by (intro exI [of _ s3]) (auto intro: exI [of _ "[]"])
qed

theorem dead_letters_witness:
  "\<exists>n p n'. node_inv n \<and> n_mem n 0 \<noteq> None
    \<and> skynet_context_message_dispatch demo_modules skynet_monitor_new (Some 1) 0 n = Some (p, skynet_monitor_new, n')
    \<and> views (n_mq n') 1 = None \<and> n_mem n' 0 = None
    \<and> map_option v_msgs (views (n_mq n') 0) = Some [error_message 0x01000003]"
proof -
  obtain s where s: "held 1 s" "views s = [0 \<mapsto> \<lparr>v_in_global = True, v_release = False, v_handle = 0x01000001, v_msgs = []\<rparr>,
    1 \<mapsto> \<lparr>v_in_global = True, v_release = True, v_handle = 0x01000003, v_msgs = [lost_message]\<rparr>]"
    using dead_queue_store by blast
  define n where "n = demo_node\<lparr>n_mq := s\<rparr>"
  have inv: "node_inv n" unfolding n_def
    by (rule node_inv_mq [OF demo_node_inv(1) held_ok [OF s(1)]]) (simp add: s(2) demo_queue(1) split: if_splits)
  have sv: "service n 0x01000003 = None" "service n 0x01000001 = Some 7"
    by (simp add: n_def service_def handle_table_def skynet_handle_grab_def demo_node_def demo_storage_def slot_size_def
        slot_hash_def) (simp add: n_def demo_node_inv(2))
  have q: "queue_of n d \<noteq> Some 1" for d
  proof (cases "service n d")
    case (Some c)
    obtain x where "n_ctx n c = Some x" using service_obtain [OF inv Some] by metis
    then have "c = 7" by (simp add: n_def demo_node_def split: if_splits)
    then show ?thesis using Some by (simp add: queue_of_def n_def demo_node_def demo_context_def new_context_def)
  qed (simp add: queue_of_def)
  have q1: "queue_of n 0x01000001 = Some 0"
    by (simp add: queue_of_def sv) (simp add: n_def demo_node_def demo_context_def new_context_def)
  have "local_address n 0x01000001"
    by (simp add: local_address_def n_def demo_node_def HANDLE_MASK_def)
  then have "\<exists>p n'. skynet_context_message_dispatch demo_modules skynet_monitor_new (Some 1) 0 n = Some (p, skynet_monitor_new, n')
    \<and> views (n_mq n') 1 = None \<and> n_mem n' = n_mem n |` (- set (payloads [lost_message]))
    \<and> errors_added 0x01000003 (sent_from n [lost_message]) 1 n n'"
    using dead_letters [OF inv, of 1 "\<lparr>v_in_global = True, v_release = True, v_handle = 0x01000003, v_msgs = [lost_message]\<rparr>"
        "0x01000003" demo_modules skynet_monitor_new 0] s sv(1) q
    by (simp add: n_def lost_message_def payloads_def List.map_filter_def demo_node_def)
  moreover have "payloads [lost_message] = [0]" "sent_from n [lost_message] 0 = 1"
    by (simp_all add: payloads_def List.map_filter_def lost_message_def sent_from_def q1)
  moreover have "n_mem n 0 \<noteq> None" "views (n_mq n) 0 \<noteq> None" "map_option v_msgs (views (n_mq n) 0) = Some []"
    using s(2) by (simp_all add: n_def demo_node_def)
  ultimately show ?thesis using inv by (auto simp: errors_added_def intro!: exI [of _ n])
qed

section \<open>Creating a service\<close>

lemma slots_inv_cong:
  assumes "slots_inv ch s" "\<And>p. p \<in> members s \<Longrightarrow> ch' p = ch p"
  shows "slots_inv ch' s"
proof -
  obtain k where k: "slots_at k ch s" using assms(1) by (auto simp: slots_inv_def)
  have "p \<in> members s" if "i < 2 ^ k" "hs_slot s ! i = Some p" for i p
    using that slots_atD(3) [OF k] by (auto simp: members_def in_set_conv_nth)
  then have "slots_at k ch' s" using k assms(2) by (auto simp: slots_at_def)
  then show ?thesis using assms(1) by (auto simp: slots_inv_def)
qed

lemma names_inv_same:
  "names_inv s \<Longrightarrow> name_cap s' = name_cap s \<Longrightarrow> name_count s' = name_count s \<Longrightarrow> hs_name s' = hs_name s \<Longrightarrow> names_inv s'"
  by (auto simp: names_inv_def names_shape_def entries_def)

text \<open>A queue that is flagged but linked nowhere enters the global queue.\<close>

lemma held_link:
  assumes "held q s" "views s q = Some v" "v_in_global v"
  shows "\<exists>s'. skynet_globalmq_push q s = Some s' \<and> mq_ok s' \<and> views s' = views s"
proof -
  from assms(1) obtain xs where xs: "gq_inv s xs" "q \<notin> set xs"
    "\<forall>p v. views s p = Some v \<longrightarrow> \<not> v_in_global v \<longrightarrow> p \<notin> set xs" by (auto simp: held_def)
  obtain x where x: "mqs s q = Some x" using assms(2) by (auto simp: views_eq_Some)
  from skynet_globalmq_push_correct [OF xs(1) x xs(2)] obtain s' where
    s': "skynet_globalmq_push q s = Some s'" "gq_inv s' (xs @ [q])" "views s' = views s" by blast
  have "mq_ok s'" unfolding mq_ok_def using s'(2,3) xs(3) assms(2,3) by (intro exI [of _ "xs @ [q]"] conjI) auto
  with s' show ?thesis by blast
qed

lemma mq_create_held:
  assumes "mq_ok s"
  shows "\<exists>s'. skynet_mq_create h s = (mq_fresh s, s') \<and> held (mq_fresh s) s' \<and> views s (mq_fresh s) = None
    \<and> views s' = (views s)(mq_fresh s \<mapsto> \<lparr>v_in_global = True, v_release = False, v_handle = h, v_msgs = []\<rparr>)"
proof -
  from assms obtain xs where xs: "gq_inv s xs" "\<forall>p v. views s p = Some v \<longrightarrow> \<not> v_in_global v \<longrightarrow> p \<notin> set xs"
    by (auto simp: mq_ok_def)
  from skynet_mq_create_correct [OF xs(1), of h] obtain s' where s': "skynet_mq_create h s = (mq_fresh s, s')" "gq_inv s' xs"
    "views s (mq_fresh s) = None" "mq_fresh s \<notin> set xs"
    "views s' = (views s)(mq_fresh s \<mapsto> \<lparr>v_in_global = True, v_release = False, v_handle = h, v_msgs = []\<rparr>)" by blast
  have "held (mq_fresh s) s'" unfolding held_def using s' xs(2) by (intro exI [of _ xs] conjI) (auto split: if_splits)
  with s' show ?thesis by blast
qed

text \<open>A new queue that is pushed becomes the last one of the global queue.\<close>

lemma create_push_links:
  assumes "mq_ok s" "skynet_mq_create h s = (q, s1)" "skynet_globalmq_push q s1 = Some s2"
  shows "\<exists>xs. gq_inv s xs \<and> gq_inv s2 (xs @ [q])"
proof -
  from assms(1) obtain xs where xs: "gq_inv s xs" by (auto simp: mq_ok_def)
  from skynet_mq_create_correct [OF xs, of h] assms(2) have s1: "gq_inv s1 xs" "q \<notin> set xs" "views s1 q \<noteq> None" by auto
  then obtain x where "mqs s1 q = Some x" by (auto simp: views_eq_Some)
  from skynet_globalmq_push_correct [OF s1(1) this s1(2)] assms(3) have "gq_inv s2 (xs @ [q])" by auto
  with xs show ?thesis by blast
qed

lemma launch_register:
  assumes inv: "node_inv n" and can: "can_register (n_handles n)" and new: "n_ctx n c = None"
    and cx: "cx_handle x = 0" "1 \<le> cx_ref x"
  defines "n1 \<equiv> ctx_put c x n"
  shows "\<exists>h hs q s. skynet_handle_register (skynet_context_handle n1) c (n_handles n) = Some (h, hs)
    \<and> skynet_mq_create h (n_mq n) = (q, s) \<and> service n h = None \<and> held q s
    \<and> views s = (views (n_mq n))(q \<mapsto> \<lparr>v_in_global = True, v_release = False, v_handle = h, v_msgs = []\<rparr>)
    \<and> (\<forall>y s' n'. cx_handle y = h \<and> cx_queue y = q \<and> 1 \<le> cx_ref y \<and> mq_ok s' \<and> views s' = views s
        \<and> n_ctx n' = (n_ctx n)(c \<mapsto> y) \<and> n_handles n' = hs \<and> n_mq n' = s' \<and> n_mem n' = n_mem n
        \<and> n_mem_fresh n' = n_mem_fresh n \<and> n_harbor n' = n_harbor n
        \<longrightarrow> node_inv n' \<and> service n' = (service n)(h \<mapsto> c))"
proof -
  let ?ch = "skynet_context_handle n" and ?ch1 = "skynet_context_handle n1"
  have c: "c \<notin> members (n_handles n)" using new node_invD(5) [OF inv] by (force simp: services_ok_def)
  have ch1: "?ch1 p = ?ch p" if "p \<in> members (n_handles n)" for p
    using that c by (auto simp: n1_def ctx_put_def skynet_context_handle_def)
  have sl: "slots_inv ?ch1 (n_handles n)" by (rule slots_inv_cong [OF node_invD(2) [OF inv] ch1])
  from register_correct [OF sl can c] obtain h hs where
    h: "skynet_handle_register ?ch1 c (n_handles n) = Some (h, hs)" "slots_inv (?ch1(c := h)) hs"
      "members hs = insert c (members (n_handles n))" "handle_table ?ch1 (n_handles n) h = None"
      "name_cap hs = name_cap (n_handles n)" "name_count hs = name_count (n_handles n)"
      "hs_name hs = hs_name (n_handles n)" "hs_harbor hs = hs_harbor (n_handles n)" by blast
  from mq_create_held [OF node_invD(4) [OF inv], of h] obtain q s where
    q: "skynet_mq_create h (n_mq n) = (q, s)" "held q s" "views (n_mq n) q = None"
      "views s = (views (n_mq n))(q \<mapsto> \<lparr>v_in_global = True, v_release = False, v_handle = h, v_msgs = []\<rparr>)" by blast
  obtain k k1 where k: "slots_at k ?ch (n_handles n)" "slots_at k1 ?ch1 (n_handles n)"
    using node_invD(2) [OF inv] sl by (auto simp: slots_inv_def)
  have tab: "handle_table ?ch1 (n_handles n) g = service n g" for g
  proof -
    have "handle_table ?ch1 (n_handles n) g = Some p \<longleftrightarrow> service n g = Some p" for p
      unfolding service_def handle_table_iff [OF k(1)] handle_table_iff [OF k(2)] using ch1 by auto
    then show ?thesis by (metis not_Some_eq)
  qed
  have "node_inv n' \<and> service n' = (service n)(h \<mapsto> c)"
    if y: "cx_handle y = h" "cx_queue y = q" "1 \<le> cx_ref y" and s': "mq_ok s'" "views s' = views s"
      and n': "n_ctx n' = (n_ctx n)(c \<mapsto> y)" "n_handles n' = hs" "n_mq n' = s'" "n_mem n' = n_mem n"
        "n_mem_fresh n' = n_mem_fresh n" "n_harbor n' = n_harbor n" for y s' n'
  proof -
    let ?ch' = "skynet_context_handle n'"
    have ch': "?ch' = ?ch1(c := h)" using y(1) by (auto simp: n1_def ctx_put_def skynet_context_handle_def n'(1) fun_eq_iff)
    have sl': "slots_inv ?ch' hs" using h(2) ch' by simp
    then obtain k' where k': "slots_at k' ?ch' hs" by (auto simp: slots_inv_def)
    have "handle_inv ?ch' hs" using sl' names_inv_same [OF node_invD(3) [OF inv] h(5-7)] by (simp add: handle_inv_def)
    moreover have "services_ok n'" unfolding services_ok_def
    proof
      fix p assume "p \<in> members (n_handles n')"
      then consider "p = c" | "p \<noteq> c" "p \<in> members (n_handles n)" using h(3) n'(2) by auto
      then show "\<exists>x v. n_ctx n' p = Some x \<and> 1 \<le> cx_ref x \<and> views (n_mq n') (cx_queue x) = Some v"
      proof cases
        case 1
        then show ?thesis using y s'(2) q(4) n'(1,3) by simp
      next
        case 2
        then show ?thesis using node_invD(5) [OF inv] s'(2) q(3,4) n'(1,3) unfolding services_ok_def
          by (metis fun_upd_apply option.distinct(1))
      qed
    qed
    ultimately have "node_inv n'" using s'(1) n' node_invD(6,7) [OF inv] h(8) by (simp add: node_inv_def)
    moreover have "service n' g = ((service n)(h \<mapsto> c)) g" for g
    proof -
      have "service n' g = Some p \<longleftrightarrow> (p = c \<and> g = h) \<or> (p \<in> members (n_handles n) \<and> ?ch p = g)" for p
        unfolding service_def n'(2) handle_table_iff [OF k'] using h(3) ch' ch1 c by auto
      moreover have "service n g = Some p \<longleftrightarrow> p \<in> members (n_handles n) \<and> ?ch p = g" for p
        unfolding service_def by (rule handle_table_iff [OF k(1)])
      moreover have "service n h = None" using h(4) tab by simp
      ultimately show ?thesis by (metis fun_upd_apply not_Some_eq)
    qed
    ultimately show ?thesis by blast
  qed
  note built = this
  show ?thesis
  proof (intro exI conjI allI impI)
    show "service n h = None" using h(4) tab by simp
    show "skynet_handle_register ?ch1 c (n_handles n) = Some (h, hs)" "skynet_mq_create h (n_mq n) = (q, s)" by fact+
    fix y s' and n' :: node
    assume "cx_handle y = h \<and> cx_queue y = q \<and> 1 \<le> cx_ref y \<and> mq_ok s' \<and> views s' = views s
        \<and> n_ctx n' = (n_ctx n)(c \<mapsto> y) \<and> n_handles n' = hs \<and> n_mq n' = s' \<and> n_mem n' = n_mem n
        \<and> n_mem_fresh n' = n_mem_fresh n \<and> n_harbor n' = n_harbor n"
    then show "node_inv n'" "service n' = (service n)(h \<mapsto> c)" using built [of y s' n'] by blast+
  qed (use q in \<open>simp_all only:\<close>)
qed

text \<open>
  Property C12. Launching a service whose module initialises itself (and sets its callback)
  yields a registered service: a handle that was unused now leads to the new context and all
  other handles lead where they led; the context is initialised and holds one reference; its
  empty queue is live and stands at the end of the linked list of queues the workers pop
  (\<open>gq_inv\<close> relates a store to that list), behind the queues that were there; the count of
  contexts is one higher and the invariant holds.
\<close>

theorem launch_registers:
  assumes inv: "node_inv n" and can: "can_register (n_handles n)" and new: "n_ctx n (n_ctx_fresh n) = None"
    and md: "md_query M name = Some md" "md_create M md = Some inst"
    and init: "\<And>c x n. n_ctx n c = Some x \<Longrightarrow> md_init M md inst c param n = Some (0, ctx_put c (x\<lparr>cx_cb := cb\<rparr>) n)"
  shows "\<exists>c h n' y. skynet_context_new M name param n = Some (Some c, n') \<and> node_inv n'
    \<and> service n h = None \<and> service n' = (service n)(h \<mapsto> c) \<and> n_total n' = n_total n + 1
    \<and> n_ctx n' = (n_ctx n)(c \<mapsto> y) \<and> cx_handle y = h \<and> cx_ref y = 1 \<and> cx_init y \<and> cx_cb y = cb
    \<and> views (n_mq n') = (views (n_mq n))(cx_queue y \<mapsto> \<lparr>v_in_global = True, v_release = False, v_handle = h, v_msgs = []\<rparr>)
    \<and> (\<exists>xs. gq_inv (n_mq n) xs \<and> gq_inv (n_mq n') (xs @ [cx_queue y]))"
proof -
  define c where "c = n_ctx_fresh n"
  define x where "x = new_context md inst (n_profile n)"
  define m where "m = n\<lparr>n_ctx_fresh := c + 1\<rparr>"
  have minv: "node_inv m" "n_ctx m = n_ctx n" "n_handles m = n_handles n" "n_mq m = n_mq n"
    "service m = service n" "n_total m = n_total n"
    using inv by (simp_all add: m_def node_inv_def services_ok_def service_def fun_eq_iff)
  have x: "cx_handle x = 0" "1 \<le> cx_ref x" "cx_ref x = 2" by (simp_all add: x_def new_context_def)
  have pre: "can_register (n_handles m)" "n_ctx m c = None" using can new by (simp_all add: minv c_def)
  obtain h hs q s where
    h: "skynet_handle_register (skynet_context_handle (ctx_put c x m)) c (n_handles n) = Some (h, hs)"
      "skynet_mq_create h (n_mq n) = (q, s)" "service n h = None" "held q s"
      "views s = (views (n_mq n))(q \<mapsto> \<lparr>v_in_global = True, v_release = False, v_handle = h, v_msgs = []\<rparr>)"
    and built: "\<forall>y s' n'. cx_handle y = h \<and> cx_queue y = q \<and> 1 \<le> cx_ref y \<and> mq_ok s' \<and> views s' = views s
        \<and> n_ctx n' = (n_ctx n)(c \<mapsto> y) \<and> n_handles n' = hs \<and> n_mq n' = s' \<and> n_mem n' = n_mem m
        \<and> n_mem_fresh n' = n_mem_fresh m \<and> n_harbor n' = n_harbor m
        \<longrightarrow> node_inv n' \<and> service n' = (service n)(h \<mapsto> c)"
    using launch_register [OF minv(1) pre x(1,2)] unfolding minv(2-5) by (elim exE conjE) (rule that)
  from held_link [OF h(4), of "\<lparr>v_in_global = True, v_release = False, v_handle = h, v_msgs = []\<rparr>"] h(5) obtain s2 where
    s2: "skynet_globalmq_push q s = Some s2" "mq_ok s2" "views s2 = views s" by auto
  define y where "y = x\<lparr>cx_handle := h, cx_queue := q, cx_cb := cb, cx_ref := 1, cx_init := True\<rparr>"
  define n' where "n' = (ctx_put c y (m\<lparr>n_handles := hs, n_mq := s2\<rparr>))\<lparr>n_total := n_total n + 1\<rparr>"
  have run: "skynet_context_new M name param n = Some (Some c, n')"
    using md h(1,2) s2(1) x(3) minv(2-4)
    by (simp add: skynet_context_new_def c_def [symmetric] x_def [symmetric] m_def [symmetric] Let_def init ctx_put_def ctx_get_def
        context_inc_def skynet_context_release_def n'_def y_def minv)
      (simp add: m_def)
  have y: "cx_handle y = h" "cx_queue y = q" "cx_ref y = 1" "cx_init y" "cx_cb y = cb" by (simp_all add: y_def)
  have n': "n_ctx n' = (n_ctx n)(c \<mapsto> y)" "n_handles n' = hs" "n_mq n' = s2" "n_mem n' = n_mem m"
    "n_mem_fresh n' = n_mem_fresh m" "n_harbor n' = n_harbor m" "n_total n' = n_total n + 1"
    by (simp_all add: n'_def ctx_put_def minv)
  have "node_inv n' \<and> service n' = (service n)(h \<mapsto> c)"
    using built [THEN spec, THEN spec, THEN spec, of y s2 n'] y(1-3) s2(2,3) n'(1-6) by simp
  then show ?thesis using run h(3,5) s2(3) y n'(1,3,7) create_push_links [OF node_invD(4) [OF inv] h(2) s2(1)]
    by (intro exI [of _ c] exI [of _ h] exI [of _ n'] exI [of _ y]) simp
qed

definition launch_modules :: modules where
  "launch_modules = demo_modules\<lparr>md_query := \<lambda>name. if name = ''gate'' then Some 0 else None, md_create := \<lambda>_. Some 5,
     md_init := \<lambda>_ _ c _ n. do { x \<leftarrow> ctx_get c n; Some (0, ctx_put c (x\<lparr>cx_cb := Some 3\<rparr>) n) }\<rparr>"

theorem launch_registers_witness:
  "\<exists>c h n' y xs. skynet_context_new launch_modules ''gate'' None demo_node = Some (Some c, n')
    \<and> service demo_node h = None \<and> service n' h = Some c \<and> service n' 0x01000001 = Some 7
    \<and> n_ctx n' c = Some y \<and> gq_inv (n_mq demo_node) xs \<and> gq_inv (n_mq n') (xs @ [cx_queue y])"
proof -
  have can: "can_register (n_handles demo_node)" and new: "n_ctx demo_node (n_ctx_fresh demo_node) = None"
    by (auto simp: can_register_def demo_node_def demo_storage_def slot_size_def intro!: exI [of _ "2 :: nat"])
  have M: "md_query launch_modules ''gate'' = Some 0" "md_create launch_modules 0 = Some 5"
    "n_ctx n c = Some x \<Longrightarrow> md_init launch_modules 0 5 c None n = Some (0, ctx_put c (x\<lparr>cx_cb := Some 3\<rparr>) n)" for n c x
    by (simp_all add: launch_modules_def ctx_get_def)
  from launch_registers [OF demo_node_inv(1) can new M] obtain c h n' y xs where
    n': "skynet_context_new launch_modules ''gate'' None demo_node = Some (Some c, n')"
      "service demo_node h = None" "service n' = (service demo_node)(h \<mapsto> c)"
      "n_ctx n' = (n_ctx demo_node)(c \<mapsto> y)" "gq_inv (n_mq demo_node) xs" "gq_inv (n_mq n') (xs @ [cx_queue y])"
    by blast
  then have "service n' 0x01000001 = Some 7" using demo_node_inv(2) by (cases "h = 0x01000001") auto
  with n' show ?thesis by auto
qed

section \<open>Sessions, addresses and the logger\<close>

text \<open>
  \<^verbatim>\<open>skynet_context_newsession\<close> gives a positive session that differs from the one
  before, also when the 32-bit counter overflows: it counts up by one from 0 and starts again
  at 1 after the largest positive number.
\<close>

theorem newsession_positive:
  assumes "n_ctx n c = Some x" "0 \<le> sint (cx_session_id x)"
  shows "\<exists>s. skynet_context_newsession c n = Some (s, ctx_put c (x\<lparr>cx_session_id := s\<rparr>) n) \<and> 0 < sint s
    \<and> s \<noteq> cx_session_id x
    \<and> sint s = (if sint (cx_session_id x) = 2 ^ 31 - 1 then 1 else sint (cx_session_id x) + 1)"
proof -
  let ?i = "cx_session_id x"
  have i: "sint ?i < 2 ^ 31" using sint_lt [of ?i] by simp
  have plus: "sint (?i + 1) = (if sint ?i = 2 ^ 31 - 1 then - (2 ^ 31) else sint ?i + 1)"
  proof (cases "sint ?i = 2 ^ 31 - 1")
    case True
    have "?i = word_of_int (2 ^ 31 - 1)" using arg_cong [OF True, of "of_int :: int \<Rightarrow> i32"] by (simp only: of_int_sint scast_id)
    then show ?thesis using True by simp
  next
    case False
    then have "- (2 ^ 31) \<le> sint ?i + 1" "sint ?i + 1 < 2 ^ 31" using assms(2) i by auto
    then show ?thesis using False
      by (simp add: sint_word_ariths signed_take_bit_int_eq_self)
  qed
  show ?thesis
  proof (cases "sint ?i = 2 ^ 31 - 1")
    case True
    then have "?i \<noteq> 1" by auto
    then show ?thesis using assms(1) True plus
      by (auto simp: skynet_context_newsession_def ctx_get_def Let_def)
  next
    case False
    then have "?i + 1 \<noteq> ?i" by simp
    then show ?thesis using assms False plus by (auto simp: skynet_context_newsession_def ctx_get_def Let_def)
  qed
qed

theorem newsession_positive_witness:
  "\<exists>s n'. skynet_context_newsession 7 (ctx_put 7 (demo_context\<lparr>cx_session_id := 0x7fffffff\<rparr>) demo_node) = Some (s, n')
    \<and> sint s = 1"
  using newsession_positive [of "ctx_put 7 (demo_context\<lparr>cx_session_id := 0x7fffffff\<rparr>) demo_node" 7
      "demo_context\<lparr>cx_session_id := 0x7fffffff\<rparr>"]
  by (auto simp: ctx_put_def)

end
