(* ===== verification/Commands.thy ===== *)
theory Commands
  imports Server
begin

text \<open>
  The text commands of \<^verbatim>\<open>skynet/skynet-src/skynet_server.c\<close> (\<^verbatim>\<open>skynet_command\<close> and its table),
  with \<^verbatim>\<open>skynet_env.c\<close>, the opening and closing of log files of \<^verbatim>\<open>skynet_log.c\<close> and
  \<^verbatim>\<open>skynet_timeout\<close> of \<^verbatim>\<open>skynet_timer.c\<close>. A command takes its parameter as an optional text,
  the null pointer being \<open>None\<close>, and returns an optional text; reading the text of a null
  pointer does not return. The environment is a table of texts: the Lua state behind it holds
  only what \<^verbatim>\<open>skynet_setenv\<close> stored.
\<close>

section \<open>Environment, timeouts, names\<close>

definition skynet_getenv :: "string \<Rightarrow> node \<Rightarrow> string option" where
  "skynet_getenv key n = n_env n key"

definition skynet_setenv :: "string \<Rightarrow> string \<Rightarrow> node \<Rightarrow> node option" where
  "skynet_setenv key v n = do {
     assert_c (n_env n key = None);
     Some (n\<lparr>n_env := (n_env n)(key \<mapsto> v)\<rparr>)
   }"

definition skynet_env_init :: "node \<Rightarrow> node" where
  "skynet_env_init n = n\<lparr>n_env := Map.empty\<rparr>"

definition skynet_timeout :: "modules \<Rightarrow> u32 \<Rightarrow> i32 \<Rightarrow> i32 \<Rightarrow> node \<Rightarrow> (i32 \<times> node) option" where
  "skynet_timeout M h time session n =
     (if sint time \<le> 0 then do {
        (r, n1) \<leftarrow> skynet_context_push M h
          \<lparr>msg_source = 0, msg_session = session, msg_data = None,
           msg_sz = push_bit MESSAGE_TYPE_SHIFT PTYPE_RESPONSE\<rparr> n;
        if r \<noteq> 0 then Some (- 1, n1) else Some (session, n1)
      } else do {
        T \<leftarrow> timer_add (n_timer n) h session time;
        Some (session, n\<lparr>n_timer := T\<rparr>)
      })"

definition skynet_queryname :: "modules \<Rightarrow> nat \<Rightarrow> string \<Rightarrow> node \<Rightarrow> (u32 \<times> node) option" where
  "skynet_queryname M context name n = (case name of
     CHR '':'' # rest \<Rightarrow> Some (parse_handle rest, n)
   | CHR ''.'' # rest \<Rightarrow> do { h \<leftarrow> skynet_handle_findname rest (n_handles n); Some (h, n) }
   | _ \<Rightarrow> do {
       n1 \<leftarrow> skynet_error M (Some context) (''Don't support query global name '' @ name) n;
       Some (0, n1)
     })"

definition handle_exit :: "modules \<Rightarrow> nat \<Rightarrow> u32 \<Rightarrow> node \<Rightarrow> node option" where
  "handle_exit M context h n = do {
     x \<leftarrow> ctx_get context n;
     let h = (if h = 0 then cx_handle x else h);
     n1 \<leftarrow> (if n_monitor_exit n \<noteq> 0 then do {
         (_, n1) \<leftarrow> skynet_send M (Some context) h (n_monitor_exit n) PTYPE_CLIENT 0 None 0 n;
         Some n1
       } else Some n);
     (_, n2) \<leftarrow> handle_retire M h n1;
     Some n2
   }"

text \<open>\<^verbatim>\<open>skynet_handle_retireall\<close> with the release of each context before the next slot is read.\<close>

partial_function (option) retire_slots :: "modules \<Rightarrow> nat \<Rightarrow> nat \<Rightarrow> node \<Rightarrow> (nat \<times> node) option" where
  "retire_slots M i cnt n =
     (if i < slot_size (n_handles n) then do {
        c \<leftarrow> array_get (hs_slot (n_handles n)) i;
        let h = (case c of Some ctx \<Rightarrow> skynet_context_handle n ctx | None \<Rightarrow> 0);
        if h \<noteq> 0 then do {
          (r, n1) \<leftarrow> handle_retire M h n;
          retire_slots M (i + 1) (if r then cnt + 1 else cnt) n1
        } else retire_slots M (i + 1) cnt n
      } else Some (cnt, n))"

partial_function (option) handle_retireall :: "modules \<Rightarrow> node \<Rightarrow> node option" where
  "handle_retireall M n = do {
     (cnt, n1) \<leftarrow> retire_slots M 0 0 n;
     if cnt = 0 then Some n1 else handle_retireall M n1
   }"

section \<open>Log files\<close>

text \<open>The text that the new log file starts with, unless it could not be opened.\<close>

definition skynet_log_open :: "modules \<Rightarrow> nat \<Rightarrow> u32 \<Rightarrow> node \<Rightarrow> (string option \<times> node) option" where
  "skynet_log_open M ctx h n = (case skynet_getenv ''logpath'' n of
     None \<Rightarrow> Some (None, n)
   | Some logpath \<Rightarrow> do {
       let tmp = logpath @ ''/'' @ hex_pad 8 (unat h) @ ''.log'';
       if md_fopen M tmp then do {
         let st = skynet_starttime (n_timer n);
         let cur = skynet_now (n_timer n);
         let ti = ucast st + word_of_nat (unat cur div 100);
         n1 \<leftarrow> skynet_error M (Some ctx) (''Open log file '' @ tmp) n;
         Some (Some (''open time: '' @ dec_nat (unat (ucast cur :: u32)) @ '' '' @ md_ctime M ti), n1)
       } else do {
         n1 \<leftarrow> skynet_error M (Some ctx) (''Open log file '' @ tmp @ '' fail'') n;
         Some (None, n1)
       }
     })"

text \<open>The last line goes to the file, which is closed.\<close>

definition skynet_log_close :: "modules \<Rightarrow> nat \<Rightarrow> u32 \<Rightarrow> node \<Rightarrow> node option" where
  "skynet_log_close M ctx h n =
     skynet_error M (Some ctx) (''Close log file :'' @ hex_pad 8 (unat h)) n"

section \<open>The commands\<close>

text \<open>\<^verbatim>\<open>sprintf(context->result, ...)\<close> and its return.\<close>

definition give_result :: "nat \<Rightarrow> string \<Rightarrow> node \<Rightarrow> (string option \<times> node) option" where
  "give_result context txt n = do {
     x \<leftarrow> ctx_get context n;
     Some (Some txt, ctx_put context (x\<lparr>cx_result := txt\<rparr>) n)
   }"

definition hex_handle :: "u32 \<Rightarrow> string" where
  "hex_handle h = CHR '':'' # hex_nat (unat h)"

definition cmd_timeout :: "modules \<Rightarrow> nat \<Rightarrow> string option \<Rightarrow> node \<Rightarrow> (string option \<times> node) option" where
  "cmd_timeout M context param n = do {
     p \<leftarrow> param;
     let ti = word_of_int (strtol10 (ascii p));
     (session, n1) \<leftarrow> skynet_context_newsession context n;
     (_, n2) \<leftarrow> skynet_timeout M (skynet_context_handle n1 context) ti session n1;
     give_result context (dec_string (sint session)) n2
   }"

definition name_handle :: "u32 \<Rightarrow> string \<Rightarrow> node \<Rightarrow> (string option \<times> node) option" where
  "name_handle h name n = do {
     (r, hs) \<leftarrow> skynet_handle_namehandle h name (n_handles n);
     Some (r, n\<lparr>n_handles := hs\<rparr>)
   }"

definition cmd_reg :: "modules \<Rightarrow> nat \<Rightarrow> string option \<Rightarrow> node \<Rightarrow> (string option \<times> node) option" where
  "cmd_reg M context param n = (case param of
     None \<Rightarrow> give_result context (hex_handle (skynet_context_handle n context)) n
   | Some [] \<Rightarrow> give_result context (hex_handle (skynet_context_handle n context)) n
   | Some (c # rest) \<Rightarrow>
       if c = CHR ''.'' then name_handle (skynet_context_handle n context) rest n
       else do {
         n1 \<leftarrow> skynet_error M (Some context) (''Can't register global name '' @ (c # rest) @ '' in C'') n;
         Some (None, n1)
       })"

definition cmd_query :: "modules \<Rightarrow> nat \<Rightarrow> string option \<Rightarrow> node \<Rightarrow> (string option \<times> node) option" where
  "cmd_query M context param n = do {
     p \<leftarrow> param;
     (case p of
        CHR ''.'' # rest \<Rightarrow> do {
          h \<leftarrow> skynet_handle_findname rest (n_handles n);
          if h \<noteq> 0 then give_result context (hex_handle h) n else Some (None, n)
        }
      | _ \<Rightarrow> Some (None, n))
   }"

text \<open>The words that \<^verbatim>\<open>sscanf(param, "%s %s", ...)\<close> reads. With fewer than two the code goes on with an uninitialised buffer.\<close>

definition blank :: "char \<Rightarrow> bool" where
  "blank c \<longleftrightarrow> is_space (word_of_nat (of_char c))"

definition scan_word :: "string \<Rightarrow> (string \<times> string) option" where
  "scan_word s = (case dropWhile blank s of
     [] \<Rightarrow> None
   | t \<Rightarrow> Some (takeWhile (\<lambda>c. \<not> blank c) t, dropWhile (\<lambda>c. \<not> blank c) t))"

definition cmd_name :: "modules \<Rightarrow> nat \<Rightarrow> string option \<Rightarrow> node \<Rightarrow> (string option \<times> node) option" where
  "cmd_name M context param n = do {
     p \<leftarrow> param;
     (name, rest) \<leftarrow> scan_word p;
     (handle, _) \<leftarrow> scan_word rest;
     (case handle of
        CHR '':'' # hex \<Rightarrow> do {
          let handle_id = parse_handle hex;
          if handle_id = 0 then Some (None, n)
          else (case name of
              CHR ''.'' # lname \<Rightarrow> name_handle handle_id lname n
            | _ \<Rightarrow> do {
                n1 \<leftarrow> skynet_error M (Some context) (''Can't set global name '' @ name @ '' in C'') n;
                Some (None, n1)
              })
        }
      | _ \<Rightarrow> Some (None, n))
   }"

definition cmd_exit :: "modules \<Rightarrow> nat \<Rightarrow> string option \<Rightarrow> node \<Rightarrow> (string option \<times> node) option" where
  "cmd_exit M context param n = do { n1 \<leftarrow> handle_exit M context 0 n; Some (None, n1) }"

definition tohandle :: "modules \<Rightarrow> nat \<Rightarrow> string \<Rightarrow> node \<Rightarrow> (u32 \<times> node) option" where
  "tohandle M context param n = (case param of
     CHR '':'' # rest \<Rightarrow> Some (parse_handle rest, n)
   | CHR ''.'' # rest \<Rightarrow> do { h \<leftarrow> skynet_handle_findname rest (n_handles n); Some (h, n) }
   | _ \<Rightarrow> do {
       n1 \<leftarrow> skynet_error M (Some context) (''Can't convert '' @ param @ '' to handle'') n;
       Some (0, n1)
     })"

definition cmd_kill :: "modules \<Rightarrow> nat \<Rightarrow> string option \<Rightarrow> node \<Rightarrow> (string option \<times> node) option" where
  "cmd_kill M context param n = do {
     p \<leftarrow> param;
     (h, n1) \<leftarrow> tohandle M context p n;
     n2 \<leftarrow> (if h \<noteq> 0 then handle_exit M context h n1 else Some n1);
     Some (None, n2)
   }"

text \<open>\<^verbatim>\<open>strsep\<close> with a set of delimiters.\<close>

definition strsep_any :: "string \<Rightarrow> string \<Rightarrow> string \<times> string option" where
  "strsep_any delims s = (takeWhile (\<lambda>c. c \<notin> set delims) s,
     case dropWhile (\<lambda>c. c \<notin> set delims) s of [] \<Rightarrow> None | _ # rest \<Rightarrow> Some rest)"

definition line_delims :: string where
  "line_delims = [CHR 0x0D, CHR 0x0A]"

definition cmd_launch :: "modules \<Rightarrow> nat \<Rightarrow> string option \<Rightarrow> node \<Rightarrow> (string option \<times> node) option" where
  "cmd_launch M context param n = do {
     p \<leftarrow> param;
     let (mod_name, rest) = strsep_any ([CHR '' '', CHR 0x09] @ line_delims) p;
     let args = map_option (\<lambda>r. fst (strsep_any line_delims r)) rest;
     (inst, n1) \<leftarrow> skynet_context_new M mod_name args n;
     (case inst of
        None \<Rightarrow> Some (None, n1)
      | Some i \<Rightarrow> do { x \<leftarrow> ctx_get i n1; give_result context (id_to_hex (cx_handle x)) n1 })
   }"

definition cmd_getenv :: "modules \<Rightarrow> nat \<Rightarrow> string option \<Rightarrow> node \<Rightarrow> (string option \<times> node) option" where
  "cmd_getenv M context param n = do { p \<leftarrow> param; Some (skynet_getenv p n, n) }"

definition cmd_setenv :: "modules \<Rightarrow> nat \<Rightarrow> string option \<Rightarrow> node \<Rightarrow> (string option \<times> node) option" where
  "cmd_setenv M context param n = do {
     p \<leftarrow> param;
     let key = takeWhile (\<lambda>c. c \<noteq> CHR '' '') p;
     (case dropWhile (\<lambda>c. c \<noteq> CHR '' '') p of
        [] \<Rightarrow> Some (None, n)
      | _ # v \<Rightarrow> do { n1 \<leftarrow> skynet_setenv key v n; Some (None, n1) })
   }"

definition cmd_starttime :: "modules \<Rightarrow> nat \<Rightarrow> string option \<Rightarrow> node \<Rightarrow> (string option \<times> node) option" where
  "cmd_starttime M context param n =
     give_result context (dec_nat (unat (skynet_starttime (n_timer n)))) n"

definition cmd_abort :: "modules \<Rightarrow> nat \<Rightarrow> string option \<Rightarrow> node \<Rightarrow> (string option \<times> node) option" where
  "cmd_abort M context param n = do { n1 \<leftarrow> handle_retireall M n; Some (None, n1) }"

definition cmd_monitor :: "modules \<Rightarrow> nat \<Rightarrow> string option \<Rightarrow> node \<Rightarrow> (string option \<times> node) option" where
  "cmd_monitor M context param n =
     (if param = None \<or> param = Some [] then
        if n_monitor_exit n \<noteq> 0 then give_result context (hex_handle (n_monitor_exit n)) n
        else Some (None, n)
      else do {
        (h, n1) \<leftarrow> tohandle M context (the param) n;
        Some (None, n1\<lparr>n_monitor_exit := h\<rparr>)
      })"

text \<open>
  \<^verbatim>\<open>%lf\<close> of a number of microseconds over \<open>10^6\<close>: the six decimals are the microseconds, exactly
  so as long as the number is below \<open>2^52\<close> and the double has room for it.
\<close>

definition seconds_text :: "nat \<Rightarrow> string" where
  "seconds_text us = dec_nat (us div 1000000) @ CHR ''.''
     # (let d = dec_nat (us mod 1000000) in replicate (6 - length d) (CHR ''0'') @ d)"

definition cmd_stat :: "modules \<Rightarrow> nat \<Rightarrow> string option \<Rightarrow> node \<Rightarrow> (string option \<times> node) option" where
  "cmd_stat M context param n = do {
     p \<leftarrow> param;
     x \<leftarrow> ctx_get context n;
     if p = ''mqlen'' then do {
       len \<leftarrow> skynet_mq_length (cx_queue x) (n_mq n);
       give_result context (dec_nat len) n
     } else if p = ''endless'' then
       if cx_endless x then give_result context ''1'' (ctx_put context (x\<lparr>cx_endless := False\<rparr>) n)
       else give_result context ''0'' n
     else if p = ''cpu'' then give_result context (seconds_text (unat (cx_cpu_cost x))) n
     else if p = ''time'' then
       if cx_profile x then give_result context (seconds_text (unat (md_time M n - cx_cpu_start x))) n
       else give_result context ''0'' n
     else if p = ''message'' then give_result context (dec_string (sint (cx_message_count x))) n
     else give_result context [] n
   }"

definition cmd_logon :: "modules \<Rightarrow> nat \<Rightarrow> string option \<Rightarrow> node \<Rightarrow> (string option \<times> node) option" where
  "cmd_logon M context param n = do {
     p \<leftarrow> param;
     (h, n1) \<leftarrow> tohandle M context p n;
     if h = 0 then Some (None, n1)
     else do {
       (r, n2) \<leftarrow> handle_grab h n1;
       (case r of
          None \<Rightarrow> Some (None, n2)
        | Some ctx \<Rightarrow> do {
            x \<leftarrow> ctx_get ctx n2;
            n3 \<leftarrow> (if cx_logfile x = None then do {
                (f, n3) \<leftarrow> skynet_log_open M context h n2;
                y \<leftarrow> ctx_get ctx n3;
                Some (if f \<noteq> None \<and> cx_logfile y = None then ctx_put ctx (y\<lparr>cx_logfile := f\<rparr>) n3 else n3)
              } else Some n2);
            (_, n4) \<leftarrow> skynet_context_release M ctx n3;
            Some (None, n4)
          })
     }
   }"

definition cmd_logoff :: "modules \<Rightarrow> nat \<Rightarrow> string option \<Rightarrow> node \<Rightarrow> (string option \<times> node) option" where
  "cmd_logoff M context param n = do {
     p \<leftarrow> param;
     (h, n1) \<leftarrow> tohandle M context p n;
     if h = 0 then Some (None, n1)
     else do {
       (r, n2) \<leftarrow> handle_grab h n1;
       (case r of
          None \<Rightarrow> Some (None, n2)
        | Some ctx \<Rightarrow> do {
            x \<leftarrow> ctx_get ctx n2;
            n3 \<leftarrow> (if cx_logfile x \<noteq> None
                then skynet_log_close M context h (ctx_put ctx (x\<lparr>cx_logfile := None\<rparr>) n2)
                else Some n2);
            (_, n4) \<leftarrow> skynet_context_release M ctx n3;
            Some (None, n4)
          })
     }
   }"

definition cmd_signal :: "modules \<Rightarrow> nat \<Rightarrow> string option \<Rightarrow> node \<Rightarrow> (string option \<times> node) option" where
  "cmd_signal M context param n = do {
     p \<leftarrow> param;
     (h, n1) \<leftarrow> tohandle M context p n;
     if h = 0 then Some (None, n1)
     else do {
       (r, n2) \<leftarrow> handle_grab h n1;
       (case r of
          None \<Rightarrow> Some (None, n2)
        | Some ctx \<Rightarrow> do {
            x \<leftarrow> ctx_get ctx n2;
            let sig = (case dropWhile (\<lambda>c. c \<noteq> CHR '' '') p of [] \<Rightarrow> 0 | q \<Rightarrow> word_of_int (strtol0 (ascii q)));
            n3 \<leftarrow> md_signal M (cx_mod x) (cx_instance x) sig n2;
            (_, n4) \<leftarrow> skynet_context_release M ctx n3;
            Some (None, n4)
          })
     }
   }"

type_synonym command = "modules \<Rightarrow> nat \<Rightarrow> string option \<Rightarrow> node \<Rightarrow> (string option \<times> node) option"

definition cmd_funcs :: "(string \<times> command) list" where
  "cmd_funcs = [
     (''TIMEOUT'', cmd_timeout), (''REG'', cmd_reg), (''QUERY'', cmd_query), (''NAME'', cmd_name),
     (''EXIT'', cmd_exit), (''KILL'', cmd_kill), (''LAUNCH'', cmd_launch), (''GETENV'', cmd_getenv),
     (''SETENV'', cmd_setenv), (''STARTTIME'', cmd_starttime), (''ABORT'', cmd_abort),
     (''MONITOR'', cmd_monitor), (''STAT'', cmd_stat), (''LOGON'', cmd_logon), (''LOGOFF'', cmd_logoff),
     (''SIGNAL'', cmd_signal)]"

fun run_command :: "(string \<times> command) list \<Rightarrow> modules \<Rightarrow> nat \<Rightarrow> string \<Rightarrow> string option \<Rightarrow> node
    \<Rightarrow> (string option \<times> node) option" where
  "run_command [] M context cmd param n = Some (None, n)"
| "run_command ((name, f) # rest) M context cmd param n =
     (if strcmp cmd name = 0 then f M context param n else run_command rest M context cmd param n)"

definition skynet_command :: "modules \<Rightarrow> nat \<Rightarrow> string \<Rightarrow> string option \<Rightarrow> node \<Rightarrow> (string option \<times> node) option" where
  "skynet_command = run_command cmd_funcs"

section \<open>Set-up\<close>

definition skynet_callback :: "nat \<Rightarrow> ptr \<Rightarrow> node \<Rightarrow> node option" where
  "skynet_callback context cb n = do { x \<leftarrow> ctx_get context n; Some (ctx_put context (x\<lparr>cx_cb := cb\<rparr>) n) }"

definition skynet_initthread :: "i32 \<Rightarrow> node \<Rightarrow> node" where
  "skynet_initthread m n = n\<lparr>n_current := - m\<rparr>"

text \<open>\<^verbatim>\<open>THREAD_MAIN\<close> is 1.\<close>

definition skynet_globalinit :: "node \<Rightarrow> node" where
  "skynet_globalinit n = skynet_initthread 1 (n\<lparr>n_total := 0, n_monitor_exit := 0\<rparr>)"

definition skynet_profile_enable :: "bool \<Rightarrow> node \<Rightarrow> node" where
  "skynet_profile_enable enable n = n\<lparr>n_profile := enable\<rparr>"

section \<open>Addresses as text\<close>

lemma unat_u32_64: "unat (h :: u32) < 2 ^ 64"
proof -
  have "unat h < 2 ^ 32" using unsigned_less [of h, where ?'a = nat] by simp
  then show ?thesis by (rule less_le_trans) simp
qed

lemma parse_hex_nat: "parse_handle (hex_nat (unat h)) = h"
proof -
  show ?thesis using strtoul16_hex [of "ascii (hex_nat (unat h))"] hex_nat_reads [of "unat h"] unat_u32_64 [of h]
    by (simp add: parse_handle_def)
qed

lemma parse_id_to_hex: "parse_handle (tl (id_to_hex h)) = h"
proof -
  let ?d = "\<lambda>k. unat h div 16 ^ (8 - 1 - k) mod 16"
  have nib: "unat (drop_bit ((7 - k) * 4) h AND 0xf) = ?d k" for k
  proof -
    have "unat (drop_bit ((7 - k) * 4) h AND 0xf) = unat (drop_bit ((7 - k) * 4) h AND mask 4)"
      by (simp add: mask_eq_exp_minus_1)
    also have "\<dots> = unat h div 2 ^ ((7 - k) * 4) mod 2 ^ 4" unfolding unat_and_mask unat_drop_bit ..
    also have "(2 :: nat) ^ ((7 - k) * 4) = 16 ^ (7 - k)" by (simp add: mult.commute power_mult)
    finally show ?thesis by simp
  qed
  have d: "digit_value (word_of_nat (of_char (''0123456789ABCDEF'' ! ?d k))) = ?d k" for k
    by (rule digit_tables(2)) simp
  let ?s = "ascii (tl (id_to_hex h))"
  have s: "?s = map (\<lambda>k. word_of_nat (of_char (''0123456789ABCDEF'' ! ?d k))) [0..<8]"
    unfolding id_to_hex_def ascii_def list.sel map_map comp_def nib ..
  have hex: "hex_text ?s" unfolding hex_text_def s using d by auto
  have "foldl (\<lambda>n c. n * 16 + digit_value c) 0 ?s = foldl (\<lambda>n d. n * 16 + d) 0 (map ?d [0..<8])"
    unfolding s foldl_map d ..
  also have "\<dots> = unat h" unfolding foldl_digits using unsigned_less [of h, where ?'a = nat] by simp
  finally have v: "foldl (\<lambda>n c. n * 16 + digit_value c) 0 ?s = unat h" .
  show ?thesis using strtoul16_hex [OF hex] v unat_u32_64 [of h] by (simp add: parse_handle_def)
qed

section \<open>Properties\<close>

text \<open>
  Property C22. The texts in which the commands report an address are read back as this
  address: eight upper-case digits by LAUNCH, the shortest lower-case digits by REG, QUERY and
  MONITOR; both by name queries and by the commands that take an address.
\<close>

theorem handle_text_roundtrip:
  "skynet_queryname M c (id_to_hex h) n = Some (h, n) \<and> skynet_queryname M c (hex_handle h) n = Some (h, n)
   \<and> tohandle M c (id_to_hex h) n = Some (h, n) \<and> tohandle M c (hex_handle h) n = Some (h, n)"
proof -
  have "id_to_hex h = CHR '':'' # tl (id_to_hex h)" by (simp add: id_to_hex_def)
  then obtain s where s: "id_to_hex h = CHR '':'' # s" "parse_handle s = h" using parse_id_to_hex by metis
  then show ?thesis by (simp add: skynet_queryname_def tohandle_def hex_handle_def parse_hex_nat)
qed

lemma command_table:
  "skynet_command M c ''REG'' p n = cmd_reg M c p n" "skynet_command M c ''QUERY'' p n = cmd_query M c p n"
  "skynet_command M c ''TIMEOUT'' p n = cmd_timeout M c p n" "skynet_command M c ''KILL'' p n = cmd_kill M c p n"
  by (simp_all add: skynet_command_def cmd_funcs_def)

text \<open>
  A service that registers a free local name with REG is found under it by every
  service's QUERY, which returns its address as text; the name is returned by REG.
\<close>

theorem reg_query:
  assumes ok: "names_ok (n_handles n)" "room_for_name (n_handles n)" and free: "name_map (n_handles n) name = None"
    and x: "n_ctx n c = Some x" "cx_handle x \<noteq> 0" and y: "n_ctx n d = Some y"
  shows "\<exists>n1 n2. skynet_command M c ''REG'' (Some (CHR ''.'' # name)) n = Some (Some name, n1)
    \<and> skynet_command M d ''QUERY'' (Some (CHR ''.'' # name)) n1 = Some (Some (hex_handle (cx_handle x)), n2)"
proof -
  have "dir_find name (n_handles n) = Some None" using dir_find_eq [OF ok(1)] free by simp
  from names.find_added [OF ok x(2) this] obtain hs where
    hs: "dir_add name (cx_handle x) (n_handles n) = Some (True, hs)" "names_ok hs" "dir_find name hs = Some (Some (cx_handle x))"
    by blast
  from hs(1) obtain r where r: "skynet_handle_namehandle (cx_handle x) name (n_handles n) = Some (Some r, hs)"
    by (auto simp: dir_add_def)
  then have "r = name"
    by (auto simp: skynet_handle_namehandle_def insert_name_def split: option.splits sum.splits bind_splits)
  then have reg: "skynet_command M c ''REG'' (Some (CHR ''.'' # name)) n = Some (Some name, n\<lparr>n_handles := hs\<rparr>)"
    using x(1) r by (simp add: command_table cmd_reg_def name_handle_def skynet_context_handle_def)
  have "skynet_handle_findname name hs = Some (cx_handle x)" using findname_dir [OF hs(2)] hs(3) by simp
  then have "skynet_command M d ''QUERY'' (Some (CHR ''.'' # name)) (n\<lparr>n_handles := hs\<rparr>)
      = Some (Some (hex_handle (cx_handle x)), ctx_put d (y\<lparr>cx_result := hex_handle (cx_handle x)\<rparr>) (n\<lparr>n_handles := hs\<rparr>))"
    using x(2) y by (simp add: command_table cmd_query_def give_result_def ctx_get_def)
  with reg show ?thesis by blast
qed

theorem reg_query_witness:
  "\<exists>n1 n2. skynet_command demo_modules 7 ''REG'' (Some ''.db'') demo_node = Some (Some ''db'', n1)
    \<and> skynet_command demo_modules 7 ''QUERY'' (Some ''.db'') n1 = Some (Some '':1000001'', n2)"
proof -
  have x: "n_ctx demo_node 7 = Some demo_context" "cx_handle demo_context = 0x01000001"
    by (simp_all add: demo_node_def demo_context_def)
  have st: "n_handles demo_node = demo_storage" by (simp add: demo_node_def)
  have "names_inv demo_storage" using demo_storage_inv by (simp add: handle_inv_def)
  then have ok: "names_ok demo_storage" by (simp add: names_ok_def name_map_def entries_def demo_storage_def)
  have "room_for_name demo_storage" by (simp add: room_for_name_def demo_storage_def MAX_SLOT_SIZE_def)
  moreover have "name_map demo_storage ''db'' = None" by (simp add: name_map_def entries_def demo_storage_def)
  moreover have "hex_handle 0x01000001 = '':1000001''" by (simp add: hex_handle_def hex_nat.simps hex_digit_def)
  ultimately show ?thesis
    using reg_query [of demo_node "''db''" 7 demo_context 7 demo_context demo_modules] ok x st by simp
qed

text \<open>
  The logger's handle is looked up once and kept; when the logger service is
  gone, each further line of \<^verbatim>\<open>skynet_error\<close> leaves its buffer allocated with no message that
  refers to it, because the result of \<^verbatim>\<open>skynet_context_push\<close> is not used.
\<close>

theorem error_line_leaks:
  assumes "node_inv n" "n_logger n \<noteq> 0" "service n (n_logger n) = None"
  shows "\<exists>n'. skynet_error M context msg n = Some n' \<and> n_mq n' = n_mq n
    \<and> n_mem n (n_mem_fresh n) = None \<and> n_mem n' (n_mem_fresh n) = Some (Bytes (line_buffer msg))"
proof -
  note malloc = node_inv_malloc(1) [OF assms(1), of "Bytes (line_buffer msg)"]
    node_inv_malloc(2) [OF assms(1), of "Bytes (line_buffer msg)"] node_inv_malloc(3) [OF assms(1)]
  have "service (snd (skynet_malloc (Bytes (line_buffer msg)) n)) (n_logger n) = None" using assms(3) malloc(1) by simp
  then have "skynet_error M context msg n = Some (snd (skynet_malloc (Bytes (line_buffer msg)) n))"
    using assms(2) malloc(1) context_push_total(1) [OF malloc(2)] by (simp add: skynet_error_def Let_def)
  then show ?thesis using malloc(1,3) by simp
qed

theorem error_line_leaks_witness:
  "\<exists>n'. skynet_error demo_modules None ''x'' (demo_node\<lparr>n_logger := 0x01000002\<rparr>) = Some n'
    \<and> n_mq n' = n_mq demo_node \<and> n_mem n' 1 = Some (Bytes [120, 0])"
proof -
  have "service demo_node 0x01000002 = None"
    by (simp add: service_def handle_table_def skynet_handle_grab_def demo_node_def demo_storage_def slot_size_def slot_hash_def)
  moreover have "n_mem_fresh demo_node = 1" by (simp add: demo_node_def)
  ultimately show ?thesis
    using error_line_leaks [OF node_inv_logger [OF demo_node_inv(1), of "0x01000002"], of demo_modules None "''x''"]
    by (auto simp: line_buffer_def LOG_MESSAGE_SIZE_def ascii_def)
qed

end
