(* ===== verification/Seri.thy ===== *)
theory Seri
  imports Cstring "HOL-Library.Finite_Map" "HOL-Library.List_Lexorder"
begin

text \<open>
  \<^verbatim>\<open>skynet/lualib-src/lua-seri.c\<close>: the serialisation of Lua values into message payloads.
  A Lua value is a datatype; a table is the finite map of its entries, keyed by the values that
  Lua compares by content (booleans, integers, floats, light userdata, strings). A float is its
  64 bits. A table with a \<^verbatim>\<open>__pairs\<close> metamethod is the list of pairs that its iterator yields;
  \<open>Other\<close> is a value of a type that is not supported. What Lua leaves open is a parameter: the
  length \<^verbatim>\<open>lua_rawlen\<close> reports and the order in which \<^verbatim>\<open>lua_next\<close> visits the entries. Memory is
  little endian, as on the machines the server runs on. \<^verbatim>\<open>luaL_error\<close> is a value of the sum type.
  The lengths of the blocks are the \<^verbatim>\<open>int\<close>s of the code. The Lua stack and the C stack are taken to
  be deep enough: \<^verbatim>\<open>luaL_checkstack\<close> raises no error.
\<close>

section \<open>Lua values\<close>

datatype lua_key = KBool bool | KInt i64 | KNum u64 | KPtr u64 | KStr bytes

datatype lua_value =
    Nil | Boolean bool | Integer i64 | Number u64 | LightUserdata u64 | LString bytes
  | LTable "(lua_key, lua_value) fmap" | Paired "(lua_value \<times> lua_value) list" | Other

datatype seri_error =
    TooDeep                \<comment> \<open>serialize can't pack too depth table\<close>
  | UnsupportType
  | InvalidStream nat      \<comment> \<open>with the number of bytes left\<close>
  | BlockTooBig            \<comment> \<open>raised by \<^verbatim>\<open>lua_pushlstring\<close>\<close>
  | KeyIsNaN               \<comment> \<open>raised by \<^verbatim>\<open>lua_rawset\<close>\<close>
  | KeyByIdentity          \<comment> \<open>not of the code: a table as a key, which Lua compares by identity\<close>
  | NullPointer            \<comment> \<open>deserialize null pointer\<close>
  | OutOfFuel              \<comment> \<open>not of the code; shown never to be reached\<close>

record lua_api =
  lua_rawlen :: "(lua_key, lua_value) fmap \<Rightarrow> nat"
  lua_pairs :: "(lua_key, lua_value) fmap \<Rightarrow> (lua_key \<times> lua_value) list"

fun key_value :: "lua_key \<Rightarrow> lua_value" where
  "key_value (KBool b) = Boolean b"
| "key_value (KInt i) = Integer i"
| "key_value (KNum x) = Number x"
| "key_value (KPtr p) = LightUserdata p"
| "key_value (KStr s) = LString s"

text \<open>Floats as keys: a float with an integer value is the key of this integer, NaN is refused.\<close>

definition float_nan :: "u64 \<Rightarrow> bool" where
  "float_nan x \<longleftrightarrow> drop_bit 52 x AND 0x7ff = 0x7ff \<and> x AND mask 52 \<noteq> 0"

definition float_int :: "u64 \<Rightarrow> i64 option" where
  "float_int x = (let e = unat (drop_bit 52 x AND 0x7ff); m = unat (x AND mask 52);
       neg = bit x 63; v = (if e \<ge> 1075 then Some ((2 ^ 52 + m) * 2 ^ (e - 1075))
         else if e = 0 then (if m = 0 then Some 0 else None)
         else if (2 ^ 52 + m) mod 2 ^ (1075 - e) = 0 then Some ((2 ^ 52 + m) div 2 ^ (1075 - e)) else None)
     in if e = 0x7ff then None
        else case v of
            None \<Rightarrow> None
          | Some k \<Rightarrow> if k < 2 ^ 63 then Some (if neg then - word_of_nat k else word_of_nat k)
              else if k = 2 ^ 63 \<and> neg then Some (- word_of_nat k) else None)"

fun to_key :: "lua_value \<Rightarrow> seri_error + lua_key" where
  "to_key (Boolean b) = Inr (KBool b)"
| "to_key (Integer i) = Inr (KInt i)"
| "to_key (Number x) = (if float_nan x then Inl KeyIsNaN
     else case float_int x of Some i \<Rightarrow> Inr (KInt i) | None \<Rightarrow> Inr (KNum x))"
| "to_key (LightUserdata p) = Inr (KPtr p)"
| "to_key (LString s) = Inr (KStr s)"
| "to_key _ = Inl KeyByIdentity"

text \<open>\<^verbatim>\<open>lua_rawset\<close>: assigning nil removes the entry.\<close>

definition raw_set :: "lua_key \<Rightarrow> lua_value \<Rightarrow> (lua_key, lua_value) fmap \<Rightarrow> (lua_key, lua_value) fmap" where
  "raw_set k v t = (if v = Nil then fmdrop k t else fmupd k v t)"

definition raw_geti :: "(lua_key, lua_value) fmap \<Rightarrow> nat \<Rightarrow> lua_value" where
  "raw_geti t i = (case fmlookup t (KInt (word_of_nat i)) of Some v \<Rightarrow> v | None \<Rightarrow> Nil)"

section \<open>Write blocks\<close>

definition TYPE_NIL :: u8 where "TYPE_NIL = 0"
definition TYPE_BOOLEAN :: u8 where "TYPE_BOOLEAN = 1"
definition TYPE_NUMBER :: u8 where "TYPE_NUMBER = 2"
definition TYPE_NUMBER_ZERO :: u8 where "TYPE_NUMBER_ZERO = 0"
definition TYPE_NUMBER_BYTE :: u8 where "TYPE_NUMBER_BYTE = 1"
definition TYPE_NUMBER_WORD :: u8 where "TYPE_NUMBER_WORD = 2"
definition TYPE_NUMBER_DWORD :: u8 where "TYPE_NUMBER_DWORD = 4"
definition TYPE_NUMBER_QWORD :: u8 where "TYPE_NUMBER_QWORD = 6"
definition TYPE_NUMBER_REAL :: u8 where "TYPE_NUMBER_REAL = 8"
definition TYPE_USERDATA :: u8 where "TYPE_USERDATA = 3"
definition TYPE_SHORT_STRING :: u8 where "TYPE_SHORT_STRING = 4"
definition TYPE_LONG_STRING :: u8 where "TYPE_LONG_STRING = 5"
definition TYPE_TABLE :: u8 where "TYPE_TABLE = 6"

lemmas type_defs = TYPE_NIL_def TYPE_BOOLEAN_def TYPE_NUMBER_def TYPE_NUMBER_ZERO_def TYPE_NUMBER_BYTE_def
  TYPE_NUMBER_WORD_def TYPE_NUMBER_DWORD_def TYPE_NUMBER_QWORD_def TYPE_NUMBER_REAL_def TYPE_USERDATA_def
  TYPE_SHORT_STRING_def TYPE_LONG_STRING_def TYPE_TABLE_def

definition MAX_COOKIE :: nat where "MAX_COOKIE = 32"
definition BLOCK_SIZE :: nat where "BLOCK_SIZE = 128"
definition MAX_DEPTH :: nat where "MAX_DEPTH = 32"

definition COMBINE_TYPE :: "u8 \<Rightarrow> u8 \<Rightarrow> u8" where
  "COMBINE_TYPE t v = t OR push_bit 3 v"

text \<open>
  The blocks before the current one are full; the current one holds the bytes up to \<^verbatim>\<open>ptr\<close>. The
  length is an \<^verbatim>\<open>int\<close>, which wraps around when more is pushed.
\<close>

record write_block =
  wb_done :: "bytes list"
  wb_cur :: bytes
  wb_len :: i32

definition wb_ptr :: "write_block \<Rightarrow> nat" where
  "wb_ptr b = length (wb_cur b)"

definition wb_init :: write_block where
  "wb_init = \<lparr>wb_done = [], wb_cur = [], wb_len = 0\<rparr>"

text \<open>\<^verbatim>\<open>b->current = b->current->next = blk_alloc(); b->ptr = 0\<close>\<close>

definition next_block :: "write_block \<Rightarrow> write_block" where
  "next_block b = b\<lparr>wb_done := wb_done b @ [wb_cur b], wb_cur := []\<rparr>"

definition wb_copy :: "bytes \<Rightarrow> write_block \<Rightarrow> write_block" where
  "wb_copy buf b = b\<lparr>wb_cur := wb_cur b @ buf, wb_len := wb_len b + word_of_nat (length buf)\<rparr>"

text \<open>The part of \<^verbatim>\<open>wb_push\<close> after the label \<^verbatim>\<open>_again\<close>: a new block is started and written.\<close>

function push_again :: "bytes \<Rightarrow> write_block \<Rightarrow> write_block" where
  "push_again buf b = (let b1 = next_block b in
     if length buf \<le> BLOCK_SIZE then wb_copy buf b1
     else push_again (drop BLOCK_SIZE buf) (wb_copy (take BLOCK_SIZE buf) b1))"
  by pat_completeness auto
termination
  by (relation "measure (\<lambda>(buf, _). length buf)") (auto simp: BLOCK_SIZE_def)

declare push_again.simps [simp del]

definition wb_push :: "bytes \<Rightarrow> write_block \<Rightarrow> write_block" where
  "wb_push buf b =
     (if wb_ptr b = BLOCK_SIZE then push_again buf b
      else if wb_ptr b + length buf \<le> BLOCK_SIZE then wb_copy buf b
      else let n = BLOCK_SIZE - wb_ptr b in push_again (drop n buf) (wb_copy (take n buf) b))"

text \<open>
  \<^verbatim>\<open>seri\<close>: the loop copies whole blocks and then the beginning of the current one. A negative
  length is a request for more memory than there is, which ends the process.
\<close>

fun seri_loop :: "bytes list \<Rightarrow> nat \<Rightarrow> bytes option" where
  "seri_loop bs len =
     (if len = 0 then Some []
      else case bs of
        [] \<Rightarrow> None
      | b # rest \<Rightarrow> if len \<ge> BLOCK_SIZE then map_option ((@) b) (seri_loop rest (len - BLOCK_SIZE))
          else if len \<le> length b then Some (take len b) else None)"

declare seri_loop.simps [simp del]

definition seri :: "write_block \<Rightarrow> bytes option" where
  "seri b = (let len = sint (wb_len b) in
     if len < 0 then None else seri_loop (wb_done b @ [wb_cur b]) (nat len))"

section \<open>Packing\<close>

text \<open>The memory of an integer of \<open>n\<close> bytes.\<close>

definition le_bytes :: "nat \<Rightarrow> u64 \<Rightarrow> bytes" where
  "le_bytes n v = map (\<lambda>k. ucast (drop_bit (8 * k) v)) [0..<n]"

definition wb_nil :: "write_block \<Rightarrow> write_block" where
  "wb_nil = wb_push [TYPE_NIL]"

definition wb_boolean :: "bool \<Rightarrow> write_block \<Rightarrow> write_block" where
  "wb_boolean b = wb_push [COMBINE_TYPE TYPE_BOOLEAN (if b then 1 else 0)]"

definition wb_integer :: "i64 \<Rightarrow> write_block \<Rightarrow> write_block" where
  "wb_integer v wb =
     (if v = 0 then wb_push [COMBINE_TYPE TYPE_NUMBER TYPE_NUMBER_ZERO] wb
      else if v \<noteq> scast (ucast v :: i32) then
        wb_push (le_bytes 8 v) (wb_push [COMBINE_TYPE TYPE_NUMBER TYPE_NUMBER_QWORD] wb)
      else if sint v < 0 then
        wb_push (le_bytes 4 v) (wb_push [COMBINE_TYPE TYPE_NUMBER TYPE_NUMBER_DWORD] wb)
      else if sint v < 0x100 then
        wb_push (le_bytes 1 v) (wb_push [COMBINE_TYPE TYPE_NUMBER TYPE_NUMBER_BYTE] wb)
      else if sint v < 0x10000 then
        wb_push (le_bytes 2 v) (wb_push [COMBINE_TYPE TYPE_NUMBER TYPE_NUMBER_WORD] wb)
      else wb_push (le_bytes 4 v) (wb_push [COMBINE_TYPE TYPE_NUMBER TYPE_NUMBER_DWORD] wb))"

definition wb_real :: "u64 \<Rightarrow> write_block \<Rightarrow> write_block" where
  "wb_real v wb = wb_push (le_bytes 8 v) (wb_push [COMBINE_TYPE TYPE_NUMBER TYPE_NUMBER_REAL] wb)"

definition wb_pointer :: "u64 \<Rightarrow> write_block \<Rightarrow> write_block" where
  "wb_pointer v wb = wb_push (le_bytes 8 v) (wb_push [TYPE_USERDATA] wb)"

text \<open>The length is cast to \<^verbatim>\<open>int\<close> by the caller.\<close>

definition wb_string :: "bytes \<Rightarrow> write_block \<Rightarrow> write_block" where
  "wb_string str wb = (let len = sint (word_of_nat (length str) :: i32) in
     if len < int MAX_COOKIE then
       let wb1 = wb_push [COMBINE_TYPE TYPE_SHORT_STRING (word_of_int len)] wb in
       if len > 0 then wb_push (take (nat len) str) wb1 else wb1
     else if len < 0x10000 then
       wb_push (take (nat len) str) (wb_push (le_bytes 2 (word_of_int len)) (wb_push [COMBINE_TYPE TYPE_LONG_STRING 2] wb))
     else
       wb_push (take (nat len) str) (wb_push (le_bytes 4 (word_of_int len)) (wb_push [COMBINE_TYPE TYPE_LONG_STRING 4] wb)))"

text \<open>The head of a table: the array size, in the cookie or as an integer behind it.\<close>

definition wb_table_head :: "nat \<Rightarrow> write_block \<Rightarrow> write_block" where
  "wb_table_head array_size wb =
     (if array_size \<ge> MAX_COOKIE - 1 then
        wb_integer (word_of_nat array_size) (wb_push [COMBINE_TYPE TYPE_TABLE (word_of_nat (MAX_COOKIE - 1))] wb)
      else wb_push [COMBINE_TYPE TYPE_TABLE (word_of_nat array_size)] wb)"

text \<open>The entries that \<^verbatim>\<open>wb_table_hash\<close> does not skip.\<close>

definition in_array :: "nat \<Rightarrow> lua_key \<Rightarrow> bool" where
  "in_array array_size k \<longleftrightarrow> (case k of KInt x \<Rightarrow> 0 < sint x \<and> sint x \<le> int array_size | _ \<Rightarrow> False)"

definition hash_entries :: "lua_api \<Rightarrow> (lua_key, lua_value) fmap \<Rightarrow> (lua_value \<times> lua_value) list" where
  "hash_entries api t = map (\<lambda>(k, v). (key_value k, v))
     (filter (\<lambda>(k, v). \<not> in_array (lua_rawlen api t) k) (lua_pairs api t))"

text \<open>
  \<open>pack_one\<close> with the loops of \<^verbatim>\<open>wb_table_array\<close> (\<open>pack_values\<close>) and of \<^verbatim>\<open>wb_table_hash\<close> and
  \<^verbatim>\<open>wb_table_metapairs\<close> (\<open>pack_pairs\<close>, with the final nil). The table case of \<open>pack_one\<close> is \<^verbatim>\<open>wb_table\<close>.
  The depth, bounded by \<open>MAX_DEPTH\<close>, makes the recursion end.
\<close>

function pack_one :: "lua_api \<Rightarrow> nat \<Rightarrow> lua_value \<Rightarrow> write_block \<Rightarrow> seri_error + write_block"
  and pack_values :: "lua_api \<Rightarrow> nat \<Rightarrow> lua_value list \<Rightarrow> write_block \<Rightarrow> seri_error + write_block"
  and pack_pairs :: "lua_api \<Rightarrow> nat \<Rightarrow> (lua_value \<times> lua_value) list \<Rightarrow> write_block \<Rightarrow> seri_error + write_block" where
  "pack_one api depth v b =
     (if depth > MAX_DEPTH then Inl TooDeep
      else case v of
        Nil \<Rightarrow> Inr (wb_nil b)
      | Integer x \<Rightarrow> Inr (wb_integer x b)
      | Number n \<Rightarrow> Inr (wb_real n b)
      | Boolean x \<Rightarrow> Inr (wb_boolean x b)
      | LString s \<Rightarrow> Inr (wb_string s b)
      | LightUserdata p \<Rightarrow> Inr (wb_pointer p b)
      | LTable t \<Rightarrow>
          (case pack_values api (depth + 1) (map (raw_geti t) [1..<lua_rawlen api t + 1]) (wb_table_head (lua_rawlen api t) b) of
             Inl e \<Rightarrow> Inl e
           | Inr b1 \<Rightarrow> pack_pairs api (depth + 1) (hash_entries api t) b1)
      | Paired ps \<Rightarrow> pack_pairs api (depth + 1) (takeWhile (\<lambda>(k, _). k \<noteq> Nil) ps)
          (wb_push [COMBINE_TYPE TYPE_TABLE 0] b)
      | Other \<Rightarrow> Inl UnsupportType)"
| "pack_values api depth [] b = Inr b"
| "pack_values api depth (v # vs) b = (case pack_one api depth v b of
     Inl e \<Rightarrow> Inl e | Inr b1 \<Rightarrow> pack_values api depth vs b1)"
| "pack_pairs api depth [] b = Inr (wb_nil b)"
| "pack_pairs api depth ((k, v) # ps) b = (case pack_one api depth k b of
     Inl e \<Rightarrow> Inl e
   | Inr b1 \<Rightarrow> (case pack_one api depth v b1 of Inl e \<Rightarrow> Inl e | Inr b2 \<Rightarrow> pack_pairs api depth ps b2))"
  by pat_completeness auto
termination
  by (relation "measures [\<lambda>x. case x of Inl (_, d, _) \<Rightarrow> 2 * (34 - d) | Inr (Inl (_, d, _)) \<Rightarrow> 2 * (34 - d) + 1
        | Inr (Inr (_, d, _)) \<Rightarrow> 2 * (34 - d) + 1,
      \<lambda>x. case x of Inl _ \<Rightarrow> 0 | Inr (Inl (_, _, vs, _)) \<Rightarrow> length vs | Inr (Inr (_, _, ps, _)) \<Rightarrow> length ps]")
    (auto simp: MAX_DEPTH_def)

declare pack_one.simps [simp del]

text \<open>\<^verbatim>\<open>pack_from\<close> packs the arguments one by one at depth 0.\<close>

definition pack_from :: "lua_api \<Rightarrow> lua_value list \<Rightarrow> write_block \<Rightarrow> seri_error + write_block" where
  "pack_from api args b = pack_values api 0 args b"

definition luaseri_pack :: "lua_api \<Rightarrow> lua_value list \<Rightarrow> (seri_error + bytes) option" where
  "luaseri_pack api args = (case pack_from api args wb_init of
     Inl e \<Rightarrow> Some (Inl e)
   | Inr b \<Rightarrow> map_option Inr (seri b))"

section \<open>Unpacking\<close>

text \<open>A read block is the list of the bytes not yet read.\<close>

definition rb_read :: "nat \<Rightarrow> bytes \<Rightarrow> (bytes \<times> bytes) option" where
  "rb_read sz rb = (if length rb < sz then None else Some (take sz rb, drop sz rb))"

definition le_val :: "bytes \<Rightarrow> u64" where
  "le_val bs = foldr (\<lambda>b acc. push_bit 8 acc OR ucast b) bs 0"

definition invalid_stream :: "bytes \<Rightarrow> seri_error + 'a" where
  "invalid_stream rb = Inl (InvalidStream (length rb))"

text \<open>Reading \<open>n\<close> bytes and going on with them, or the error.\<close>

definition with_bytes :: "nat \<Rightarrow> bytes \<Rightarrow> (bytes \<Rightarrow> 'a) \<Rightarrow> seri_error + ('a \<times> bytes)" where
  "with_bytes n rb f = (case rb_read n rb of None \<Rightarrow> invalid_stream rb | Some (p, rb1) \<Rightarrow> Inr (f p, rb1))"

definition get_integer :: "u8 \<Rightarrow> bytes \<Rightarrow> seri_error + (i64 \<times> bytes)" where
  "get_integer cookie rb =
     (if cookie = TYPE_NUMBER_ZERO then Inr (0, rb)
      else if cookie = TYPE_NUMBER_BYTE then with_bytes 1 rb le_val
      else if cookie = TYPE_NUMBER_WORD then with_bytes 2 rb le_val
      else if cookie = TYPE_NUMBER_DWORD then with_bytes 4 rb (\<lambda>p. scast (ucast (le_val p) :: i32))
      else if cookie = TYPE_NUMBER_QWORD then with_bytes 8 rb le_val
      else invalid_stream rb)"

definition get_real :: "bytes \<Rightarrow> seri_error + (u64 \<times> bytes)" where
  "get_real rb = with_bytes 8 rb le_val"

definition get_pointer :: "bytes \<Rightarrow> seri_error + (u64 \<times> bytes)" where
  "get_pointer rb = with_bytes 8 rb le_val"

text \<open>
  The length is an \<^verbatim>\<open>int\<close>: for a negative one \<^verbatim>\<open>rb_read\<close> moves backwards and \<^verbatim>\<open>lua_pushlstring\<close>
  refuses the length.
\<close>

definition get_buffer :: "u32 \<Rightarrow> bytes \<Rightarrow> seri_error + (bytes \<times> bytes)" where
  "get_buffer len rb = (if sint len < 0 then Inl BlockTooBig else with_bytes (unat len) rb id)"

definition map_value :: "('a \<Rightarrow> lua_value) \<Rightarrow> seri_error + ('a \<times> bytes) \<Rightarrow> seri_error + (lua_value \<times> bytes)" where
  "map_value f r = map_sum id (map_prod f id) r"

text \<open>\<^verbatim>\<open>push_value\<close> on all types but tables.\<close>

definition push_scalar :: "u8 \<Rightarrow> u8 \<Rightarrow> bytes \<Rightarrow> seri_error + (lua_value \<times> bytes)" where
  "push_scalar t cookie rb =
     (if t = TYPE_NIL then Inr (Nil, rb)
      else if t = TYPE_BOOLEAN then Inr (Boolean (cookie \<noteq> 0), rb)
      else if t = TYPE_NUMBER then
        if cookie = TYPE_NUMBER_REAL then map_value Number (get_real rb)
        else map_value Integer (get_integer cookie rb)
      else if t = TYPE_USERDATA then map_value LightUserdata (get_pointer rb)
      else if t = TYPE_SHORT_STRING then map_value LString (get_buffer (ucast cookie) rb)
      else if t = TYPE_LONG_STRING then
        if cookie = 2 then (case with_bytes 2 rb le_val of
            Inl e \<Rightarrow> Inl e | Inr (n, rb1) \<Rightarrow> map_value LString (get_buffer (ucast n) rb1))
        else if cookie \<noteq> 4 then invalid_stream rb
        else (case with_bytes 4 rb le_val of
            Inl e \<Rightarrow> Inl e | Inr (n, rb1) \<Rightarrow> map_value LString (get_buffer (ucast n) rb1))
      else invalid_stream rb)"

text \<open>The beginning of \<^verbatim>\<open>unpack_table\<close>: the array size, an \<^verbatim>\<open>int\<close>.\<close>

definition table_size :: "u8 \<Rightarrow> bytes \<Rightarrow> seri_error + (int \<times> bytes)" where
  "table_size cookie rb =
     (if unat cookie = MAX_COOKIE - 1 then
        case rb of
          [] \<Rightarrow> invalid_stream rb
        | t # rb1 \<Rightarrow>
            if t AND 7 \<noteq> TYPE_NUMBER \<or> drop_bit 3 t = TYPE_NUMBER_REAL then invalid_stream rb1
            else map_sum id (map_prod (\<lambda>v. sint (ucast v :: i32)) id) (get_integer (drop_bit 3 t) rb1)
      else Inr (int (unat cookie), rb))"

text \<open>
  The recursion of \<^verbatim>\<open>push_value\<close>, \<^verbatim>\<open>unpack_one\<close> and the two loops of \<^verbatim>\<open>unpack_table\<close>, with fuel: each
  nested call uses one unit. Four units per byte are enough (lemma \<open>fuel_enough\<close>), because every
  value takes at least one byte.
\<close>

function (sequential) push_value :: "nat \<Rightarrow> u8 \<Rightarrow> u8 \<Rightarrow> bytes \<Rightarrow> seri_error + (lua_value \<times> bytes)"
  and unpack_one :: "nat \<Rightarrow> bytes \<Rightarrow> seri_error + (lua_value \<times> bytes)"
  and unpack_array :: "nat \<Rightarrow> int \<Rightarrow> int \<Rightarrow> bytes \<Rightarrow> (lua_key, lua_value) fmap \<Rightarrow> seri_error + (lua_value \<times> bytes)"
  and unpack_hash :: "nat \<Rightarrow> bytes \<Rightarrow> (lua_key, lua_value) fmap \<Rightarrow> seri_error + (lua_value \<times> bytes)" where
  "push_value 0 t cookie rb = Inl OutOfFuel"
| "push_value (Suc f) t cookie rb =
     (if t = TYPE_TABLE then (case table_size cookie rb of
          Inl e \<Rightarrow> Inl e | Inr (n, rb1) \<Rightarrow> unpack_array f n 1 rb1 fmempty)
      else push_scalar t cookie rb)"
| "unpack_one 0 rb = Inl OutOfFuel"
| "unpack_one (Suc f) rb = (case rb of
     [] \<Rightarrow> invalid_stream rb | t # rb1 \<Rightarrow> push_value f (t AND 7) (drop_bit 3 t) rb1)"
| "unpack_array 0 n i rb tab = Inl OutOfFuel"
| "unpack_array (Suc f) n i rb tab =
     (if i \<le> n then (case unpack_one f rb of
          Inl e \<Rightarrow> Inl e
        | Inr (v, rb1) \<Rightarrow> unpack_array f n (i + 1) rb1 (raw_set (KInt (word_of_int i)) v tab))
      else unpack_hash f rb tab)"
| "unpack_hash 0 rb tab = Inl OutOfFuel"
| "unpack_hash (Suc f) rb tab = (case unpack_one f rb of
     Inl e \<Rightarrow> Inl e
   | Inr (k, rb1) \<Rightarrow>
       if k = Nil then Inr (LTable tab, rb1)
       else (case unpack_one f rb1 of
           Inl e \<Rightarrow> Inl e
         | Inr (v, rb2) \<Rightarrow> (case to_key k of Inl e \<Rightarrow> Inl e | Inr key \<Rightarrow> unpack_hash f rb2 (raw_set key v tab))))"
  by pat_completeness auto
termination
  by (relation "measure (\<lambda>x. case x of Inl (Inl (f, _)) \<Rightarrow> f | Inl (Inr (f, _)) \<Rightarrow> f
      | Inr (Inl (f, _)) \<Rightarrow> f | Inr (Inr (f, _)) \<Rightarrow> f)") simp_all

text \<open>The loop of \<^verbatim>\<open>luaseri_unpack\<close>.\<close>

fun unpack_all :: "nat \<Rightarrow> bytes \<Rightarrow> seri_error + lua_value list" where
  "unpack_all 0 rb = Inl OutOfFuel"
| "unpack_all (Suc f) rb = (case rb of
     [] \<Rightarrow> Inr []
   | t # rb1 \<Rightarrow> (case push_value f (t AND 7) (drop_bit 3 t) rb1 of
       Inl e \<Rightarrow> Inl e
     | Inr (v, rb2) \<Rightarrow> map_sum id ((#) v) (unpack_all f rb2)))"

text \<open>
  The argument: nothing or nil, a string, a block of memory with its length, or a null pointer. The
  length is cast to \<^verbatim>\<open>int\<close>; with a negative one nothing can be read.
\<close>

datatype unpack_arg = NoneOrNil | StringArg bytes | PointerArg bytes | NullArg nat

definition unpack_block :: "bytes \<Rightarrow> seri_error + lua_value list" where
  "unpack_block buffer = (let len = sint (word_of_nat (length buffer) :: i32) in
     if len \<le> 0 then Inr [] else unpack_all (4 * nat len + 1) (take (nat len) buffer))"

definition luaseri_unpack :: "unpack_arg \<Rightarrow> seri_error + lua_value list" where
  "luaseri_unpack arg = (case arg of
     NoneOrNil \<Rightarrow> Inr []
   | StringArg buffer \<Rightarrow> unpack_block buffer
   | PointerArg buffer \<Rightarrow> unpack_block buffer
   | NullArg len \<Rightarrow> if (word_of_nat len :: i32) = 0 then Inr [] else Inl NullPointer)"

lemma sint_of_nat32: "n < 2 ^ 31 \<Longrightarrow> sint (word_of_nat n :: i32) = int n"
  by (simp add: signed_of_nat signed_take_bit_int_eq_self)

lemma unpack_block_bytes:
  assumes "length rb < 2 ^ 31"
  shows "unpack_block rb = unpack_all (4 * length rb + 1) rb"
proof (cases "rb = []")
  case False
  then show ?thesis using sint_of_nat32 [OF assms] by (simp add: unpack_block_def Let_def del: unpack_all.simps)
qed (simp add: unpack_block_def)

section \<open>The blocks hold what was pushed\<close>

definition content :: "write_block \<Rightarrow> bytes" where
  "content b = concat (wb_done b) @ wb_cur b"

definition wb_inv :: "write_block \<Rightarrow> bool" where
  "wb_inv b \<longleftrightarrow> (\<forall>x \<in> set (wb_done b). length x = BLOCK_SIZE) \<and> wb_ptr b \<le> BLOCK_SIZE \<and> wb_len b = word_of_nat (length (content b))"

lemma wb_init_inv [inv_intros]: "wb_inv wb_init" "content wb_init = []"
  by (simp_all add: wb_inv_def wb_init_def content_def wb_ptr_def)

lemma push_again_correct:
  "wb_inv b \<Longrightarrow> wb_ptr b = BLOCK_SIZE \<Longrightarrow> wb_inv (push_again buf b) \<and> content (push_again buf b) = content b @ buf"
proof (induction buf b rule: push_again.induct)
  case (1 buf b)
  let ?b1 = "next_block b"
  have b1: "wb_inv ?b1" "content ?b1 = content b" "wb_ptr ?b1 = 0"
    using "1.prems" by (auto simp: next_block_def wb_inv_def content_def wb_ptr_def)
  show ?case
  proof (cases "length buf \<le> BLOCK_SIZE")
    case True
    then show ?thesis using b1
      by (subst (1 2) push_again.simps) (auto simp: wb_copy_def wb_inv_def content_def wb_ptr_def)
  next
    case False
    let ?b2 = "wb_copy (take BLOCK_SIZE buf) ?b1"
    have "wb_inv ?b2" "wb_ptr ?b2 = BLOCK_SIZE" "content ?b2 = content b @ take BLOCK_SIZE buf"
      using b1 False by (auto simp: wb_copy_def wb_inv_def content_def wb_ptr_def)
    with "1.IH" [OF refl False] False show ?thesis by (subst (1 2) push_again.simps) simp
  qed
qed

lemma wb_push_correct [simp]:
  assumes "wb_inv b"
  shows "wb_inv (wb_push buf b)" "content (wb_push buf b) = content b @ buf"
proof -
  have "wb_inv (wb_push buf b) \<and> content (wb_push buf b) = content b @ buf"
  proof (cases "wb_ptr b = BLOCK_SIZE"; cases "wb_ptr b + length buf \<le> BLOCK_SIZE")
    assume "wb_ptr b = BLOCK_SIZE"
    then show ?thesis using push_again_correct [OF assms, of buf] by (simp add: wb_push_def)
    then show ?thesis .
  next
    assume "wb_ptr b \<noteq> BLOCK_SIZE" "wb_ptr b + length buf \<le> BLOCK_SIZE"
    then show ?thesis using assms by (simp add: wb_push_def) (simp add: wb_copy_def wb_inv_def content_def wb_ptr_def)
  next
    assume False: "wb_ptr b \<noteq> BLOCK_SIZE" "\<not> wb_ptr b + length buf \<le> BLOCK_SIZE"
    let ?n = "BLOCK_SIZE - wb_ptr b"
    let ?b1 = "wb_copy (take ?n buf) b"
    have "wb_inv ?b1" "wb_ptr ?b1 = BLOCK_SIZE" "content ?b1 = content b @ take ?n buf"
      using assms False by (auto simp: wb_copy_def wb_inv_def content_def wb_ptr_def)
    with push_again_correct [of ?b1 "drop ?n buf"] False show ?thesis by (simp add: wb_push_def Let_def)
  qed
  then show "wb_inv (wb_push buf b)" "content (wb_push buf b) = content b @ buf" by auto
qed

lemma seri_loop_correct:
  assumes "\<forall>x \<in> set bs. length x = BLOCK_SIZE" "length b \<le> BLOCK_SIZE"
  shows "seri_loop (bs @ [b]) (length (concat bs @ b)) = Some (concat bs @ b)"
  using assms(1)
proof (induction bs)
  case Nil
  then show ?case using assms(2)
    by (cases "length b = BLOCK_SIZE") (auto simp: seri_loop.simps [of "[b]"] seri_loop.simps [of "[]"] BLOCK_SIZE_def)
next
  case (Cons x xs)
  then have "length x = BLOCK_SIZE" "0 < BLOCK_SIZE" by (simp_all add: BLOCK_SIZE_def)
  with Cons show ?case by (subst seri_loop.simps) simp
qed

lemma seri_correct:
  assumes "wb_inv b" "length (content b) < 2 ^ 31"
  shows "seri b = Some (content b)"
  using assms sint_of_nat32 [OF assms(2)] seri_loop_correct [of "wb_done b" "wb_cur b"] by (simp add: seri_def wb_inv_def content_def wb_ptr_def nat_add_distrib)

section \<open>Fuel\<close>

lemma with_bytes_shorter: "with_bytes n rb f = Inr (x, rb') \<Longrightarrow> length rb' \<le> length rb"
  by (auto simp: with_bytes_def rb_read_def invalid_stream_def split: if_splits)

lemma with_bytes_fuel [simp]: "with_bytes n rb f \<noteq> Inl OutOfFuel"
  by (auto simp: with_bytes_def rb_read_def invalid_stream_def)

lemma get_integer_facts:
  "get_integer c rb = Inr (x, rb') \<Longrightarrow> length rb' \<le> length rb" "get_integer c rb \<noteq> Inl OutOfFuel"
  by (auto simp: get_integer_def invalid_stream_def dest: with_bytes_shorter split: if_splits)

lemma get_buffer_facts:
  "get_buffer len rb = Inr (x, rb') \<Longrightarrow> length rb' \<le> length rb" "get_buffer len rb \<noteq> Inl OutOfFuel"
  by (auto simp: get_buffer_def dest: with_bytes_shorter split: if_splits)

lemma map_value_facts:
  "map_value g r = Inr (x, rb') \<longleftrightarrow> (\<exists>y. r = Inr (y, rb') \<and> x = g y)" "map_value g r = Inl e \<longleftrightarrow> r = Inl e"
  by (cases r; auto simp: map_value_def)+

lemma push_scalar_facts:
  "push_scalar t c rb = Inr (x, rb') \<Longrightarrow> length rb' \<le> length rb" "push_scalar t c rb \<noteq> Inl OutOfFuel"
  by (auto simp: push_scalar_def map_value_facts invalid_stream_def get_real_def get_pointer_def
      dest!: with_bytes_shorter get_integer_facts(1) get_buffer_facts(1)
      simp: get_integer_facts(2) get_buffer_facts(2) split: if_splits sum.splits)

lemma table_size_facts:
  "table_size c rb = Inr (n, rb') \<Longrightarrow> length rb' \<le> length rb" "table_size c rb \<noteq> Inl OutOfFuel"
proof -
  show "length rb' \<le> length rb" if "table_size c rb = Inr (n, rb')"
  proof (cases rb)
    case (Cons t rb1)
    then show ?thesis using that get_integer_facts(1) [of "drop_bit 3 t" rb1]
      by (cases "get_integer (drop_bit 3 t) rb1") (auto simp: table_size_def invalid_stream_def split: if_splits)
  qed (use that in \<open>auto simp: table_size_def invalid_stream_def split: if_splits\<close>)
  show "table_size c rb \<noteq> Inl OutOfFuel"
  proof (cases rb)
    case (Cons t rb1)
    then show ?thesis using get_integer_facts(2) [of "drop_bit 3 t" rb1]
      by (cases "get_integer (drop_bit 3 t) rb1") (auto simp: table_size_def invalid_stream_def)
  qed (auto simp: table_size_def invalid_stream_def)
qed

text \<open>Whatever the fuel, a value takes at least one byte.\<close>

lemma unpack_shorter:
  "(\<forall>t c rb x rb'. push_value f t c rb = Inr (x, rb') \<longrightarrow> length rb' \<le> length rb)
   \<and> (\<forall>rb x rb'. unpack_one f rb = Inr (x, rb') \<longrightarrow> length rb' < length rb)
   \<and> (\<forall>n i rb tab x rb'. unpack_array f n i rb tab = Inr (x, rb') \<longrightarrow> length rb' \<le> length rb)
   \<and> (\<forall>rb tab x rb'. unpack_hash f rb tab = Inr (x, rb') \<longrightarrow> length rb' \<le> length rb)"
proof (induction f)
  case (Suc f)
  have p: "length rb' \<le> length rb" if "push_value f t c rb = Inr (x, rb')" for t c rb x rb' using Suc.IH that by blast
  have o: "length rb' < length rb" if "unpack_one f rb = Inr (x, rb')" for rb x rb' using Suc.IH that by blast
  have a: "length rb' \<le> length rb" if "unpack_array f n i rb tab = Inr (x, rb')" for n i rb tab x rb' using Suc.IH that by blast
  have h: "length rb' \<le> length rb" if "unpack_hash f rb tab = Inr (x, rb')" for rb tab x rb' using Suc.IH that by blast
  show ?case
  proof (intro conjI allI impI)
    fix t c rb x rb' assume *: "push_value (Suc f) t c rb = Inr (x, rb')"
    show "length rb' \<le> length rb"
    proof (cases "t = TYPE_TABLE")
      case True
      with * obtain n rb1 where "table_size c rb = Inr (n, rb1)" "unpack_array f n 1 rb1 fmempty = Inr (x, rb')"
        by (auto split: sum.splits)
      then show ?thesis using a table_size_facts(1) by (meson le_trans)
    next
      case False
      with * show ?thesis using push_scalar_facts(1) by simp
    qed
  next
    fix rb x rb' assume "unpack_one (Suc f) rb = Inr (x, rb')"
    then show "length rb' < length rb" using p by (auto simp: invalid_stream_def le_imp_less_Suc split: list.splits)
  next
    fix n i rb tab x rb' assume *: "unpack_array (Suc f) n i rb tab = Inr (x, rb')"
    show "length rb' \<le> length rb"
    proof (cases "i \<le> n")
      case True
      with * obtain v rb1 where "unpack_one f rb = Inr (v, rb1)"
        "unpack_array f n (i + 1) rb1 (raw_set (KInt (word_of_int i)) v tab) = Inr (x, rb')"
        by (auto split: sum.splits)
      then show ?thesis using a o by (meson le_trans less_imp_le)
    next
      case False
      with * show ?thesis using h by simp
    qed
  next
    fix rb tab x rb' assume *: "unpack_hash (Suc f) rb tab = Inr (x, rb')"
    then obtain k rb1 where k: "unpack_one f rb = Inr (k, rb1)" by (auto split: sum.splits)
    show "length rb' \<le> length rb"
    proof (cases "k = Nil")
      case True
      with * k show ?thesis using o [OF k] by simp
    next
      case False
      with * k obtain v rb2 key where "unpack_one f rb1 = Inr (v, rb2)" "unpack_hash f rb2 (raw_set key v tab) = Inr (x, rb')"
        by (auto split: sum.splits)
      then show ?thesis using o [OF k] o h by (meson le_trans less_imp_le)
    qed
  qed
qed simp

lemmas unpack_one_shorter = unpack_shorter [THEN conjunct2, THEN conjunct1, rule_format]
lemmas push_value_shorter = unpack_shorter [THEN conjunct1, rule_format]

lemma fuel_enough:
  "(\<forall>t c rb. 4 * length rb + 4 \<le> f \<longrightarrow> push_value f t c rb \<noteq> Inl OutOfFuel)
   \<and> (\<forall>rb. 4 * length rb + 1 \<le> f \<longrightarrow> unpack_one f rb \<noteq> Inl OutOfFuel)
   \<and> (\<forall>n i rb tab. 4 * length rb + 3 \<le> f \<longrightarrow> unpack_array f n i rb tab \<noteq> Inl OutOfFuel)
   \<and> (\<forall>rb tab. 4 * length rb + 2 \<le> f \<longrightarrow> unpack_hash f rb tab \<noteq> Inl OutOfFuel)"
proof (induction f)
  case (Suc f)
  have p: "push_value f t c rb \<noteq> Inl OutOfFuel" if "4 * length rb + 4 \<le> f" for t c rb using Suc.IH that by blast
  have o: "unpack_one f rb \<noteq> Inl OutOfFuel" if "4 * length rb + 1 \<le> f" for rb using Suc.IH that by blast
  have a: "unpack_array f n i rb tab \<noteq> Inl OutOfFuel" if "4 * length rb + 3 \<le> f" for n i rb tab using Suc.IH that by blast
  have h: "unpack_hash f rb tab \<noteq> Inl OutOfFuel" if "4 * length rb + 2 \<le> f" for rb tab using Suc.IH that by blast
  show ?case
  proof (intro conjI allI impI)
    fix t c and rb :: bytes assume f: "4 * length rb + 4 \<le> Suc f"
    have "unpack_array f n 1 rb1 fmempty \<noteq> Inl OutOfFuel" if "table_size c rb = Inr (n, rb1)" for n rb1
      by (rule a) (use table_size_facts(1) [OF that] f in linarith)
    then show "push_value (Suc f) t c rb \<noteq> Inl OutOfFuel"
      using push_scalar_facts(2) table_size_facts(2) by (auto split: sum.splits)
  next
    fix rb :: bytes assume f: "4 * length rb + 1 \<le> Suc f"
    have "push_value f (t AND 7) (drop_bit 3 t) rb1 \<noteq> Inl OutOfFuel" if "rb = t # rb1" for t rb1
      by (rule p) (use f that in simp)
    then show "unpack_one (Suc f) rb \<noteq> Inl OutOfFuel" by (auto simp: invalid_stream_def split: list.splits)
  next
    fix n i tab and rb :: bytes assume f: "4 * length rb + 3 \<le> Suc f"
    have "unpack_array f n (i + 1) rb1 (raw_set (KInt (word_of_int i)) v tab) \<noteq> Inl OutOfFuel"
      if "unpack_one f rb = Inr (v, rb1)" for v rb1
      by (rule a) (use unpack_one_shorter [OF that] f in linarith)
    then show "unpack_array (Suc f) n i rb tab \<noteq> Inl OutOfFuel"
      using o [of rb] h [of rb tab] f by (auto split: sum.splits)
  next
    fix tab and rb :: bytes assume f: "4 * length rb + 2 \<le> Suc f"
    have one: "unpack_one f rb1 \<noteq> Inl OutOfFuel" if "unpack_one f rb = Inr (k, rb1)" for k rb1
      by (rule o) (use unpack_one_shorter [OF that] f in linarith)
    have "unpack_hash f rb2 (raw_set key v tab) \<noteq> Inl OutOfFuel"
      if "unpack_one f rb = Inr (k, rb1)" "unpack_one f rb1 = Inr (v, rb2)" for k rb1 v rb2 key
      by (rule h) (use unpack_one_shorter [OF that(1)] unpack_one_shorter [OF that(2)] f in linarith)
    moreover have "to_key k \<noteq> Inl OutOfFuel" for k by (cases k) (auto split: option.splits)
    ultimately show "unpack_hash (Suc f) rb tab \<noteq> Inl OutOfFuel"
      using o [of rb] one f by (auto split: sum.splits)
  qed
qed simp

text \<open>More fuel does not change a result.\<close>

lemma fuel_step:
  "(\<forall>t c rb. push_value f t c rb \<noteq> Inl OutOfFuel \<longrightarrow> push_value (Suc f) t c rb = push_value f t c rb)
   \<and> (\<forall>rb. unpack_one f rb \<noteq> Inl OutOfFuel \<longrightarrow> unpack_one (Suc f) rb = unpack_one f rb)
   \<and> (\<forall>n i rb tab. unpack_array f n i rb tab \<noteq> Inl OutOfFuel \<longrightarrow> unpack_array (Suc f) n i rb tab = unpack_array f n i rb tab)
   \<and> (\<forall>rb tab. unpack_hash f rb tab \<noteq> Inl OutOfFuel \<longrightarrow> unpack_hash (Suc f) rb tab = unpack_hash f rb tab)"
proof (induction f)
  case (Suc f)
  define g where "g = Suc f"
  have p: "push_value g t c rb = push_value f t c rb" if "push_value f t c rb \<noteq> Inl OutOfFuel" for t c rb
    unfolding g_def using Suc.IH that by blast
  have o: "unpack_one g rb = unpack_one f rb" if "unpack_one f rb \<noteq> Inl OutOfFuel" for rb
    unfolding g_def using Suc.IH that by blast
  have a: "unpack_array g n i rb tab = unpack_array f n i rb tab" if "unpack_array f n i rb tab \<noteq> Inl OutOfFuel" for n i rb tab
    unfolding g_def using Suc.IH that by blast
  have h: "unpack_hash g rb tab = unpack_hash f rb tab" if "unpack_hash f rb tab \<noteq> Inl OutOfFuel" for rb tab
    unfolding g_def using Suc.IH that by blast
  note S = push_value.simps(2) [of g] push_value.simps(2) [of f] unpack_one.simps(2) [of g] unpack_one.simps(2) [of f]
    unpack_array.simps(2) [of g] unpack_array.simps(2) [of f] unpack_hash.simps(2) [of g] unpack_hash.simps(2) [of f]
  have "push_value (Suc g) t c rb = push_value (Suc f) t c rb" if "push_value (Suc f) t c rb \<noteq> Inl OutOfFuel" for t c rb
    using that a unfolding S by (auto split: sum.splits)
  moreover have "unpack_one (Suc g) rb = unpack_one (Suc f) rb" if "unpack_one (Suc f) rb \<noteq> Inl OutOfFuel" for rb
    using that p unfolding S by (auto split: list.splits)
  moreover have "unpack_array (Suc g) n i rb tab = unpack_array (Suc f) n i rb tab"
    if r: "unpack_array (Suc f) n i rb tab \<noteq> Inl OutOfFuel" for n i rb tab
  proof (cases "i \<le> n")
    case True
    then have u: "unpack_one f rb \<noteq> Inl OutOfFuel" using r unfolding S by auto
    show ?thesis using r True a unfolding S o [OF u] by (auto split: sum.splits)
  next
    case False
    then show ?thesis using r h unfolding S by auto
  qed
  moreover have "unpack_hash (Suc g) rb tab = unpack_hash (Suc f) rb tab"
    if r: "unpack_hash (Suc f) rb tab \<noteq> Inl OutOfFuel" for rb tab
  proof -
    have u: "unpack_one f rb \<noteq> Inl OutOfFuel" using r unfolding S by auto
    have u1: "unpack_one g rb1 = unpack_one f rb1" if "unpack_one f rb = Inr (k, rb1)" "k \<noteq> Nil" for k rb1
      by (rule o) (use r that in \<open>auto simp: S\<close>)
    show ?thesis
    proof (cases "unpack_one f rb")
      case (Inr x)
      obtain k rb1 where x: "x = (k, rb1)" by (cases x)
      show ?thesis
      proof (cases "k = Nil")
        case False
        then show ?thesis using r h u1 [of k rb1] Inr x unfolding S o [OF u] by (auto split: sum.splits)
      qed (simp add: S o [OF u] Inr x)
    qed (simp add: S o [OF u])
  qed
  ultimately show ?case by (fold g_def) blast
qed simp

lemma fuel_mono:
  assumes "push_value f t c rb = r" "r \<noteq> Inl OutOfFuel" "f \<le> f'"
  shows "push_value f' t c rb = r"
  using assms(3) by (induction f' rule: dec_induct) (use assms fuel_step in auto)

section \<open>The encodings of scalars\<close>

lemma combine_type:
  fixes t v :: u8
  assumes "t < 8" "v < 32"
  shows "COMBINE_TYPE t v AND 7 = t" "drop_bit 3 (COMBINE_TYPE t v) = v"
proof -
  have "uint t < 2 ^ 3" "uint v < 2 ^ 5" using assms by (simp_all add: word_less_def)
  then have t: "take_bit 3 t = t" and v: "take_bit 5 v = v" by (simp_all only: take_bit_eq_mask mask_eq_iff)
  have m: "(7 :: u8) = mask 3" by (simp add: mask_eq_exp_minus_1)
  have bt: "bit t i \<Longrightarrow> i < 3" for i using arg_cong [OF t, of "\<lambda>x. bit x i"] by (auto simp: bit_take_bit_iff)
  have bv: "bit v i \<Longrightarrow> i < 5" for i using arg_cong [OF v, of "\<lambda>x. bit x i"] by (auto simp: bit_take_bit_iff)
  show "COMBINE_TYPE t v AND 7 = t" unfolding COMBINE_TYPE_def m
    by (rule bit_eqI) (auto simp: bit_simps dest: bt)
  show "drop_bit 3 (COMBINE_TYPE t v) = v" unfolding COMBINE_TYPE_def
    by (rule bit_eqI) (auto simp: bit_simps dest: bt bv)
qed

lemma le_bytes_Suc: "le_bytes (Suc n) v = ucast v # le_bytes n (drop_bit 8 v)"
proof -
  have "map (\<lambda>k. ucast (drop_bit (8 * k) v) :: u8) [1..<Suc n] = map (\<lambda>k. ucast (drop_bit (8 * Suc k) v)) [0..<n]"
    by (rule nth_equalityI) (auto simp del: upt_Suc)
  then show ?thesis by (simp add: le_bytes_def upt_conv_Cons add.commute [of 8] del: upt_Suc)
qed

lemma length_le_bytes [simp]: "length (le_bytes n v) = n"
  by (simp add: le_bytes_def)

lemma le_val_le_bytes: "le_val (le_bytes n v) = take_bit (8 * n) v"
proof (induction n arbitrary: v)
  case 0
  then show ?case by (simp add: le_val_def le_bytes_def)
next
  case (Suc n)
  have "le_val (le_bytes (Suc n) v) = push_bit 8 (take_bit (8 * n) (drop_bit 8 v)) OR ucast (ucast v :: u8)"
    using Suc [of "drop_bit 8 v"] by (simp add: le_bytes_Suc le_val_def)
  also have "\<dots> = take_bit (8 * Suc n) v"
    by (rule bit_eqI) (auto simp: bit_simps)
  finally show ?case .
qed

lemma with_bytes_le: "n = length p \<Longrightarrow> with_bytes n (p @ rest) f = Inr (f p, rest)"
  by (simp add: with_bytes_def rb_read_def)

text \<open>The format of integers.\<close>

definition int_cookie :: "i64 \<Rightarrow> u8 \<times> nat" where
  "int_cookie v =
     (if v = 0 then (TYPE_NUMBER_ZERO, 0)
      else if v \<noteq> scast (ucast v :: i32) then (TYPE_NUMBER_QWORD, 8)
      else if sint v < 0 then (TYPE_NUMBER_DWORD, 4)
      else if sint v < 0x100 then (TYPE_NUMBER_BYTE, 1)
      else if sint v < 0x10000 then (TYPE_NUMBER_WORD, 2)
      else (TYPE_NUMBER_DWORD, 4))"

definition int_bytes :: "i64 \<Rightarrow> bytes" where
  "int_bytes v = (case int_cookie v of (c, n) \<Rightarrow> COMBINE_TYPE TYPE_NUMBER c # le_bytes n v)"

lemma wb_integer_correct [simp]:
  assumes "wb_inv b"
  shows "wb_inv (wb_integer v b)" "content (wb_integer v b) = content b @ int_bytes v"
  using assms by (auto simp: wb_integer_def int_bytes_def int_cookie_def le_bytes_def)

lemma sint_take_bit:
  assumes "0 \<le> sint v" "sint v < 2 ^ k" "k < 64"
  shows "take_bit k (v :: i64) = v"
proof -
  have "uint v = sint v"
    using assms sint_lt [of v] by (simp add: uint_sint take_bit_int_eq_self)
  then show ?thesis using assms(2) by (simp add: take_bit_eq_mask mask_eq_iff)
qed

lemma int_bytes_read:
  "get_integer (fst (int_cookie v)) (le_bytes (snd (int_cookie v)) v @ rest) = Inr (v, rest)"
  "fst (int_cookie v) < 8" "fst (int_cookie v) \<noteq> TYPE_NUMBER_REAL"
proof -
  have small: "take_bit (8 * n) v = v" if "0 \<le> sint v" "sint v < 2 ^ (8 * n)" "n < 8" for n
    using sint_take_bit [of v "8 * n"] that by simp
  have dw: "ucast (take_bit 32 v) = (ucast v :: i32)"
    by (rule bit_eqI) (auto simp: bit_simps)
  have q: "take_bit 64 v = v" by (rule bit_eqI) (auto simp: bit_simps)
  show "fst (int_cookie v) < 8" "fst (int_cookie v) \<noteq> TYPE_NUMBER_REAL" by (simp_all add: int_cookie_def type_defs)
  show "get_integer (fst (int_cookie v)) (le_bytes (snd (int_cookie v)) v @ rest) = Inr (v, rest)"
    using small [of 1] small [of 2] dw q
    by (simp add: int_cookie_def get_integer_def type_defs with_bytes_le le_val_le_bytes) (simp add: le_bytes_def)
qed

definition string_head :: "nat \<Rightarrow> bytes" where
  "string_head n = (if n < MAX_COOKIE then [COMBINE_TYPE TYPE_SHORT_STRING (word_of_nat n)]
     else if n < 0x10000 then COMBINE_TYPE TYPE_LONG_STRING 2 # le_bytes 2 (word_of_nat n)
     else COMBINE_TYPE TYPE_LONG_STRING 4 # le_bytes 4 (word_of_nat n))"

lemma wb_string_correct:
  assumes "wb_inv b" "length s < 2 ^ 31"
  shows "wb_inv (wb_string s b)" "content (wb_string s b) = content b @ string_head (length s) @ s"
  using assms by (auto simp: wb_string_def string_head_def sint_of_nat32 Let_def MAX_COOKIE_def)

lemma word_of_nat_take_bit:
  assumes "n < 2 ^ k"
  shows "take_bit k (word_of_nat n :: u64) = word_of_nat n"
proof -
  have "take_bit k n = n" using assms by (simp add: take_bit_nat_eq_self)
  then show ?thesis by (metis take_bit_of_nat)
qed

fun scalar_bytes :: "lua_value \<Rightarrow> bytes" where
  "scalar_bytes (Boolean b) = [COMBINE_TYPE TYPE_BOOLEAN (if b then 1 else 0)]"
| "scalar_bytes (Integer v) = int_bytes v"
| "scalar_bytes (Number x) = COMBINE_TYPE TYPE_NUMBER TYPE_NUMBER_REAL # le_bytes 8 x"
| "scalar_bytes (LightUserdata p) = TYPE_USERDATA # le_bytes 8 p"
| "scalar_bytes (LString s) = string_head (length s) @ s"
| "scalar_bytes _ = [TYPE_NIL]"

fun scalar_ok :: "lua_value \<Rightarrow> bool" where
  "scalar_ok (LString s) \<longleftrightarrow> length s < 2 ^ 31"
| "scalar_ok (LTable t) \<longleftrightarrow> False"
| "scalar_ok (Paired ps) \<longleftrightarrow> False"
| "scalar_ok Other \<longleftrightarrow> False"
| "scalar_ok _ \<longleftrightarrow> True"

text \<open>Packing a value appends these bytes; these bytes are read as this value.\<close>

definition packs :: "lua_api \<Rightarrow> nat \<Rightarrow> lua_value \<Rightarrow> bytes \<Rightarrow> bool" where
  "packs api d v bs \<longleftrightarrow> (\<forall>b. wb_inv b \<longrightarrow> (\<exists>b'. pack_one api d v b = Inr b' \<and> wb_inv b' \<and> content b' = content b @ bs))"

definition decodes :: "bytes \<Rightarrow> lua_value \<Rightarrow> bool" where
  "decodes bs v \<longleftrightarrow> (\<forall>rest. \<exists>f. unpack_one f (bs @ rest) = Inr (v, rest))"

lemma scalar_packs:
  assumes "scalar_ok v" "d \<le> MAX_DEPTH"
  shows "packs api d v (scalar_bytes v)"
  unfolding packs_def using assms
  by (cases v) (auto simp: pack_one.simps wb_nil_def wb_boolean_def wb_real_def wb_pointer_def wb_string_correct)

lemma push_scalar_decodes:
  assumes "t AND 7 \<noteq> TYPE_TABLE" "\<And>rest. push_scalar (t AND 7) (drop_bit 3 t) (bs @ rest) = Inr (v, rest)"
  shows "decodes (t # bs) v"
  unfolding decodes_def using assms by (auto intro!: exI [of _ "Suc (Suc 0)"])

lemma get_buffer_read:
  "length s < 2 ^ 31 \<Longrightarrow> get_buffer (word_of_nat (length s)) (s @ rest) = Inr (s, rest)"
  using sint_of_nat32 [of "length s"] by (simp add: get_buffer_def with_bytes_le unat_word_of_nat_less)

lemma ucast_of_nat: "(ucast (word_of_nat n :: u64) :: u32) = word_of_nat n"
  by (rule bit_eqI) (auto simp: bit_simps bit_unsigned_iff)

lemma string_decodes:
  assumes "length s < 2 ^ 31"
  shows "decodes (string_head (length s) @ s) (LString s)"
proof -
  let ?n = "length s"
  consider "?n < 32" | "32 \<le> ?n" "?n < 0x10000" | "0x10000 \<le> ?n" by linarith
  then show ?thesis
  proof cases
    case 1
    then have n: "(word_of_nat ?n :: u8) < 32" by (simp add: word_less_nat_alt unat_word_of_nat_less)
    have u: "(ucast (word_of_nat ?n :: u8) :: u32) = word_of_nat ?n"
      using 1 by (simp add: word_unat_eq_iff unsigned_ucast_eq unat_word_of_nat_less take_bit_nat_eq_self)
    have c: "COMBINE_TYPE 4 (word_of_nat ?n) AND 7 = 4" "drop_bit 3 (COMBINE_TYPE 4 (word_of_nat ?n)) = word_of_nat ?n"
      using combine_type [OF _ n, of 4] by simp_all
    show ?thesis using 1 unfolding string_head_def MAX_COOKIE_def
      by (simp, intro push_scalar_decodes)
         (simp_all add: c type_defs push_scalar_def map_value_facts u get_buffer_read [OF assms])
  next
    case 2
    have c: "COMBINE_TYPE 5 2 AND 7 = 5" "drop_bit 3 (COMBINE_TYPE 5 2) = 2" by (simp_all add: combine_type)
    have n: "take_bit 16 (word_of_nat ?n :: u64) = word_of_nat ?n" using 2 by (intro word_of_nat_take_bit) simp
    show ?thesis using 2 unfolding string_head_def MAX_COOKIE_def
      by (simp, intro push_scalar_decodes)
         (simp_all add: c type_defs push_scalar_def map_value_facts with_bytes_le le_val_le_bytes n ucast_of_nat get_buffer_read [OF assms])
  next
    case 3
    have c: "COMBINE_TYPE 5 4 AND 7 = 5" "drop_bit 3 (COMBINE_TYPE 5 4) = 4" by (simp_all add: combine_type)
    have n: "take_bit 32 (word_of_nat ?n :: u64) = word_of_nat ?n" using assms by (intro word_of_nat_take_bit) simp
    show ?thesis using 3 unfolding string_head_def MAX_COOKIE_def
      by (simp, intro push_scalar_decodes)
         (simp_all add: c type_defs push_scalar_def map_value_facts with_bytes_le le_val_le_bytes n ucast_of_nat get_buffer_read [OF assms])
  qed
qed

lemma scalar_decodes:
  assumes "scalar_ok v"
  shows "decodes (scalar_bytes v) v"
proof (cases v)
  case (LString s)
  then show ?thesis using assms string_decodes by simp
next
  case (Integer x)
  let ?c = "fst (int_cookie x)"
  have c: "COMBINE_TYPE 2 ?c AND 7 = 2" "drop_bit 3 (COMBINE_TYPE 2 ?c) = ?c"
    using combine_type [of 2 ?c] int_bytes_read(2) [of x] by (auto simp: word_less_nat_alt)
  show ?thesis using int_bytes_read(1,3) [of x] unfolding Integer scalar_bytes.simps int_bytes_def case_prod_beta
    by (intro push_scalar_decodes) (simp_all add: c type_defs push_scalar_def map_value_facts)
next
  case (Number x)
  have "take_bit 64 x = x" by (rule bit_eqI) (auto simp: bit_simps)
  then show ?thesis unfolding Number scalar_bytes.simps
    by (intro push_scalar_decodes)
       (simp_all add: combine_type type_defs push_scalar_def map_value_facts get_real_def with_bytes_le le_val_le_bytes)
next
  case (LightUserdata p)
  have "take_bit 64 p = p" by (rule bit_eqI) (auto simp: bit_simps)
  then show ?thesis unfolding LightUserdata scalar_bytes.simps
    by (intro push_scalar_decodes)
       (simp_all add: type_defs push_scalar_def map_value_facts get_pointer_def with_bytes_le le_val_le_bytes)
next
  case (Boolean b)
  show ?thesis unfolding Boolean scalar_bytes.simps
    by (intro push_scalar_decodes) (cases b; simp add: combine_type type_defs push_scalar_def)+
next
  case Nil
  show ?thesis unfolding Nil scalar_bytes.simps
    by (intro push_scalar_decodes) (simp_all add: type_defs push_scalar_def)
qed (use assms in simp_all)

section \<open>Tables\<close>

lemma unpack_one_mono:
  assumes "unpack_one f rb = Inr r" "f \<le> f'"
  shows "unpack_one f' rb = Inr r"
  using assms(2)
proof (induction f' rule: dec_induct)
  case (step m)
  then show ?case using fuel_step [of m] by auto
qed (rule assms(1))

lemma unpack_array_mono:
  assumes "unpack_array f n i rb tab = Inr r" "f \<le> f'"
  shows "unpack_array f' n i rb tab = Inr r"
  using assms(2)
proof (induction f' rule: dec_induct)
  case (step m)
  then show ?case using fuel_step [of m] by auto
qed (rule assms(1))

lemma unpack_hash_mono:
  assumes "unpack_hash f rb tab = Inr r" "f \<le> f'"
  shows "unpack_hash f' rb tab = Inr r"
  using assms(2)
proof (induction f' rule: dec_induct)
  case (step m)
  then show ?case using fuel_step [of m] by auto
qed (rule assms(1))

text \<open>Keys as Lua has them: a float key is neither NaN nor an integer.\<close>

fun key_ok :: "lua_key \<Rightarrow> bool" where
  "key_ok (KNum x) \<longleftrightarrow> \<not> float_nan x \<and> float_int x = None"
| "key_ok (KStr s) \<longleftrightarrow> length s < 2 ^ 31"
| "key_ok _ \<longleftrightarrow> True"

lemma to_key_value: "key_ok k \<Longrightarrow> to_key (key_value k) = Inr k"
  by (cases k) auto

lemma key_scalar: "key_ok k \<Longrightarrow> scalar_ok (key_value k)" "key_value k \<noteq> Nil"
  by (cases k; simp)+

text \<open>Values that can be packed with \<open>n\<close> levels of tables.\<close>

fun packable :: "nat \<Rightarrow> lua_value \<Rightarrow> bool" where
  "packable 0 (LTable t) \<longleftrightarrow> False"
| "packable (Suc n) (LTable t) \<longleftrightarrow> fmpred (\<lambda>k v. key_ok k \<and> v \<noteq> Nil \<and> packable n v) t"
| "packable n v \<longleftrightarrow> scalar_ok v"

text \<open>What Lua documents of the two parameters: a length that fits an \<^verbatim>\<open>int\<close>, and a traversal that meets each entry once.\<close>

definition api_ok :: "lua_api \<Rightarrow> bool" where
  "api_ok api \<longleftrightarrow> (\<forall>t. lua_rawlen api t < 2 ^ 31 \<and> distinct (map fst (lua_pairs api t)) \<and> fmap_of_list (lua_pairs api t) = t)"

lemma pack_values_packs:
  assumes "list_all2 (packs api d) vs bss" "wb_inv b"
  shows "\<exists>b'. pack_values api d vs b = Inr b' \<and> wb_inv b' \<and> content b' = content b @ concat bss"
  using assms
proof (induction arbitrary: b rule: list_all2_induct)
  case (Cons v vs bs bss)
  from Cons.hyps(1) Cons.prems obtain b1 where "pack_one api d v b = Inr b1" "wb_inv b1" "content b1 = content b @ bs"
    unfolding packs_def by blast
  with Cons.IH [of b1] show ?case by auto
qed simp

lemma unpack_array_decodes:
  assumes "list_all2 decodes bss vs" "\<exists>f. unpack_hash f rest (fold (\<lambda>(i, v). raw_set (KInt (word_of_int i)) v)
      (zip [i..n] vs) tab) = Inr r" "int (length vs) = n - i + 1"
  shows "\<exists>f. unpack_array f n i (concat bss @ rest) tab = Inr r"
  using assms
proof (induction bss vs arbitrary: i tab rule: list_all2_induct)
  case Nil
  then obtain f where "unpack_hash f rest tab = Inr r" by auto
  with Nil.prems(2) show ?case by (intro exI [of _ "Suc f"]) simp
next
  case (Cons bs bss v vs)
  have i: "i \<le> n" "[i..n] = i # [i + 1..n]" using Cons.prems(2) by (simp_all add: upto.simps)
  from Cons.hyps(1) obtain f1 where f1: "unpack_one f1 (bs @ concat bss @ rest) = Inr (v, concat bss @ rest)"
    unfolding decodes_def by blast
  from Cons.IH [of "i + 1" "raw_set (KInt (word_of_int i)) v tab"] Cons.prems i obtain f2 where
    f2: "unpack_array f2 n (i + 1) (concat bss @ rest) (raw_set (KInt (word_of_int i)) v tab) = Inr r" by auto
  let ?f = "max f1 f2"
  have "unpack_array (Suc ?f) n i (concat (bs # bss) @ rest) tab = Inr r"
    using unpack_one_mono [OF f1, of ?f] unpack_array_mono [OF f2, of ?f] i(1) by simp
  then show ?case by blast
qed

text \<open>The entries of the hash part, each with the encodings of its key and its value.\<close>

definition entry_coded :: "(lua_key \<times> lua_value) \<Rightarrow> (bytes \<times> bytes) \<Rightarrow> bool" where
  "entry_coded e c \<longleftrightarrow> key_ok (fst e) \<and> decodes (fst c) (key_value (fst e)) \<and> decodes (snd c) (snd e)"

lemma unpack_hash_decodes:
  assumes "list_all2 entry_coded es cs"
  shows "\<exists>f. unpack_hash f (concat (map (\<lambda>(a, b). a @ b) cs) @ TYPE_NIL # rest) tab
    = Inr (LTable (fold (\<lambda>(k, v). raw_set k v) es tab), rest)"
  using assms
proof (induction arbitrary: tab rule: list_all2_induct)
  case Nil
  from scalar_decodes [of Nil] obtain f where "unpack_one f (TYPE_NIL # rest) = Inr (Nil, rest)"
    unfolding decodes_def by auto
  then show ?case by (intro exI [of _ "Suc f"]) simp
next
  case (Cons e es c cs)
  obtain k v a b where e: "e = (k, v)" "c = (a, b)" by (cases e, cases c)
  let ?rest = "concat (map (\<lambda>(a, b). a @ b) cs) @ TYPE_NIL # rest"
  from Cons.hyps(1) e have d: "key_ok k" "decodes a (key_value k)" "decodes b v" by (simp_all add: entry_coded_def)
  obtain f1 where f1: "unpack_one f1 (a @ b @ ?rest) = Inr (key_value k, b @ ?rest)" using d(2) unfolding decodes_def by blast
  obtain f2 where f2: "unpack_one f2 (b @ ?rest) = Inr (v, ?rest)" using d(3) unfolding decodes_def by blast
  from Cons.IH [of "raw_set k v tab"] obtain f3 where f3: "unpack_hash f3 ?rest (raw_set k v tab)
    = Inr (LTable (fold (\<lambda>(k, v). raw_set k v) es (raw_set k v tab)), rest)" by blast
  let ?f = "max f1 (max f2 f3)"
  have m: "unpack_one ?f (a @ b @ ?rest) = Inr (key_value k, b @ ?rest)" "unpack_one ?f (b @ ?rest) = Inr (v, ?rest)"
    "unpack_hash ?f ?rest (raw_set k v tab) = Inr (LTable (fold (\<lambda>(k, v). raw_set k v) es (raw_set k v tab)), rest)"
    using unpack_one_mono [OF f1, of ?f] unpack_one_mono [OF f2, of ?f] unpack_hash_mono [OF f3, of ?f] by simp_all
  have "unpack_hash (Suc ?f) (a @ b @ ?rest) tab = Inr (LTable (fold (\<lambda>(k, v). raw_set k v) es (raw_set k v tab)), rest)"
    unfolding unpack_hash.simps(2) [of ?f] m(1) using key_scalar(2) m(2,3) d(1) by (simp add: to_key_value del: unpack_hash.simps)
  then show ?case unfolding e by (intro exI [of _ "Suc ?f"]) (simp del: unpack_hash.simps)
qed

lemma pack_pairs_packs:
  assumes "list_all2 (\<lambda>(k, v) (a, b). packs api d k a \<and> packs api d v b) ps cs" "wb_inv b"
  shows "\<exists>b'. pack_pairs api d ps b = Inr b' \<and> wb_inv b' \<and> content b' = content b @ concat (map (\<lambda>(a, b). a @ b) cs) @ [TYPE_NIL]"
  using assms
proof (induction arbitrary: b rule: list_all2_induct)
  case (Cons p ps c cs)
  obtain k v x y where e: "p = (k, v)" "c = (x, y)" by (cases p, cases c)
  with Cons.hyps(1) have pk: "packs api d k x" "packs api d v y" by simp_all
  obtain b1 where b1: "pack_one api d k b = Inr b1" "wb_inv b1" "content b1 = content b @ x"
    using pk(1) Cons.prems unfolding packs_def by blast
  obtain b2 where b2: "pack_one api d v b1 = Inr b2" "wb_inv b2" "content b2 = content b1 @ y"
    using pk(2) b1(2) unfolding packs_def by blast
  show ?case using Cons.IH [OF b2(2)] b1 b2 e by auto
qed (simp add: wb_nil_def)

lemma fold_raw_set:
  assumes "distinct (map fst es)"
  shows "fmlookup (fold (\<lambda>(k, v). raw_set k v) es tab) k
    = (case map_of es k of Some v \<Rightarrow> if v = Nil then None else Some v | None \<Rightarrow> fmlookup tab k)"
  using assms
proof (induction es arbitrary: tab)
  case (Cons e es)
  obtain a v where e: "e = (a, v)" by (cases e)
  have "map_of es a = None" using Cons.prems e by (simp add: map_of_eq_None_iff)
  then show ?case using Cons.IH [of "raw_set a v tab"] Cons.prems e
    by (auto simp: raw_set_def split: option.splits)
qed simp

lemma map_of_filter_keys: "map_of (filter (\<lambda>(k, v). P k) ps) k = (if P k then map_of ps k else None)"
  by (induction ps) auto

definition array_entries :: "(lua_key, lua_value) fmap \<Rightarrow> nat \<Rightarrow> (lua_key \<times> lua_value) list" where
  "array_entries t n = map (\<lambda>j. (KInt (word_of_nat j), raw_geti t j)) [1..<n + 1]"

lemma array_fold:
  "fold (\<lambda>(i, v). raw_set (KInt (word_of_int i)) v) (zip [1..int n] (map (raw_geti t) [1..<n + 1])) tab
    = fold (\<lambda>(k, v). raw_set k v) (array_entries t n) tab"
proof -
  have "[1..int n] = map int [1..<n + 1]"
    by (rule nth_equalityI) (auto simp del: upt_Suc)
  then have "zip [1..int n] (map (raw_geti t) [1..<n + 1]) = map (\<lambda>j. (int j, raw_geti t j)) [1..<n + 1]"
    by (simp add: zip_map_map zip_same_conv_map del: upt_Suc)
  then show ?thesis by (simp add: array_entries_def fold_map comp_def del: upt_Suc)
qed

lemma sint_of_nat64: "n < 2 ^ 63 \<Longrightarrow> sint (word_of_nat n :: i64) = int n"
  by (simp add: signed_of_nat signed_take_bit_int_eq_self)

lemma word_of_nat_sint: "0 < sint x \<Longrightarrow> word_of_nat (nat (sint x)) = (x :: i64)"
  by (simp only: of_nat_nat of_int_sint scast_id less_imp_le)

lemma array_map_of:
  assumes "n < 2 ^ 31"
  shows "distinct (map fst (array_entries t n))"
    "map_of (array_entries t n) k = (if in_array n k then (case k of KInt x \<Rightarrow> Some (raw_geti t (nat (sint x))) | _ \<Rightarrow> None) else None)"
proof -
  have inj: "inj_on (\<lambda>j. KInt (word_of_nat j)) (set [1..<n + 1])"
  proof (rule inj_onI)
    fix i j assume "i \<in> set [1..<n + 1]" "j \<in> set [1..<n + 1]" "KInt (word_of_nat i) = KInt (word_of_nat j)"
    then have "sint (word_of_nat i :: i64) = sint (word_of_nat j :: i64)" "i < 2 ^ 63" "j < 2 ^ 63" using assms by auto
    then show "i = j" by (simp add: sint_of_nat64)
  qed
  have f: "map fst (array_entries t n) = map (\<lambda>j. KInt (word_of_nat j)) [1..<n + 1]"
    by (simp add: array_entries_def comp_def del: upt_Suc)
  show d: "distinct (map fst (array_entries t n))" unfolding f using inj by (simp add: distinct_map del: upt_Suc)
  have mem: "map_of (array_entries t n) (KInt (word_of_nat j)) = Some (raw_geti t j)" if "1 \<le> j" "j \<le> n" for j
    using that by (intro map_of_is_SomeI [OF d]) (auto simp: array_entries_def simp del: upt_Suc)
  have none: "map_of (array_entries t n) k = None" if "\<And>j. 1 \<le> j \<Longrightarrow> j \<le> n \<Longrightarrow> k \<noteq> KInt (word_of_nat j)"
  proof -
    have "k \<notin> fst ` set (array_entries t n)"
    proof
      assume "k \<in> fst ` set (array_entries t n)"
      then obtain j where "j \<in> set [1..<n + 1]" "k = KInt (word_of_nat j)"
        by (auto simp: array_entries_def simp del: upt_Suc)
      then show False using that [of j] by auto
    qed
    then show ?thesis by (simp add: map_of_eq_None_iff)
  qed
  show "map_of (array_entries t n) k = (if in_array n k then (case k of KInt x \<Rightarrow> Some (raw_geti t (nat (sint x))) | _ \<Rightarrow> None) else None)"
  proof (cases "in_array n k")
    case True
    then obtain x where x: "k = KInt x" "0 < sint x" "sint x \<le> int n" by (auto simp: in_array_def split: lua_key.splits)
    have "word_of_nat (nat (sint x)) = x" using x(2) by (simp add: word_of_nat_sint)
    then show ?thesis using mem [of "nat (sint x)"] x True by auto
  next
    case False
    have "k \<noteq> KInt (word_of_nat j)" if "1 \<le> j" "j \<le> n" for j
      using False that assms sint_of_nat64 [of j] by (auto simp: in_array_def)
    then show ?thesis using none False by simp
  qed
qed

lemma table_rebuilt:
  assumes "api_ok api" "fmpred (\<lambda>k v. v \<noteq> Nil) t"
  shows "fold (\<lambda>(k, v). raw_set k v) (filter (\<lambda>(k, v). \<not> in_array (lua_rawlen api t) k) (lua_pairs api t))
    (fold (\<lambda>(k, v). raw_set k v) (array_entries t (lua_rawlen api t)) fmempty) = t"
proof (rule fmap_ext)
  fix k
  let ?n = "lua_rawlen api t" and ?ps = "lua_pairs api t"
  let ?qs = "filter (\<lambda>(k, v). \<not> in_array ?n k) ?ps"
  from assms(1) have n: "?n < 2 ^ 31" and d: "distinct (map fst ?ps)" and t: "fmap_of_list ?ps = t" by (simp_all add: api_ok_def)
  have m: "map_of ?ps k = fmlookup t k" using t by (metis fmlookup_of_list)
  have dq: "distinct (map fst ?qs)" using d by (rule distinct_map_filter)
  have mq: "map_of ?qs k = (if \<not> in_array ?n k then fmlookup t k else None)"
    unfolding m [symmetric] by (rule map_of_filter_keys)
  have nn: "v \<noteq> Nil" if "fmlookup t k = Some v" for v using assms(2) that by (auto simp: fmpred_iff)
  have geti: "raw_geti t (nat (sint x)) = (case fmlookup t (KInt x) of Some v \<Rightarrow> v | None \<Rightarrow> Nil)" if "0 < sint x" for x
    using that by (simp add: raw_geti_def word_of_nat_sint)
  show "fmlookup (fold (\<lambda>(k, v). raw_set k v) ?qs (fold (\<lambda>(k, v). raw_set k v) (array_entries t ?n) fmempty)) k = fmlookup t k"
  proof (cases "in_array ?n k")
    case True
    then obtain x where x: "k = KInt x" "0 < sint x" by (auto simp: in_array_def split: lua_key.splits)
    show ?thesis unfolding fold_raw_set [OF dq] fold_raw_set [OF array_map_of(1) [OF n]] mq array_map_of(2) [OF n]
      using True x geti [OF x(2)] nn by (cases "fmlookup t k") simp_all
  next
    case False
    show ?thesis unfolding fold_raw_set [OF dq] fold_raw_set [OF array_map_of(1) [OF n]] mq array_map_of(2) [OF n]
      using False nn by (cases "fmlookup t k") simp_all
  qed
qed

definition table_head :: "nat \<Rightarrow> bytes" where
  "table_head n = (if n \<ge> MAX_COOKIE - 1 then COMBINE_TYPE TYPE_TABLE (word_of_nat (MAX_COOKIE - 1)) # int_bytes (word_of_nat n)
     else [COMBINE_TYPE TYPE_TABLE (word_of_nat n)])"

lemma wb_table_head_correct:
  assumes "wb_inv b"
  shows "wb_inv (wb_table_head n b)" "content (wb_table_head n b) = content b @ table_head n"
  using assms by (auto simp: wb_table_head_def table_head_def)

lemma table_head_read:
  assumes "n < 2 ^ 31"
  shows "\<exists>t p. table_head n = t # p \<and> t AND 7 = TYPE_TABLE \<and> (\<forall>rest. table_size (drop_bit 3 t) (p @ rest) = Inr (int n, rest))"
proof (cases "n \<ge> 31")
  case True
  let ?v = "word_of_nat n :: i64"
  let ?c = "fst (int_cookie ?v)" and ?k = "snd (int_cookie ?v)"
  have c: "COMBINE_TYPE 2 ?c AND 7 = 2" "drop_bit 3 (COMBINE_TYPE 2 ?c) = ?c"
    using combine_type [of 2 ?c] int_bytes_read(2) [of ?v] by (auto simp: word_less_nat_alt)
  have v: "sint (ucast ?v :: i32) = int n" using sint_of_nat32 [OF assms] by (simp add: ucast_of_nat)
  have h: "table_head n = COMBINE_TYPE 6 31 # COMBINE_TYPE 2 ?c # le_bytes ?k ?v"
    using True by (simp add: table_head_def MAX_COOKIE_def int_bytes_def type_defs split_beta)
  have "table_size 31 ((COMBINE_TYPE 2 ?c # le_bytes ?k ?v) @ rest) = Inr (int n, rest)" for rest
    using int_bytes_read(1,3) [of ?v] c v by (simp add: table_size_def MAX_COOKIE_def type_defs)
  moreover have "COMBINE_TYPE 6 31 AND 7 = 6" "drop_bit 3 (COMBINE_TYPE 6 31) = 31" by (simp_all add: combine_type)
  ultimately show ?thesis using h by (auto simp: type_defs)
next
  case False
  then have n: "(word_of_nat n :: u8) < 32" "unat (word_of_nat n :: u8) = n"
    by (simp_all add: word_less_nat_alt unat_word_of_nat_less)
  have "COMBINE_TYPE 6 (word_of_nat n) AND 7 = 6" "drop_bit 3 (COMBINE_TYPE 6 (word_of_nat n)) = word_of_nat n"
    using combine_type [OF _ n(1), of 6] by simp_all
  then show ?thesis using False n(2) by (simp add: table_head_def table_size_def MAX_COOKIE_def type_defs)
qed

lemma packable_scalar: "scalar_ok v \<Longrightarrow> packable n v"
  by (cases v; cases n) simp_all

lemma packable_cases:
  assumes "packable n v"
  obtains "scalar_ok v" | t m where "v = LTable t" "n = Suc m"
    "\<And>k x. fmlookup t k = Some x \<Longrightarrow> key_ok k \<and> x \<noteq> Nil \<and> packable m x"
  using assms by (cases v; cases n) (auto simp: fmpred_iff)

lemma table_codes:
  assumes api: "api_ok api" and d: "d < MAX_DEPTH"
    and t: "\<And>k x. fmlookup t k = Some x \<Longrightarrow> key_ok k \<and> x \<noteq> Nil"
    and ex: "\<And>k x. fmlookup t k = Some x \<Longrightarrow> \<exists>bs. packs api (d + 1) x bs \<and> decodes bs x"
  shows "\<exists>bs. packs api d (LTable t) bs \<and> decodes bs (LTable t)"
proof -
  let ?n = "lua_rawlen api t" and ?ps = "lua_pairs api t"
  let ?vs = "map (raw_geti t) [1..<?n + 1]" and ?es = "filter (\<lambda>(k, v). \<not> in_array ?n k) ?ps"
  from api have n: "?n < 2 ^ 31" and ps: "distinct (map fst ?ps)" "fmap_of_list ?ps = t" by (simp_all add: api_ok_def)
  have look: "fmlookup t k = Some x" if "(k, x) \<in> set ?ps" for k x using that ps by (metis fmlookup_of_list map_of_is_SomeI)
  have nil: "packs api (d + 1) Nil [TYPE_NIL]" "decodes [TYPE_NIL] Nil"
    using scalar_packs [of Nil "d + 1"] scalar_decodes [of Nil] d by simp_all
  have "\<exists>bs. packs api (d + 1) (raw_geti t j) bs \<and> decodes bs (raw_geti t j)" for j
    using nil ex by (cases "fmlookup t (KInt (word_of_nat j))") (auto simp: raw_geti_def)
  then obtain B where B: "\<And>j. packs api (d + 1) (raw_geti t j) (B j)" "\<And>j. decodes (B j) (raw_geti t j)" by metis
  let ?bss = "map B [1..<?n + 1]"
  have bss: "list_all2 (packs api (d + 1)) ?vs ?bss" "list_all2 decodes ?bss ?vs"
    using B by (simp_all add: list_all2_conv_all_nth del: upt_Suc)
  have "\<forall>e. \<exists>c. e \<in> set ?ps \<longrightarrow> packs api (d + 1) (key_value (fst e)) (fst c) \<and> packs api (d + 1) (snd e) (snd c) \<and> entry_coded e c"
  proof
    fix e :: "lua_key \<times> lua_value"
    obtain k x where e: "e = (k, x)" by (cases e)
    show "\<exists>c. e \<in> set ?ps \<longrightarrow> packs api (d + 1) (key_value (fst e)) (fst c) \<and> packs api (d + 1) (snd e) (snd c) \<and> entry_coded e c"
    proof (cases "e \<in> set ?ps")
      case True
      then have l: "fmlookup t k = Some x" using look e by blast
      then obtain bs where "packs api (d + 1) x bs" "decodes bs x" using ex by blast
      moreover have "scalar_ok (key_value k)" "key_ok k" using t [OF l] key_scalar by auto
      ultimately show ?thesis using e d scalar_packs [of "key_value k" "d + 1"] scalar_decodes [of "key_value k"]
        by (intro exI [of _ "(scalar_bytes (key_value k), bs)"]) (simp add: entry_coded_def)
    qed simp
  qed
  then obtain C where C: "\<And>e. e \<in> set ?ps \<Longrightarrow> packs api (d + 1) (key_value (fst e)) (fst (C e))
    \<and> packs api (d + 1) (snd e) (snd (C e)) \<and> entry_coded e (C e)" by metis
  let ?cs = "map C ?es"
  have cs: "list_all2 (\<lambda>(k, v) (a, b). packs api (d + 1) k a \<and> packs api (d + 1) v b) (hash_entries api t) ?cs"
    "list_all2 entry_coded ?es ?cs"
    using C by (auto simp: hash_entries_def list_all2_map1 list_all2_map2 list_all2_same split_beta)
  define bs where "bs = table_head ?n @ concat ?bss @ concat (map (\<lambda>(a, b). a @ b) ?cs) @ [TYPE_NIL]"
  have "packs api d (LTable t) bs" unfolding packs_def
  proof (intro allI impI)
    fix b assume b: "wb_inv b"
    note h = wb_table_head_correct [OF b, of ?n]
    from pack_values_packs [OF bss(1) h(1)] obtain b1 where b1: "pack_values api (d + 1) ?vs (wb_table_head ?n b) = Inr b1"
      "wb_inv b1" "content b1 = content b @ table_head ?n @ concat ?bss" using h(2) by auto
    from pack_pairs_packs [OF cs(1) b1(2)] obtain b2 where b2: "pack_pairs api (d + 1) (hash_entries api t) b1 = Inr b2" "wb_inv b2"
      "content b2 = content b @ bs" using b1(3) by (auto simp: bs_def)
    show "\<exists>b'. pack_one api d (LTable t) b = Inr b' \<and> wb_inv b' \<and> content b' = content b @ bs"
      using b1(1) b2 d by (simp add: pack_one.simps del: upt_Suc)
  qed
  moreover have "decodes bs (LTable t)" unfolding decodes_def
  proof
    fix rest
    obtain x p where x: "table_head ?n = x # p" "x AND 7 = TYPE_TABLE"
      "\<And>rest. table_size (drop_bit 3 x) (p @ rest) = Inr (int ?n, rest)" using table_head_read [OF n] by blast
    let ?r2 = "concat (map (\<lambda>(a, b). a @ b) ?cs) @ TYPE_NIL # rest"
    have "fmpred (\<lambda>k v. v \<noteq> Nil) t" using t by (auto simp: fmpred_iff)
    note rb = table_rebuilt [OF api this]
    have "\<exists>f. unpack_hash f ?r2 (fold (\<lambda>(i, v). raw_set (KInt (word_of_int i)) v) (zip [1..int ?n] ?vs) fmempty) = Inr (LTable t, rest)"
      using unpack_hash_decodes [OF cs(2), of rest "fold (\<lambda>(k, v). raw_set k v) (array_entries t ?n) fmempty"]
      unfolding array_fold rb by blast
    from unpack_array_decodes [OF bss(2) this] obtain f where
      "unpack_array f (int ?n) 1 (concat ?bss @ ?r2) fmempty = Inr (LTable t, rest)" by (auto simp del: upt_Suc)
    then have "unpack_one (Suc (Suc f)) (bs @ rest) = Inr (LTable t, rest)"
      using x by (simp add: bs_def del: upt_Suc)
    then show "\<exists>f. unpack_one f (bs @ rest) = Inr (LTable t, rest)" by blast
  qed
  ultimately show ?thesis by blast
qed

lemma scalar_codes: "scalar_ok v \<Longrightarrow> d \<le> MAX_DEPTH \<Longrightarrow> \<exists>bs. packs api d v bs \<and> decodes bs v"
  using scalar_packs scalar_decodes by blast

lemma packable_codes:
  "api_ok api \<Longrightarrow> packable n v \<Longrightarrow> d + n \<le> MAX_DEPTH \<Longrightarrow> \<exists>bs. packs api d v bs \<and> decodes bs v"
proof (induction n arbitrary: v d)
  case 0
  from 0(2) show ?case by (cases rule: packable_cases) (use 0(3) scalar_codes in auto)
next
  case (Suc n)
  from Suc.prems(2) show ?case
  proof (cases rule: packable_cases)
    case 1
    then show ?thesis using Suc.prems(3) by (intro scalar_codes) simp_all
  next
    case (2 t m)
    show ?thesis unfolding 2(1)
      by (rule table_codes [OF Suc.prems(1)]) (use 2 Suc.prems(3) Suc.IH [OF Suc.prems(1), of _ "d + 1"] in auto)
  qed
qed

section \<open>Whole messages\<close>

lemma unpack_all_enough: "4 * length rb + 1 \<le> f \<Longrightarrow> unpack_all f rb \<noteq> Inl OutOfFuel"
proof (induction f arbitrary: rb)
  case (Suc f)
  show ?case
  proof (cases rb)
    case (Cons t rb1)
    have p: "push_value f (t AND 7) (drop_bit 3 t) rb1 \<noteq> Inl OutOfFuel" using fuel_enough [of f] Suc.prems Cons by auto
    have "unpack_all f rb2 \<noteq> Inl OutOfFuel" if "push_value f (t AND 7) (drop_bit 3 t) rb1 = Inr (v, rb2)" for v rb2
      by (rule Suc.IH) (use push_value_shorter [OF that] Suc.prems Cons in simp)
    with p show ?thesis unfolding Cons by (auto split: sum.splits) (metis (no_types, opaque_lifting) id_apply map_sum.simps(1) sum.exhaust map_sum.simps(2) sum.distinct(1) sum.inject(1))
  qed simp
qed simp

lemma unpack_all_step: "unpack_all f rb \<noteq> Inl OutOfFuel \<Longrightarrow> unpack_all (Suc f) rb = unpack_all f rb"
proof (induction f arbitrary: rb)
  case (Suc f)
  define g where "g = Suc f"
  show ?case
  proof (cases rb)
    case (Cons t rb1)
    have p: "push_value g (t AND 7) (drop_bit 3 t) rb1 = push_value f (t AND 7) (drop_bit 3 t) rb1"
    proof -
      have "push_value f (t AND 7) (drop_bit 3 t) rb1 \<noteq> Inl OutOfFuel" using Suc.prems Cons by auto
      then show ?thesis unfolding g_def using fuel_step [of f] by blast
    qed
    have r: "unpack_all g rb2 = unpack_all f rb2" if "push_value f (t AND 7) (drop_bit 3 t) rb1 = Inr (v, rb2)" for v rb2
      unfolding g_def by (rule Suc.IH) (use Suc.prems Cons that in auto)
    have "unpack_all (Suc g) rb = unpack_all (Suc f) rb"
      unfolding Cons unpack_all.simps(2) [of g] unpack_all.simps(2) [of f] list.case p
      using r by (auto split: sum.splits)
    then show ?thesis by (simp only: g_def)
  qed simp
qed simp

lemma unpack_all_up: "unpack_all k rb \<noteq> Inl OutOfFuel \<Longrightarrow> unpack_all (k + n) rb = unpack_all k rb"
  by (induction n) (use unpack_all_step in auto)

lemma unpack_all_unique:
  assumes "unpack_all f rb = Inr vs" "unpack_all f' rb \<noteq> Inl OutOfFuel"
  shows "unpack_all f' rb = Inr vs"
  using unpack_all_up [of f rb "f' - f"] unpack_all_up [of f' rb "f - f'"] assms by (cases "f \<le> f'") auto

lemma unpack_all_decodes:
  assumes "list_all2 decodes bss vs"
  shows "\<exists>f. unpack_all f (concat bss) = Inr vs"
  using assms
proof (induction rule: list_all2_induct)
  case Nil
  then show ?case by (intro exI [of _ 1]) simp
next
  case (Cons bs bss v vs)
  from Cons.IH obtain f1 where f1: "unpack_all f1 (concat bss) = Inr vs" by blast
  from Cons.hyps(1) obtain f where f: "unpack_one f (bs @ concat bss) = Inr (v, concat bss)" unfolding decodes_def by blast
  then obtain g t p where g: "f = Suc g" "bs @ concat bss = t # p" "push_value g (t AND 7) (drop_bit 3 t) p = Inr (v, concat bss)"
    by (cases f) (auto simp: invalid_stream_def split: list.splits)
  let ?f = "max g f1"
  have "push_value ?f (t AND 7) (drop_bit 3 t) p = Inr (v, concat bss)" using fuel_mono [OF g(3), of ?f] by simp
  moreover have "unpack_all ?f (concat bss) = Inr vs"
    using unpack_all_up [of f1 "concat bss" "?f - f1"] f1 by simp
  ultimately have "unpack_all (Suc ?f) (concat (bs # bss)) = Inr (v # vs)" using g(2) by simp
  then show ?case by blast
qed

text \<open>A Lua that visits the entries in the order of their keys, for the examples.\<close>

fun key_code :: "lua_key \<Rightarrow> nat list" where
  "key_code (KBool b) = [0, if b then 1 else 0]"
| "key_code (KInt i) = [1, unat i]"
| "key_code (KNum x) = [2, unat x]"
| "key_code (KPtr p) = [3, unat p]"
| "key_code (KStr s) = 4 # map unat s"

lemma key_code_inj: "key_code a = key_code b \<Longrightarrow> a = b"
  by (cases a; cases b) (auto simp: word_unat_eq_iff inj_map_eq_map [OF inj_onI] split: if_splits)

instantiation lua_key :: linorder
begin

definition less_eq_lua_key :: "lua_key \<Rightarrow> lua_key \<Rightarrow> bool" where
  "less_eq_lua_key a b \<longleftrightarrow> key_code a \<le> key_code b"

definition less_lua_key :: "lua_key \<Rightarrow> lua_key \<Rightarrow> bool" where
  "less_lua_key a b \<longleftrightarrow> key_code a < key_code b"

instance
  by standard (auto simp: less_eq_lua_key_def less_lua_key_def dest: key_code_inj)

end

definition border :: "(lua_key, lua_value) fmap \<Rightarrow> nat" where
  "border t = length (takeWhile (\<lambda>i. fmlookup t (KInt (word_of_nat i)) \<noteq> None) [1..<Suc (size (fmdom t))])"

definition sorted_api :: lua_api where
  "sorted_api = \<lparr>lua_rawlen = \<lambda>t. min (border t) (2 ^ 31 - 1), lua_pairs = sorted_list_of_fmap\<rparr>"

lemma sorted_api_ok: "api_ok sorted_api"
proof -
  have "distinct (map fst (sorted_list_of_fmap t))" for t :: "(lua_key, lua_value) fmap"
    by (simp add: sorted_list_of_fmap_def comp_def sorted_list_of_fset.rep_eq)
  moreover have "fmap_of_list (sorted_list_of_fmap t) = t" for t :: "(lua_key, lua_value) fmap"
    by (rule fmap_ext) (simp add: fmlookup_of_list)
  ultimately show ?thesis by (simp add: api_ok_def sorted_api_def min_def)
qed

section \<open>Properties\<close>

text \<open>
  Property C24. What \<^verbatim>\<open>luaseri_pack\<close> packs, \<^verbatim>\<open>luaseri_unpack\<close> restores: for values with tables
  nested at most 32 deep and with keys as Lua admits them, whose packed form an \<^verbatim>\<open>int\<close> can count
  (\<^verbatim>\<open>wb.len\<close> does not wrap around: fewer than \<open>2 ^ 31\<close> bytes are collected in the blocks), packing
  succeeds and unpacking its bytes gives the same values in the same order, whatever array length
  Lua reports for the tables and in whatever order it visits their entries.
\<close>

theorem seri_roundtrip:
  assumes "api_ok api" "\<And>v. v \<in> set args \<Longrightarrow> packable MAX_DEPTH v"
    "\<And>b. pack_from api args wb_init = Inr b \<Longrightarrow> length (content b) < 2 ^ 31"
  shows "\<exists>bytes. luaseri_pack api args = Some (Inr bytes) \<and> luaseri_unpack (PointerArg bytes) = Inr args"
proof -
  have "\<forall>v. \<exists>bs. v \<in> set args \<longrightarrow> packs api 0 v bs \<and> decodes bs v"
    using packable_codes [OF assms(1), of MAX_DEPTH _ 0] assms(2) by auto
  then obtain B where B: "\<And>v. v \<in> set args \<Longrightarrow> packs api 0 v (B v) \<and> decodes (B v) v" by metis
  have all: "list_all2 (packs api 0) args (map B args)" "list_all2 decodes (map B args) args"
    using B by (simp_all add: list_all2_conv_all_nth)
  from pack_values_packs [OF all(1) wb_init_inv(1)] obtain b where
    b: "pack_values api 0 args wb_init = Inr b" "wb_inv b" "content b = concat (map B args)" by (auto simp: wb_init_inv)
  have len: "length (concat (map B args)) < 2 ^ 31" using assms(3) [of b] b(1,3) by (simp add: pack_from_def)
  then have pack: "luaseri_pack api args = Some (Inr (concat (map B args)))"
    using b by (simp add: luaseri_pack_def pack_from_def seri_correct)
  obtain f where "unpack_all f (concat (map B args)) = Inr args" using unpack_all_decodes [OF all(2)] by blast
  from unpack_all_unique [OF this unpack_all_enough, of "4 * length (concat (map B args)) + 1"]
  have "luaseri_unpack (PointerArg (concat (map B args))) = Inr args"
    unfolding luaseri_unpack_def using unpack_block_bytes [OF len] by simp
  with pack show ?thesis by blast
qed

definition inner_table :: "(lua_key, lua_value) fmap" where
  "inner_table = fmap_of_list [(KInt 1, Number 0x3ff8000000000000)]"

definition demo_table :: "(lua_key, lua_value) fmap" where
  "demo_table = fmap_of_list [(KInt 1, LString [104, 105]), (KInt 2, Boolean True), (KStr [120], Integer (- 7)),
     (KBool False, LTable inner_table)]"

lemma demo_tables:
  "border inner_table = 1" "border demo_table = 2"
  "sorted_list_of_fmap inner_table = [(KInt 1, Number 0x3ff8000000000000)]"
  "sorted_list_of_fmap demo_table = [(KBool False, LTable inner_table), (KInt 1, LString [104, 105]),
     (KInt 2, Boolean True), (KStr [120], Integer (- 7))]"
  "raw_geti inner_table (Suc 0) = Number 0x3ff8000000000000"
  "map (raw_geti demo_table) [Suc 0..<3] = [LString [104, 105], Boolean True]"
  by code_simp+

lemma demo_packed_size:
  assumes "pack_from sorted_api [Nil, LTable demo_table, Integer 70000] wb_init = Inr b"
  shows "length (content b) < 2 ^ 31"
  using assms
  by (auto simp: pack_from_def pack_one.simps MAX_DEPTH_def MAX_COOKIE_def wb_nil_def wb_integer_def wb_string_def
      wb_real_def wb_boolean_def wb_table_head_def wb_init_inv sorted_api_def hash_entries_def in_array_def demo_tables)

theorem seri_roundtrip_witness:
  "\<exists>bytes. luaseri_pack sorted_api [Nil, LTable demo_table, Integer 70000] = Some (Inr bytes)
    \<and> luaseri_unpack (PointerArg bytes) = Inr [Nil, LTable demo_table, Integer 70000]"
proof (rule seri_roundtrip [OF sorted_api_ok _ demo_packed_size])
  fix v assume v: "v \<in> set [Nil, LTable demo_table, Integer 70000]"
  have m: "MAX_DEPTH = Suc (Suc 30)" by (simp add: MAX_DEPTH_def)
  have "packable (Suc 30) (LTable inner_table)"
    unfolding packable.simps(2) inner_table_def by (auto simp: fmpred_iff fmlookup_of_list packable_scalar split: if_splits)
  then have "fmpred (\<lambda>k v. key_ok k \<and> v \<noteq> Nil \<and> packable (Suc 30) v) demo_table"
    by (auto simp: demo_table_def fmpred_iff fmlookup_of_list packable_scalar split: if_splits)
  then have "packable MAX_DEPTH (LTable demo_table)" unfolding m packable.simps(2) .
  then show "packable MAX_DEPTH v" using v by (auto simp: packable_scalar)
qed

text \<open>
  The fuel of four units per byte is never used up: the error \<open>OutOfFuel\<close>, which the code does
  not have, is no result of \<^verbatim>\<open>luaseri_unpack\<close>.
\<close>

lemma seri_unpack_fuel: "luaseri_unpack arg \<noteq> Inl OutOfFuel"
proof -
  have "unpack_block rb \<noteq> Inl OutOfFuel" for rb
    by (simp add: unpack_block_def Let_def del: unpack_all.simps) (intro impI unpack_all_enough, simp)
  then show ?thesis by (cases arg) (simp_all add: luaseri_unpack_def)
qed

text \<open>
  The blocks of 128 bytes in which the packer collects its output do not show in
  the result: after pushing any sequence of buffers of fewer than \<open>2 ^ 31\<close> bytes \<^verbatim>\<open>seri\<close> returns
  their concatenation.
\<close>

theorem seri_blocks:
  assumes "length (concat bufs) < 2 ^ 31"
  shows "seri (fold wb_push bufs wb_init) = Some (concat bufs)"
proof -
  have "wb_inv b \<Longrightarrow> wb_inv (fold wb_push bufs b) \<and> content (fold wb_push bufs b) = content b @ concat bufs" for b
    by (induction bufs arbitrary: b) auto
  from this [OF wb_init_inv(1)] show ?thesis using assms by (simp add: seri_correct wb_init_inv)
qed

end
