(* ===== verification/Dh.thy ===== *)
theory Dh
  imports Cstring
begin

text \<open>
  The Diffie-Hellman functions of \<^verbatim>\<open>skynet/lualib-src/lua-crypt.c\<close>: multiplication and powers
  modulo the largest 64-bit prime by shifting and adding, without leaving 64 bits. The arguments
  and results of the Lua functions are byte strings; \<^verbatim>\<open>luaL_error\<close> is a value of the sum type.
\<close>

datatype crypt_error =
    InvalidSize nat | CantBeZero | InvalidText | InvalidHexSize nat | CantXorEmpty
  | InvalidKeySize nat | InvalidDesLength nat | InvalidDesText

definition P :: u64 where
  "P = 0xffffffffffffffc5"

text \<open>The loop of \<^verbatim>\<open>mul_mod_p\<close>.\<close>

function mul_loop :: "u64 \<Rightarrow> u64 \<Rightarrow> u64 \<Rightarrow> u64" where
  "mul_loop m a b =
     (if b = 0 then m
      else
        let m1 = (if b AND 1 \<noteq> 0 then (let t = P - a in if m \<ge> t then m - t else m + a) else m);
            a1 = (if a \<ge> P - a then a * 2 - P else a * 2)
        in mul_loop m1 a1 (drop_bit 1 b))"
  by pat_completeness auto
termination
  by (relation "measure (\<lambda>(m, a, b). unat b)") (auto simp: unat_drop_bit unat_gt_0)

declare mul_loop.simps [simp del]

definition mul_mod_p :: "u64 \<Rightarrow> u64 \<Rightarrow> u64" where
  "mul_mod_p a b = mul_loop 0 a b"

text \<open>For the exponent 0, which the callers exclude, the recursion does not end.\<close>

partial_function (option) pow_mod_p :: "u64 \<Rightarrow> u64 \<Rightarrow> u64 option" where
  "pow_mod_p a b =
     (if b = 1 then Some a
      else do {
        t \<leftarrow> pow_mod_p a (drop_bit 1 b);
        let t = mul_mod_p t t;
        Some (if b mod 2 \<noteq> 0 then mul_mod_p t a else t)
      })"

declare pow_mod_p.simps [code]

definition powmodp :: "u64 \<Rightarrow> u64 \<Rightarrow> u64 option" where
  "powmodp a b = pow_mod_p (if a > P then a mod P else a) b"

definition push64 :: "u64 \<Rightarrow> bytes" where
  "push64 r = map (\<lambda>k. ucast (drop_bit (8 * k) r AND 0xff)) [0..<8]"

text \<open>Four bytes from position \<open>i\<close> as a little-endian word.\<close>

definition word_at :: "bytes \<Rightarrow> nat \<Rightarrow> u32" where
  "word_at x i = ucast (x ! i) OR push_bit 8 (ucast (x ! (i + 1))) OR push_bit 16 (ucast (x ! (i + 2)))
     OR push_bit 24 (ucast (x ! (i + 3)))"

definition read64 :: "bytes \<Rightarrow> bytes \<Rightarrow> crypt_error + ((u32 \<times> u32) \<times> (u32 \<times> u32))" where
  "read64 x y =
     (if length x \<noteq> 8 then Inl (InvalidSize (length x))
      else if length y \<noteq> 8 then Inl (InvalidSize (length y))
      else Inr ((word_at x 0, word_at x 4), (word_at y 0, word_at y 4)))"

definition join64 :: "u32 \<Rightarrow> u32 \<Rightarrow> u64" where
  "join64 lo hi = ucast lo OR push_bit 32 (ucast hi)"

definition ldhsecret :: "bytes \<Rightarrow> bytes \<Rightarrow> (crypt_error + bytes) option" where
  "ldhsecret x y = (case read64 x y of
     Inl e \<Rightarrow> Some (Inl e)
   | Inr ((x0, x1), (y0, y1)) \<Rightarrow>
       let xx = join64 x0 x1; yy = join64 y0 y1 in
       if xx = 0 \<or> yy = 0 then Some (Inl CantBeZero)
       else do { r \<leftarrow> powmodp xx yy; Some (Inr (push64 r)) })"

definition G :: u64 where
  "G = 5"

definition ldhexchange :: "bytes \<Rightarrow> (crypt_error + bytes) option" where
  "ldhexchange x =
     (if length x \<noteq> 8 then Some (Inl (InvalidSize (length x)))
      else
        let x64 = join64 (word_at x 0) (word_at x 4) in
        if x64 = 0 then Some (Inl CantBeZero)
        else do { r \<leftarrow> powmodp G x64; Some (Inr (push64 r)) })"

section \<open>Arithmetic modulo P\<close>

lemma unat_P: "unat P = 0xffffffffffffffc5"
  by (simp add: P_def)

lemma unat_minus: "b \<le> a \<Longrightarrow> unat (a - b :: u64) = unat a - unat b"
  by (rule unat_sub)

lemma double_step:
  assumes "unat a \<le> unat P"
  defines "a1 \<equiv> (if a \<ge> P - a then a * 2 - P else a * 2)"
  shows "unat a1 \<le> unat P" "unat a1 mod unat P = 2 * unat a mod unat P"
proof -
  have pa: "unat (P - a) = unat P - unat a" using assms(1) by (intro unat_sub) (simp add: word_le_nat_alt)
  have "unat a1 = (if 2 * unat a \<ge> unat P then 2 * unat a - unat P else 2 * unat a)"
  proof (cases "a \<ge> P - a")
    case True
    then have ge: "2 * unat a \<ge> unat P" using pa assms(1) by (simp add: word_le_nat_alt)
    have p64: "(2 :: int) ^ 64 = 18446744073709551616" by simp
    have "int (unat a1) = (2 * int (unat a) - int (unat P)) mod 2 ^ 64"
      using True unfolding a1_def
      by (simp add: uint_word_ariths mod_simps flip: uint_nat) (simp add: mult.commute)
    also have "\<dots> = 2 * int (unat a) - int (unat P)"
      using ge assms(1) unfolding unat_P p64 by (intro mod_pos_pos_trivial) linarith+
    finally have "unat a1 = 2 * unat a - unat P" using ge by linarith
    then show ?thesis using ge by simp
  next
    case False
    then have lt: "2 * unat a < unat P" using pa assms(1) by (simp add: word_le_nat_alt)
    then have "unat a1 = 2 * unat a" using False unfolding a1_def
      by (simp add: unat_word_ariths unat_P)
    then show ?thesis using lt by auto
  qed
  then show "unat a1 \<le> unat P" "unat a1 mod unat P = 2 * unat a mod unat P"
    using assms(1) by (auto simp: le_mod_geq)
qed

lemma add_step:
  assumes "unat a \<le> unat P" "unat m < unat P"
  defines "m1 \<equiv> (let t = P - a in if m \<ge> t then m - t else m + a)"
  shows "unat m1 < unat P" "unat m1 = (unat m + unat a) mod unat P"
proof -
  have pa: "unat (P - a) = unat P - unat a" using assms(1) by (intro unat_sub) (simp add: word_le_nat_alt)
  show "unat m1 = (unat m + unat a) mod unat P"
  proof (cases "m \<ge> P - a")
    case True
    then have "unat m1 = unat m - (unat P - unat a)" unfolding m1_def Let_def using pa by (simp add: unat_sub)
    moreover have "unat P - unat a \<le> unat m" using True pa by (simp add: word_le_nat_alt)
    ultimately have "unat m1 = unat m + unat a - unat P" "unat P \<le> unat m + unat a" using assms(1) by simp_all
    then show ?thesis using assms(1,2) by (simp add: le_mod_geq)
  next
    case False
    then have lt: "unat m + unat a < unat P" using pa by (simp add: word_le_nat_alt)
    then show ?thesis using False unfolding m1_def Let_def by (simp add: unat_word_ariths unat_P)
  qed
  then show "unat m1 < unat P" by (simp add: unat_P)
qed

lemma mul_loop_correct:
  "unat a \<le> unat P \<Longrightarrow> unat m < unat P \<Longrightarrow> unat (mul_loop m a b) = (unat m + unat a * unat b) mod unat P"
proof (induction m a b rule: mul_loop.induct)
  case (1 m a b)
  show ?case
  proof (cases "b = 0")
    case True
    then show ?thesis using "1.prems" by (simp add: mul_loop.simps)
  next
    case False
    define m1 where "m1 = (if b AND 1 \<noteq> 0 then (let t = P - a in if m \<ge> t then m - t else m + a) else m)"
    define a1 where "a1 = (if a \<ge> P - a then a * 2 - P else a * 2)"
    have odd: "b AND 1 \<noteq> 0 \<longleftrightarrow> odd (unat b)"
      by (simp add: and_one_eq odd_iff_mod_2_eq_one word_unat_eq_iff unat_mod_distrib split: if_splits)
    have b: "unat b = 2 * unat (drop_bit 1 b) + (if odd (unat b) then 1 else 0)"
      by (simp add: unat_drop_bit)
    have m1: "unat m1 < unat P" "unat m1 = (unat m + (if odd (unat b) then unat a else 0)) mod unat P"
      using add_step [OF "1.prems"] "1.prems"(2) by (auto simp: m1_def odd)
    note a1 = double_step [OF "1.prems"(1), folded a1_def]
    have "unat (mul_loop m a b) = unat (mul_loop m1 a1 (drop_bit 1 b))"
      using False by (simp add: mul_loop.simps [of m a b] m1_def a1_def)
    also have "\<dots> = (unat m1 + unat a1 * unat (drop_bit 1 b)) mod unat P"
      using "1.IH" [OF False m1_def a1_def] m1(1) a1(1) by simp
    also have "\<dots> = (unat m + (if odd (unat b) then unat a else 0) + 2 * unat a * unat (drop_bit 1 b)) mod unat P"
      unfolding m1(2) mod_add_left_eq by (rule mod_add_cong [OF refl mod_mult_cong [OF a1(2) refl]])
    also have "\<dots> = (unat m + unat a * unat b) mod unat P"
    proof -
      have "unat a * unat b = unat a * (2 * unat (drop_bit 1 b) + (if odd (unat b) then 1 else 0))"
        using b by (rule arg_cong)
      then show ?thesis by (simp add: algebra_simps)
    qed
    finally show ?thesis .
  qed
qed

lemma mul_mod_p_correct: "unat a \<le> unat P \<Longrightarrow> unat (mul_mod_p a b) = unat a * unat b mod unat P"
  using mul_loop_correct [of a 0 b] by (simp add: mul_mod_p_def unat_P)

text \<open>The power of \<open>P\<close> itself with exponent 1 is the only one that is not reduced.\<close>

lemma pow_mod_p_correct:
  "unat a \<le> unat P \<Longrightarrow> b \<noteq> 0 \<Longrightarrow>
    \<exists>r. pow_mod_p a b = Some r \<and> unat r = (if b = 1 then unat a else unat a ^ unat b mod unat P)"
proof (induction "unat b" arbitrary: b rule: less_induct)
  case less
  show ?case
  proof (cases "b = 1")
    case True
    then show ?thesis by (simp add: pow_mod_p.simps [of a 1])
  next
    case False
    let ?h = "drop_bit 1 b"
    have nz: "unat b \<noteq> 0" "unat b \<noteq> 1" using less.prems(2) False by (simp_all add: word_unat_eq_iff)
    have h: "unat ?h = unat b div 2" by (simp add: unat_drop_bit)
    then have "unat ?h < unat b" "?h \<noteq> 0" using nz by (auto simp: word_unat_eq_iff)
    from less.hyps [OF this(1) less.prems(1) this(2)] obtain t where
      t: "pow_mod_p a ?h = Some t" "unat t = (if ?h = 1 then unat a else unat a ^ unat ?h mod unat P)" by blast
    have tm: "unat t mod unat P = unat a ^ unat ?h mod unat P" using t(2) by (cases "?h = 1") simp_all
    define q where "q = mul_mod_p t t"
    have "unat t \<le> unat P" using t(2) less.prems(1) by (cases "?h = 1") (simp_all add: unat_P less_imp_le)
    then have q: "unat q = unat a ^ (2 * unat ?h) mod unat P"
      using mod_mult_cong [OF tm tm] by (simp add: q_def mul_mod_p_correct mult_2 power_add)
    then have "unat q \<le> unat P" by (simp add: unat_P less_imp_le)
    then have qa: "unat (mul_mod_p q a) = unat a ^ Suc (2 * unat ?h) mod unat P"
      by (simp add: mul_mod_p_correct q mod_mult_right_eq mult.commute)
    have odd: "b mod 2 \<noteq> 0 \<longleftrightarrow> odd (unat b)"
      by (simp add: word_unat_eq_iff unat_mod_distrib odd_iff_mod_2_eq_one)
    have "pow_mod_p a b = Some (if b mod 2 \<noteq> 0 then mul_mod_p q a else q)"
      using False t(1) by (simp add: pow_mod_p.simps [of a b] q_def Let_def)
    moreover have "unat (if b mod 2 \<noteq> 0 then mul_mod_p q a else q) = unat a ^ unat b mod unat P"
    proof (cases "odd (unat b)")
      case True
      then have "Suc (2 * unat ?h) = unat b" using h by simp
      with True qa odd show ?thesis by (simp only: if_True simp_thms)
    next
      case False
      then have "2 * unat ?h = unat b" using h by simp
      with False q odd show ?thesis by (simp only: if_False simp_thms)
    qed
    ultimately show ?thesis using False by simp
  qed
qed

lemma powmodp_cases:
  assumes "b \<noteq> 0"
  shows "\<exists>r. powmodp a b = Some r \<and> unat r = (if a = P \<and> b = 1 then unat P else unat a ^ unat b mod unat P)"
proof -
  let ?a = "if a > P then a mod P else a"
  have "unat ?a = (if a = P then unat P else unat a mod unat P)"
    by (auto simp: unat_mod_distrib word_less_nat_alt word_unat_eq_iff unat_P)
  moreover from this have "unat ?a \<le> unat P" by (auto simp: unat_P less_imp_le)
  ultimately show ?thesis using pow_mod_p_correct [of ?a b] assms
    by (cases "a = P"; cases "b = 1") (simp_all add: powmodp_def power_mod)
qed

lemma powmodp_correct:
  "a \<noteq> P \<Longrightarrow> b \<noteq> 0 \<Longrightarrow> \<exists>r. powmodp a b = Some r \<and> unat r = unat a ^ unat b mod unat P"
  using powmodp_cases [of b a] by simp

section \<open>Keys as bytes\<close>

lemma length_push64 [simp]: "length (push64 r) = 8"
  by (simp add: push64_def)

definition key_word :: "bytes \<Rightarrow> u64" where
  "key_word x = join64 (word_at x 0) (word_at x 4)"

lemma bit_word_at:
  "length x \<ge> i + 4 \<Longrightarrow> n < 32 \<Longrightarrow> bit (word_at x i) n \<longleftrightarrow> bit (x ! (i + n div 8)) (n mod 8)"
proof -
  assume "n < 32"
  then consider "n < 8" | "8 \<le> n" "n < 16" | "16 \<le> n" "n < 24" | "24 \<le> n" "n < 32" by linarith
  then show ?thesis
  proof cases
    case 1
    then show ?thesis by (simp add: word_at_def bit_simps)
  next
    case 2
    then have "n div 8 = 1" "n mod 8 = n - 8" by (auto simp: div_nat_eqI mod_if)
    with 2 show ?thesis by (auto simp: word_at_def bit_simps dest: bit_imp_le_length)
  next
    case 3
    then have "n div 8 = 2" "n mod 8 = n - 16" by (auto simp: div_nat_eqI mod_if)
    with 3 show ?thesis by (auto simp: word_at_def bit_simps dest: bit_imp_le_length)
  next
    case 4
    then have "n div 8 = 3" "n mod 8 = n - 24" by (auto simp: div_nat_eqI mod_if)
    with 4 show ?thesis by (auto simp: word_at_def bit_simps dest: bit_imp_le_length)
  qed
qed

lemma bit_key_word:
  "length x = 8 \<Longrightarrow> n < 64 \<Longrightarrow> bit (key_word x) n \<longleftrightarrow> bit (x ! (n div 8)) (n mod 8)"
proof (cases "n < 32")
  case False
  assume len: "length x = 8" "n < 64"
  have "4 + (n - 32) div 8 = n div 8" "(n - 32) mod 8 = n mod 8" using False len
    by (auto simp: div_if mod_if)
  then show ?thesis using False len bit_word_at [of 4 x "n - 32"]
    by (auto simp: key_word_def join64_def bit_simps dest: bit_imp_le_length)
next
  case True
  assume "length x = 8"
  then show ?thesis using True bit_word_at [of 0 x n] by (auto simp: key_word_def join64_def bit_simps)
qed

lemma key_word_push64 [simp]: "key_word (push64 r) = r"
proof (rule bit_word_eqI)
  fix n assume "n < LENGTH(64)"
  then have n: "n < 64" by simp
  then have "n div 8 < 8" by simp
  have ff: "(0xff :: u64) = mask 8" by (simp add: mask_eq_exp_minus_1)
  have "n mod 8 < 64" using mod_less_divisor [of 8 n] by linarith
  with \<open>n div 8 < 8\<close> show "bit (key_word (push64 r)) n \<longleftrightarrow> bit r n"
    by (simp add: bit_key_word [OF length_push64 n]) (simp add: push64_def ff bit_simps n)
qed

section \<open>Properties\<close>

lemma ldhexchange_ok:
  assumes "length x = 8" "key_word x \<noteq> 0"
  shows "\<exists>r. ldhexchange x = Some (Inr (push64 r)) \<and> unat r = 5 ^ unat (key_word x) mod unat P"
  using powmodp_correct [of G "key_word x"] assms
  by (auto simp: ldhexchange_def key_word_def [symmetric] G_def P_def Let_def)

lemma ldhsecret_ok:
  assumes "length y = 8" "r \<noteq> 0" "r \<noteq> P" "key_word y \<noteq> 0"
  shows "\<exists>s. ldhsecret (push64 r) y = Some (Inr (push64 s)) \<and> unat s = unat r ^ unat (key_word y) mod unat P"
proof -
  obtain s where "powmodp r (key_word y) = Some s" "unat s = unat r ^ unat (key_word y) mod unat P"
    using powmodp_correct [of r "key_word y"] assms by blast
  moreover have "join64 (word_at (push64 r) 0) (word_at (push64 r) 4) = r"
    using key_word_push64 [of r] by (simp only: key_word_def)
  ultimately show ?thesis using assms by (auto simp: ldhsecret_def read64_def key_word_def Let_def)
qed

text \<open>5 is a unit modulo \<open>P\<close>: no power of it is 0.\<close>

lemma power_5_nonzero: "5 ^ k mod unat P \<noteq> 0"
proof
  assume "5 ^ k mod unat P = 0"
  then have "unat P dvd 5 ^ k" by (simp add: mod_eq_0_iff_dvd)
  moreover have "coprime (5 ^ k) (unat P)"
  proof (rule coprime_power_left_iff [THEN iffD2], rule disjI1)
    have "gcd 5 (unat P) = (1 :: nat)" unfolding unat_P by (simp add: gcd_non_0_nat)
    then show "coprime 5 (unat P)" by (rule coprime_iff_gcd_eq_1 [THEN iffD2])
  qed
  ultimately have "is_unit (unat P)" using coprime_common_divisor [of "5 ^ k" "unat P" "unat P"] by simp
  then show False by (simp add: unat_P)
qed

text \<open>
  Property C26. Diffie-Hellman agreement: for all private keys of 8 bytes that are not zero both
  exchanges succeed, and each side computes the same secret from the public key of the other and
  its own private key, namely 5 to the product of the private keys modulo the prime.
\<close>

theorem dh_agreement:
  assumes "length a = 8" "length b = 8" "key_word a \<noteq> 0" "key_word b \<noteq> 0"
  shows "\<exists>pa pb s. ldhexchange a = Some (Inr pa) \<and> ldhexchange b = Some (Inr pb)
    \<and> ldhsecret pb a = Some (Inr s) \<and> ldhsecret pa b = Some (Inr s)
    \<and> unat (key_word s) = 5 ^ (unat (key_word a) * unat (key_word b)) mod unat P"
proof -
  obtain ra rb where ra: "ldhexchange a = Some (Inr (push64 ra))" "unat ra = 5 ^ unat (key_word a) mod unat P"
    and rb: "ldhexchange b = Some (Inr (push64 rb))" "unat rb = 5 ^ unat (key_word b) mod unat P"
    using ldhexchange_ok assms by metis
  have pub: "r \<noteq> 0 \<and> r \<noteq> P" if "unat r = 5 ^ k mod unat P" for r k
    using that power_5_nonzero [of k] by (auto simp: unat_P)
  obtain sa sb where sa: "ldhsecret (push64 rb) a = Some (Inr (push64 sa))" "unat sa = unat rb ^ unat (key_word a) mod unat P"
    and sb: "ldhsecret (push64 ra) b = Some (Inr (push64 sb))" "unat sb = unat ra ^ unat (key_word b) mod unat P"
    using ldhsecret_ok pub [OF ra(2)] pub [OF rb(2)] assms by metis
  have "unat sb = 5 ^ (unat (key_word a) * unat (key_word b)) mod unat P"
    using sb(2) ra(2) by (simp add: power_mod power_mult)
  moreover have "unat sa = 5 ^ (unat (key_word a) * unat (key_word b)) mod unat P"
    using sa(2) rb(2) by (simp add: power_mod power_mult [symmetric] mult.commute)
  ultimately have "sa = sb" "unat (key_word (push64 sa)) = 5 ^ (unat (key_word a) * unat (key_word b)) mod unat P"
    by (simp_all add: word_unat_eq_iff)
  then show ?thesis using ra(1) rb(1) sa(1) sb(1) by blast
qed

theorem dh_agreement_witness:
  "\<exists>pa pb s. ldhexchange [1, 2, 3, 4, 5, 6, 7, 8] = Some (Inr pa) \<and> ldhexchange [9, 0, 0, 0, 0, 0, 0, 0x80] = Some (Inr pb)
    \<and> ldhsecret pb [1, 2, 3, 4, 5, 6, 7, 8] = Some (Inr s) \<and> ldhsecret pa [9, 0, 0, 0, 0, 0, 0, 0x80] = Some (Inr s)
    \<and> unat (key_word s) = 5 ^ (unat (key_word [1, 2, 3, 4, 5, 6, 7, 8]) * unat (key_word [9, 0, 0, 0, 0, 0, 0, 0x80])) mod unat P"
proof (rule dh_agreement)
  show "length [1 :: u8, 2, 3, 4, 5, 6, 7, 8] = 8" "length [9 :: u8, 0, 0, 0, 0, 0, 0, 0x80] = 8" by simp_all
  show "key_word [1, 2, 3, 4, 5, 6, 7, 8] \<noteq> 0" "key_word [9, 0, 0, 0, 0, 0, 0, 0x80] \<noteq> 0"
    by (code_simp, code_simp)
qed

text \<open>
  \<^verbatim>\<open>powmodp\<close> returns for every base and every exponent other than 0, and its result is
  the power modulo the prime in all cases but one: its guard \<^verbatim>\<open>a > P\<close> does not reduce the prime
  itself, which comes back unreduced as its own first power.
\<close>

theorem powmodp_power:
  assumes "b \<noteq> 0"
  shows "\<exists>r. powmodp a b = Some r \<and> (unat r = unat a ^ unat b mod unat P \<longleftrightarrow> \<not> (a = P \<and> b = 1))"
  using powmodp_cases [OF assms, of a] by (auto simp: unat_P)

theorem powmodp_power_witness:
  "\<exists>r. powmodp P 1 = Some r \<and> (unat r = unat P ^ unat (1 :: u64) mod unat P \<longleftrightarrow> \<not> (P = P \<and> (1 :: u64) = 1))"
  by (rule powmodp_power) simp

end
