(* ===== verification/Codec.thy ===== *)
theory Codec
  imports Dh
begin

text \<open>
  The text encodings and small hashes of \<^verbatim>\<open>skynet/lualib-src/lua-crypt.c\<close>: hexadecimal, base64,
  \<^verbatim>\<open>hashkey\<close>, \<^verbatim>\<open>xor_str\<close> and \<^verbatim>\<open>randomkey\<close>. In the hexadecimal functions texts are shorter than an \<^verbatim>\<open>int\<close>
  can count; in base64 the \<^verbatim>\<open>int\<close> sizes and the choice of the output buffer are written out.
\<close>

section \<open>Keys and hashes\<close>

text \<open>The results of the calls of \<^verbatim>\<open>random()\<close> are an argument.\<close>

definition lrandomkey :: "(nat \<Rightarrow> u64) \<Rightarrow> bytes" where
  "lrandomkey random =
     (let tmp = map (\<lambda>i. ucast (random i AND 0xff) :: u8) [0..<8];
          x = foldl (XOR) 0 tmp
      in if x = 0 then tmp[0 := tmp ! 0 OR 1] else tmp)"

text \<open>The loop of \<^verbatim>\<open>Hash\<close>: the two running hashes.\<close>

definition hash_step :: "u32 \<times> u32 \<Rightarrow> u8 \<Rightarrow> u32 \<times> u32" where
  "hash_step = (\<lambda>(djb, js) c. (djb + (push_bit 5 djb + ucast c), js XOR (push_bit 5 js + ucast c + drop_bit 2 js)))"

definition put_le :: "u32 \<Rightarrow> bytes" where
  "put_le w = map (\<lambda>k. ucast (drop_bit (8 * k) w AND 0xff)) [0..<4]"

definition Hash :: "bytes \<Rightarrow> bytes" where
  "Hash str = (let (djb_hash, js_hash) = foldl hash_step (5381, 1315423911) str in put_le djb_hash @ put_le js_hash)"

definition lhashkey :: "bytes \<Rightarrow> bytes" where
  "lhashkey key = Hash key"

definition lxor_str :: "bytes \<Rightarrow> bytes \<Rightarrow> crypt_error + bytes" where
  "lxor_str s1 s2 =
     (if length s2 = 0 then Inl CantXorEmpty
      else Inr (map (\<lambda>i. s1 ! i XOR s2 ! (i mod length s2)) [0..<length s1]))"

section \<open>Hexadecimal\<close>

definition hex :: bytes where
  "hex = ascii ''0123456789abcdef''"

definition ltohex :: "bytes \<Rightarrow> bytes" where
  "ltohex t = concat (map (\<lambda>b. [hex ! unat (drop_bit 4 b), hex ! unat (b AND 0xf)]) t)"

text \<open>
  The macro: \<^verbatim>\<open>char\<close> is signed, and the value is stored in a \<^verbatim>\<open>uint8_t\<close>. The comparison with the
  digits is the signed one.
\<close>

definition HEX :: "u8 \<Rightarrow> u8" where
  "HEX c = (if sint c \<ge> 48 \<and> sint c \<le> 57 then c - 48 else c - 97 + 10)"

fun hex_loop :: "bytes \<Rightarrow> crypt_error + bytes" where
  "hex_loop (x # y # rest) = (let hi = HEX x; low = HEX y in
     if hi > 16 \<or> low > 16 then Inl InvalidText
     else map_sum id ((#) (push_bit 4 hi OR low)) (hex_loop rest))"
| "hex_loop _ = Inr []"

definition lfromhex :: "bytes \<Rightarrow> crypt_error + bytes" where
  "lfromhex t = (if odd (length t) then Inl (InvalidHexSize (length t)) else hex_loop t)"

section \<open>Base64\<close>

definition encoding :: bytes where
  "encoding = ascii ''ABCDEFGHIJKLMNOPQRSTUVWXYZabcdefghijklmnopqrstuvwxyz0123456789+/''"

definition enc :: "u32 \<Rightarrow> u8" where
  "enc v = encoding ! unat v"

text \<open>The characters that \<^verbatim>\<open>lb64encode\<close> writes: the loop over groups of three bytes and the padded rest.\<close>

fun b64_text :: "bytes \<Rightarrow> bytes" where
  "b64_text (x # y # z # rest) =
     (let v = push_bit 16 (ucast x) OR push_bit 8 (ucast y) OR ucast z in
      [enc (drop_bit 18 v), enc (drop_bit 12 v AND 0x3f), enc (drop_bit 6 v AND 0x3f), enc (v AND 0x3f)]
      @ b64_text rest)"
| "b64_text [x] = (let v = ucast x in [enc (drop_bit 2 v), enc (push_bit 4 (v AND 3)), 61, 61])"
| "b64_text [x, y] =
     (let v = push_bit 8 (ucast x) OR ucast y in
      [enc (drop_bit 10 v), enc (drop_bit 4 v AND 0x3f), enc (push_bit 2 (v AND 0xf)), 61])"
| "b64_text [] = []"

text \<open>
  The output goes to a buffer on the stack, or to one from \<^verbatim>\<open>lua_newuserdata\<close> when the size, an
  \<^verbatim>\<open>int\<close>, is larger. The loops count with \<^verbatim>\<open>int\<close> too: a text of \<open>2 ^ 31\<close> bytes or more has no result.
\<close>

definition SMALL_CHUNK :: int where
  "SMALL_CHUNK = 256"

definition buffer_room :: "int \<Rightarrow> int" where
  "buffer_room sz = (if sz > SMALL_CHUNK then sz else SMALL_CHUNK)"

definition lb64encode :: "bytes \<Rightarrow> bytes option" where
  "lb64encode s = do {
     _ \<leftarrow> c_int (int (length s));
     let encode_sz = sint (word_of_nat ((length s + 2) div 3 * 4) :: i32);
     let out = b64_text s;
     assert_c (int (length out) \<le> buffer_room encode_sz);
     Some (take (nat encode_sz) out)
   }"

definition decoding :: "i32 list" where
  "decoding = [62,-1,-1,-1,63,52,53,54,55,56,57,58,59,60,61,-1,-1,-1,-2,-1,-1,-1,0,1,2,3,4,5,6,7,8,9,10,11,12,13,14,
    15,16,17,18,19,20,21,22,23,24,25,-1,-1,-1,-1,-1,-1,26,27,28,29,30,31,32,33,34,35,36,37,38,39,40,41,42,43,44,45,
    46,47,48,49,50,51]"

definition b64index :: "u8 \<Rightarrow> i32" where
  "b64index c = (if c < 43 then - 1
     else let c1 = unat (c - 43) in if c1 \<ge> length decoding then - 1 else decoding ! c1)"

text \<open>The inner loop: the next \<open>j\<close> characters of the alphabet, skipping all others.\<close>

fun read_quad :: "nat \<Rightarrow> bytes \<Rightarrow> (i32 list \<times> bytes) option" where
  "read_quad 0 t = Some ([], t)"
| "read_quad (Suc j) [] = None"
| "read_quad (Suc j) (x # xs) =
     (if b64index x = - 1 then read_quad (Suc j) xs
      else map_option (apfst ((#) (b64index x))) (read_quad j xs))"

text \<open>The bytes of a group of four; \<open>-2\<close> stands for the padding character.\<close>

definition b64_group :: "i32 list \<Rightarrow> crypt_error + bytes" where
  "b64_group c = (let padding = length (filter (\<lambda>x. x = - 2) c) in
     if padding = 0 then
       let v = push_bit 18 (c ! 0) OR push_bit 12 (c ! 1) OR push_bit 6 (c ! 2) OR c ! 3 in
       Inr [ucast (drop_bit 16 v), ucast (drop_bit 8 v AND 0xff), ucast (v AND 0xff)]
     else if padding = 1 then
       if c ! 3 \<noteq> - 2 \<or> c ! 2 AND 3 \<noteq> 0 then Inl InvalidText
       else let v = push_bit 10 (c ! 0) OR push_bit 4 (c ! 1) OR signed_drop_bit 2 (c ! 2) in
         Inr [ucast (drop_bit 8 v), ucast (v AND 0xff)]
     else if padding = 2 then
       if c ! 3 \<noteq> - 2 \<or> c ! 2 \<noteq> - 2 \<or> c ! 1 AND 0xf \<noteq> 0 then Inl InvalidText
       else let v = push_bit 2 (c ! 0) OR signed_drop_bit 4 (c ! 1) in Inr [ucast v]
     else Inl InvalidText)"

lemma read_quad_rest: "read_quad j t = Some (c, r) \<Longrightarrow> length r + j \<le> length t \<and> length c = j"
  by (induction j t arbitrary: c r rule: read_quad.induct) (auto split: if_splits dest: less_imp_le)

function b64_bytes :: "bytes \<Rightarrow> crypt_error + bytes" where
  "b64_bytes t =
     (if t = [] then Inr []
      else case read_quad 4 t of
        None \<Rightarrow> Inl InvalidText
      | Some (c, r) \<Rightarrow> (case b64_group c of
          Inl e \<Rightarrow> Inl e
        | Inr out \<Rightarrow> map_sum id ((@) out) (b64_bytes r)))"
  by pat_completeness auto
termination
  by (relation "measure length") (auto dest: read_quad_rest)

declare b64_bytes.simps [simp del]

text \<open>
  The loop of \<^verbatim>\<open>lb64decode\<close> with its buffer: \<open>out\<close> is what has been written so far. A write
  behind the end of the buffer has no meaning; \<open>b64_bytes\<close> above is the loop without the buffer.
\<close>

function b64_loop :: "int \<Rightarrow> bytes \<Rightarrow> bytes \<Rightarrow> (crypt_error + bytes) option" where
  "b64_loop room out t =
     (if t = [] then Some (Inr out)
      else case read_quad 4 t of
        None \<Rightarrow> Some (Inl InvalidText)
      | Some (c, r) \<Rightarrow> (case b64_group c of
          Inl e \<Rightarrow> Some (Inl e)
        | Inr bs \<Rightarrow> if int (length (out @ bs)) \<le> room then b64_loop room (out @ bs) r else None))"
  by pat_completeness auto
termination
  by (relation "measure (\<lambda>(_, _, t). length t)") (auto dest: read_quad_rest)

declare b64_loop.simps [simp del]

definition lb64decode :: "bytes \<Rightarrow> (crypt_error + bytes) option" where
  "lb64decode t = do {
     _ \<leftarrow> c_int (int (length t));
     let decode_sz = sint (word_of_nat ((length t + 3) div 4 * 3) :: i32);
     b64_loop (buffer_room decode_sz) [] t
   }"

section \<open>The encodings are inverted by their decoders\<close>

text \<open>Bits of small words, position by position.\<close>

lemma less_8_cases: "n < 8 \<Longrightarrow> n = 0 \<or> n = 1 \<or> n = 2 \<or> n = 3 \<or> n = 4 \<or> n = 5 \<or> n = 6 \<or> n = (7 :: nat)"
  by linarith

lemma byte_eqI: "(\<And>n. n \<in> {0, 1, 2, 3, 4, 5, 6, 7} \<Longrightarrow> bit a n = bit b n) \<Longrightarrow> (a :: u8) = b"
  by (rule bit_word_eqI) (use less_8_cases in auto)

lemma all_lt_16: "list_all Q [0..<16] \<Longrightarrow> n < 16 \<Longrightarrow> Q n"
  by (simp add: list_all_iff)

lemma HEX_hex: "n < 16 \<Longrightarrow> HEX (hex ! n) = word_of_nat n"
  by (rule all_lt_16 [where Q = "\<lambda>n. HEX (hex ! n) = word_of_nat n"]) code_simp

lemma nibbles: "unat (drop_bit 4 b) < 16" "unat (b AND 0xf) < 16" for b :: u8
proof -
  have "b AND 0xf = take_bit 4 b" by (simp add: take_bit_eq_mask mask_eq_exp_minus_1)
  then have "unat (b AND 0xf) = unat b mod 16" by (simp only: unsigned_take_bit_eq) (simp add: take_bit_eq_mod)
  then show "unat (b AND 0xf) < 16" by simp
  show "unat (drop_bit 4 b) < 16" using unsigned_less [of b, where ?'a = nat] by (simp add: unat_drop_bit)
qed

lemma hex_loop_inverts: "hex_loop (ltohex t) = Inr t"
proof (induction t)
  case Nil
  then show ?case by (simp add: ltohex_def)
next
  case (Cons b t)
  have "push_bit 4 (drop_bit 4 b) OR b AND 0xf = b"
    by (rule byte_eqI) (auto simp: bit_simps)
  moreover have "drop_bit 4 b \<le> 16" "b AND 0xf \<le> 16"
    using nibbles [of b] by (auto simp: word_le_nat_alt)
  moreover have "HEX (hex ! unat (drop_bit 4 b)) = drop_bit 4 b" "HEX (hex ! unat (b AND 0xf)) = b AND 0xf"
    using nibbles [of b] HEX_hex by simp_all
  ultimately show ?case using Cons.IH by (simp add: ltohex_def Let_def not_less [symmetric])
qed

lemma length_ltohex: "length (ltohex t) = 2 * length t"
  by (induction t) (simp_all add: ltohex_def)

lemma all_lt_64: "list_all Q [0..<64] \<Longrightarrow> n < 64 \<Longrightarrow> Q n"
  by (simp add: list_all_iff)

lemma b64index_enc: "v < 64 \<Longrightarrow> b64index (enc v) = v"
proof -
  assume "v < 64"
  then have "unat v < 64" by (simp add: word_less_nat_alt)
  then have "b64index (encoding ! unat v) = word_of_nat (unat v)"
    by (rule all_lt_64 [where Q = "\<lambda>n. b64index (encoding ! n) = word_of_nat n", rotated]) code_simp
  then show ?thesis by (simp add: enc_def)
qed

lemma less_64I: "(\<And>n. bit v n \<Longrightarrow> n < 6) \<Longrightarrow> (v :: u32) < 64"
proof -
  assume "\<And>n. bit v n \<Longrightarrow> n < 6"
  then have "take_bit 6 v = v" by (auto intro!: bit_word_eqI simp: bit_simps)
  moreover have "unat (take_bit 6 v) = take_bit 6 (unat v)" by (rule unsigned_take_bit_eq)
  ultimately have "unat v = unat v mod 64" by (simp add: take_bit_eq_mod)
  then have "unat v < 64" by (metis mod_less_divisor zero_less_numeral)
  then show ?thesis by (simp add: word_less_nat_alt)
qed

lemma pad_index: "b64index 61 = - 2"
  by code_simp

text \<open>Reading a group skips what is not in the alphabet.\<close>

definition valid :: "bytes \<Rightarrow> bytes" where
  "valid t = filter (\<lambda>x. b64index x \<noteq> - 1) t"

lemma read_quad_valid:
  "valid t = cs @ r \<Longrightarrow> length cs = j \<Longrightarrow>
    \<exists>t1 t2. t = t1 @ t2 \<and> valid t2 = r \<and> read_quad j t = Some (map b64index cs, t2)"
proof (induction j t arbitrary: cs r rule: read_quad.induct)
  case (1 t)
  then show ?case by simp
next
  case (2 j)
  then show ?case by (cases cs) (simp_all add: valid_def)
next
  case (3 j x xs)
  show ?case
  proof (cases "b64index x = - 1")
    case True
    from "3.IH"(1) [OF True] "3.prems" True obtain t1 t2 where
      "xs = t1 @ t2" "valid t2 = r" "read_quad (Suc j) xs = Some (map b64index cs, t2)" by (auto simp: valid_def)
    then show ?thesis using True by (intro exI [of _ "x # t1"] exI [of _ t2]) simp
  next
    case False
    then obtain c cs' where cs: "cs = c # cs'" "c = x" "valid xs = cs' @ r" "length cs' = j"
      using "3.prems" by (cases cs) (auto simp: valid_def)
    from "3.IH"(2) [OF False cs(3,4)] obtain t1 t2 where
      "xs = t1 @ t2" "valid t2 = r" "read_quad j xs = Some (map b64index cs', t2)" by blast
    then show ?thesis using False cs by (intro exI [of _ "x # t1"] exI [of _ t2]) simp
  qed
qed

text \<open>The last character is of the alphabet: the code refuses anything else there.\<close>

definition ends_valid :: "bytes \<Rightarrow> bool" where
  "ends_valid t \<longleftrightarrow> t = [] \<or> b64index (last t) \<noteq> - 1"

lemma ends_valid_suffix: "ends_valid (t1 @ t2) \<Longrightarrow> ends_valid t2"
  by (cases t2) (auto simp: ends_valid_def)

lemma ends_valid_Nil: "valid t = [] \<Longrightarrow> ends_valid t \<Longrightarrow> t = []"
  by (cases t rule: rev_cases) (auto simp: valid_def ends_valid_def)

lemma b64_bytes_group:
  assumes "valid t = cs @ r" "length cs = 4" "ends_valid t" "b64_group (map b64index cs) = Inr out"
  shows "\<exists>t2. valid t2 = r \<and> ends_valid t2 \<and> b64_bytes t = map_sum id ((@) out) (b64_bytes t2)"
proof -
  from read_quad_valid [OF assms(1,2)] obtain t1 t2 where
    t: "t = t1 @ t2" "valid t2 = r" "read_quad 4 t = Some (map b64index cs, t2)" by blast
  have "t \<noteq> []" using assms(1,2) by (auto simp: valid_def)
  with t(3) assms(4) have "b64_bytes t = map_sum id ((@) out) (b64_bytes t2)" by (subst b64_bytes.simps) simp
  then show ?thesis using t(1,2) ends_valid_suffix assms(3) by blast
qed

lemma not_pad: "(v :: i32) < 64 \<Longrightarrow> v \<noteq> - 2"
  by auto

lemma bit_u8: "bit (x :: u8) n \<Longrightarrow> n < 8"
  using bit_imp_le_length [of x n] by simp

lemma bit_u8_high: "8 \<le> n \<Longrightarrow> \<not> bit (x :: u8) n"
  using bit_u8 [of x n] by auto

lemma low_masks: "(0x3f :: u32) = mask 6" "(0xff :: u32) = mask 8" "(0xf :: u32) = mask 4" "(3 :: u32) = mask 2"
  by (simp_all add: mask_eq_exp_minus_1)

lemma group_3:
  fixes x y z :: u8
  defines "v \<equiv> push_bit 16 (ucast x) OR push_bit 8 (ucast y) OR ucast z :: u32"
  shows "b64_group (map b64index [enc (drop_bit 18 v), enc (drop_bit 12 v AND 0x3f), enc (drop_bit 6 v AND 0x3f), enc (v AND 0x3f)])
    = Inr [x, y, z]"
proof -
  have lt: "drop_bit 18 v < 64" "drop_bit 12 v AND 0x3f < 64" "drop_bit 6 v AND 0x3f < 64" "v AND 0x3f < 64"
    unfolding v_def low_masks by (rule less_64I; auto simp: bit_simps dest!: bit_u8)+
  have v: "push_bit 18 (drop_bit 18 v) OR push_bit 12 (drop_bit 12 v AND 0x3f) OR push_bit 6 (drop_bit 6 v AND 0x3f) OR v AND 0x3f = v"
  proof (rule bit_word_eqI)
    fix n :: nat
    consider "n < 6" | "6 \<le> n" "n < 12" | "12 \<le> n" "n < 18" | "18 \<le> n" by linarith
    then show "bit (push_bit 18 (drop_bit 18 v) OR push_bit 12 (drop_bit 12 v AND 0x3f) OR push_bit 6 (drop_bit 6 v AND 0x3f)
        OR v AND 0x3f) n \<longleftrightarrow> bit v n" unfolding low_masks
      by cases (auto simp: bit_simps dest: bit_imp_le_length)
  qed
  have "ucast (drop_bit 16 v) = x" "ucast (drop_bit 8 v AND 0xff) = y" "ucast (v AND 0xff) = z"
    unfolding v_def low_masks by (rule byte_eqI; elim insertE; simp add: bit_simps bit_u8_high)+
  with v lt [THEN not_pad] show ?thesis by (simp add: b64_group_def b64index_enc lt Let_def)
qed

lemma group_2:
  fixes x y :: u8
  defines "v \<equiv> push_bit 8 (ucast x) OR ucast y :: u32"
  shows "b64_group (map b64index [enc (drop_bit 10 v), enc (drop_bit 4 v AND 0x3f), enc (push_bit 2 (v AND 0xf)), 61])
    = Inr [x, y]"
proof -
  let ?c = "push_bit 2 (v AND 0xf)"
  have lt: "drop_bit 10 v < 64" "drop_bit 4 v AND 0x3f < 64" "?c < 64"
    unfolding v_def low_masks by (rule less_64I; auto simp: bit_simps dest!: bit_u8)+
  have low: "?c AND 3 = 0" unfolding low_masks by (rule bit_word_eqI) (auto simp: bit_simps)
  have v: "push_bit 10 (drop_bit 10 v) OR push_bit 4 (drop_bit 4 v AND 0x3f) OR signed_drop_bit 2 ?c = v"
  proof (rule bit_word_eqI)
    fix n assume "n < LENGTH(32)"
    then consider "n < 4" | "4 \<le> n" "n < 10" | "10 \<le> n" "n < 32" by fastforce
    then show "bit (push_bit 10 (drop_bit 10 v) OR push_bit 4 (drop_bit 4 v AND 0x3f) OR signed_drop_bit 2 ?c) n \<longleftrightarrow> bit v n"
      unfolding low_masks
      by cases (auto simp: bit_simps bit_signed_drop_bit_iff dest: bit_imp_le_length)
  qed
  have "ucast (drop_bit 8 v) = x" "ucast (v AND 0xff) = y"
    unfolding v_def low_masks by (rule byte_eqI; elim insertE; simp add: bit_simps bit_u8_high)+
  with v low lt [THEN not_pad] show ?thesis unfolding list.map b64index_enc [OF lt(1)] b64index_enc [OF lt(2)] b64index_enc [OF lt(3)] pad_index
    by (simp add: b64_group_def Let_def del: push_bit_and drop_bit_and)
qed

lemma group_1:
  fixes x :: u8
  defines "v \<equiv> ucast x :: u32"
  shows "b64_group (map b64index [enc (drop_bit 2 v), enc (push_bit 4 (v AND 3)), 61, 61]) = Inr [x]"
proof -
  let ?c = "push_bit 4 (v AND 3)"
  have lt: "drop_bit 2 v < 64" "?c < 64"
    unfolding v_def low_masks by (rule less_64I; auto simp: bit_simps dest!: bit_u8)+
  have low: "?c AND 0xf = 0" unfolding low_masks by (rule bit_word_eqI) (auto simp: bit_simps)
  have v: "push_bit 2 (drop_bit 2 v) OR signed_drop_bit 4 ?c = v"
  proof (rule bit_word_eqI)
    fix n assume "n < LENGTH(32)"
    then consider "n < 2" | "2 \<le> n" "n < 32" by fastforce
    then show "bit (push_bit 2 (drop_bit 2 v) OR signed_drop_bit 4 ?c) n \<longleftrightarrow> bit v n"
      unfolding low_masks
      by cases (simp_all add: bit_simps bit_signed_drop_bit_iff flip: Suc_diff_le)
  qed
  have "ucast v = x" unfolding v_def by (rule byte_eqI) (auto simp: bit_simps)
  with v low lt [THEN not_pad] show ?thesis unfolding list.map b64index_enc [OF lt(1)] b64index_enc [OF lt(2)] pad_index
    by (simp add: b64_group_def Let_def del: push_bit_and drop_bit_and)
qed

lemma decode_end: "valid t = [] \<Longrightarrow> ends_valid t \<Longrightarrow> b64_bytes t = Inr []"
  using ends_valid_Nil [of t] by (simp add: b64_bytes.simps [of "[]"])

lemma b64_inverts: "valid t = b64_text s \<Longrightarrow> ends_valid t \<Longrightarrow> b64_bytes t = Inr s"
proof (induction s arbitrary: t rule: b64_text.induct)
  case (1 x y z rest)
  from b64_bytes_group [OF "1.prems"(1) [unfolded b64_text.simps Let_def] _ "1.prems"(2) group_3]
  obtain t2 where "valid t2 = b64_text rest" "ends_valid t2" "b64_bytes t = map_sum id ((@) [x, y, z]) (b64_bytes t2)"
    by auto
  then show ?case using "1.IH" by (auto simp: Let_def)
next
  case (2 x)
  have "valid t = [enc (drop_bit 2 (ucast x)), enc (push_bit 4 (ucast x AND 3)), 61, 61] @ []" using "2.prems"(1) by (simp add: Let_def)
  from b64_bytes_group [OF this _ "2.prems"(2) group_1]
  show ?case by (auto simp: decode_end)
next
  case (3 x y)
  have "valid t = [enc (drop_bit 10 (push_bit 8 (ucast x) OR ucast y)), enc (drop_bit 4 (push_bit 8 (ucast x) OR ucast y) AND 0x3f),
    enc (push_bit 2 ((push_bit 8 (ucast x) OR ucast y) AND 0xf)), 61] @ []" using "3.prems"(1) by (simp add: Let_def)
  from b64_bytes_group [OF this _ "3.prems"(2) group_2]
  show ?case by (auto simp: decode_end)
next
  case 4
  then show ?case by (auto simp: decode_end)
qed

section \<open>The buffers are large enough\<close>

lemma length_b64_text: "length (b64_text s) = (length s + 2) div 3 * 4"
proof (induction s rule: b64_text.induct)
  case (1 x y z rest)
  have "(length (x # y # z # rest) + 2) div 3 = (length rest + 2 + 3) div 3" by simp
  also have "\<dots> = (length rest + 2) div 3 + 1" by (simp only: div_add_self2)
  finally show ?case using "1.IH" by (simp add: Let_def)
qed (simp_all add: Let_def)

lemma sint_of_small: "n < 2 ^ 31 \<Longrightarrow> sint (word_of_nat n :: i32) = int n"
  by (simp add: signed_of_nat signed_take_bit_int_eq_self)

lemma lb64encode_text:
  assumes "(length s + 2) div 3 * 4 < 2 ^ 31"
  shows "lb64encode s = Some (b64_text s)"
proof -
  have "length s < 2 ^ 31" using assms by linarith
  moreover define n where "n = (length s + 2) div 3 * 4"
  then have "sint (word_of_nat n :: i32) = int n" "length (b64_text s) = n"
    using sint_of_small [OF assms] length_b64_text [of s] by simp_all
  ultimately show ?thesis unfolding lb64encode_def n_def [symmetric] by (simp add: buffer_room_def Let_def)
qed

lemma length_b64_group: "b64_group c = Inr bs \<Longrightarrow> length bs \<le> 3"
  by (auto simp: b64_group_def Let_def split: if_splits)

lemma b64_loop_bytes:
  "int (length out + length t div 4 * 3) \<le> room \<Longrightarrow> b64_loop room out t = Some (map_sum id ((@) out) (b64_bytes t))"
proof (induction room out t rule: b64_loop.induct)
  case (1 room out t)
  note unf = b64_loop.simps [of room out t] b64_bytes.simps [of t]
  show ?case
  proof (cases "t = []")
    case False
    note t = this
    show ?thesis
    proof (cases "read_quad 4 t")
      case (Some cr)
      obtain c r where cr: "cr = (c, r)" by (cases cr)
      show ?thesis
      proof (cases "b64_group c")
        case (Inr bs)
        have "length r + 4 \<le> length t" using read_quad_rest Some cr by blast
        then have "length r div 4 + 1 \<le> length t div 4" by linarith
        then have fit: "int (length (out @ bs) + length r div 4 * 3) \<le> room"
          using length_b64_group [OF Inr] "1.prems" by simp
        then have room: "int (length (out @ bs)) \<le> room" by linarith
        have "b64_loop room (out @ bs) r = Some (map_sum id ((@) (out @ bs)) (b64_bytes r))"
          by (rule "1.IH" [OF t Some [unfolded cr] refl Inr room fit])
        then show ?thesis unfolding unf using t Some cr Inr room by (cases "b64_bytes r") simp_all
      qed (unfold unf, use t Some cr in simp)
    qed (unfold unf, use t in simp)
  qed (unfold unf, simp)
qed

lemma lb64decode_bytes:
  assumes "length t < 2 ^ 31"
  shows "lb64decode t = Some (b64_bytes t)"
proof -
  have d: "(length t + 3) div 4 * 3 < 2 ^ 31" using assms by simp
  have "int (length t div 4 * 3) \<le> buffer_room (int ((length t + 3) div 4 * 3))"
    by (auto simp: buffer_room_def intro!: div_le_mono)
  then show ?thesis using b64_loop_bytes [of "[]" t] assms sint_of_small [OF d]
    by (cases "b64_bytes t") (simp_all add: lb64decode_def)
qed

section \<open>Properties\<close>

text \<open>
  Property C27. Base64 decoding inverts encoding, also when the text has been broken into lines
  or decorated with other characters. For a string whose encoded length an \<^verbatim>\<open>int\<close> can hold,
  \<^verbatim>\<open>lb64encode\<close> stays in its buffer and yields a text; from any text below \<open>2 ^ 31\<close> characters whose
  characters of the alphabet (with the padding) are that encoding, in this order, and that does
  not end in a foreign character, \<^verbatim>\<open>lb64decode\<close> stays in its buffer and restores the string.
\<close>

theorem b64_roundtrip:
  assumes "(length s + 2) div 3 * 4 < 2 ^ 31"
  shows "\<exists>e. lb64encode s = Some e \<and> (\<forall>t. filter (\<lambda>x. b64index x \<noteq> - 1) t = e
    \<longrightarrow> t = [] \<or> b64index (last t) \<noteq> - 1 \<longrightarrow> length t < 2 ^ 31 \<longrightarrow> lb64decode t = Some (Inr s))"
proof (intro exI conjI allI impI)
  show "lb64encode s = Some (b64_text s)" by (rule lb64encode_text [OF assms])
  fix t assume t: "filter (\<lambda>x. b64index x \<noteq> - 1) t = b64_text s" "t = [] \<or> b64index (last t) \<noteq> - 1"
    "length t < 2 ^ 31"
  then have "b64_bytes t = Inr s" using b64_inverts by (simp add: valid_def ends_valid_def)
  then show "lb64decode t = Some (Inr s)" using lb64decode_bytes [OF t(3)] by simp
qed

text \<open>
  Beyond that length the size is negative, the buffer on the stack is taken for large enough
  and the loop writes past its end.
\<close>

lemma b64_encode_overrun:
  assumes "2 ^ 31 \<le> (length s + 2) div 3 * 4" "length s < 2 ^ 31"
  shows "lb64encode s = None"
proof -
  let ?n = "(length s + 2) div 3 * 4"
  have "?n < 2 ^ 32" using assms(2) by simp
  then have "unat (word_of_nat ?n :: i32) = ?n" by (intro unat_word_of_nat_less) simp
  moreover have "?n div 2 ^ 31 = 1" using assms(1) \<open>?n < 2 ^ 32\<close> by (intro div_nat_eqI) simp_all
  ultimately have "bit (unat (word_of_nat ?n :: i32)) 31" by (simp only: bit_iff_odd) simp
  then have "bit (word_of_nat ?n :: i32) 31" by (simp only: bit_unsigned_iff)
  then have "sint (word_of_nat ?n :: i32) < 0" using bit_last_iff [of "word_of_nat ?n :: i32"] by simp
  then have "\<not> int (length (b64_text s)) \<le> buffer_room (sint (word_of_nat ?n :: i32))"
    using assms(1) by (simp add: buffer_room_def SMALL_CHUNK_def length_b64_text)
  then show ?thesis using assms(2) by (simp add: lb64encode_def)
qed

theorem b64_roundtrip_witness:
  "lb64encode (ascii ''ABCD'') = Some (ascii ''QUJDRA=='')
    \<and> lb64decode (ascii ''QUJ'' @ [10] @ ascii ''D RA=='') = Some (Inr (ascii ''ABCD''))"
proof -
  let ?t = "ascii ''QUJ'' @ [10] @ ascii ''D RA==''"
  have e: "lb64encode (ascii ''ABCD'') = Some (ascii ''QUJDRA=='')" by code_simp
  have t: "filter (\<lambda>x. b64index x \<noteq> - 1) ?t = ascii ''QUJDRA==''" "b64index (last ?t) \<noteq> - 1" by code_simp+
  have "(length (ascii ''ABCD'') + 2) div 3 * 4 < 2 ^ 31" "length ?t < 2 ^ 31" by (simp_all add: ascii_def)
  with b64_roundtrip [of "ascii ''ABCD''"] e t show ?thesis by auto
qed

text \<open>
  Hexadecimal decoding inverts encoding: every string is restored from its text, which
  is twice as long.
\<close>

theorem hex_roundtrip: "lfromhex (ltohex t) = Inr t \<and> length (ltohex t) = 2 * length t"
  by (simp add: lfromhex_def length_ltohex hex_loop_inverts)

text \<open>
  \<^verbatim>\<open>lfromhex\<close> accepts more than hexadecimal text: the test \<^verbatim>\<open>hi > 16\<close> lets the letter
  g pass, and the characters from W to the backquote, which are not checked against the range of
  the letters, count as the digits 0 to 9.
\<close>

theorem hex_accepts: "HEX c \<le> 16 \<longleftrightarrow> (48 \<le> c \<and> c \<le> 57) \<or> (87 \<le> c \<and> c \<le> 103)"
proof -
  have u: "0 \<le> uint c" "uint c < 256" using unsigned_less [of c, where ?'a = int] by simp_all
  have range: "- 128 \<le> sint c" "sint c < 128" using sint_greater_eq [of c] sint_less [of c] by simp_all
  have "uint c = (if 0 \<le> sint c then sint c else sint c + 256)"
  proof (cases "0 \<le> sint c")
    case False
    have "sint c mod 256 = (sint c + 256) mod 256" by (simp only: mod_add_self2)
    also have "\<dots> = sint c + 256" using False range by (intro mod_pos_pos_trivial) linarith+
    finally show ?thesis using False by (simp add: uint_sint take_bit_eq_mod)
  qed (use range in \<open>simp add: uint_sint take_bit_eq_mod\<close>)
  then have "48 \<le> sint c \<and> sint c \<le> 57 \<longleftrightarrow> 48 \<le> uint c \<and> uint c \<le> 57" using range by (simp split: if_splits)
  moreover have "uint (c - 87) = (if 87 \<le> uint c then uint c - 87 else uint c + 169)"
  proof (cases "87 \<le> uint c")
    case False
    then have "(uint c - 87) mod 256 = (uint c - 87 + 256) mod 256" by (simp only: mod_add_self2)
    then show ?thesis using False u by (simp add: uint_word_ariths)
  qed (use u in \<open>simp add: uint_word_ariths\<close>)
  moreover have "uint (c - 48) = uint c - 48" if "48 \<le> uint c" using u that by (simp add: uint_word_ariths)
  ultimately show ?thesis by (auto simp: HEX_def word_le_def) (use u in linarith)+
qed

text \<open>
  Applying \<^verbatim>\<open>xor_str\<close> twice with the same key gives back the text; only an empty key is
  refused.
\<close>

theorem xor_involution:
  "case lxor_str s k of Inl e \<Rightarrow> e = CantXorEmpty \<and> k = [] | Inr c \<Rightarrow> length c = length s \<and> lxor_str c k = Inr s"
proof (cases "k = []")
  case False
  have "map (\<lambda>i. map (\<lambda>i. s ! i XOR k ! (i mod length k)) [0..<length s] ! i XOR k ! (i mod length k)) [0..<length s] = s"
    by (rule nth_equalityI) (simp_all add: xor.assoc)
  then show ?thesis using False by (simp add: lxor_str_def)
qed (simp add: lxor_str_def)

lemma foldl_xor_0: "foldl (XOR) (x :: u8) (replicate n 0) = x"
  by (induction n) simp_all

text \<open>
  A random key is eight bytes and never zero, whatever the random numbers, so that the
  Diffie-Hellman exchange accepts every random key as a private key.
\<close>

theorem randomkey_usable:
  "length (lrandomkey random) = 8 \<and> key_word (lrandomkey random) \<noteq> 0 \<and> (\<exists>pub. ldhexchange (lrandomkey random) = Some (Inr pub))"
proof -
  let ?k = "lrandomkey random"
  have len: "length ?k = 8" by (simp add: lrandomkey_def Let_def)
  have "\<exists>i < 8. ?k ! i \<noteq> 0"
  proof (rule ccontr)
    assume none: "\<not> (\<exists>i < 8. ?k ! i \<noteq> 0)"
    define tmp where "tmp = map (\<lambda>i. ucast (random i AND 0xff) :: u8) [0..<8]"
    have k: "?k = (if foldl (XOR) 0 tmp = 0 then tmp[0 := tmp ! 0 OR 1] else tmp)"
      by (simp only: lrandomkey_def Let_def tmp_def)
    show False
    proof (cases "foldl (XOR) 0 tmp = 0")
      case True
      then have "?k ! 0 = tmp ! 0 OR 1" using k by (simp add: tmp_def)
      moreover have "bit (tmp ! 0 OR 1) 0" by (simp add: bit_simps)
      ultimately show False using none by (metis bit_0_eq zero_less_numeral bot_apply bot_bool_def)
    next
      case False
      then have "tmp = replicate 8 0" using k none len by (auto simp: list_eq_iff_nth_eq)
      then show False using False by (simp add: foldl_xor_0)
    qed
  qed
  then obtain i n where "i < 8" "n < 8" "bit (?k ! i) n" by (metis bit_word_eqI bit_0_eq bot_apply bot_bool_def bit_u8)
  then have "bit (key_word ?k) (8 * i + n)" using bit_key_word [OF len, of "8 * i + n"] by simp
  then have "key_word ?k \<noteq> 0" by auto
  then show ?thesis using len ldhexchange_ok by blast
qed

end
