(* ===== verification/Des.thy ===== *)
theory Des
  imports Codec
begin

text \<open>
  DES as \<^verbatim>\<open>skynet/lualib-src/lua-crypt.c\<close> has it: the tables, the key schedule, the block cipher and
  the padded encryption of strings. A read outside the buffer is \<open>None\<close>.
\<close>

section \<open>Tables\<close>

definition SB1 :: "u32 list" where
  "SB1 = [
    0x01010400, 0x00000000, 0x00010000, 0x01010404, 0x01010004, 0x00010404, 0x00000004, 0x00010000,
    0x00000400, 0x01010400, 0x01010404, 0x00000400, 0x01000404, 0x01010004, 0x01000000, 0x00000004,
    0x00000404, 0x01000400, 0x01000400, 0x00010400, 0x00010400, 0x01010000, 0x01010000, 0x01000404,
    0x00010004, 0x01000004, 0x01000004, 0x00010004, 0x00000000, 0x00000404, 0x00010404, 0x01000000,
    0x00010000, 0x01010404, 0x00000004, 0x01010000, 0x01010400, 0x01000000, 0x01000000, 0x00000400,
    0x01010004, 0x00010000, 0x00010400, 0x01000004, 0x00000400, 0x00000004, 0x01000404, 0x00010404,
    0x01010404, 0x00010004, 0x01010000, 0x01000404, 0x01000004, 0x00000404, 0x00010404, 0x01010400,
    0x00000404, 0x01000400, 0x01000400, 0x00000000, 0x00010004, 0x00010400, 0x00000000, 0x01010004]"

definition SB2 :: "u32 list" where
  "SB2 = [
    0x80108020, 0x80008000, 0x00008000, 0x00108020, 0x00100000, 0x00000020, 0x80100020, 0x80008020,
    0x80000020, 0x80108020, 0x80108000, 0x80000000, 0x80008000, 0x00100000, 0x00000020, 0x80100020,
    0x00108000, 0x00100020, 0x80008020, 0x00000000, 0x80000000, 0x00008000, 0x00108020, 0x80100000,
    0x00100020, 0x80000020, 0x00000000, 0x00108000, 0x00008020, 0x80108000, 0x80100000, 0x00008020,
    0x00000000, 0x00108020, 0x80100020, 0x00100000, 0x80008020, 0x80100000, 0x80108000, 0x00008000,
    0x80100000, 0x80008000, 0x00000020, 0x80108020, 0x00108020, 0x00000020, 0x00008000, 0x80000000,
    0x00008020, 0x80108000, 0x00100000, 0x80000020, 0x00100020, 0x80008020, 0x80000020, 0x00100020,
    0x00108000, 0x00000000, 0x80008000, 0x00008020, 0x80000000, 0x80100020, 0x80108020, 0x00108000]"

definition SB3 :: "u32 list" where
  "SB3 = [
    0x00000208, 0x08020200, 0x00000000, 0x08020008, 0x08000200, 0x00000000, 0x00020208, 0x08000200,
    0x00020008, 0x08000008, 0x08000008, 0x00020000, 0x08020208, 0x00020008, 0x08020000, 0x00000208,
    0x08000000, 0x00000008, 0x08020200, 0x00000200, 0x00020200, 0x08020000, 0x08020008, 0x00020208,
    0x08000208, 0x00020200, 0x00020000, 0x08000208, 0x00000008, 0x08020208, 0x00000200, 0x08000000,
    0x08020200, 0x08000000, 0x00020008, 0x00000208, 0x00020000, 0x08020200, 0x08000200, 0x00000000,
    0x00000200, 0x00020008, 0x08020208, 0x08000200, 0x08000008, 0x00000200, 0x00000000, 0x08020008,
    0x08000208, 0x00020000, 0x08000000, 0x08020208, 0x00000008, 0x00020208, 0x00020200, 0x08000008,
    0x08020000, 0x08000208, 0x00000208, 0x08020000, 0x00020208, 0x00000008, 0x08020008, 0x00020200]"

definition SB4 :: "u32 list" where
  "SB4 = [
    0x00802001, 0x00002081, 0x00002081, 0x00000080, 0x00802080, 0x00800081, 0x00800001, 0x00002001,
    0x00000000, 0x00802000, 0x00802000, 0x00802081, 0x00000081, 0x00000000, 0x00800080, 0x00800001,
    0x00000001, 0x00002000, 0x00800000, 0x00802001, 0x00000080, 0x00800000, 0x00002001, 0x00002080,
    0x00800081, 0x00000001, 0x00002080, 0x00800080, 0x00002000, 0x00802080, 0x00802081, 0x00000081,
    0x00800080, 0x00800001, 0x00802000, 0x00802081, 0x00000081, 0x00000000, 0x00000000, 0x00802000,
    0x00002080, 0x00800080, 0x00800081, 0x00000001, 0x00802001, 0x00002081, 0x00002081, 0x00000080,
    0x00802081, 0x00000081, 0x00000001, 0x00002000, 0x00800001, 0x00002001, 0x00802080, 0x00800081,
    0x00002001, 0x00002080, 0x00800000, 0x00802001, 0x00000080, 0x00800000, 0x00002000, 0x00802080]"

definition SB5 :: "u32 list" where
  "SB5 = [
    0x00000100, 0x02080100, 0x02080000, 0x42000100, 0x00080000, 0x00000100, 0x40000000, 0x02080000,
    0x40080100, 0x00080000, 0x02000100, 0x40080100, 0x42000100, 0x42080000, 0x00080100, 0x40000000,
    0x02000000, 0x40080000, 0x40080000, 0x00000000, 0x40000100, 0x42080100, 0x42080100, 0x02000100,
    0x42080000, 0x40000100, 0x00000000, 0x42000000, 0x02080100, 0x02000000, 0x42000000, 0x00080100,
    0x00080000, 0x42000100, 0x00000100, 0x02000000, 0x40000000, 0x02080000, 0x42000100, 0x40080100,
    0x02000100, 0x40000000, 0x42080000, 0x02080100, 0x40080100, 0x00000100, 0x02000000, 0x42080000,
    0x42080100, 0x00080100, 0x42000000, 0x42080100, 0x02080000, 0x00000000, 0x40080000, 0x42000000,
    0x00080100, 0x02000100, 0x40000100, 0x00080000, 0x00000000, 0x40080000, 0x02080100, 0x40000100]"

definition SB6 :: "u32 list" where
  "SB6 = [
    0x20000010, 0x20400000, 0x00004000, 0x20404010, 0x20400000, 0x00000010, 0x20404010, 0x00400000,
    0x20004000, 0x00404010, 0x00400000, 0x20000010, 0x00400010, 0x20004000, 0x20000000, 0x00004010,
    0x00000000, 0x00400010, 0x20004010, 0x00004000, 0x00404000, 0x20004010, 0x00000010, 0x20400010,
    0x20400010, 0x00000000, 0x00404010, 0x20404000, 0x00004010, 0x00404000, 0x20404000, 0x20000000,
    0x20004000, 0x00000010, 0x20400010, 0x00404000, 0x20404010, 0x00400000, 0x00004010, 0x20000010,
    0x00400000, 0x20004000, 0x20000000, 0x00004010, 0x20000010, 0x20404010, 0x00404000, 0x20400000,
    0x00404010, 0x20404000, 0x00000000, 0x20400010, 0x00000010, 0x00004000, 0x20400000, 0x00404010,
    0x00004000, 0x00400010, 0x20004010, 0x00000000, 0x20404000, 0x20000000, 0x00400010, 0x20004010]"

definition SB7 :: "u32 list" where
  "SB7 = [
    0x00200000, 0x04200002, 0x04000802, 0x00000000, 0x00000800, 0x04000802, 0x00200802, 0x04200800,
    0x04200802, 0x00200000, 0x00000000, 0x04000002, 0x00000002, 0x04000000, 0x04200002, 0x00000802,
    0x04000800, 0x00200802, 0x00200002, 0x04000800, 0x04000002, 0x04200000, 0x04200800, 0x00200002,
    0x04200000, 0x00000800, 0x00000802, 0x04200802, 0x00200800, 0x00000002, 0x04000000, 0x00200800,
    0x04000000, 0x00200800, 0x00200000, 0x04000802, 0x04000802, 0x04200002, 0x04200002, 0x00000002,
    0x00200002, 0x04000000, 0x04000800, 0x00200000, 0x04200800, 0x00000802, 0x00200802, 0x04200800,
    0x00000802, 0x04000002, 0x04200802, 0x04200000, 0x00200800, 0x00000000, 0x00000002, 0x04200802,
    0x00000000, 0x00200802, 0x04200000, 0x00000800, 0x04000002, 0x04000800, 0x00000800, 0x00200002]"

definition SB8 :: "u32 list" where
  "SB8 = [
    0x10001040, 0x00001000, 0x00040000, 0x10041040, 0x10000000, 0x10001040, 0x00000040, 0x10000000,
    0x00040040, 0x10040000, 0x10041040, 0x00041000, 0x10041000, 0x00041040, 0x00001000, 0x00000040,
    0x10040000, 0x10000040, 0x10001000, 0x00001040, 0x00041000, 0x00040040, 0x10040040, 0x10041000,
    0x00001040, 0x00000000, 0x00000000, 0x10040040, 0x10000040, 0x10001000, 0x00041040, 0x00040000,
    0x00041040, 0x00040000, 0x10041000, 0x00001000, 0x00000040, 0x10040040, 0x00001000, 0x00041040,
    0x10001000, 0x00000040, 0x10000040, 0x10040000, 0x10040040, 0x10000000, 0x00040000, 0x10001040,
    0x00000000, 0x10041040, 0x00040040, 0x10000040, 0x10040000, 0x10001000, 0x10001040, 0x00000000,
    0x10041040, 0x00041000, 0x00041000, 0x00001040, 0x00001040, 0x00040040, 0x10000000, 0x10041000]"

definition LHs :: "u32 list" where
  "LHs = [
    0x00000000, 0x00000001, 0x00000100, 0x00000101, 0x00010000, 0x00010001, 0x00010100, 0x00010101,
    0x01000000, 0x01000001, 0x01000100, 0x01000101, 0x01010000, 0x01010001, 0x01010100, 0x01010101]"

definition RHs :: "u32 list" where
  "RHs = [
    0x00000000, 0x01000000, 0x00010000, 0x01010000, 0x00000100, 0x01000100, 0x00010100, 0x01010100,
    0x00000001, 0x01000001, 0x00010001, 0x01010001, 0x00000101, 0x01000101, 0x00010101, 0x01010101]"


section \<open>Blocks\<close>

definition GET_UINT32 :: "bytes \<Rightarrow> nat \<Rightarrow> u32" where
  "GET_UINT32 b i = push_bit 24 (ucast (b ! i)) OR push_bit 16 (ucast (b ! (i + 1))) OR push_bit 8 (ucast (b ! (i + 2)))
     OR ucast (b ! (i + 3))"

definition PUT_UINT32 :: "u32 \<Rightarrow> bytes" where
  "PUT_UINT32 n = [ucast (drop_bit 24 n), ucast (drop_bit 16 n), ucast (drop_bit 8 n), ucast n]"

text \<open>The line \<^verbatim>\<open>T = ((A >> k) ^ B) & m; B ^= T; A ^= (T << k)\<close> of the permutations.\<close>

definition swap_bits :: "nat \<Rightarrow> u32 \<Rightarrow> u32 \<times> u32 \<Rightarrow> u32 \<times> u32" where
  "swap_bits k m = (\<lambda>(A, B). let T = (drop_bit k A XOR B) AND m in (A XOR push_bit k T, B XOR T))"

definition DES_IP :: "u32 \<times> u32 \<Rightarrow> u32 \<times> u32" where
  "DES_IP = (\<lambda>(X, Y).
     let (X, Y) = swap_bits 4 0x0F0F0F0F (X, Y);
         (X, Y) = swap_bits 16 0x0000FFFF (X, Y);
         (Y, X) = swap_bits 2 0x33333333 (Y, X);
         (Y, X) = swap_bits 8 0x00FF00FF (Y, X);
         Y = (push_bit 1 Y OR drop_bit 31 Y) AND 0xFFFFFFFF;
         (Y, X) = swap_bits 0 0xAAAAAAAA (Y, X);
         X = (push_bit 1 X OR drop_bit 31 X) AND 0xFFFFFFFF
     in (X, Y))"

definition DES_FP :: "u32 \<times> u32 \<Rightarrow> u32 \<times> u32" where
  "DES_FP = (\<lambda>(X, Y).
     let X = (push_bit 31 X OR drop_bit 1 X) AND 0xFFFFFFFF;
         (X, Y) = swap_bits 0 0xAAAAAAAA (X, Y);
         Y = (push_bit 31 Y OR drop_bit 1 Y) AND 0xFFFFFFFF;
         (Y, X) = swap_bits 8 0x00FF00FF (Y, X);
         (Y, X) = swap_bits 2 0x33333333 (Y, X);
         (X, Y) = swap_bits 16 0x0000FFFF (X, Y);
         (X, Y) = swap_bits 4 0x0F0F0F0F (X, Y)
     in (X, Y))"

text \<open>\<^verbatim>\<open>DES_ROUND(X, Y)\<close> with the next two subkeys: the new \<open>Y\<close>.\<close>

definition sbox :: "u32 list \<Rightarrow> u32 \<Rightarrow> nat \<Rightarrow> u32" where
  "sbox SB T k = SB ! unat (drop_bit k T AND 0x3F)"

definition DES_ROUND :: "u32 \<Rightarrow> u32 \<Rightarrow> u32 \<Rightarrow> u32 \<Rightarrow> u32" where
  "DES_ROUND k0 k1 X Y =
     (let T = k0 XOR X;
          Y = Y XOR (sbox SB8 T 0 XOR sbox SB6 T 8 XOR sbox SB4 T 16 XOR sbox SB2 T 24);
          T = k1 XOR (push_bit 28 X OR drop_bit 4 X)
      in Y XOR (sbox SB7 T 0 XOR sbox SB5 T 8 XOR sbox SB3 T 16 XOR sbox SB1 T 24))"

section \<open>Key schedule\<close>

definition SK_even :: "u32 \<Rightarrow> u32 \<Rightarrow> u32" where
  "SK_even X Y =
     (push_bit 4 X AND 0x24000000) OR (push_bit 28 X AND 0x10000000)
     OR (push_bit 14 X AND 0x08000000) OR (push_bit 18 X AND 0x02080000)
     OR (push_bit 6 X AND 0x01000000) OR (push_bit 9 X AND 0x00200000)
     OR (drop_bit 1 X AND 0x00100000) OR (push_bit 10 X AND 0x00040000)
     OR (push_bit 2 X AND 0x00020000) OR (drop_bit 10 X AND 0x00010000)
     OR (drop_bit 13 Y AND 0x00002000) OR (drop_bit 4 Y AND 0x00001000)
     OR (push_bit 6 Y AND 0x00000800) OR (drop_bit 1 Y AND 0x00000400)
     OR (drop_bit 14 Y AND 0x00000200) OR (Y AND 0x00000100)
     OR (drop_bit 5 Y AND 0x00000020) OR (drop_bit 10 Y AND 0x00000010)
     OR (drop_bit 3 Y AND 0x00000008) OR (drop_bit 18 Y AND 0x00000004)
     OR (drop_bit 26 Y AND 0x00000002) OR (drop_bit 24 Y AND 0x00000001)"

definition SK_odd :: "u32 \<Rightarrow> u32 \<Rightarrow> u32" where
  "SK_odd X Y =
     (push_bit 15 X AND 0x20000000) OR (push_bit 17 X AND 0x10000000)
     OR (push_bit 10 X AND 0x08000000) OR (push_bit 22 X AND 0x04000000)
     OR (drop_bit 2 X AND 0x02000000) OR (push_bit 1 X AND 0x01000000)
     OR (push_bit 16 X AND 0x00200000) OR (push_bit 11 X AND 0x00100000)
     OR (push_bit 3 X AND 0x00080000) OR (drop_bit 6 X AND 0x00040000)
     OR (push_bit 15 X AND 0x00020000) OR (drop_bit 4 X AND 0x00010000)
     OR (drop_bit 2 Y AND 0x00002000) OR (push_bit 8 Y AND 0x00001000)
     OR (drop_bit 14 Y AND 0x00000808) OR (drop_bit 9 Y AND 0x00000400)
     OR (Y AND 0x00000200) OR (push_bit 7 Y AND 0x00000100)
     OR (drop_bit 7 Y AND 0x00000020) OR (drop_bit 3 Y AND 0x00000011)
     OR (push_bit 2 Y AND 0x00000004) OR (drop_bit 21 Y AND 0x00000002)"

definition rot28 :: "nat \<Rightarrow> u32 \<Rightarrow> u32" where
  "rot28 n X = (push_bit n X OR drop_bit (28 - n) X) AND 0x0FFFFFFF"

text \<open>The loop over the 16 rounds: two subkeys each.\<close>

function subkeys :: "nat \<Rightarrow> u32 \<Rightarrow> u32 \<Rightarrow> u32 list" where
  "subkeys i X Y =
     (if i < 16 then
        let n = (if i < 2 \<or> i = 8 \<or> i = 15 then 1 else 2);
            X = rot28 n X; Y = rot28 n Y
        in SK_even X Y # SK_odd X Y # subkeys (i + 1) X Y
      else [])"
  by pat_completeness auto
termination
  by (relation "measure (\<lambda>(i, _). 16 - i)") auto

declare subkeys.simps [simp del]

definition perm :: "u32 list \<Rightarrow> u32 \<Rightarrow> nat \<Rightarrow> u32" where
  "perm tab X k = tab ! unat (drop_bit k X AND 0xF)"

definition des_main_ks :: "bytes \<Rightarrow> u32 list" where
  "des_main_ks key =
     (let X = GET_UINT32 key 0; Y = GET_UINT32 key 4;
          (Y, X) = swap_bits 4 0x0F0F0F0F (Y, X);
          (Y, X) = swap_bits 0 0x10101010 (Y, X);
          X' = push_bit 3 (perm LHs X 0) OR push_bit 2 (perm LHs X 8)
             OR push_bit 1 (perm LHs X 16) OR perm LHs X 24
             OR push_bit 7 (perm LHs X 5) OR push_bit 6 (perm LHs X 13)
             OR push_bit 5 (perm LHs X 21) OR push_bit 4 (perm LHs X 29);
          Y' = push_bit 3 (perm RHs Y 1) OR push_bit 2 (perm RHs Y 9)
             OR push_bit 1 (perm RHs Y 17) OR perm RHs Y 25
             OR push_bit 7 (perm RHs Y 4) OR push_bit 6 (perm RHs Y 12)
             OR push_bit 5 (perm RHs Y 20) OR push_bit 4 (perm RHs Y 28)
      in subkeys 0 (X' AND 0x0FFFFFFF) (Y' AND 0x0FFFFFFF))"

section \<open>The cipher\<close>

text \<open>The lines \<^verbatim>\<open>DES_ROUND(Y, X); DES_ROUND(X, Y)\<close>, one for every four subkeys.\<close>

fun des_rounds :: "u32 list \<Rightarrow> u32 \<times> u32 \<Rightarrow> u32 \<times> u32" where
  "des_rounds (a # b # c # d # SK) (X, Y) =
     (let X = DES_ROUND a b Y X; Y = DES_ROUND c d X Y in des_rounds SK (X, Y))"
| "des_rounds _ s = s"

definition des_crypt :: "u32 list \<Rightarrow> bytes \<Rightarrow> bytes" where
  "des_crypt SK input =
     (let (X, Y) = DES_IP (GET_UINT32 input 0, GET_UINT32 input 4);
          (X, Y) = des_rounds SK (X, Y);
          (Y, X) = DES_FP (Y, X)
      in PUT_UINT32 Y @ PUT_UINT32 X)"

definition des_key :: "bytes \<Rightarrow> crypt_error + u32 list" where
  "des_key key = (if length key \<noteq> 8 then Inl (InvalidKeySize (length key)) else Inr (des_main_ks key))"

text \<open>The last block: the remaining bytes, \<open>0x80\<close> and zeros.\<close>

definition des_tail :: "bytes \<Rightarrow> bytes" where
  "des_tail t = map (\<lambda>j. if j < length t then t ! j else if j = length t then 0x80 else 0) [0..<8]"

function encode_loop :: "u32 list \<Rightarrow> bytes \<Rightarrow> bytes" where
  "encode_loop SK t =
     (if length t \<ge> 8 then des_crypt SK (take 8 t) @ encode_loop SK (drop 8 t)
      else des_crypt SK (des_tail t))"
  by pat_completeness auto
termination
  by (relation "measure (\<lambda>(_, t). length t)") auto

declare encode_loop.simps [simp del]

definition ldesencode :: "bytes \<Rightarrow> bytes \<Rightarrow> crypt_error + bytes" where
  "ldesencode key t = (case des_key key of Inl e \<Rightarrow> Inl e | Inr SK \<Rightarrow> Inr (encode_loop SK t))"

function decode_loop :: "u32 list \<Rightarrow> bytes \<Rightarrow> bytes" where
  "decode_loop SK t = (if t = [] then [] else des_crypt SK (take 8 t) @ decode_loop SK (drop 8 t))"
  by pat_completeness auto
termination
  by (relation "measure (\<lambda>(_, t). length t)") (auto simp: neq_Nil_conv)

declare decode_loop.simps [simp del]

text \<open>
  The loop that counts the padding. The index is an \<^verbatim>\<open>int\<close>, but in \<^verbatim>\<open>i>=textsz-8\<close> it is converted to
  \<^verbatim>\<open>size_t\<close>: it is never below 0 there.
\<close>

function unpad_loop :: "bytes \<Rightarrow> int \<Rightarrow> nat \<Rightarrow> (crypt_error + nat) option" where
  "unpad_loop buffer i padding =
     (if unat (word_of_int i :: u64) \<ge> length buffer - 8 then
        if i < 0 then None
        else if buffer ! nat i = 0 then unpad_loop buffer (i - 1) (padding + 1)
        else if buffer ! nat i = 0x80 then Some (Inr padding)
        else Some (Inl InvalidDesText)
      else Some (Inr padding))"
  by pat_completeness auto
termination
  by (relation "measure (\<lambda>(_, i, _). nat (i + 1))") auto

declare unpad_loop.simps [simp del]

definition rev_keys :: "u32 list \<Rightarrow> u32 list" where
  "rev_keys ESK = concat (map (\<lambda>i. [ESK ! (30 - 2 * i), ESK ! (31 - 2 * i)]) [0..<16])"

definition ldesdecode :: "bytes \<Rightarrow> bytes \<Rightarrow> (crypt_error + bytes) option" where
  "ldesdecode key t = (case des_key key of
     Inl e \<Rightarrow> Some (Inl e)
   | Inr ESK \<Rightarrow>
       if length t mod 8 \<noteq> 0 \<or> length t = 0 then Some (Inl (InvalidDesLength (length t)))
       else
         let buffer = decode_loop (rev_keys ESK) t in
         (case unpad_loop buffer (int (length t) - 1) 1 of
            None \<Rightarrow> None
          | Some (Inl e) \<Rightarrow> Some (Inl e)
          | Some (Inr padding) \<Rightarrow>
              if padding > 8 then Some (Inl InvalidDesText)
              else Some (Inr (take (length t - padding) buffer))))"

section \<open>The permutations are inverse\<close>

lemma swap_bits_involution:
  assumes "drop_bit k (push_bit k m) = m"
  shows "swap_bits k m (swap_bits k m s) = s"
proof (cases s)
  case (Pair A B)
  define T where "T = (drop_bit k A XOR B) AND m"
  have "drop_bit k (push_bit k T) = drop_bit k (push_bit k (drop_bit k A XOR B)) AND drop_bit k (push_bit k m)"
    by (simp only: T_def push_bit_and drop_bit_and)
  also have "\<dots> = T" unfolding assms T_def
    by (rule bit_word_eqI) (use assms in \<open>auto simp: bit_simps dest!: arg_cong [where f = bit] fun_cong\<close>)
  finally have "(drop_bit k (A XOR push_bit k T) XOR (B XOR T)) AND m = (drop_bit k A XOR B XOR (T XOR T)) AND m"
    by (simp only: drop_bit_xor xor.assoc xor.commute xor.left_commute)
  then have "(drop_bit k (A XOR push_bit k T) XOR (B XOR T)) AND m = T" by (simp add: T_def)
  then have "swap_bits k m (A XOR push_bit k T, B XOR T) = ((A XOR push_bit k T) XOR push_bit k T, (B XOR T) XOR T)"
    by (simp only: swap_bits_def Let_def split)
  then have "swap_bits k m (A XOR push_bit k T, B XOR T) = (A, B)" by (simp add: xor.assoc)
  moreover have "swap_bits k m (A, B) = (A XOR push_bit k T, B XOR T)" by (simp add: swap_bits_def Let_def T_def)
  ultimately show ?thesis using Pair by simp
qed

lemma rol_ror: "(push_bit 1 ((push_bit 31 X OR drop_bit 1 X) AND 0xFFFFFFFF)
    OR drop_bit 31 ((push_bit 31 X OR drop_bit 1 X) AND 0xFFFFFFFF)) AND 0xFFFFFFFF = (X :: u32)"
proof -
  have ones: "(0xFFFFFFFF :: u32) = mask 32" by (simp add: mask_eq_exp_minus_1)
  show ?thesis unfolding ones
  proof (rule bit_word_eqI)
    fix n assume "n < LENGTH(32)"
    then show "bit ((push_bit 1 ((push_bit 31 X OR drop_bit 1 X) AND mask 32)
        OR drop_bit 31 ((push_bit 31 X OR drop_bit 1 X) AND mask 32)) AND mask 32) n = bit X n"
      unfolding bit_or_iff bit_and_iff bit_push_bit_iff bit_drop_bit_eq bit_mask_iff comp_def
      by (cases "n = 0") (auto dest: bit_imp_le_length)
  qed
qed

lemma swap_masks:
  "drop_bit 4 (push_bit 4 0x0F0F0F0F) = (0x0F0F0F0F :: u32)" "drop_bit 16 (push_bit 16 0x0000FFFF) = (0x0000FFFF :: u32)"
  "drop_bit 2 (push_bit 2 0x33333333) = (0x33333333 :: u32)" "drop_bit 8 (push_bit 8 0x00FF00FF) = (0x00FF00FF :: u32)"
  "drop_bit 0 (push_bit 0 0xAAAAAAAA) = (0xAAAAAAAA :: u32)"
  by (simp_all add: push_bit_eq_mult drop_bit_eq_div)

lemmas swap_involutions = swap_masks [THEN swap_bits_involution]

lemma DES_IP_FP: "DES_IP (DES_FP s) = s"
proof (cases s)
  case (Pair X Y)
  obtain X1 Y1 where s1: "swap_bits 0 0xAAAAAAAA ((push_bit 31 X OR drop_bit 1 X) AND 0xFFFFFFFF, Y) = (X1, Y1)" by fastforce
  obtain Y2 X2 where s2: "swap_bits 8 0x00FF00FF ((push_bit 31 Y1 OR drop_bit 1 Y1) AND 0xFFFFFFFF, X1) = (Y2, X2)" by fastforce
  obtain Y3 X3 where s3: "swap_bits 2 0x33333333 (Y2, X2) = (Y3, X3)" by fastforce
  obtain X4 Y4 where s4: "swap_bits 16 0x0000FFFF (X3, Y3) = (X4, Y4)" by fastforce
  obtain X5 Y5 where s5: "swap_bits 4 0x0F0F0F0F (X4, Y4) = (X5, Y5)" by fastforce
  have fp: "DES_FP s = (X5, Y5)" using Pair s1 s2 s3 s4 s5 by (simp add: DES_FP_def Let_def)
  note inv = swap_involutions(1) [of "(X4, Y4)", unfolded s5] swap_involutions(2) [of "(X3, Y3)", unfolded s4]
    swap_involutions(3) [of "(Y2, X2)", unfolded s3] swap_involutions(4) [of "(_, X1)", unfolded s2]
  have "swap_bits 0 0xAAAAAAAA (Y1, X1) = prod.swap (swap_bits 0 0xAAAAAAAA (X1, Y1))"
    by (simp add: swap_bits_def Let_def xor.commute)
  then have last: "swap_bits 0 0xAAAAAAAA (Y1, X1) = (Y, (push_bit 31 X OR drop_bit 1 X) AND 0xFFFFFFFF)"
    using swap_involutions(5) [of "((push_bit 31 X OR drop_bit 1 X) AND 0xFFFFFFFF, Y)"] s1 by simp
  show ?thesis unfolding fp DES_IP_def
    using inv(1) inv(2) inv(3) swap_involutions(4) [of "((push_bit 31 Y1 OR drop_bit 1 Y1) AND 0xFFFFFFFF, X1)"] s2 last Pair
    by (simp only: split Let_def rol_ror)
qed

lemma DES_FP_IP: "DES_FP (DES_IP s) = s"
proof -
  have "inj DES_FP" by (rule inj_on_inverseI [of _ DES_IP]) (rule DES_IP_FP)
  then have "surj DES_FP" by (rule finite_UNIV_inj_surj [OF finite])
  then obtain t where "s = DES_FP t" by (rule surjE)
  then show ?thesis by (simp add: DES_IP_FP)
qed

section \<open>Decryption inverts encryption\<close>

text \<open>One round as a Feistel step on the pair of the half to change and the other half.\<close>

definition step :: "u32 \<times> u32 \<Rightarrow> u32 \<times> u32 \<Rightarrow> u32 \<times> u32" where
  "step = (\<lambda>(a, b) (p, q). (q, DES_ROUND a b q p))"

lemma DES_ROUND_cancel: "DES_ROUND a b X (DES_ROUND a b X Y) = Y"
  unfolding DES_ROUND_def Let_def by (simp add: xor.assoc xor.commute xor.left_commute)

lemma step_cancel: "step k (prod.swap (step k s)) = prod.swap s"
  by (cases k; cases s) (simp add: step_def DES_ROUND_cancel)

lemma steps_cancel: "fold step (rev ks) (prod.swap (fold step ks s)) = prod.swap s"
  by (induction ks arbitrary: s) (simp_all add: step_cancel)

definition flat :: "(u32 \<times> u32) list \<Rightarrow> u32 list" where
  "flat ks = concat (map (\<lambda>(a, b). [a, b]) ks)"

lemma des_rounds_fold: "even (length ks) \<Longrightarrow> des_rounds (flat ks) s = fold step ks s"
proof (induction ks arbitrary: s rule: induct_list012)
  case (3 k l ks)
  obtain a b c d X Y where "k = (a, b)" "l = (c, d)" "s = (X, Y)" by (metis surj_pair)
  with 3 show ?case by (simp add: flat_def step_def Let_def)
qed (simp_all add: flat_def)

definition pairs :: "u32 list \<Rightarrow> (u32 \<times> u32) list" where
  "pairs SK = map (\<lambda>i. (SK ! (2 * i), SK ! (2 * i + 1))) [0..<16]"

lemma flat_pairs: "length SK = 32 \<Longrightarrow> flat (pairs SK) = SK"
proof -
  assume len: "length SK = 32"
  have "concat (map (\<lambda>i. [SK ! (2 * i), SK ! (2 * i + 1)]) [0..<n]) = take (2 * n) SK" if "2 * n \<le> length SK" for n
    using that
  proof (induction n)
    case (Suc n)
    then have "take (2 * Suc n) SK = take (2 * n) SK @ [SK ! (2 * n), SK ! (2 * n + 1)]"
      by (simp add: take_Suc_conv_app_nth)
    with Suc show ?case by simp
  qed simp
  from this [of 16] len show ?thesis by (simp add: flat_def pairs_def comp_def del: upt_Suc)
qed

lemma rev_keys_flat: "length SK = 32 \<Longrightarrow> rev_keys SK = flat (rev (pairs SK))"
proof -
  have r: "rev [0..<16] = map (\<lambda>i. 15 - i) [0..<16 :: nat]" by code_simp
  show ?thesis unfolding rev_keys_def flat_def pairs_def rev_map r
    by (simp add: comp_def) (rule arg_cong [of _ _ concat], rule map_cong, auto intro!: arg_cong [of _ _ "(!) SK"])
qed

lemma des_rounds_cancel:
  assumes "length SK = 32"
  shows "des_rounds (rev_keys SK) (prod.swap (des_rounds SK s)) = prod.swap s"
proof -
  have "des_rounds SK s = fold step (pairs SK) s" 
    using des_rounds_fold [of "pairs SK" s] flat_pairs [OF assms] by (simp add: pairs_def)
  moreover have "des_rounds (rev_keys SK) t = fold step (rev (pairs SK)) t" for t
    using des_rounds_fold [of "rev (pairs SK)" t] rev_keys_flat [OF assms] by (simp add: pairs_def)
  ultimately show ?thesis by (simp add: steps_cancel)
qed

lemma GET_PUT: "GET_UINT32 (PUT_UINT32 X @ b) 0 = X" "GET_UINT32 (PUT_UINT32 Y @ PUT_UINT32 X) 4 = X"
proof -
  have "push_bit 24 (ucast (ucast (drop_bit 24 X) :: u8)) OR push_bit 16 (ucast (ucast (drop_bit 16 X) :: u8))
      OR push_bit 8 (ucast (ucast (drop_bit 8 X) :: u8)) OR ucast (ucast X :: u8) = X" (is "?v X = X") for X :: u32
  proof (rule bit_word_eqI)
    fix n assume "n < LENGTH(32)"
    then consider "n < 8" | "8 \<le> n" "n < 16" | "16 \<le> n" "n < 24" | "24 \<le> n" "n < 32" by fastforce
    then show "bit (?v X) n = bit X n"
      by cases (auto simp: bit_simps)
  qed
  then show "GET_UINT32 (PUT_UINT32 X @ b) 0 = X" "GET_UINT32 (PUT_UINT32 Y @ PUT_UINT32 X) 4 = X"
    by (simp_all add: GET_UINT32_def PUT_UINT32_def eval_nat_numeral)
qed

lemma PUT_GET: "i + 4 \<le> length b \<Longrightarrow> PUT_UINT32 (GET_UINT32 b i) = take 4 (drop i b)"
proof -
  assume "i + 4 \<le> length b"
  then have "take 4 (drop i b) = [b ! i, b ! (i + 1), b ! (i + 2), b ! (i + 3)]"
    by (simp add: Cons_nth_drop_Suc [symmetric] numeral_eq_Suc)
  moreover have "ucast (drop_bit 24 v) = x \<and> ucast (drop_bit 16 v) = y \<and> ucast (drop_bit 8 v) = z \<and> ucast v = w"
    if "v = push_bit 24 (ucast x) OR push_bit 16 (ucast y) OR push_bit 8 (ucast z) OR ucast w" for v :: u32 and x y z w :: u8
    unfolding that by (intro conjI; rule byte_eqI; elim insertE; simp add: bit_simps bit_u8_high)
  ultimately show ?thesis by (simp add: PUT_UINT32_def GET_UINT32_def)
qed

lemma length_des_crypt [simp]: "length (des_crypt SK b) = 8"
  by (simp add: des_crypt_def PUT_UINT32_def split: prod.splits)

lemma des_crypt_nonempty [simp]: "des_crypt SK b \<noteq> []"
  using length_des_crypt [of SK b] by (metis list.size(3) zero_neq_numeral)

lemma des_crypt_cancel:
  assumes "length SK = 32" "length b = 8"
  shows "des_crypt (rev_keys SK) (des_crypt SK b) = b"
proof -
  obtain X0 Y0 where ip: "DES_IP (GET_UINT32 b 0, GET_UINT32 b 4) = (X0, Y0)" by fastforce
  obtain X1 Y1 where rounds: "des_rounds SK (X0, Y0) = (X1, Y1)" by fastforce
  obtain Y2 X2 where fp: "DES_FP (Y1, X1) = (Y2, X2)" by fastforce
  have "des_crypt SK b = PUT_UINT32 Y2 @ PUT_UINT32 X2"
    using ip rounds fp by (simp add: des_crypt_def)
  moreover have "DES_IP (Y2, X2) = (Y1, X1)" using DES_IP_FP [of "(Y1, X1)"] fp by simp
  moreover have "des_rounds (rev_keys SK) (Y1, X1) = (Y0, X0)"
    using des_rounds_cancel [OF assms(1), of "(X0, Y0)"] rounds by simp
  moreover have "DES_FP (X0, Y0) = (GET_UINT32 b 0, GET_UINT32 b 4)"
    using DES_FP_IP [of "(GET_UINT32 b 0, GET_UINT32 b 4)"] ip by simp
  ultimately have "des_crypt (rev_keys SK) (des_crypt SK b) = PUT_UINT32 (GET_UINT32 b 0) @ PUT_UINT32 (GET_UINT32 b 4)"
    by (simp add: des_crypt_def GET_PUT)
  also have "\<dots> = b" using assms(2) append_take_drop_id [of 4 b] by (simp add: PUT_GET)
  finally show ?thesis .
qed

lemma length_subkeys: "length (subkeys i X Y) = 2 * (16 - i)"
  by (induction i X Y rule: subkeys.induct) (subst subkeys.simps, auto simp: Let_def)

lemma length_des_main_ks [simp]: "length (des_main_ks key) = 32"
  by (simp add: des_main_ks_def length_subkeys split: prod.splits)

text \<open>The padded text, as the decoder sees it.\<close>

definition pad :: "bytes \<Rightarrow> bytes" where
  "pad t = t @ 0x80 # replicate (7 - length t mod 8) 0"

lemma des_tail_pad: "length t < 8 \<Longrightarrow> des_tail t = pad t"
  by (rule nth_equalityI) (auto simp: des_tail_def pad_def nth_append nth_Cons split: nat.splits)

lemma length_pad: "length (pad t) = 8 * (length t div 8 + 1)"
proof -
  have "length t = 8 * (length t div 8) + length t mod 8" "length t mod 8 < 8" by simp_all
  then show ?thesis unfolding pad_def length_append list.size length_replicate by arith
qed

lemma length_encode_loop: "length (encode_loop SK t) = 8 * (length t div 8 + 1)"
proof (induction SK t rule: encode_loop.induct)
  case (1 SK t)
  then show ?case by (subst encode_loop.simps) (auto simp: le_div_geq)
qed

lemma decode_encode: "length SK = 32 \<Longrightarrow> decode_loop (rev_keys SK) (encode_loop SK t) = pad t"
proof (induction SK t rule: encode_loop.induct)
  case (1 SK t)
  let ?c = "des_crypt SK"
  have block: "decode_loop (rev_keys SK) (?c b @ rest) = b @ decode_loop (rev_keys SK) rest"
    if "length b = 8" for b rest
  proof -
    show ?thesis using des_crypt_cancel [OF "1.prems" that] by (subst decode_loop.simps) simp
  qed
  show ?case
  proof (cases "length t \<ge> 8")
    case True
    then have "pad t = take 8 t @ pad (drop 8 t)" by (simp add: pad_def le_mod_geq)
    then show ?thesis using True "1.IH" [OF True] "1.prems" block [of "take 8 t"] by (subst encode_loop.simps) simp
  next
    case False
    then show ?thesis using block [of "des_tail t" "[]"]
      by (subst encode_loop.simps) (simp add: decode_loop.simps [of _ "[]"] des_tail_pad length_pad)
  qed
qed

lemma unpad_zeros:
  assumes "buffer = t @ 0x80 # replicate (z + k) 0" "length buffer - 8 \<le> length t" "length buffer < 2 ^ 63"
  shows "unpad_loop buffer (int (length t + z)) p = Some (Inr (p + z))"
  using assms
proof (induction z arbitrary: p k)
  case 0
  then have "unat (word_of_int (int (length t)) :: u64) = length t"
    by (simp add: unat_word_of_nat_less)
  then show ?case using 0 by (subst unpad_loop.simps) (simp add: nth_append)
next
  case (Suc z)
  have w: "unat (word_of_int (int (length t + Suc z)) :: u64) = length t + Suc z"
    using Suc.prems(1,3) by (simp add: unat_word_of_nat_less del: of_nat_add of_nat_Suc)
  have b: "buffer ! (length t + Suc z) = 0" using Suc.prems(1) by (simp add: nth_append del: replicate_Suc)
  have i: "int (Suc (length t + z)) - 1 = int (length t + z)" by simp
  have "unpad_loop buffer (int (length t + Suc z)) p = unpad_loop buffer (int (length t + z)) (p + 1)"
    using Suc.prems(2) w b by (subst unpad_loop.simps) (simp add: i del: of_nat_add of_nat_Suc)
  also have "\<dots> = Some (Inr (p + 1 + z))" by (rule Suc.IH [of "Suc k"]) (use Suc.prems in simp_all)
  finally show ?case by simp
qed

section \<open>Properties\<close>

text \<open>
  Property C25. DES decryption inverts DES encryption: with every key of eight bytes and every text
  below \<open>2 ^ 31\<close> bytes, also an empty one or one that ends in zeros or in the padding byte,
  \<^verbatim>\<open>ldesencode\<close> succeeds and \<^verbatim>\<open>ldesdecode\<close> restores the text; the ciphertext is a positive multiple of
  eight bytes long.
\<close>

theorem des_roundtrip:
  assumes "length key = 8" "length t < 2 ^ 31"
  shows "\<exists>c. ldesencode key t = Inr c \<and> length c = 8 * (length t div 8 + 1) \<and> ldesdecode key c = Some (Inr t)"
proof -
  let ?SK = "des_main_ks key"
  let ?c = "encode_loop ?SK t"
  let ?z = "7 - length t mod 8"
  have dec: "decode_loop (rev_keys ?SK) ?c = pad t" by (simp add: decode_encode)
  have len: "length ?c = length (pad t)" by (simp add: length_encode_loop length_pad)
  have plen: "length (pad t) = length t + 1 + ?z" by (simp add: pad_def)
  have "unpad_loop (pad t) (int (length t + ?z)) 1 = Some (Inr (1 + ?z))"
    by (rule unpad_zeros [of _ _ _ 0]) (use assms(2) in \<open>simp_all add: pad_def\<close>)
  then have "unpad_loop (pad t) (int (length ?c) - 1) 1 = Some (Inr (1 + ?z))" by (simp add: len plen algebra_simps)
  moreover have "take (length ?c - (1 + ?z)) (pad t) = t" by (simp add: len plen) (simp add: pad_def)
  moreover have "length ?c mod 8 = 0" "length ?c \<noteq> 0" by (simp_all add: length_encode_loop)
  ultimately have "ldesdecode key ?c = Some (Inr t)"
    using assms(1) by (simp add: ldesdecode_def des_key_def dec Let_def del: length_greater_0_conv length_0_conv)
  then show ?thesis using assms(1) by (simp add: ldesencode_def des_key_def length_encode_loop)
qed

theorem des_roundtrip_witness:
  "\<exists>c. ldesencode [1, 2, 3, 4, 5, 6, 7, 8] [9, 0, 0x80] = Inr c \<and> length c = 8 * (length [9 :: u8, 0, 0x80] div 8 + 1)
    \<and> ldesdecode [1, 2, 3, 4, 5, 6, 7, 8] c = Some (Inr [9, 0, 0x80])"
  by (rule des_roundtrip) simp_all

lemma unpad_all_zero: "n \<le> 8 \<Longrightarrow> unpad_loop (replicate 8 0) (int n - 1) p = None"
proof (induction n arbitrary: p)
  case 0
  then show ?case by (subst unpad_loop.simps) simp
next
  case (Suc n)
  then have "unpad_loop (replicate 8 0) (int n) p = None" by (subst unpad_loop.simps) simp
  then show ?case by simp
qed

text \<open>
  For every key there is a ciphertext of eight bytes, the encryption of eight zeros, on
  which \<^verbatim>\<open>ldesdecode\<close> reads before the beginning of its buffer: in \<^verbatim>\<open>i>=textsz-8\<close> the index is
  converted to an unsigned number and the loop does not stop at 0.
\<close>

theorem des_zero_block:
  assumes "length key = 8"
  shows "length (des_crypt (des_main_ks key) (replicate 8 0)) = 8
    \<and> ldesdecode key (des_crypt (des_main_ks key) (replicate 8 0)) = None"
proof -
  let ?c = "des_crypt (des_main_ks key) (replicate 8 0)"
  have "decode_loop (rev_keys (des_main_ks key)) ?c = replicate 8 0"
    by (subst decode_loop.simps) (auto simp: des_crypt_cancel decode_loop.simps [of _ "[]"])
  then show ?thesis using assms unpad_all_zero [of 8 1]
    by (simp add: ldesdecode_def des_key_def Let_def del: length_0_conv length_greater_0_conv)
qed

theorem des_zero_block_witness:
  "length (des_crypt (des_main_ks [1, 2, 3, 4, 5, 6, 7, 8]) (replicate 8 0)) = 8
    \<and> ldesdecode [1, 2, 3, 4, 5, 6, 7, 8] (des_crypt (des_main_ks [1, 2, 3, 4, 5, 6, 7, 8]) (replicate 8 0)) = None"
  by (rule des_zero_block) simp

end
