(* ===== verification/Sha1.thy ===== *)
theory Sha1
  imports Codec
begin

text \<open>
  \<^verbatim>\<open>skynet/lualib-src/lsha1.c\<close>: SHA-1 and HMAC-SHA-1, with the reference definitions of FIPS 180 and
  RFC 2104 that they are compared with. The rounds use a circular schedule of 16 words in place of
  the 80 words of the standard. Memory is little endian.
\<close>

section \<open>The code\<close>

type_synonym sha_state = "u32 \<times> u32 \<times> u32 \<times> u32 \<times> u32"

record SHA1_CTX =
  cstate :: sha_state
  count0 :: u32
  count1 :: u32
  cbuffer :: bytes

definition rol :: "u32 \<Rightarrow> nat \<Rightarrow> u32" where
  "rol v n = push_bit n v OR drop_bit (32 - n) v"

text \<open>The macros with assignments return the value and the schedule with the assigned word.\<close>

definition blk0 :: "u32 list \<Rightarrow> nat \<Rightarrow> u32 \<times> u32 list" where
  "blk0 l i = (let v = (rol (l ! i) 24 AND 0xFF00FF00) OR (rol (l ! i) 8 AND 0x00FF00FF) in (v, l[i := v]))"

definition blk :: "u32 list \<Rightarrow> nat \<Rightarrow> u32 \<times> u32 list" where
  "blk l i = (let v = rol (l ! ((i + 13) mod 16) XOR l ! ((i + 8) mod 16) XOR l ! ((i + 2) mod 16) XOR l ! (i mod 16)) 1
     in (v, l[i mod 16 := v]))"

text \<open>The macros \<^verbatim>\<open>R0\<close> to \<^verbatim>\<open>R4\<close>: the new \<open>z\<close> and the schedule; each also rotates \<open>w\<close> by 30.\<close>

definition R0 :: "u32 \<Rightarrow> u32 \<Rightarrow> u32 \<Rightarrow> u32 \<Rightarrow> u32 \<Rightarrow> u32 list \<Rightarrow> nat \<Rightarrow> u32 \<times> u32 list" where
  "R0 v w x y z l i = (let (b, l) = blk0 l i in (z + (((w AND (x XOR y)) XOR y) + b + 0x5A827999 + rol v 5), l))"

definition R1 :: "u32 \<Rightarrow> u32 \<Rightarrow> u32 \<Rightarrow> u32 \<Rightarrow> u32 \<Rightarrow> u32 list \<Rightarrow> nat \<Rightarrow> u32 \<times> u32 list" where
  "R1 v w x y z l i = (let (b, l) = blk l i in (z + (((w AND (x XOR y)) XOR y) + b + 0x5A827999 + rol v 5), l))"

definition R2 :: "u32 \<Rightarrow> u32 \<Rightarrow> u32 \<Rightarrow> u32 \<Rightarrow> u32 \<Rightarrow> u32 list \<Rightarrow> nat \<Rightarrow> u32 \<times> u32 list" where
  "R2 v w x y z l i = (let (b, l) = blk l i in (z + ((w XOR x XOR y) + b + 0x6ED9EBA1 + rol v 5), l))"

definition R3 :: "u32 \<Rightarrow> u32 \<Rightarrow> u32 \<Rightarrow> u32 \<Rightarrow> u32 \<Rightarrow> u32 list \<Rightarrow> nat \<Rightarrow> u32 \<times> u32 list" where
  "R3 v w x y z l i = (let (b, l) = blk l i in (z + ((((w OR x) AND y) OR (w AND x)) + b + 0x8F1BBCDC + rol v 5), l))"

definition R4 :: "u32 \<Rightarrow> u32 \<Rightarrow> u32 \<Rightarrow> u32 \<Rightarrow> u32 \<Rightarrow> u32 list \<Rightarrow> nat \<Rightarrow> u32 \<times> u32 list" where
  "R4 v w x y z l i = (let (b, l) = blk l i in (z + ((w XOR x XOR y) + b + 0xCA62C1D6 + rol v 5), l))"

text \<open>
  The unrolled rounds: call \<open>i\<close> passes the variables rotated by \<open>i\<close> places, so that in the next
  call the new \<open>z\<close> is the first argument and the rotated \<open>w\<close> the third.
\<close>

definition sha1_op :: "nat \<Rightarrow> sha_state \<times> u32 list \<Rightarrow> sha_state \<times> u32 list" where
  "sha1_op i = (\<lambda>((v, w, x, y, z), l).
     let (z, l) = (if i < 16 then R0 v w x y z l i
         else if i < 20 then R1 v w x y z l i
         else if i < 40 then R2 v w x y z l i
         else if i < 60 then R3 v w x y z l i
         else R4 v w x y z l i)
     in ((z, v, rol w 30, x, y), l))"

definition add_state :: "sha_state \<Rightarrow> sha_state \<Rightarrow> sha_state" where
  "add_state = (\<lambda>(a, b, c, d, e) (a', b', c', d', e'). (a + a', b + b', c + c', d + d', e + e'))"

definition SHA1_Transform :: "sha_state \<Rightarrow> bytes \<Rightarrow> sha_state" where
  "SHA1_Transform st buffer =
     (let block = map (\<lambda>i. word_at buffer (4 * i)) [0..<16];
          (vars, _) = fold sha1_op [0..<80] (st, block)
      in add_state st vars)"

text \<open>The buffer of a new context is not initialised: its bytes are an argument.\<close>

definition sat_SHA1_Init :: "bytes \<Rightarrow> SHA1_CTX" where
  "sat_SHA1_Init garbage =
     \<lparr>cstate = (0x67452301, 0xEFCDAB89, 0x98BADCFE, 0x10325476, 0xC3D2E1F0), count0 = 0, count1 = 0, cbuffer = garbage\<rparr>"

definition copy_at :: "nat \<Rightarrow> bytes \<Rightarrow> bytes \<Rightarrow> bytes" where
  "copy_at j src dst = take j dst @ src @ drop (j + length src) dst"

text \<open>The loop over the blocks inside the data, and the data left.\<close>

function update_loop :: "sha_state \<Rightarrow> bytes \<Rightarrow> sha_state \<times> bytes" where
  "update_loop st data = (if length data \<ge> 64 then update_loop (SHA1_Transform st (take 64 data)) (drop 64 data) else (st, data))"
  by pat_completeness auto
termination
  by (relation "measure (\<lambda>(_, d). length d)") auto

declare update_loop.simps [simp del]

text \<open>
  The bit counts. The sum is stored in 32 bits and compared with the \<^verbatim>\<open>size_t\<close> value \<^verbatim>\<open>len << 3\<close> of
  64 bits.
\<close>

definition update_count :: "u64 \<Rightarrow> SHA1_CTX \<Rightarrow> SHA1_CTX" where
  "update_count len ctx =
     (let c0 = count0 ctx + ucast (push_bit 3 len);
          c1 = (if (ucast c0 :: u64) < push_bit 3 len then count1 ctx + 1 else count1 ctx)
      in ctx\<lparr>count0 := c0, count1 := c1 + ucast (drop_bit 29 len)\<rparr>)"

definition sat_SHA1_Update :: "SHA1_CTX \<Rightarrow> bytes \<Rightarrow> SHA1_CTX" where
  "sat_SHA1_Update ctx data =
     (let j = unat (drop_bit 3 (count0 ctx) AND 63);
          ctx = update_count (word_of_nat (length data)) ctx
      in if j + length data > 63 then
           let i = 64 - j;
               buffer = copy_at j (take i data) (cbuffer ctx);
               (st, rest) = update_loop (SHA1_Transform (cstate ctx) buffer) (drop i data)
           in ctx\<lparr>cstate := st, cbuffer := copy_at 0 rest buffer\<rparr>
         else ctx\<lparr>cbuffer := copy_at j data (cbuffer ctx)\<rparr>)"

text \<open>The padding loop of \<^verbatim>\<open>sat_SHA1_Final\<close>.\<close>

lemma count_step: "count0 (sat_SHA1_Update ctx [b]) = count0 ctx + 8"
  by (auto simp: sat_SHA1_Update_def update_count_def Let_def split: prod.splits)

definition pad_left :: "u32 \<Rightarrow> int" where
  "pad_left c = (56 - int (unat c div 8)) mod 64"

lemma unat_and_504: "unat (c AND 504) = 8 * (unat c div 8 mod 64)" for c :: u32
proof -
  have "c AND 504 = push_bit 3 (take_bit 6 (drop_bit 3 c))"
  proof (rule bit_word_eqI)
    fix n assume "n < LENGTH(32)"
    have m: "(504 :: u32) = push_bit 3 (mask 6)" by (simp add: mask_eq_exp_minus_1 push_bit_eq_mult)
    show "bit (c AND 504) n = bit (push_bit 3 (take_bit 6 (drop_bit 3 c))) n"
      unfolding m by (cases "3 \<le> n") (auto simp: bit_simps dest: bit_imp_le_length)
  qed
  moreover have "unat (take_bit 6 (drop_bit 3 c)) = unat c div 8 mod 64"
    by (simp only: unsigned_take_bit_eq) (simp add: take_bit_eq_mod unat_drop_bit)
  ultimately show ?thesis by (simp add: push_bit_eq_mult unat_word_ariths)
qed

lemma pad_done: "c AND 504 = 448 \<longleftrightarrow> pad_left c = 0"
proof -
  have "c AND 504 = 448 \<longleftrightarrow> unat c div 8 mod 64 = 56"
    using unat_and_504 [of c] by (auto simp: word_unat_eq_iff)
  also have "\<dots> \<longleftrightarrow> pad_left c = 0"
  proof -
    have "(56 - int k) mod 64 = 0 \<longleftrightarrow> k mod 64 = 56" for k :: nat
    proof -
      have "(56 - int k) mod 64 = 0 \<longleftrightarrow> 56 mod 64 = int k mod 64" by (simp only: mod_eq_dvd_iff mod_eq_0_iff_dvd)
      also have "int k mod 64 = int (k mod 64)" by (simp add: zmod_int)
      finally show ?thesis by auto
    qed
    then show ?thesis by (simp only: pad_left_def)
  qed
  finally show ?thesis .
qed

lemma pad_left_less: "c AND 504 \<noteq> 448 \<Longrightarrow> pad_left (c + 8) = pad_left c - 1 \<and> 0 < pad_left c"
proof -
  assume nz: "c AND 504 \<noteq> 448"
  have "unat (c + 8) div 8 mod 64 = (unat c div 8 + 1) mod 64"
  proof -
    have "unat (c + 8) = (unat c + 8) mod (8 * 2 ^ 29)" by (simp add: unat_word_ariths)
    then have "unat (c + 8) div 8 = (unat c + 8) div 8 mod 2 ^ 29" by (simp only: mod_mult2_eq)
    moreover have "(unat c + 8) div 8 = unat c div 8 + 1" by (rule div_add_self2) simp
    ultimately show ?thesis by (simp add: mod_mod_cancel)
  qed
  then have "pad_left (c + 8) = (56 - (int (unat c div 8) + 1)) mod 64"
    unfolding pad_left_def by (metis (no_types, lifting) mod_diff_right_eq of_nat_1 of_nat_add of_nat_mod of_nat_numeral)
  also have "\<dots> = ((56 - int (unat c div 8)) mod 64 - 1) mod 64" by (simp add: mod_simps algebra_simps)
  finally have "pad_left (c + 8) = (pad_left c - 1) mod 64" by (simp add: pad_left_def)
  moreover have "0 < pad_left c" "pad_left c < 64"
    using nz pad_done [of c] pos_mod_sign [of 64 "56 - int (unat c div 8)"] by (auto simp: pad_left_def)
  ultimately show ?thesis by simp
qed

function pad_loop :: "SHA1_CTX \<Rightarrow> SHA1_CTX" where
  "pad_loop ctx = (if count0 ctx AND 504 \<noteq> 448 then pad_loop (sat_SHA1_Update ctx [0]) else ctx)"
  by pat_completeness auto
termination
  by (relation "measure (\<lambda>ctx. nat (pad_left (count0 ctx)))") (use pad_left_less in \<open>auto simp: count_step\<close>)

declare pad_loop.simps [simp del]

definition be_bytes :: "u32 \<Rightarrow> bytes" where
  "be_bytes w = map (\<lambda>i. ucast (drop_bit ((3 - i) * 8) w AND 255)) [0..<4]"

definition state_bytes :: "sha_state \<Rightarrow> bytes" where
  "state_bytes = (\<lambda>(a, b, c, d, e). be_bytes a @ be_bytes b @ be_bytes c @ be_bytes d @ be_bytes e)"

text \<open>\<^verbatim>\<open>sat_SHA1_Final\<close>; the context is wiped and not used again.\<close>

definition sat_SHA1_Final :: "SHA1_CTX \<Rightarrow> bytes" where
  "sat_SHA1_Final ctx =
     (let finalcount = be_bytes (count1 ctx) @ be_bytes (count0 ctx);
          ctx = sat_SHA1_Update ctx [0x80];
          ctx = pad_loop ctx;
          ctx = sat_SHA1_Update ctx finalcount
      in state_bytes (cstate ctx))"

definition lsha1 :: "bytes \<Rightarrow> bytes \<Rightarrow> bytes" where
  "lsha1 garbage buffer = sat_SHA1_Final (sat_SHA1_Update (sat_SHA1_Init garbage) buffer)"

definition BLOCKSIZE :: nat where
  "BLOCKSIZE = 64"

definition xor_key :: "u32 \<Rightarrow> bytes \<Rightarrow> bytes" where
  "xor_key x key = concat (map (\<lambda>k. put_le (word_at key (4 * k) XOR x)) [0..<BLOCKSIZE div 4])"

definition lhmac_sha1 :: "bytes \<Rightarrow> bytes \<Rightarrow> bytes \<Rightarrow> bytes" where
  "lhmac_sha1 garbage key t =
     (let rkey = replicate BLOCKSIZE 0;
          rkey = (if length key > BLOCKSIZE
            then copy_at 0 (sat_SHA1_Final (sat_SHA1_Update (sat_SHA1_Init garbage) key)) rkey
            else copy_at 0 key rkey);
          rkey = xor_key 0x5c5c5c5c rkey;
          ctx1 = sat_SHA1_Update (sat_SHA1_Init garbage) rkey;
          rkey = xor_key (0x5c5c5c5c XOR 0x36363636) rkey;
          ctx2 = sat_SHA1_Update (sat_SHA1_Init garbage) rkey;
          ctx2 = sat_SHA1_Update ctx2 t;
          digest2 = sat_SHA1_Final ctx2;
          ctx1 = sat_SHA1_Update ctx1 digest2
      in sat_SHA1_Final ctx1)"

section \<open>The standard\<close>

text \<open>FIPS 180: the functions, the constants, the message schedule of 80 words and the digest of a block.\<close>

definition fips_f :: "nat \<Rightarrow> u32 \<Rightarrow> u32 \<Rightarrow> u32 \<Rightarrow> u32" where
  "fips_f t x y z = (if t < 20 then (x AND y) XOR (NOT x AND z)
     else if t < 40 then x XOR y XOR z
     else if t < 60 then (x AND y) XOR (x AND z) XOR (y AND z)
     else x XOR y XOR z)"

definition fips_k :: "nat \<Rightarrow> u32" where
  "fips_k t = (if t < 20 then 0x5A827999 else if t < 40 then 0x6ED9EBA1 else if t < 60 then 0x8F1BBCDC else 0xCA62C1D6)"

definition be_word :: "bytes \<Rightarrow> nat \<Rightarrow> u32" where
  "be_word m i = push_bit 24 (ucast (m ! i)) OR push_bit 16 (ucast (m ! (i + 1))) OR push_bit 8 (ucast (m ! (i + 2)))
     OR ucast (m ! (i + 3))"

fun fips_w :: "bytes \<Rightarrow> nat \<Rightarrow> u32" where
  "fips_w m t = (if t < 16 then be_word m (4 * t)
     else rol (fips_w m (t - 3) XOR fips_w m (t - 8) XOR fips_w m (t - 14) XOR fips_w m (t - 16)) 1)"

declare fips_w.simps [simp del]

definition fips_round :: "bytes \<Rightarrow> nat \<Rightarrow> sha_state \<Rightarrow> sha_state" where
  "fips_round m t = (\<lambda>(a, b, c, d, e). (rol a 5 + fips_f t b c d + e + fips_k t + fips_w m t, a, rol b 30, c, d))"

definition fips_block :: "sha_state \<Rightarrow> bytes \<Rightarrow> sha_state" where
  "fips_block h m = add_state h (fold (fips_round m) [0..<80] h)"

definition fips_init :: sha_state where
  "fips_init = (0x67452301, 0xEFCDAB89, 0x98BADCFE, 0x10325476, 0xC3D2E1F0)"

text \<open>The padding: a bit 1, zeros up to 56 bytes modulo 64, and the length in bits as 64-bit number.\<close>

definition fips_pad :: "bytes \<Rightarrow> bytes" where
  "fips_pad m = m @ 0x80 # replicate (nat ((55 - int (length m)) mod 64)) 0
     @ map (\<lambda>i. ucast (drop_bit ((7 - i) * 8) (word_of_nat (8 * length m) :: u64))) [0..<8]"

definition fips_blocks :: "bytes \<Rightarrow> bytes list" where
  "fips_blocks m = map (\<lambda>k. take 64 (drop (64 * k) m)) [0..<length m div 64]"

definition fips_sha1 :: "bytes \<Rightarrow> bytes" where
  "fips_sha1 m = state_bytes (foldl fips_block fips_init (fips_blocks (fips_pad m)))"

text \<open>RFC 2104.\<close>

definition rfc_key :: "bytes \<Rightarrow> bytes" where
  "rfc_key key = (let k = (if length key > 64 then fips_sha1 key else key) in k @ replicate (64 - length k) 0)"

definition rfc_hmac_sha1 :: "bytes \<Rightarrow> bytes \<Rightarrow> bytes" where
  "rfc_hmac_sha1 key t =
     fips_sha1 (map ((XOR) 0x5c) (rfc_key key) @ fips_sha1 (map ((XOR) 0x36) (rfc_key key) @ t))"

section \<open>One block\<close>

lemma ch_eq: "(w AND (x XOR y)) XOR y = (w AND x) XOR (NOT w AND y)" for w x y :: u32
  by (rule bit_word_eqI) (auto simp: bit_simps)

lemma maj_eq: "((w OR x) AND y) OR (w AND x) = (w AND x) XOR (w AND y) XOR (x AND y)" for w x y :: u32
  by (rule bit_word_eqI) (auto simp: bit_simps)

lemma swap_bytes: "(rol (word_at m i) 24 AND 0xFF00FF00) OR (rol (word_at m i) 8 AND 0x00FF00FF) = be_word m i"
proof (rule bit_word_eqI)
  fix n assume "n < LENGTH(32)"
  have m: "(0xFF00FF00 :: u32) = push_bit 24 (mask 8) OR push_bit 8 (mask 8)" "(0x00FF00FF :: u32) = push_bit 16 (mask 8) OR mask 8"
    by (simp_all add: mask_eq_exp_minus_1 push_bit_eq_mult)
  from \<open>n < LENGTH(32)\<close> consider "n < 8" | "8 \<le> n" "n < 16" | "16 \<le> n" "n < 24" | "24 \<le> n" "n < 32" by fastforce
  then show "bit ((rol (word_at m i) 24 AND 0xFF00FF00) OR (rol (word_at m i) 8 AND 0x00FF00FF)) n = bit (be_word m i) n"
    unfolding m rol_def word_at_def be_word_def
    by cases (simp_all add: bit_simps bit_u8_high, auto)
qed

text \<open>The circular schedule before operation \<open>i\<close>: the place \<open>k\<close> holds the last word \<open>t < i\<close> with \<open>t mod 16 = k\<close>.\<close>

definition schedule :: "bytes \<Rightarrow> nat \<Rightarrow> u32 list \<Rightarrow> bool" where
  "schedule m i l \<longleftrightarrow> length l = 16 \<and>
     (if i \<le> 16 then (\<forall>k < 16. l ! k = (if k < i then fips_w m k else word_at m (4 * k)))
      else \<forall>t. t < i \<and> i \<le> t + 16 \<longrightarrow> l ! (t mod 16) = fips_w m t)"

lemma blk0_schedule:
  assumes "schedule m i l" "i < 16"
  shows "fst (blk0 l i) = fips_w m i" "schedule m (i + 1) (snd (blk0 l i))"
proof -
  have "l ! i = word_at m (4 * i)" using assms by (simp add: schedule_def)
  then show f: "fst (blk0 l i) = fips_w m i" using assms(2)
    by (simp add: blk0_def Let_def swap_bytes fips_w.simps [of m i])
  then have s: "snd (blk0 l i) = l[i := fips_w m i]" by (simp add: blk0_def Let_def)
  show "schedule m (i + 1) (snd (blk0 l i))" using assms unfolding s
    by (auto simp: schedule_def nth_list_update less_Suc_eq)
qed

lemma schedule_at:
  assumes "schedule m i l" "16 \<le> i" "t < i" "i \<le> t + 16"
  shows "l ! (t mod 16) = fips_w m t"
  using assms unfolding schedule_def by (cases "i = 16") auto

lemma wrap16: "16 \<le> i \<Longrightarrow> k \<le> 16 \<Longrightarrow> (i + (16 - k)) mod 16 = (i - k) mod 16" for i k :: nat
  using mod_add_self2 [of "i - k" 16] by simp

lemma mod16_neq: "t < i \<Longrightarrow> i < t + 16 \<Longrightarrow> t mod 16 \<noteq> i mod (16 :: nat)"
proof
  assume "t < i" "i < t + 16" "t mod 16 = i mod 16"
  then have "16 dvd i - t" by (metis less_imp_le mod_eq_dvd_iff_nat)
  then show False using \<open>t < i\<close> \<open>i < t + 16\<close> dvd_imp_le [of 16 "i - t"] by linarith
qed

lemma blk_value:
  assumes "schedule m i l" "16 \<le> i"
  shows "blk l i = (fips_w m i, l[i mod 16 := fips_w m i])"
proof -
  have at: "l ! ((i + (16 - k)) mod 16) = fips_w m (i - k)" if "0 < k" "k \<le> 16" for k
    unfolding wrap16 [OF assms(2) that(2)] by (rule schedule_at [OF assms]) (use that assms(2) in linarith)+
  have "fips_w m i = rol (fips_w m (i - 3) XOR fips_w m (i - 8) XOR fips_w m (i - 14) XOR fips_w m (i - 16)) 1"
    using assms(2) by (simp add: fips_w.simps [of m i])
  then show ?thesis using at [of 3] at [of 8] at [of 14] at [of 16] by (simp add: blk_def Let_def)
qed

lemma blk_schedule:
  assumes "schedule m i l" "16 \<le> i"
  shows "fst (blk l i) = fips_w m i" "schedule m (i + 1) (snd (blk l i))"
proof -
  show "fst (blk l i) = fips_w m i" by (simp add: blk_value [OF assms])
  have "l[i mod 16 := fips_w m i] ! (t mod 16) = fips_w m t" if "t < i + 1" "i + 1 \<le> t + 16" for t
  proof (cases "t = i")
    case False
    then show ?thesis using schedule_at [OF assms, of t] mod16_neq [of t i] that by simp
  qed (use assms(1) in \<open>simp add: schedule_def\<close>)
  then show "schedule m (i + 1) (snd (blk l i))" using assms by (simp add: blk_value [OF assms] schedule_def)
qed

lemma sha1_op_round:
  assumes "schedule m i l"
  shows "\<exists>l'. sha1_op i (st, l) = (fips_round m i st, l') \<and> schedule m (i + 1) l'"
proof -
  obtain v w x y z where st: "st = (v, w, x, y, z)" by (cases st)
  show ?thesis
  proof (cases "i < 16")
    case True
    then show ?thesis using blk0_schedule [OF assms True] unfolding st
      by (simp add: sha1_op_def R0_def fips_round_def fips_f_def fips_k_def ch_eq Let_def case_prod_beta algebra_simps)
  next
    case False
    then show ?thesis using blk_schedule [OF assms] unfolding st
      by (simp add: sha1_op_def R1_def R2_def R3_def R4_def fips_round_def fips_f_def fips_k_def ch_eq maj_eq Let_def
          case_prod_beta algebra_simps)
  qed
qed

lemma transform_fips: "SHA1_Transform st m = fips_block st m"
proof -
  let ?l = "map (\<lambda>i. word_at m (4 * i)) [0..<16]"
  have "\<exists>l. fold sha1_op [0..<n] (st, ?l) = (fold (fips_round m) [0..<n] st, l) \<and> schedule m n l" for n
  proof (induction n)
    case 0
    then show ?case by (simp add: schedule_def)
  next
    case (Suc n)
    then show ?case using sha1_op_round [of m n] by fastforce
  qed
  from this [of 80] show ?thesis by (auto simp: SHA1_Transform_def fips_block_def simp del: upt_conv_Cons upt_rec_numeral)
qed

section \<open>Contexts\<close>

text \<open>The loop over the blocks: the digest of the whole blocks, and the rest.\<close>

lemma fips_blocks_step: "64 \<le> length m \<Longrightarrow> fips_blocks m = take 64 m # fips_blocks (drop 64 m)"
proof -
  assume "64 \<le> length m"
  then have "length m div 64 = Suc ((length m - 64) div 64)" by (simp add: le_div_geq)
  then show ?thesis by (simp add: fips_blocks_def upt_conv_Cons map_Suc_upt [symmetric] comp_def add.commute del: upt_Suc)
qed

lemma update_loop_blocks:
  "update_loop st m = (foldl fips_block st (fips_blocks m), drop (64 * (length m div 64)) m)"
proof (induction st m rule: update_loop.induct)
  case (1 st m)
  show ?case
  proof (cases "64 \<le> length m")
    case True
    then have "64 * (length m div 64) = 64 * ((length m - 64) div 64) + 64" by (simp add: le_div_geq)
    then show ?thesis using "1.IH" [OF True] True
      by (subst update_loop.simps) (simp add: fips_blocks_step transform_fips add.commute)
  next
    case False
    then show ?thesis by (subst update_loop.simps) (simp add: fips_blocks_def)
  qed
qed

lemma update_loop_resume: "update_loop s m = (st, r) \<Longrightarrow> update_loop s (m @ d) = update_loop st (r @ d)"
proof (induction s m rule: update_loop.induct)
  case (1 s m)
  show ?case
  proof (cases "64 \<le> length m")
    case True
    then show ?thesis using "1.IH" [OF True] "1.prems" by (simp add: update_loop.simps [of s m] update_loop.simps [of s "m @ d"])
  next
    case False
    then show ?thesis using "1.prems" by (simp add: update_loop.simps [of s m])
  qed
qed

lemma update_loop_rest: "update_loop s m = (st, r) \<Longrightarrow> length r = length m mod 64"
  by (auto simp: update_loop_blocks simp flip: minus_mult_div_eq_mod)

text \<open>What a context has taken in: the digest of the whole blocks, the rest in the buffer, the counts.\<close>

definition counts :: "SHA1_CTX \<Rightarrow> u64" where
  "counts ctx = push_bit 32 (ucast (count1 ctx)) + ucast (count0 ctx)"

definition holds :: "SHA1_CTX \<Rightarrow> bytes \<Rightarrow> bool" where
  "holds ctx m \<longleftrightarrow> length (cbuffer ctx) = 64 \<and> counts ctx = word_of_nat (8 * length m)
     \<and> update_loop fips_init m = (cstate ctx, take (length m mod 64) (cbuffer ctx))"

lemma holds_init: "length g = 64 \<Longrightarrow> holds (sat_SHA1_Init g) []"
  by (simp add: holds_def sat_SHA1_Init_def counts_def fips_init_def update_loop.simps [of _ "[]"])

text \<open>The counts are a 64-bit sum as long as a piece of data is below \<open>2 ^ 29\<close> bytes.\<close>

lemma unat_counts: "unat (counts ctx) = unat (count1 ctx) * 2 ^ 32 + unat (count0 ctx)"
  using unsigned_less [of "count1 ctx", where ?'a = nat] unsigned_less [of "count0 ctx", where ?'a = nat]
  by (simp add: counts_def push_bit_eq_mult unat_word_ariths unsigned_ucast_eq take_bit_eq_mod)

lemma ucast_nat: "(ucast z :: u64) = word_of_nat (unat z)" for z :: u32
  by (simp add: word_unat_eq_iff unsigned_ucast_eq unsigned_of_nat)

lemma high_plus: "push_bit 32 (ucast (x + y :: u32)) = (push_bit 32 (ucast x) + push_bit 32 (ucast y) :: u64)"
proof -
  have "word_of_nat ((unat x + unat y) mod 2 ^ 32 * 2 ^ 32) = (word_of_nat ((unat x + unat y) * 2 ^ 32) :: u64)"
    unfolding word_of_nat_eq_iff take_bit_eq_mod mult_mod_left by (simp only: mod_mod_trivial flip: power_add) simp
  moreover have "unat (x + y) = (unat x + unat y) mod 2 ^ 32" by (simp add: unat_word_ariths)
  ultimately show ?thesis unfolding ucast_nat push_bit_eq_mult by (simp add: algebra_simps)
qed

lemma counts_update:
  assumes "n < 2 ^ 29"
  shows "counts (update_count (word_of_nat n) ctx) = counts ctx + word_of_nat (8 * n)"
proof -
  let ?c = "count0 ctx"
  have n8: "unat (push_bit 3 (word_of_nat n :: u64)) = 8 * n" "unat (word_of_nat n :: u64) = n"
    using assms by (simp_all add: push_bit_eq_mult unat_word_ariths unat_word_of_nat_less)
  have d: "ucast (drop_bit 29 (word_of_nat n :: u64)) = (0 :: u32)"
    using assms by (simp add: word_unat_eq_iff unsigned_ucast_eq take_bit_eq_mod unat_drop_bit n8)
  define c0 where "c0 = ?c + ucast (push_bit 3 (word_of_nat n :: u64))"
  have c0: "unat c0 = (unat ?c + 8 * n) mod 2 ^ 32" by (simp add: c0_def unat_word_ariths unsigned_ucast_eq take_bit_eq_mod n8 mod_simps)
  have less: "(ucast c0 :: u64) < push_bit 3 (word_of_nat n) \<longleftrightarrow> unat c0 < 8 * n"
    using unsigned_less [of c0, where ?'a = nat] by (simp add: word_less_nat_alt n8 unsigned_ucast_eq take_bit_eq_mod)
  define carry :: u32 where "carry = (if unat c0 < 8 * n then 1 else 0)"
  have "update_count (word_of_nat n) ctx = ctx\<lparr>count0 := c0, count1 := count1 ctx + carry\<rparr>"
    by (simp add: update_count_def Let_def d flip: c0_def) (simp add: less carry_def)
  then have "counts (update_count (word_of_nat n) ctx) = push_bit 32 (ucast (count1 ctx)) + (push_bit 32 (ucast carry) + ucast c0)"
    by (simp add: counts_def high_plus)
  moreover have "push_bit 32 (ucast carry) + ucast c0 = (ucast ?c + word_of_nat (8 * n) :: u64)"
  proof -
    have u: "unat ?c < 2 ^ 32" using unsigned_less [of ?c, where ?'a = nat] by simp
    have "unat carry * 2 ^ 32 + unat c0 = unat ?c + 8 * n"
    proof (cases "unat ?c + 8 * n < 2 ^ 32")
      case True
      then show ?thesis by (simp add: carry_def c0)
    next
      case False
      then have "unat c0 = unat ?c + 8 * n - 2 ^ 32" using u assms by (simp add: c0 le_mod_geq)
      then show ?thesis using False u by (simp add: carry_def)
    qed
    then have "word_of_nat (unat carry * 2 ^ 32 + unat c0) = (word_of_nat (unat ?c + 8 * n) :: u64)" by (rule arg_cong)
    then show ?thesis
      by (simp only: ucast_nat push_bit_eq_mult of_nat_add of_nat_mult of_nat_power of_nat_numeral)
  qed
  ultimately show ?thesis by (simp add: counts_def)
qed

lemma holds_count0:
  assumes "holds ctx m"
  shows "unat (count0 ctx) = 8 * length m mod 2 ^ 32" "unat (count0 ctx) div 8 = length m mod 2 ^ 29"
proof -
  have "unat (counts ctx) mod 2 ^ 32 = unat (count0 ctx)"
    using unsigned_less [of "count0 ctx", where ?'a = nat] by (simp add: unat_counts)
  moreover have "counts ctx = word_of_nat (8 * length m)" using assms unfolding holds_def by blast
  then have "unat (counts ctx) = 8 * length m mod 2 ^ 64" by (simp only: unsigned_of_nat take_bit_eq_mod) simp
  ultimately show *: "unat (count0 ctx) = 8 * length m mod 2 ^ 32" by (simp add: mod_mod_cancel)
  have "8 * length m mod 2 ^ 32 = 8 * (length m mod 2 ^ 29)" using mult_mod_right [of 8 "length m" "2 ^ 29"] by simp
  then show "unat (count0 ctx) div 8 = length m mod 2 ^ 29" by (simp add: *)
qed

lemma holds_used:
  assumes "holds ctx m"
  shows "unat (drop_bit 3 (count0 ctx) AND 63) = length m mod 64"
proof -
  have "drop_bit 3 (count0 ctx) AND 63 = take_bit 6 (drop_bit 3 (count0 ctx))" by (simp add: take_bit_eq_mask mask_eq_exp_minus_1)
  then have "unat (drop_bit 3 (count0 ctx) AND 63) = unat (count0 ctx) div 8 mod 64"
    by (simp only: unsigned_take_bit_eq) (simp add: take_bit_eq_mod unat_drop_bit)
  then show ?thesis by (simp add: holds_count0(2) [OF assms] mod_mod_cancel)
qed

lemma length_copy_at: "j + length src \<le> length dst \<Longrightarrow> length (copy_at j src dst) = length dst"
  by (simp add: copy_at_def)

lemma holds_update:
  assumes "holds ctx m" "length d < 2 ^ 29"
  shows "holds (sat_SHA1_Update ctx d) (m @ d)"
proof -
  let ?j = "length m mod 64" and ?c = "update_count (word_of_nat (length d)) ctx"
  have c: "counts ?c = word_of_nat (8 * length (m @ d))" "cstate ?c = cstate ctx" "cbuffer ?c = cbuffer ctx"
    using assms counts_update [OF assms(2), of ctx] by (simp_all add: holds_def update_count_def Let_def algebra_simps)
  define r where "r = take ?j (cbuffer ctx)"
  have buf: "length (cbuffer ctx) = 64" and lm: "update_loop fips_init m = (cstate ctx, r)" using assms(1) by (simp_all add: holds_def r_def)
  have lr: "length r = ?j" using buf by (simp add: r_def)
  note all = update_loop_resume [OF lm, of d]
  have counts_eq: "counts (x\<lparr>cstate := a\<rparr>) = counts x" "counts (x\<lparr>cbuffer := b\<rparr>) = counts x" for x a b
    by (simp_all add: counts_def)
  show ?thesis
  proof (cases "?j + length d > 63")
    case True
    let ?i = "64 - ?j"
    have fill: "copy_at ?j (take ?i d) (cbuffer ctx) = r @ take ?i d" using buf True by (simp add: copy_at_def r_def)
    obtain st rest where loop: "update_loop (SHA1_Transform (cstate ctx) (r @ take ?i d)) (drop ?i d) = (st, rest)" by fastforce
    have "update_loop (cstate ctx) (r @ d) = (st, rest)"
      using True loop lr by (subst update_loop.simps) simp
    then have new: "update_loop fips_init (m @ d) = (st, rest)" using all by simp
    then have len: "length rest = length (m @ d) mod 64" by (rule update_loop_rest)
    have "sat_SHA1_Update ctx d = ?c\<lparr>cstate := st, cbuffer := copy_at 0 rest (r @ take ?i d)\<rparr>"
      using True loop by (simp add: sat_SHA1_Update_def holds_used [OF assms(1)] Let_def c fill)
    moreover have "length (r @ take ?i d) = 64" using lr True by simp
    then have "length (copy_at 0 rest (r @ take ?i d)) = 64" "take (length rest) (copy_at 0 rest (r @ take ?i d)) = rest"
      using len by (simp_all add: length_copy_at less_imp_le del: length_append) (simp add: copy_at_def)
    ultimately show ?thesis using new len c(1) by (simp add: holds_def counts_eq)
  next
    case False
    have "sat_SHA1_Update ctx d = ?c\<lparr>cbuffer := copy_at ?j d (cbuffer ctx)\<rparr>"
      using False by (simp add: sat_SHA1_Update_def holds_used [OF assms(1)] Let_def c)
    moreover have "length (m @ d) mod 64 = ?j + length d" using False by (simp add: mod_add_left_eq [symmetric, of "length m"])
    moreover have "update_loop fips_init (m @ d) = (cstate ctx, r @ d)"
      using all False lr by (simp add: update_loop.simps [of _ "r @ d"])
    moreover have "length (copy_at ?j d (cbuffer ctx)) = 64" "take (?j + length d) (copy_at ?j d (cbuffer ctx)) = r @ d"
      using False buf by (simp_all add: copy_at_def r_def)
    ultimately show ?thesis using c by (simp add: holds_def counts_eq)
  qed
qed

lemma holds_pad_loop:
  "holds ctx m \<Longrightarrow> holds (pad_loop ctx) (m @ replicate (nat ((56 - int (length m)) mod 64)) 0)"
proof (induction ctx arbitrary: m rule: pad_loop.induct)
  case (1 ctx)
  have left: "pad_left (count0 ctx) = (56 - int (length m)) mod 64"
  proof -
    have "int (length m mod 2 ^ 29) mod 64 = int (length m) mod 64" by (simp add: zmod_int mod_mod_cancel)
    then show ?thesis unfolding pad_left_def holds_count0(2) [OF "1.prems"] by (metis mod_diff_right_eq)
  qed
  show ?case
  proof (cases "count0 ctx AND 504 = 448")
    case True
    then have "(56 - int (length m)) mod 64 = 0" using pad_done left by simp
    then show ?thesis using True "1.prems" by (simp add: pad_loop.simps [of ctx])
  next
    case False
    let ?k = "(56 - int (length m)) mod 64"
    have k: "0 < ?k" using pad_left_less [OF False] left by simp
    have "(56 - int (length (m @ [0 :: u8]))) mod 64 = (?k - 1) mod 64" by (simp add: mod_simps algebra_simps)
    also have "\<dots> = ?k - 1" using k by (intro mod_pos_pos_trivial) (auto intro: less_trans [OF _ pos_mod_bound])
    finally have "nat ?k = Suc (nat ((56 - int (length (m @ [0 :: u8]))) mod 64))" using k by simp
    moreover have "holds (pad_loop (sat_SHA1_Update ctx [0])) ((m @ [0]) @ replicate (nat ((56 - int (length (m @ [0 :: u8]))) mod 64)) 0)"
      by (rule "1.IH" [OF False]) (rule holds_update [OF "1.prems"], simp)
    ultimately show ?thesis using False by (simp add: pad_loop.simps [of ctx])
  qed
qed

lemma be_bytes_counts:
  "be_bytes (count1 ctx) @ be_bytes (count0 ctx) = map (\<lambda>i. ucast (drop_bit ((7 - i) * 8) (counts ctx))) [0..<8]"
proof -
  have or: "counts ctx = push_bit 32 (ucast (count1 ctx)) OR ucast (count0 ctx)"
    unfolding counts_def by (rule disjunctive_add) (auto simp: bit_simps dest: bit_imp_le_length)
  have ff: "(255 :: u32) = mask 8" by (simp add: mask_eq_exp_minus_1)
  have "ucast (drop_bit (k * 8) (count1 ctx) AND 255) = (ucast (drop_bit ((k + 4) * 8) (counts ctx)) :: u8)" if "k < 4" for k
    unfolding or ff by (rule bit_word_eqI) (use that in \<open>auto simp: bit_simps algebra_simps dest: bit_imp_le_length\<close>)
  moreover have "ucast (drop_bit (k * 8) (count0 ctx) AND 255) = (ucast (drop_bit (k * 8) (counts ctx)) :: u8)" if "k < 4" for k
    unfolding or ff by (rule bit_word_eqI) (use that in \<open>auto simp: bit_simps algebra_simps\<close>)
  moreover have "(3 - i) * 8 + 32 = (7 - i) * 8" if "i < 4" for i :: nat using that by arith
  ultimately show ?thesis unfolding be_bytes_def
    by (intro nth_equalityI) (auto simp: nth_append)
qed

lemma final_fips:
  assumes "holds ctx m"
  shows "sat_SHA1_Final ctx = fips_sha1 m"
proof -
  let ?f = "be_bytes (count1 ctx) @ be_bytes (count0 ctx)"
  let ?z = "nat ((55 - int (length m)) mod 64)"
  have "holds (sat_SHA1_Update ctx [0x80]) (m @ [0x80])" by (rule holds_update [OF assms]) simp
  from holds_pad_loop [OF this]
  have "holds (pad_loop (sat_SHA1_Update ctx [0x80])) (m @ 0x80 # replicate ?z 0)" by simp
  moreover have "length ?f < 2 ^ 29" by (simp add: be_bytes_def)
  ultimately have "holds (sat_SHA1_Update (pad_loop (sat_SHA1_Update ctx [0x80])) ?f) ((m @ 0x80 # replicate ?z 0) @ ?f)"
    by (rule holds_update)
  moreover have "(m @ 0x80 # replicate ?z 0) @ ?f = fips_pad m"
    using assms unfolding be_bytes_counts fips_pad_def holds_def by simp
  ultimately show ?thesis
    by (simp add: sat_SHA1_Final_def Let_def fips_sha1_def holds_def update_loop_blocks)
qed

lemma sha1_fips: "length g = 64 \<Longrightarrow> length m < 2 ^ 29 \<Longrightarrow> sat_SHA1_Final (sat_SHA1_Update (sat_SHA1_Init g) m) = fips_sha1 m"
  using final_fips [OF holds_update [OF holds_init]] by simp

lemma length_fips_sha1 [simp]: "length (fips_sha1 m) = 20"
  by (simp add: fips_sha1_def state_bytes_def be_bytes_def split: prod.splits)

lemma length_rfc_key [simp]: "length (rfc_key key) = 64"
  by (simp add: rfc_key_def Let_def)

section \<open>Keys\<close>

lemma put_le_xor:
  assumes "length k \<ge> i + 4"
  shows "put_le (word_at k i XOR (push_bit 24 (ucast c) OR push_bit 16 (ucast c) OR push_bit 8 (ucast c) OR ucast c))
    = map ((XOR) c) (take 4 (drop i k))"
proof (rule nth_equalityI)
  fix n assume "n < length (put_le (word_at k i XOR (push_bit 24 (ucast c) OR push_bit 16 (ucast c) OR push_bit 8 (ucast c) OR ucast c)))"
  then have n: "n < 4" by (simp add: put_le_def)
  have ff: "(0xff :: u32) = mask 8" by (simp add: mask_eq_exp_minus_1)
  let ?w = "word_at k i XOR (push_bit 24 (ucast c) OR push_bit 16 (ucast c) OR push_bit 8 (ucast c) OR ucast c)"
  have b: "bit ?w (8 * n + t) = (bit (c XOR k ! (i + n)) t)" if "t < 8" for t
  proof -
    have "8 * n + t < 32" "(8 * n + t) div 8 = n" "(8 * n + t) mod 8 = t" using n that by auto
    moreover have "n = 0 \<or> n = 1 \<or> n = 2 \<or> n = 3" using n by linarith
    ultimately show ?thesis using bit_word_at [of i k "8 * n + t"] assms that
      by (elim disjE) (simp_all add: bit_simps bit_u8_high, auto)
  qed
  have "ucast (drop_bit (8 * n) ?w AND 0xff) = c XOR k ! (i + n)"
    unfolding ff by (rule bit_word_eqI) (use b n in \<open>simp add: bit_simps\<close>)
  then show "put_le ?w ! n = map ((XOR) c) (take 4 (drop i k)) ! n" using n assms by (simp add: put_le_def)
qed (use assms in \<open>simp add: put_le_def\<close>)

lemma xor_key_map:
  assumes "length k = 64" "x = push_bit 24 (ucast c) OR push_bit 16 (ucast c) OR push_bit 8 (ucast c) OR ucast c"
  shows "xor_key x k = map ((XOR) c) k"
proof -
  have "concat (map (\<lambda>i. put_le (word_at k (4 * i) XOR x)) [0..<n]) = map ((XOR) c) (take (4 * n) k)" if "4 * n \<le> 64" for n
    using that
  proof (induction n)
    case (Suc n)
    then have "take (4 * Suc n) k = take (4 * n) k @ take 4 (drop (4 * n) k)"
      by (metis add.commute mult_Suc_right take_add)
    moreover have "put_le (word_at k (4 * n) XOR x) = map ((XOR) c) (take 4 (drop (4 * n) k))"
      unfolding assms(2) using Suc.prems assms(1) by (intro put_le_xor) simp
    ultimately show ?case using Suc by simp
  qed simp
  from this [of 16] assms(1) show ?thesis by (simp add: xor_key_def BLOCKSIZE_def)
qed

section \<open>Properties\<close>

text \<open>
  Property C33. \<^verbatim>\<open>lsha1\<close> is SHA-1: for every text below \<open>2 ^ 29\<close> bytes, whatever the uninitialised
  buffer holds, its result is the digest of FIPS 180, with the padding, the 64-bit length and the
  80-word message schedule of the standard in place of the circular one of the code.
\<close>

theorem sha1_is_fips:
  assumes "length garbage = 64" "length m < 2 ^ 29"
  shows "lsha1 garbage m = fips_sha1 m"
  using sha1_fips assms by (simp add: lsha1_def)

theorem sha1_is_fips_witness: "lsha1 (replicate 64 7) (ascii ''abc'') = fips_sha1 (ascii ''abc'')"
  by (rule sha1_is_fips) (simp_all add: ascii_def)

text \<open>
  Property C34. \<^verbatim>\<open>lhmac_sha1\<close> is the HMAC of RFC 2104 over SHA-1, for keys and texts, each
  below \<open>2 ^ 29\<close> bytes.
\<close>

theorem hmac_sha1_is_rfc:
  assumes "length garbage = 64" "length key < 2 ^ 29" "length t < 2 ^ 29"
  shows "lhmac_sha1 garbage key t = rfc_hmac_sha1 key t"
proof -
  let ?k = "rfc_key key"
  have k: "(if length key > BLOCKSIZE then copy_at 0 (sat_SHA1_Final (sat_SHA1_Update (sat_SHA1_Init garbage) key)) (replicate BLOCKSIZE 0)
      else copy_at 0 key (replicate BLOCKSIZE 0)) = ?k"
    using assms by (simp add: sha1_fips rfc_key_def copy_at_def BLOCKSIZE_def Let_def)
  have x1: "xor_key 0x5c5c5c5c ?k = map ((XOR) 0x5c) ?k"
    by (rule xor_key_map) (simp_all add: push_bit_eq_mult)
  have "xor_key (0x5c5c5c5c XOR 0x36363636) (map ((XOR) 0x5c) ?k) = map ((XOR) (0x5c XOR 0x36)) (map ((XOR) 0x5c) ?k)"
    by (rule xor_key_map) (simp_all add: push_bit_eq_mult)
  also have "\<dots> = map ((XOR) 0x36) ?k" by (simp add: xor.assoc [symmetric])
  finally have x2: "xor_key (0x5c5c5c5c XOR 0x36363636) (map ((XOR) 0x5c) ?k) = map ((XOR) 0x36) ?k" .
  note init = holds_init [OF assms(1)]
  have inner: "sat_SHA1_Final (sat_SHA1_Update (sat_SHA1_Update (sat_SHA1_Init garbage) (map ((XOR) 0x36) ?k)) t)
      = fips_sha1 (map ((XOR) 0x36) ?k @ t)"
    using final_fips [OF holds_update [OF holds_update [OF init]]] assms(3) by simp
  have "sat_SHA1_Final (sat_SHA1_Update (sat_SHA1_Update (sat_SHA1_Init garbage) (map ((XOR) 0x5c) ?k)) (fips_sha1 s))
      = fips_sha1 (map ((XOR) 0x5c) ?k @ fips_sha1 s)" for s
    using final_fips [OF holds_update [OF holds_update [OF init]]] by simp
  then show ?thesis unfolding lhmac_sha1_def Let_def k x1 x2 inner by (simp add: rfc_hmac_sha1_def)
qed

theorem hmac_sha1_is_rfc_witness:
  "lhmac_sha1 (replicate 64 7) (ascii ''key'') (ascii ''text'') = rfc_hmac_sha1 (ascii ''key'') (ascii ''text'')"
  by (rule hmac_sha1_is_rfc) (simp_all add: ascii_def)

text \<open>
  The bit count of a single update of \<open>2 ^ 29\<close> bytes or more is wrong: the 32-bit sum is
  compared with the 64-bit \<^verbatim>\<open>len << 3\<close> and always found smaller, so that the upper word counts a
  carry that did not happen. The digests of such texts are not SHA-1.
\<close>

theorem sha1_count_overflow:
  assumes "2 ^ 29 \<le> len" "len < 2 ^ 61"
  shows "counts (update_count (word_of_nat len) (sat_SHA1_Init garbage)) = word_of_nat (8 * len) + 2 ^ 32"
proof -
  let ?w = "word_of_nat len :: u64" and ?i = "sat_SHA1_Init garbage"
  have w: "unat ?w = len" "unat (push_bit 3 ?w) = 8 * len"
    using assms(2) by (simp_all add: push_bit_eq_mult unat_word_ariths unat_word_of_nat_less)
  define lo hi :: u32 where "lo = ucast (push_bit 3 ?w)" and "hi = ucast (drop_bit 29 ?w)"
  have lo: "unat lo = 8 * len mod 2 ^ 32" by (simp add: lo_def unsigned_ucast_eq take_bit_eq_mod w)
  have hi: "unat hi = len div 2 ^ 29"
    using assms(2) by (simp add: hi_def unsigned_ucast_eq take_bit_eq_mod unat_drop_bit w less_mult_imp_div_less)
  have less: "(ucast lo :: u64) < push_bit 3 ?w"
    using assms(1) unsigned_less [of lo, where ?'a = nat] by (simp add: word_less_nat_alt w unsigned_ucast_eq take_bit_eq_mod)
  have "update_count ?w ?i = ?i\<lparr>count0 := lo, count1 := 1 + hi\<rparr>"
    using less by (simp add: update_count_def sat_SHA1_Init_def Let_def lo_def hi_def)
  then have c: "counts (update_count ?w ?i) = 2 ^ 32 + (push_bit 32 (ucast hi) + ucast lo)"
    unfolding counts_def by (simp add: high_plus [of 1 hi] add.assoc)
  have "8 * len div 2 ^ 32 = len div 2 ^ 29" using div_mult_mult1 [of 8 len "2 ^ 29"] by simp
  then have "unat hi * 2 ^ 32 + unat lo = 8 * len" using div_mult_mod_eq [of "8 * len" "2 ^ 32"] by (simp only: hi lo)
  then have "word_of_nat (unat hi * 2 ^ 32 + unat lo) = (word_of_nat (8 * len) :: u64)" by (rule arg_cong)
  then have "push_bit 32 (ucast hi) + ucast lo = (word_of_nat (8 * len) :: u64)"
    by (simp only: ucast_nat push_bit_eq_mult of_nat_add of_nat_mult of_nat_power of_nat_numeral)
  then show ?thesis using c by simp
qed

theorem sha1_count_overflow_witness:
  "counts (update_count (word_of_nat (2 ^ 29)) (sat_SHA1_Init (replicate 64 7))) = word_of_nat (8 * 2 ^ 29) + 2 ^ 32"
  by (rule sha1_count_overflow) simp_all

end
