(* ===== verification/Md5.thy ===== *)
theory Md5
  imports Codec
begin

text \<open>
  The MD5 code of \<^verbatim>\<open>skynet/lualib-src/lua-crypt.c\<close> (one block, for the 64-bit message authentication
  codes) and the MD5 library \<^verbatim>\<open>skynet/3rd/lua-md5/md5.c\<close> that a comment there compares it with.
\<close>

section \<open>MD5 of lua-crypt.c\<close>

definition md5_k :: "u32 list" where
  "md5_k = [
    0xd76aa478, 0xe8c7b756, 0x242070db, 0xc1bdceee, 0xf57c0faf, 0x4787c62a, 0xa8304613, 0xfd469501,
    0x698098d8, 0x8b44f7af, 0xffff5bb1, 0x895cd7be, 0x6b901122, 0xfd987193, 0xa679438e, 0x49b40821,
    0xf61e2562, 0xc040b340, 0x265e5a51, 0xe9b6c7aa, 0xd62f105d, 0x02441453, 0xd8a1e681, 0xe7d3fbc8,
    0x21e1cde6, 0xc33707d6, 0xf4d50d87, 0x455a14ed, 0xa9e3e905, 0xfcefa3f8, 0x676f02d9, 0x8d2a4c8a,
    0xfffa3942, 0x8771f681, 0x6d9d6122, 0xfde5380c, 0xa4beea44, 0x4bdecfa9, 0xf6bb4b60, 0xbebfbc70,
    0x289b7ec6, 0xeaa127fa, 0xd4ef3085, 0x04881d05, 0xd9d4d039, 0xe6db99e5, 0x1fa27cf8, 0xc4ac5665,
    0xf4292244, 0x432aff97, 0xab9423a7, 0xfc93a039, 0x655b59c3, 0x8f0ccc92, 0xffeff47d, 0x85845dd1,
    0x6fa87e4f, 0xfe2ce6e0, 0xa3014314, 0x4e0811a1, 0xf7537e82, 0xbd3af235, 0x2ad7d2bb, 0xeb86d391]"

definition md5_r :: "nat list" where
  "md5_r = [
    7, 12, 17, 22, 7, 12, 17, 22,
    7, 12, 17, 22, 7, 12, 17, 22,
    5, 9, 14, 20, 5, 9, 14, 20,
    5, 9, 14, 20, 5, 9, 14, 20,
    4, 11, 16, 23, 4, 11, 16, 23,
    4, 11, 16, 23, 4, 11, 16, 23,
    6, 10, 15, 21, 6, 10, 15, 21,
    6, 10, 15, 21, 6, 10, 15, 21]"

definition LEFTROTATE :: "u32 \<Rightarrow> nat \<Rightarrow> u32" where
  "LEFTROTATE x c = push_bit c x OR drop_bit (32 - c) x"

type_synonym md5_state = "u32 \<times> u32 \<times> u32 \<times> u32"

text \<open>The body of the loop of \<^verbatim>\<open>digest_md5\<close>.\<close>

definition md5_op :: "u32 list \<Rightarrow> nat \<Rightarrow> md5_state \<Rightarrow> md5_state" where
  "md5_op w i = (\<lambda>(a, b, c, d).
     let (f, g) =
       (if i < 16 then ((b AND c) OR (NOT b AND d), i)
        else if i < 32 then ((d AND b) OR (NOT d AND c), (5 * i + 1) mod 16)
        else if i < 48 then (b XOR c XOR d, (3 * i + 5) mod 16)
        else (c XOR (b OR NOT d), 7 * i mod 16))
     in (d, b + LEFTROTATE (a + f + md5_k ! i + w ! g) (md5_r ! i), b, c))"

definition digest_md5 :: "u32 list \<Rightarrow> md5_state" where
  "digest_md5 w = fold (md5_op w) [0..<64] (0x67452301, 0xefcdab89, 0x98badcfe, 0x10325476)"

definition hmac :: "u32 \<times> u32 \<Rightarrow> u32 \<times> u32 \<Rightarrow> u32 \<times> u32" where
  "hmac = (\<lambda>(x0, x1) (y0, y1).
     let (r0, r1, r2, r3) = digest_md5 (concat (replicate 4 [x1, x0, y1, y0])) in (r2 XOR r3, r0 XOR r1))"

definition hmac_md5 :: "u32 \<times> u32 \<Rightarrow> u32 \<times> u32 \<Rightarrow> u32 \<times> u32" where
  "hmac_md5 = (\<lambda>(x0, x1) (y0, y1).
     let (r0, r1, r2, r3) = digest_md5 (concat (replicate 3 [x0, x1, y0, y1]) @ [0x80, 0, 384, 0]) in
     ((r0 + 0x67452301) XOR (r2 + 0x98badcfe), (r1 + 0xefcdab89) XOR (r3 + 0x10325476)))"

definition pushqword :: "u32 \<times> u32 \<Rightarrow> bytes" where
  "pushqword = (\<lambda>(r0, r1). put_le r0 @ put_le r1)"

definition lhmac64 :: "bytes \<Rightarrow> bytes \<Rightarrow> crypt_error + bytes" where
  "lhmac64 x y = (case read64 x y of Inl e \<Rightarrow> Inl e | Inr (xx, yy) \<Rightarrow> Inr (pushqword (hmac xx yy)))"

definition lhmac64_md5 :: "bytes \<Rightarrow> bytes \<Rightarrow> crypt_error + bytes" where
  "lhmac64_md5 x y = (case read64 x y of Inl e \<Rightarrow> Inl e | Inr (xx, yy) \<Rightarrow> Inr (pushqword (hmac_md5 xx yy)))"

definition lhmac_hash :: "bytes \<Rightarrow> bytes \<Rightarrow> crypt_error + bytes" where
  "lhmac_hash x t =
     (if length x \<noteq> 8 then Inl (InvalidSize (length x))
      else let key = (word_at x 0, word_at x 4); h = Hash t; htext = (word_at h 0, word_at h 4)
        in Inr (pushqword (hmac htext key)))"

section \<open>The MD5 library\<close>

definition md5_T :: "u32 list" where
  "md5_T = [
    0xd76aa478, 0xe8c7b756, 0x242070db, 0xc1bdceee, 0xf57c0faf, 0x4787c62a, 0xa8304613, 0xfd469501,
    0x698098d8, 0x8b44f7af, 0xffff5bb1, 0x895cd7be, 0x6b901122, 0xfd987193, 0xa679438e, 0x49b40821,
    0xf61e2562, 0xc040b340, 0x265e5a51, 0xe9b6c7aa, 0xd62f105d, 0x02441453, 0xd8a1e681, 0xe7d3fbc8,
    0x21e1cde6, 0xc33707d6, 0xf4d50d87, 0x455a14ed, 0xa9e3e905, 0xfcefa3f8, 0x676f02d9, 0x8d2a4c8a,
    0xfffa3942, 0x8771f681, 0x6d9d6122, 0xfde5380c, 0xa4beea44, 0x4bdecfa9, 0xf6bb4b60, 0xbebfbc70,
    0x289b7ec6, 0xeaa127fa, 0xd4ef3085, 0x04881d05, 0xd9d4d039, 0xe6db99e5, 0x1fa27cf8, 0xc4ac5665,
    0xf4292244, 0x432aff97, 0xab9423a7, 0xfc93a039, 0x655b59c3, 0x8f0ccc92, 0xffeff47d, 0x85845dd1,
    0x6fa87e4f, 0xfe2ce6e0, 0xa3014314, 0x4e0811a1, 0xf7537e82, 0xbd3af235, 0x2ad7d2bb, 0xeb86d391]"

definition rotate_md5 :: "u32 \<Rightarrow> nat \<Rightarrow> u32" where
  "rotate_md5 D num = push_bit num D OR drop_bit (32 - num) D"

definition F_md5 :: "u32 \<Rightarrow> u32 \<Rightarrow> u32 \<Rightarrow> u32" where
  "F_md5 x y z = (x AND y) OR (NOT x AND z)"

definition G_md5 :: "u32 \<Rightarrow> u32 \<Rightarrow> u32 \<Rightarrow> u32" where
  "G_md5 x y z = (x AND z) OR (y AND NOT z)"

definition H_md5 :: "u32 \<Rightarrow> u32 \<Rightarrow> u32 \<Rightarrow> u32" where
  "H_md5 x y z = x XOR y XOR z"

definition I_md5 :: "u32 \<Rightarrow> u32 \<Rightarrow> u32 \<Rightarrow> u32" where
  "I_md5 x y z = y XOR (x OR NOT z)"

text \<open>The three assignments that each round makes to one word of the digest.\<close>

definition md5_line :: "u32 \<Rightarrow> u32 \<Rightarrow> u32 \<Rightarrow> u32 \<Rightarrow> nat \<Rightarrow> u32 \<Rightarrow> u32" where
  "md5_line d f m t num b = rotate_md5 (d + f + m + t) num + b"

definition passo1 :: "u32 list \<Rightarrow> nat \<Rightarrow> md5_state \<Rightarrow> md5_state" where
  "passo1 m j = (\<lambda>(d0, d1, d2, d3).
     let d0 = md5_line d0 (F_md5 d1 d2 d3) (m ! j) (md5_T ! j) 7 d1;
         d3 = md5_line d3 (F_md5 d0 d1 d2) (m ! (j + 1)) (md5_T ! (j + 1)) 12 d0;
         d2 = md5_line d2 (F_md5 d3 d0 d1) (m ! (j + 2)) (md5_T ! (j + 2)) 17 d3;
         d1 = md5_line d1 (F_md5 d2 d3 d0) (m ! (j + 3)) (md5_T ! (j + 3)) 22 d2
     in (d0, d1, d2, d3))"

definition passo2 :: "u32 list \<Rightarrow> nat \<Rightarrow> md5_state \<Rightarrow> md5_state" where
  "passo2 m j = (\<lambda>(d0, d1, d2, d3).
     let d0 = md5_line d0 (G_md5 d1 d2 d3) (m ! ((5 * j + 1) mod 16)) (md5_T ! (j + 16)) 5 d1;
         d3 = md5_line d3 (G_md5 d0 d1 d2) (m ! ((5 * (j + 1) + 1) mod 16)) (md5_T ! (j + 17)) 9 d0;
         d2 = md5_line d2 (G_md5 d3 d0 d1) (m ! ((5 * (j + 2) + 1) mod 16)) (md5_T ! (j + 18)) 14 d3;
         d1 = md5_line d1 (G_md5 d2 d3 d0) (m ! ((5 * (j + 3) + 1) mod 16)) (md5_T ! (j + 19)) 20 d2
     in (d0, d1, d2, d3))"

definition passo3 :: "u32 list \<Rightarrow> nat \<Rightarrow> md5_state \<Rightarrow> md5_state" where
  "passo3 m j = (\<lambda>(d0, d1, d2, d3).
     let d0 = md5_line d0 (H_md5 d1 d2 d3) (m ! ((3 * j + 5) mod 16)) (md5_T ! (j + 32)) 4 d1;
         d3 = md5_line d3 (H_md5 d0 d1 d2) (m ! ((3 * (j + 1) + 5) mod 16)) (md5_T ! (j + 33)) 11 d0;
         d2 = md5_line d2 (H_md5 d3 d0 d1) (m ! ((3 * (j + 2) + 5) mod 16)) (md5_T ! (j + 34)) 16 d3;
         d1 = md5_line d1 (H_md5 d2 d3 d0) (m ! ((3 * (j + 3) + 5) mod 16)) (md5_T ! (j + 35)) 23 d2
     in (d0, d1, d2, d3))"

definition passo4 :: "u32 list \<Rightarrow> nat \<Rightarrow> md5_state \<Rightarrow> md5_state" where
  "passo4 m j = (\<lambda>(d0, d1, d2, d3).
     let d0 = md5_line d0 (I_md5 d1 d2 d3) (m ! (7 * j mod 16)) (md5_T ! (j + 48)) 6 d1;
         d3 = md5_line d3 (I_md5 d0 d1 d2) (m ! (7 * (j + 1) mod 16)) (md5_T ! (j + 49)) 10 d0;
         d2 = md5_line d2 (I_md5 d3 d0 d1) (m ! (7 * (j + 2) mod 16)) (md5_T ! (j + 50)) 15 d3;
         d1 = md5_line d1 (I_md5 d2 d3 d0) (m ! (7 * (j + 3) mod 16)) (md5_T ! (j + 51)) 21 d2
     in (d0, d1, d2, d3))"

definition digest :: "u32 list \<Rightarrow> md5_state \<Rightarrow> md5_state" where
  "digest m d = (let d = fold (passo1 m) [0, 4, 8, 12] d; d = fold (passo2 m) [0, 4, 8, 12] d;
       d = fold (passo3 m) [0, 4, 8, 12] d in fold (passo4 m) [0, 4, 8, 12] d)"

definition inic_digest :: md5_state where
  "inic_digest = (0x67452301, 0xEFCDAB89, 0x98BADCFE, 0x10325476)"

definition word32tobytes :: "md5_state \<Rightarrow> bytes" where
  "word32tobytes = (\<lambda>(d0, d1, d2, d3). concat (map (\<lambda>v. map (\<lambda>k. ucast (drop_bit (8 * k) v AND 0xff)) [0..<4]) [d0, d1, d2, d3]))"

definition bytestoword32 :: "bytes \<Rightarrow> u32 list" where
  "bytestoword32 pt = map (\<lambda>i. let j = i * 4 in
     push_bit 8 (push_bit 8 (push_bit 8 (ucast (pt ! (j + 3))) OR ucast (pt ! (j + 2))) OR ucast (pt ! (j + 1)))
       OR ucast (pt ! j)) [0..<16]"

text \<open>The length is a \<^verbatim>\<open>long\<close> of 64 bits.\<close>

definition put_length :: "u64 \<Rightarrow> u32 list \<Rightarrow> u32 list" where
  "put_length len x = x[14 := ucast (push_bit 3 len AND 0xFFFFFFFF), 15 := ucast (drop_bit (32 - 3) len AND 7)]"

text \<open>The message from \<^verbatim>\<open>pt\<close> on, the number of its bytes to take, and the old and new status.\<close>

definition converte :: "bytes \<Rightarrow> nat \<Rightarrow> nat \<Rightarrow> u32 list \<times> nat" where
  "converte pt num old_status =
     (let (pt, new_status) =
        (if num < 64 then
           let buff = take num pt @ replicate (64 - num) 0 in
           (if old_status = 0 then buff[num := 0x80] else buff, 1)
         else (pt, 0))
      in (bytestoword32 pt, if num \<le> 64 - 9 then 2 else new_status))"

definition add_digest :: "md5_state \<Rightarrow> md5_state \<Rightarrow> md5_state" where
  "add_digest = (\<lambda>(a, b, c, d) (a', b', c', d'). (a + a', b + b', c + c', d + d'))"

function md5_loop :: "nat \<Rightarrow> bytes \<Rightarrow> nat \<Rightarrow> md5_state \<Rightarrow> md5_state" where
  "md5_loop len rest status d =
     (if status \<noteq> 2 then
        let numbytes = (if length rest \<ge> 64 then 64 else length rest);
            (wbuff, status1) = converte rest numbytes status;
            wbuff = (if status1 = 2 then put_length (word_of_nat len) wbuff else wbuff)
        in md5_loop len (drop numbytes rest) status1 (add_digest (digest wbuff d) d)
      else d)"
  by pat_completeness auto
termination
  by (relation "measure (\<lambda>(_, rest, status, _). if status = 2 then 0 else Suc (length rest))")
    (auto simp: converte_def Let_def split: if_splits)

declare md5_loop.simps [simp del]

definition md5 :: "bytes \<Rightarrow> bytes" where
  "md5 message = word32tobytes (md5_loop (length message) message 0 inic_digest)"

section \<open>The two implementations agree\<close>

lemma tables_eq: "md5_T = md5_k"
  by (simp add: md5_T_def md5_k_def)

lemma rotate_eq: "rotate_md5 = LEFTROTATE"
  by (intro ext) (simp add: rotate_md5_def LEFTROTATE_def)

text \<open>Every fourth shift amount is the same within a pass.\<close>

lemma shifts:
  "\<forall>j \<in> {0, 4, 8, 12}. md5_r ! j = 7 \<and> md5_r ! (j + 1) = 12 \<and> md5_r ! (j + 2) = 17 \<and> md5_r ! (j + 3) = 22"
  "\<forall>j \<in> {0, 4, 8, 12}. md5_r ! (j + 16) = 5 \<and> md5_r ! (j + 17) = 9 \<and> md5_r ! (j + 18) = 14 \<and> md5_r ! (j + 19) = 20"
  "\<forall>j \<in> {0, 4, 8, 12}. md5_r ! (j + 32) = 4 \<and> md5_r ! (j + 33) = 11 \<and> md5_r ! (j + 34) = 16 \<and> md5_r ! (j + 35) = 23"
  "\<forall>j \<in> {0, 4, 8, 12}. md5_r ! (j + 48) = 6 \<and> md5_r ! (j + 49) = 10 \<and> md5_r ! (j + 50) = 15 \<and> md5_r ! (j + 51) = 21"
  by code_simp+

lemma passo1_ops:
  assumes "j \<in> {0, 4, 8, 12}"
  shows "passo1 w j s = md5_op w (j + 3) (md5_op w (j + 2) (md5_op w (j + 1) (md5_op w j s)))"
proof -
  obtain d0 d1 d2 d3 where s: "s = (d0, d1, d2, d3)" by (cases s)
  have j: "j + 3 < 16" using assms by auto
  show ?thesis using bspec [OF shifts(1) assms] j unfolding s passo1_def md5_op_def md5_line_def tables_eq rotate_eq Let_def
    by (simp add: F_md5_def add_ac)
qed

lemma index_mod:
  "(5 * (j + 16 + k) + 1) mod 16 = (5 * (j + k) + 1) mod (16 :: nat)"
  "(3 * (j + 32 + k) + 5) mod 16 = (3 * (j + k) + 5) mod (16 :: nat)"
  "7 * (j + 48 + k) mod 16 = 7 * (j + k) mod (16 :: nat)"
proof -
  have "5 * (j + 16 + k) + 1 = 5 * (j + k) + 1 + 5 * 16" "3 * (j + 32 + k) + 5 = 3 * (j + k) + 5 + 6 * 16"
    "7 * (j + 48 + k) = 7 * (j + k) + 21 * (16 :: nat)" by simp_all
  then show "(5 * (j + 16 + k) + 1) mod 16 = (5 * (j + k) + 1) mod (16 :: nat)"
    "(3 * (j + 32 + k) + 5) mod 16 = (3 * (j + k) + 5) mod (16 :: nat)"
    "7 * (j + 48 + k) mod 16 = 7 * (j + k) mod (16 :: nat)" by (simp_all only: mod_mult_self1)
qed

lemma pass_op:
  "j + k < 16 \<Longrightarrow> md5_op w (j + 16 + k) (a, b, c, d) = (d, md5_line a (G_md5 b c d) (w ! ((5 * (j + k) + 1) mod 16)) (md5_k ! (j + 16 + k)) (md5_r ! (j + 16 + k)) b, b, c)"
  "j + k < 16 \<Longrightarrow> md5_op w (j + 32 + k) (a, b, c, d) = (d, md5_line a (H_md5 b c d) (w ! ((3 * (j + k) + 5) mod 16)) (md5_k ! (j + 32 + k)) (md5_r ! (j + 32 + k)) b, b, c)"
  "j + k < 16 \<Longrightarrow> md5_op w (j + 48 + k) (a, b, c, d) = (d, md5_line a (I_md5 b c d) (w ! (7 * (j + k) mod 16)) (md5_k ! (j + 48 + k)) (md5_r ! (j + 48 + k)) b, b, c)"
proof -
  assume jk: "j + k < 16"
  show "md5_op w (j + 16 + k) (a, b, c, d) = (d, md5_line a (G_md5 b c d) (w ! ((5 * (j + k) + 1) mod 16)) (md5_k ! (j + 16 + k)) (md5_r ! (j + 16 + k)) b, b, c)"
    unfolding md5_op_def md5_line_def rotate_eq split Let_def index_mod
    using jk by (simp add: G_md5_def and.commute add_ac)
  show "md5_op w (j + 32 + k) (a, b, c, d) = (d, md5_line a (H_md5 b c d) (w ! ((3 * (j + k) + 5) mod 16)) (md5_k ! (j + 32 + k)) (md5_r ! (j + 32 + k)) b, b, c)"
    unfolding md5_op_def md5_line_def rotate_eq split Let_def index_mod
    using jk by (simp add: H_md5_def add_ac)
  show "md5_op w (j + 48 + k) (a, b, c, d) = (d, md5_line a (I_md5 b c d) (w ! (7 * (j + k) mod 16)) (md5_k ! (j + 48 + k)) (md5_r ! (j + 48 + k)) b, b, c)"
    unfolding md5_op_def md5_line_def rotate_eq split Let_def index_mod
    using jk by (simp add: I_md5_def add_ac)
qed

lemma passo2_ops:
  assumes "j \<in> {0, 4, 8, 12}"
  shows "passo2 w j s = md5_op w (j + 16 + 3) (md5_op w (j + 16 + 2) (md5_op w (j + 16 + 1) (md5_op w (j + 16 + 0) s)))"
proof -
  obtain d0 d1 d2 d3 where s: "s = (d0, d1, d2, d3)" by (cases s)
  have j: "j + 0 < 16" "j + 1 < 16" "j + 2 < 16" "j + 3 < 16" using assms by auto
  have n: "j + 16 + 1 = j + 17" "j + 16 + 2 = j + 18" "j + 16 + 3 = j + 19" by simp_all
  show ?thesis using bspec [OF shifts(2) assms] unfolding s passo2_def tables_eq split Let_def pass_op(1) [OF j(1)] pass_op(1) [OF j(2)]
      pass_op(1) [OF j(3)] pass_op(1) [OF j(4)]
    by (simp only: n add_0_right split)
qed

lemma passo3_ops:
  assumes "j \<in> {0, 4, 8, 12}"
  shows "passo3 w j s = md5_op w (j + 32 + 3) (md5_op w (j + 32 + 2) (md5_op w (j + 32 + 1) (md5_op w (j + 32 + 0) s)))"
proof -
  obtain d0 d1 d2 d3 where s: "s = (d0, d1, d2, d3)" by (cases s)
  have j: "j + 0 < 16" "j + 1 < 16" "j + 2 < 16" "j + 3 < 16" using assms by auto
  have n: "j + 32 + 1 = j + 33" "j + 32 + 2 = j + 34" "j + 32 + 3 = j + 35" by simp_all
  show ?thesis using bspec [OF shifts(3) assms] unfolding s passo3_def tables_eq split Let_def pass_op(2) [OF j(1)] pass_op(2) [OF j(2)]
      pass_op(2) [OF j(3)] pass_op(2) [OF j(4)]
    by (simp only: n add_0_right split)
qed

lemma passo4_ops:
  assumes "j \<in> {0, 4, 8, 12}"
  shows "passo4 w j s = md5_op w (j + 48 + 3) (md5_op w (j + 48 + 2) (md5_op w (j + 48 + 1) (md5_op w (j + 48 + 0) s)))"
proof -
  obtain d0 d1 d2 d3 where s: "s = (d0, d1, d2, d3)" by (cases s)
  have j: "j + 0 < 16" "j + 1 < 16" "j + 2 < 16" "j + 3 < 16" using assms by auto
  have n: "j + 48 + 1 = j + 49" "j + 48 + 2 = j + 50" "j + 48 + 3 = j + 51" by simp_all
  show ?thesis using bspec [OF shifts(4) assms] unfolding s passo4_def tables_eq split Let_def pass_op(3) [OF j(1)] pass_op(3) [OF j(2)]
      pass_op(3) [OF j(3)] pass_op(3) [OF j(4)]
    by (simp only: n add_0_right split)
qed

lemma digest_agree: "digest w inic_digest = digest_md5 w"
proof -
  have four: "fold f [0, 4, 8, 12] s = fold (md5_op w) [b..<b + 16] s"
    if "\<And>j s. j \<in> {0, 4, 8, 12} \<Longrightarrow> f j s = md5_op w (j + b + 3) (md5_op w (j + b + 2) (md5_op w (j + b + 1) (md5_op w (j + b + 0) s)))"
    for f b s
  proof -
    have "[b..<b + 16] = map (\<lambda>k. b + k) [0..<16]" by (simp add: map_add_upt add.commute)
    also have "[0..<16] = [0, 1, 2, 3, 4, 5, 6, 7, 8, 9, 10, 11, 12, 13, 14, 15 :: nat]" by code_simp
    finally show ?thesis using that by (simp add: add_ac)
  qed
  have p1: "fold (passo1 w) [0, 4, 8, 12] s = fold (md5_op w) [0..<16] s" for s
    using four [of "passo1 w" 0] passo1_ops by simp
  have p2: "fold (passo2 w) [0, 4, 8, 12] s = fold (md5_op w) [16..<32] s" for s
    using four [of "passo2 w" 16] passo2_ops by simp
  have p3: "fold (passo3 w) [0, 4, 8, 12] s = fold (md5_op w) [32..<48] s" for s
    using four [of "passo3 w" 32] passo3_ops by simp
  have p4: "fold (passo4 w) [0, 4, 8, 12] s = fold (md5_op w) [48..<64] s" for s
    using four [of "passo4 w" 48] passo4_ops by simp
  have "[0..<64] = [0..<16] @ [16..<32] @ [32..<48] @ [48..<64 :: nat]" by code_simp
  then show ?thesis unfolding digest_def digest_md5_def inic_digest_def p1 p2 p3 p4 Let_def by (simp only: fold_append comp_def)
qed

section \<open>Words of a message\<close>

definition words :: "bytes \<Rightarrow> u32 list" where
  "words b = map (\<lambda>i. word_at b (4 * i)) [0..<length b div 4]"

lemma bytestoword32_words: "length pt = 64 \<Longrightarrow> bytestoword32 pt = words pt"
proof -
  have "push_bit 8 (push_bit 8 (push_bit 8 (ucast d) OR ucast c) OR ucast b) OR ucast a
      = (ucast a OR push_bit 8 (ucast b) OR push_bit 16 (ucast c) OR push_bit 24 (ucast d) :: u32)" for a b c d :: u8
    by (simp add: or.commute or.left_commute)
  then show "length pt = 64 \<Longrightarrow> bytestoword32 pt = words pt"
    by (simp add: bytestoword32_def words_def word_at_def Let_def mult.commute)
qed

lemma words_append:
  assumes "length a = 4 * n"
  shows "words (a @ b) = words a @ words b"
proof (rule nth_equalityI)
  show "length (words (a @ b)) = length (words a @ words b)" using assms by (simp add: words_def)
next
  fix i assume "i < length (words (a @ b))"
  moreover have "word_at (a @ b) (4 * i) = word_at b (4 * (i - n))" if "n \<le> i"
  proof -
    have "(a @ b) ! (4 * i + k) = b ! (4 * (i - n) + k)" for k
    proof -
      have "\<not> 4 * i + k < length a" "4 * i + k - length a = 4 * (i - n) + k" using assms that by simp_all
      then show ?thesis by (simp only: nth_append if_False)
    qed
    from this [of 0] this [of 1] this [of 2] this [of 3] show ?thesis by (simp add: word_at_def)
  qed
  moreover have "word_at (a @ b) (4 * i) = word_at a (4 * i)" if "i < n"
    using that assms by (simp add: word_at_def nth_append)
  ultimately show "words (a @ b) ! i = (words a @ words b) ! i"
    using assms by (cases "i < n") (simp_all add: words_def nth_append)
qed

lemma words_8: "length x = 8 \<Longrightarrow> words x = [word_at x 0, word_at x 4]"
  by (simp add: words_def upt_rec)

lemma words_pad: "words (0x80 # replicate 15 0) = [0x80, 0, 0, 0]"
  by code_simp

lemma md5_48:
  assumes "length m = 48"
  shows "md5 m = word32tobytes (add_digest (digest_md5 (words m @ [0x80, 0, 384, 0])) inic_digest)"
proof -
  have "(m @ replicate 16 0)[48 := 0x80] = m @ (0x80 # replicate 15 (0 :: u8))"
    using assms by (simp add: list_update_append eval_nat_numeral)
  then have "bytestoword32 ((m @ replicate 16 0)[48 := 0x80]) = words m @ [0x80, 0, 0, 0]"
    using assms bytestoword32_words [of "m @ 0x80 # replicate 15 0"] words_append [of m 12 "0x80 # replicate 15 0"]
    by (simp add: words_pad)
  moreover have "put_length 48 (words m @ [0x80, 0, 0, 0]) = words m @ [0x80, 0, 384, 0]"
    using assms by (simp add: put_length_def words_def list_update_append push_bit_eq_mult drop_bit_eq_div)
  ultimately have "md5_loop 48 m 0 inic_digest = add_digest (digest (words m @ [0x80, 0, 384, 0]) inic_digest) inic_digest"
    using assms by (simp add: md5_loop.simps [of 48 m 0] converte_def Let_def md5_loop.simps [of _ _ 2])
  then show ?thesis using assms by (simp add: md5_def digest_agree)
qed

lemma put_le_xor_words: "map2 (XOR) (put_le a) (put_le b) = put_le (a XOR b)"
  by (rule nth_equalityI) (auto simp: put_le_def drop_bit_xor and.commute bit.conj_xor_distrib intro!: bit_word_eqI simp: bit_simps)

lemma lxor_str_same_length: "length s = length k \<Longrightarrow> k \<noteq> [] \<Longrightarrow> lxor_str s k = Inr (map2 (XOR) s k)"
  by (auto simp: lxor_str_def intro!: nth_equalityI)

lemma word32tobytes_le: "word32tobytes (a, b, c, d) = put_le a @ put_le b @ put_le c @ put_le d"
  by (simp add: word32tobytes_def put_le_def)

section \<open>Properties\<close>

text \<open>
  Property C35. What the comment on \<^verbatim>\<open>lhmac64_md5\<close> claims: for all arguments of eight bytes its result is
  the exclusive or of the two halves of the MD5 sum, computed by the MD5 library, of the arguments
  repeated three times.
\<close>

theorem hmac64_md5_is_md5:
  assumes "length a = 8" "length b = 8"
  shows "lhmac64_md5 a b = (let m = md5 (concat (replicate 3 (a @ b))) in lxor_str (take 8 m) (drop 8 m))"
proof -
  let ?x = "[word_at a 0, word_at a 4, word_at b 0, word_at b 4]"
  have "words (a @ b @ a @ b @ a @ b) = concat (replicate 3 ?x)"
    using assms by (simp add: words_append [of _ 2] words_8 eval_nat_numeral)
  then have m: "md5 (concat (replicate 3 (a @ b))) = word32tobytes (add_digest (digest_md5 (concat (replicate 3 ?x) @ [0x80, 0, 384, 0])) inic_digest)"
    using assms md5_48 [of "a @ b @ a @ b @ a @ b"] by (simp add: eval_nat_numeral)
  obtain r0 r1 r2 r3 where r: "digest_md5 (concat (replicate 3 ?x) @ [0x80, 0, 384, 0]) = (r0, r1, r2, r3)" by (metis surj_pair)
  have len: "length (put_le w) = 4" for w by (simp add: put_le_def)
  then have ne: "put_le w \<noteq> []" for w by (metis list.size(3) zero_neq_numeral)
  have "lhmac64_md5 a b = Inr (put_le ((r0 + 0x67452301) XOR (r2 + 0x98badcfe)) @ put_le ((r1 + 0xefcdab89) XOR (r3 + 0x10325476)))"
    using assms r by (simp add: lhmac64_md5_def read64_def hmac_md5_def pushqword_def)
  moreover have "md5 (concat (replicate 3 (a @ b))) = (put_le (r0 + 0x67452301) @ put_le (r1 + 0xefcdab89))
      @ (put_le (r2 + 0x98badcfe) @ put_le (r3 + 0x10325476))"
    unfolding m r by (simp add: add_digest_def inic_digest_def word32tobytes_le)
  ultimately show ?thesis by (simp add: Let_def lxor_str_same_length len ne put_le_xor_words)
qed

theorem hmac64_md5_is_md5_witness:
  "lhmac64_md5 [1, 2, 3, 4, 5, 6, 7, 8] [9, 8, 7, 6, 5, 4, 3, 2] =
    (let m = md5 (concat (replicate 3 ([1, 2, 3, 4, 5, 6, 7, 8] @ [9, 8, 7, 6, 5, 4, 3, 2]))) in lxor_str (take 8 m) (drop 8 m))"
  by (rule hmac64_md5_is_md5) simp_all

end
