(* ===== verification/Skiplist.thy ===== *)
theory Skiplist
  imports Cstring "HOL-Library.Product_Lexorder" "HOL-Library.List_Lexorder"
begin

text \<open>
  \<^verbatim>\<open>lualib-src/skiplist\<close>: the skip list with spans that keeps ranking lists, and its Lua functions.
  Nodes lie in a heap of addresses; reading a null pointer, a freed node or a level that a node
  does not have is \<open>None\<close>. A score is an element of a linear order (a \<^verbatim>\<open>double\<close> that is not NaN). The
  address of a new node and the values of \<^verbatim>\<open>random()\<close> are arguments. Spans are integers here; they
  stay between 0 and the length of the list (lemma \<open>span_range\<close>), as the \<^verbatim>\<open>unsigned int\<close> of the code for lists
  below \<open>2 ^ 32\<close> elements.
\<close>

section \<open>Nodes\<close>

record 's skiplistNode =
  n_obj :: "bytes option"
  n_score :: 's
  n_backward :: ptr
  n_level :: "(ptr \<times> int) list"   \<comment> \<open>\<^verbatim>\<open>forward\<close> and \<^verbatim>\<open>span\<close>\<close>

type_synonym 's sl_heap = "nat \<rightharpoonup> 's skiplistNode"

record 's skiplist =
  sl_heap :: "'s sl_heap"
  sl_header :: nat
  sl_tail :: ptr
  sl_length :: nat
  sl_level :: nat

definition SKIPLIST_MAXLEVEL :: nat where
  "SKIPLIST_MAXLEVEL = 32"

text \<open>What \<^verbatim>\<open>malloc\<close> leaves in the fields that \<^verbatim>\<open>slCreateNode\<close> does not set is the argument \<open>junk\<close>.\<close>

type_synonym junk = "ptr \<times> (nat \<Rightarrow> ptr \<times> int)"

definition slCreateNode :: "junk \<Rightarrow> nat \<Rightarrow> 's \<Rightarrow> bytes option \<Rightarrow> 's skiplistNode" where
  "slCreateNode junk level score obj =
     \<lparr>n_obj = obj, n_score = score, n_backward = fst junk, n_level = map (snd junk) [0..<level]\<rparr>"

definition slCreate :: "junk \<Rightarrow> nat \<Rightarrow> 's \<Rightarrow> 's skiplist" where
  "slCreate junk a zero = \<lparr>sl_heap = [a \<mapsto> (slCreateNode junk SKIPLIST_MAXLEVEL zero None)
       \<lparr>n_level := replicate SKIPLIST_MAXLEVEL (None, 0), n_backward := None\<rparr>],
     sl_header = a, sl_tail = None, sl_length = 0, sl_level = 1\<rparr>"

definition cell :: "'s sl_heap \<Rightarrow> nat \<Rightarrow> nat \<Rightarrow> (ptr \<times> int) option" where
  "cell h x i = do { n \<leftarrow> h x; array_get (n_level n) i }"

definition set_cell :: "nat \<Rightarrow> nat \<Rightarrow> ptr \<times> int \<Rightarrow> 's sl_heap \<Rightarrow> 's sl_heap option" where
  "set_cell x i c h = do { n \<leftarrow> h x; l \<leftarrow> array_set (n_level n) i c; Some (h(x \<mapsto> n\<lparr>n_level := l\<rparr>)) }"

definition set_backward :: "nat \<Rightarrow> ptr \<Rightarrow> 's sl_heap \<Rightarrow> 's sl_heap option" where
  "set_backward x p h = do { n \<leftarrow> h x; Some (h(x \<mapsto> n\<lparr>n_backward := p\<rparr>)) }"

text \<open>A \<^verbatim>\<open>for\<close> loop over the given indices.\<close>

fun for_each :: "(nat \<Rightarrow> 'h \<Rightarrow> 'h option) \<Rightarrow> nat list \<Rightarrow> 'h \<Rightarrow> 'h option" where
  "for_each f [] h = Some h"
| "for_each f (i # is) h = do { h \<leftarrow> f i h; for_each f is h }"

text \<open>\<^verbatim>\<open>(random() & 0xffff) < SKIPLIST_P * 0xffff\<close>: the bound is 16383.75.\<close>

partial_function (option) random_levels :: "(nat \<Rightarrow> u64) \<Rightarrow> nat \<Rightarrow> nat option" where
  "random_levels random level =
     (if random (level - 1) AND 0xffff \<le> 16383 then random_levels random (level + 1) else Some level)"

declare random_levels.simps [code]

definition slRandomLevel :: "(nat \<Rightarrow> u64) \<Rightarrow> nat option" where
  "slRandomLevel random = do {
     level \<leftarrow> random_levels random 1;
     Some (if level < SKIPLIST_MAXLEVEL then level else SKIPLIST_MAXLEVEL) }"

section \<open>Objects\<close>

fun memcmp :: "bytes \<Rightarrow> bytes \<Rightarrow> int" where
  "memcmp (x # xs) (y # ys) = (if x = y then memcmp xs ys else int (unat x) - int (unat y))"
| "memcmp _ _ = 0"

definition compareslObj :: "bytes \<Rightarrow> bytes \<Rightarrow> int" where
  "compareslObj a b =
     (let n = (if length a \<le> length b then length a else length b); cmp = memcmp (take n a) (take n b) in
      if cmp = 0 then sint (word_of_int (int (length a) - int (length b)) :: i32) else cmp)"

definition equalslObj :: "bytes \<Rightarrow> bytes \<Rightarrow> bool" where
  "equalslObj a b \<longleftrightarrow> compareslObj a b = 0"

section \<open>Searching\<close>

text \<open>
  The \<^verbatim>\<open>while\<close> loop on level \<open>i\<close> that all searches share, with the condition on the next node and its
  rank as argument, and the \<^verbatim>\<open>for\<close> loop over the levels that collects \<^verbatim>\<open>update\<close> and \<^verbatim>\<open>rank\<close>.
\<close>

partial_function (option) seek ::
  "('s skiplistNode \<Rightarrow> int \<Rightarrow> bool option) \<Rightarrow> 's sl_heap \<Rightarrow> nat \<Rightarrow> nat \<Rightarrow> int \<Rightarrow> (nat \<times> int) option" where
  "seek P h i x r = do {
     c \<leftarrow> cell h x i;
     (case fst c of
        None \<Rightarrow> Some (x, r)
      | Some y \<Rightarrow> do {
          n \<leftarrow> h y;
          go \<leftarrow> P n (r + snd c);
          if go then seek P h i y (r + snd c) else Some (x, r) }) }"

declare seek.simps [code]

fun descend ::
  "('s skiplistNode \<Rightarrow> int \<Rightarrow> bool option) \<Rightarrow> 's sl_heap \<Rightarrow> nat \<Rightarrow> nat \<times> int \<Rightarrow> ((nat \<times> int) \<times> (nat \<times> int) list) option" where
  "descend P h 0 x = Some (x, [])"
| "descend P h (Suc i) x = do {
     y \<leftarrow> seek P h i (fst x) (snd x);
     (z, us) \<leftarrow> descend P h i y;
     Some (z, us @ [y]) }"

definition key_before :: "'s :: linorder \<Rightarrow> bytes \<Rightarrow> 's skiplistNode \<Rightarrow> int \<Rightarrow> bool option" where
  "key_before score obj n r =
     (if n_score n < score then Some True
      else if n_score n = score then do { ob \<leftarrow> n_obj n; Some (compareslObj ob obj < 0) }
      else Some False)"

section \<open>Insertion\<close>

definition raise_step :: "nat \<Rightarrow> nat \<Rightarrow> nat \<Rightarrow> 's sl_heap \<Rightarrow> 's sl_heap option" where
  "raise_step header len i h = do { c \<leftarrow> cell h header i; set_cell header i (fst c, int len) h }"

definition link_step :: "nat \<Rightarrow> (nat \<times> int) list \<Rightarrow> nat \<Rightarrow> 's sl_heap \<Rightarrow> 's sl_heap option" where
  "link_step x us i h = do {
     u \<leftarrow> array_get us i; u0 \<leftarrow> array_get us 0;
     c \<leftarrow> cell h (fst u) i;
     h \<leftarrow> set_cell x i (fst c, snd c - (snd u0 - snd u)) h;
     set_cell (fst u) i (Some x, (snd u0 - snd u) + 1) h }"

definition grow_step :: "(nat \<times> int) list \<Rightarrow> nat \<Rightarrow> 's sl_heap \<Rightarrow> 's sl_heap option" where
  "grow_step us i h = do { u \<leftarrow> array_get us i; c \<leftarrow> cell h (fst u) i; set_cell (fst u) i (fst c, snd c + 1) h }"

definition slInsert :: "junk \<Rightarrow> (nat \<Rightarrow> u64) \<Rightarrow> nat \<Rightarrow> 's :: linorder \<Rightarrow> bytes \<Rightarrow> 's skiplist \<Rightarrow> 's skiplist option" where
  "slInsert junk random x score obj sl = do {
     (_, us) \<leftarrow> descend (key_before score obj) (sl_heap sl) (sl_level sl) (sl_header sl, 0);
     level \<leftarrow> slRandomLevel random;
     h \<leftarrow> for_each (raise_step (sl_header sl) (sl_length sl)) [sl_level sl..<level] (sl_heap sl);
     let us = us @ replicate (level - sl_level sl) (sl_header sl, 0);
     let levels = max level (sl_level sl);
     let h = h(x \<mapsto> slCreateNode junk level score (Some obj));
     h \<leftarrow> for_each (link_step x us) [0..<level] h;
     h \<leftarrow> for_each (grow_step us) [level..<levels] h;
     u0 \<leftarrow> array_get us 0;
     h \<leftarrow> set_backward x (if fst u0 = sl_header sl then None else Some (fst u0)) h;
     c \<leftarrow> cell h x 0;
     (h, tail) \<leftarrow> (case fst c of
        Some y \<Rightarrow> do { h \<leftarrow> set_backward y (Some x) h; Some (h, sl_tail sl) }
      | None \<Rightarrow> Some (h, Some x));
     Some (sl\<lparr>sl_heap := h, sl_tail := tail, sl_length := sl_length sl + 1, sl_level := levels\<rparr>) }"

section \<open>Deletion\<close>

definition unlink_step :: "nat \<Rightarrow> (nat \<times> int) list \<Rightarrow> nat \<Rightarrow> 's sl_heap \<Rightarrow> 's sl_heap option" where
  "unlink_step x us i h = do {
     u \<leftarrow> array_get us i;
     c \<leftarrow> cell h (fst u) i;
     if fst c = Some x then do {
       d \<leftarrow> cell h x i;
       set_cell (fst u) i (fst d, snd c + (snd d - 1)) h }
     else set_cell (fst u) i (fst c, snd c - 1) h }"

text \<open>The loop that drops empty levels.\<close>

fun lower_level :: "'s sl_heap \<Rightarrow> nat \<Rightarrow> nat \<Rightarrow> nat option" where
  "lower_level h header 0 = Some 0"
| "lower_level h header (Suc i) =
     (if Suc i > 1 then do {
        c \<leftarrow> cell h header i;
        if fst c = None then lower_level h header i else Some (Suc i) }
      else Some (Suc i))"

definition slDeleteNode :: "nat \<Rightarrow> (nat \<times> int) list \<Rightarrow> 's skiplist \<Rightarrow> 's skiplist option" where
  "slDeleteNode x us sl = do {
     h \<leftarrow> for_each (unlink_step x us) [0..<sl_level sl] (sl_heap sl);
     n \<leftarrow> h x;
     c \<leftarrow> cell h x 0;
     (h, tail) \<leftarrow> (case fst c of
        Some y \<Rightarrow> do { h \<leftarrow> set_backward y (n_backward n) h; Some (h, sl_tail sl) }
      | None \<Rightarrow> Some (h, n_backward n));
     level \<leftarrow> lower_level h (sl_header sl) (sl_level sl);
     Some (sl\<lparr>sl_heap := h, sl_tail := tail, sl_level := level, sl_length := sl_length sl - 1\<rparr>) }"

definition slFreeNode :: "nat \<Rightarrow> 's skiplist \<Rightarrow> 's skiplist" where
  "slFreeNode x sl = sl\<lparr>sl_heap := (sl_heap sl)(x := None)\<rparr>"

definition slDelete :: "'s :: linorder \<Rightarrow> bytes \<Rightarrow> 's skiplist \<Rightarrow> (bool \<times> 's skiplist) option" where
  "slDelete score obj sl = do {
     (x, us) \<leftarrow> descend (key_before score obj) (sl_heap sl) (sl_level sl) (sl_header sl, 0);
     c \<leftarrow> cell (sl_heap sl) (fst x) 0;
     (case fst c of
        None \<Rightarrow> Some (False, sl)
      | Some y \<Rightarrow> do {
          n \<leftarrow> sl_heap sl y;
          if score = n_score n then do {
            ob \<leftarrow> n_obj n;
            if equalslObj ob obj then do { sl \<leftarrow> slDeleteNode y us sl; Some (True, slFreeNode y sl) }
            else Some (False, sl) }
          else Some (False, sl) }) }"

text \<open>
  The loop of \<^verbatim>\<open>slDeleteByRank\<close>; the objects for which the callback is called are returned in order,
  and the callback does not touch the list.
\<close>

partial_function (option) delete_ranks ::
  "nat \<Rightarrow> (nat \<times> int) list \<Rightarrow> ptr \<Rightarrow> nat \<Rightarrow> 's skiplist \<Rightarrow> (bytes list \<times> 's skiplist) option" where
  "delete_ranks end us x traversed sl =
     (case x of
        None \<Rightarrow> Some ([], sl)
      | Some y \<Rightarrow>
          if traversed \<le> end then do {
            c \<leftarrow> cell (sl_heap sl) y 0;
            sl \<leftarrow> slDeleteNode y us sl;
            n \<leftarrow> sl_heap sl y;
            ob \<leftarrow> n_obj n;
            (obs, sl) \<leftarrow> delete_ranks end us (fst c) (traversed + 1) (slFreeNode y sl);
            Some (ob # obs, sl) }
          else Some ([], sl))"

declare delete_ranks.simps [code]

definition slDeleteByRank :: "nat \<Rightarrow> nat \<Rightarrow> 's skiplist \<Rightarrow> (bytes list \<times> 's skiplist) option" where
  "slDeleteByRank start end sl = do {
     (x, us) \<leftarrow> descend (\<lambda>n r. Some (r < int start)) (sl_heap sl) (sl_level sl) (sl_header sl, 0);
     c \<leftarrow> cell (sl_heap sl) (fst x) 0;
     delete_ranks end us (fst c) (nat (snd x) + 1) sl }"

section \<open>Queries\<close>

definition key_upto :: "'s :: linorder \<Rightarrow> bytes \<Rightarrow> 's skiplistNode \<Rightarrow> int \<Rightarrow> bool option" where
  "key_upto score obj n r =
     (if n_score n < score then Some True
      else if n_score n = score then do { ob \<leftarrow> n_obj n; Some (compareslObj ob obj \<le> 0) }
      else Some False)"

text \<open>The loop of \<^verbatim>\<open>slGetRank\<close> over the levels below \<open>i\<close>.\<close>

fun rank_loop :: "'s :: linorder \<Rightarrow> bytes \<Rightarrow> 's sl_heap \<Rightarrow> nat \<Rightarrow> nat \<times> int \<Rightarrow> int option" where
  "rank_loop score obj h 0 x = Some 0"
| "rank_loop score obj h (Suc i) x = do {
     y \<leftarrow> seek (key_upto score obj) h i (fst x) (snd x);
     n \<leftarrow> h (fst y);
     if (case n_obj n of Some ob \<Rightarrow> equalslObj ob obj | None \<Rightarrow> False) then Some (snd y)
     else rank_loop score obj h i y }"

definition slGetRank :: "'s :: linorder \<Rightarrow> bytes \<Rightarrow> 's skiplist \<Rightarrow> int option" where
  "slGetRank score obj sl = rank_loop score obj (sl_heap sl) (sl_level sl) (sl_header sl, 0)"

fun node_loop :: "int \<Rightarrow> 's sl_heap \<Rightarrow> nat \<Rightarrow> nat \<times> int \<Rightarrow> ptr option" where
  "node_loop rank h 0 x = Some None"
| "node_loop rank h (Suc i) x = do {
     y \<leftarrow> seek (\<lambda>n r. Some (r \<le> rank)) h i (fst x) (snd x);
     if snd y = rank then Some (Some (fst y)) else node_loop rank h i y }"

definition slGetNodeByRank :: "nat \<Rightarrow> 's skiplist \<Rightarrow> ptr option" where
  "slGetNodeByRank rank sl =
     (if rank = 0 \<or> rank > sl_length sl then Some None
      else node_loop (int rank) (sl_heap sl) (sl_level sl) (sl_header sl, 0))"

definition slIsInRange :: "'s :: linorder \<Rightarrow> 's \<Rightarrow> 's skiplist \<Rightarrow> bool option" where
  "slIsInRange mn mx sl =
     (if mn > mx then Some False
      else case sl_tail sl of
        None \<Rightarrow> Some False
      | Some t \<Rightarrow> do {
          n \<leftarrow> sl_heap sl t;
          if n_score n < mn then Some False
          else do {
            c \<leftarrow> cell (sl_heap sl) (sl_header sl) 0;
            (case fst c of
               None \<Rightarrow> Some False
             | Some y \<Rightarrow> do { n \<leftarrow> sl_heap sl y; Some (\<not> n_score n > mx) }) } })"

definition slFirstInRange :: "'s :: linorder \<Rightarrow> 's \<Rightarrow> 's skiplist \<Rightarrow> ptr option" where
  "slFirstInRange mn mx sl = do {
     ok \<leftarrow> slIsInRange mn mx sl;
     if \<not> ok then Some None
     else do {
       (x, _) \<leftarrow> descend (\<lambda>n r. Some (n_score n < mn)) (sl_heap sl) (sl_level sl) (sl_header sl, 0);
       c \<leftarrow> cell (sl_heap sl) (fst x) 0;
       Some (fst c) } }"

definition slLastInRange :: "'s :: linorder \<Rightarrow> 's \<Rightarrow> 's skiplist \<Rightarrow> ptr option" where
  "slLastInRange mn mx sl = do {
     ok \<leftarrow> slIsInRange mn mx sl;
     if \<not> ok then Some None
     else do {
       (x, _) \<leftarrow> descend (\<lambda>n r. Some (n_score n \<le> mx)) (sl_heap sl) (sl_level sl) (sl_header sl, 0);
       Some (Some (fst x)) } }"

text \<open>\<^verbatim>\<open>slFree\<close>: the nodes left in the heap afterwards, none of which belongs to the list.\<close>

partial_function (option) free_loop :: "'s sl_heap \<Rightarrow> ptr \<Rightarrow> 's sl_heap option" where
  "free_loop h x = (case x of
     None \<Rightarrow> Some h
   | Some y \<Rightarrow> do { c \<leftarrow> cell h y 0; free_loop (h(y := None)) (fst c) })"

declare free_loop.simps [code]

definition slFree :: "'s skiplist \<Rightarrow> 's sl_heap option" where
  "slFree sl = do {
     c \<leftarrow> cell (sl_heap sl) (sl_header sl) 0;
     free_loop ((sl_heap sl)(sl_header sl := None)) (fst c) }"

section \<open>The Lua functions\<close>

definition sl_delete_by_rank :: "u32 \<Rightarrow> u32 \<Rightarrow> 's skiplist \<Rightarrow> (bytes list \<times> 's skiplist) option" where
  "sl_delete_by_rank start end sl =
     (if start > end then slDeleteByRank (unat end) (unat start) sl else slDeleteByRank (unat start) (unat end) sl)"

definition sl_get_rank :: "'s :: linorder \<Rightarrow> bytes \<Rightarrow> 's skiplist \<Rightarrow> int option option" where
  "sl_get_rank score obj sl = do { rank \<leftarrow> slGetRank score obj sl; Some (if rank = 0 then None else Some rank) }"

text \<open>
  The loop of \<^verbatim>\<open>_get_rank_range\<close> for the given number of further elements; \<^verbatim>\<open>rangelen\<close> is an
  \<^verbatim>\<open>int\<close>, and a negative one gives no element.
\<close>

fun range_loop :: "'s sl_heap \<Rightarrow> bool \<Rightarrow> nat \<Rightarrow> ptr \<Rightarrow> bytes list option" where
  "range_loop h reverse 0 node = Some []"
| "range_loop h reverse (Suc k) node = (case node of
     None \<Rightarrow> Some []
   | Some y \<Rightarrow> do {
       n \<leftarrow> h y; ob \<leftarrow> n_obj n; c \<leftarrow> cell h y 0;
       obs \<leftarrow> range_loop h reverse k (if reverse then n_backward n else fst c);
       Some (ob # obs) })"

definition sl_get_rank_range :: "u64 \<Rightarrow> u64 \<Rightarrow> 's skiplist \<Rightarrow> bytes list option" where
  "sl_get_rank_range r1 r2 sl =
     (let reverse = (\<not> r1 \<le> r2);
          rangelen = (ucast (if r1 \<le> r2 then r2 - r1 + 1 else r1 - r2 + 1) :: i32) in do {
      node \<leftarrow> slGetNodeByRank (unat r1) sl;
      range_loop (sl_heap sl) reverse (nat (sint rangelen)) node })"

partial_function (option) score_loop :: "'s :: linorder sl_heap \<Rightarrow> bool \<Rightarrow> 's \<Rightarrow> ptr \<Rightarrow> bytes list option" where
  "score_loop h reverse s2 node = (case node of
     None \<Rightarrow> Some []
   | Some y \<Rightarrow> do {
       n \<leftarrow> h y;
       if (if reverse then n_score n < s2 else n_score n > s2) then Some []
       else do {
         ob \<leftarrow> n_obj n; c \<leftarrow> cell h y 0;
         obs \<leftarrow> score_loop h reverse s2 (if reverse then n_backward n else fst c);
         Some (ob # obs) } })"

declare score_loop.simps [code]

definition sl_get_score_range :: "'s :: linorder \<Rightarrow> 's \<Rightarrow> 's skiplist \<Rightarrow> bytes list option" where
  "sl_get_score_range s1 s2 sl =
     (if s1 \<le> s2 then do { node \<leftarrow> slFirstInRange s1 s2 sl; score_loop (sl_heap sl) False s2 node }
      else do { node \<leftarrow> slLastInRange s2 s1 sl; score_loop (sl_heap sl) True s2 node })"

section \<open>Links as distances\<close>

text \<open>
  The abstract list: the elements in order, with address, height and key. Position 0 is the header,
  position \<open>p + 1\<close> the element with index \<open>p\<close>.
\<close>

record 's elem =
  e_addr :: nat
  e_ht :: nat
  e_score :: 's
  e_obj :: bytes

definition gap :: "'s elem list \<Rightarrow> nat \<Rightarrow> nat \<Rightarrow> nat" where
  "gap es p i = length (takeWhile (\<lambda>e. e_ht e \<le> i) (drop p es))"

definition hop :: "'s elem list \<Rightarrow> nat \<Rightarrow> nat \<Rightarrow> ptr \<times> int" where
  "hop es p i = (let d = gap es p i in
     if p + d < length es then (Some (e_addr (es ! (p + d))), int d + 1) else (None, int d))"

lemma gap_le: "p \<le> length es \<Longrightarrow> p + gap es p i \<le> length es"
  using length_takeWhile_le [of _ "drop p es"] by (simp add: gap_def le_diff_conv2 add.commute)

lemma gap_low:
  assumes "p \<le> length es" "p \<le> k" "k < p + gap es p i"
  shows "e_ht (es ! k) \<le> i"
proof -
  let ?t = "takeWhile (\<lambda>e. e_ht e \<le> i) (drop p es)"
  have k: "k - p < length ?t" using assms by (simp add: gap_def)
  then have "e_ht (?t ! (k - p)) \<le> i" by (metis nth_mem set_takeWhileD)
  then show ?thesis using k assms by (simp add: takeWhile_nth)
qed

lemma gap_high:
  assumes "p \<le> length es" "p + gap es p i < length es"
  shows "i < e_ht (es ! (p + gap es p i))"
proof -
  have "length (takeWhile (\<lambda>e. e_ht e \<le> i) (drop p es)) < length (drop p es)" using assms by (simp add: gap_def)
  from nth_length_takeWhile [OF this] show ?thesis using assms by (simp add: gap_def not_le)
qed

lemma gap_eqI:
  assumes "p + d \<le> length es" "\<And>k. p \<le> k \<Longrightarrow> k < p + d \<Longrightarrow> e_ht (es ! k) \<le> i"
    "p + d < length es \<Longrightarrow> i < e_ht (es ! (p + d))"
  shows "gap es p i = d"
proof (rule linorder_cases [of "gap es p i" d])
  assume "gap es p i < d"
  then show ?thesis using gap_high [of p es i] assms(1) assms(2) [of "p + gap es p i"] by simp
next
  assume "d < gap es p i"
  then show ?thesis using gap_le [of p es i] gap_low [of p es "p + d" i] assms(1,3) by simp
qed

lemma link_some: "p + d < length es \<Longrightarrow> gap es p i = d \<Longrightarrow> hop es p i = (Some (e_addr (es ! (p + d))), int d + 1)"
  by (simp add: hop_def)

lemma link_none: "p + d = length es \<Longrightarrow> gap es p i = d \<Longrightarrow> hop es p i = (None, int d)"
  by (simp add: hop_def)

text \<open>Inserting an element, and what it does to the links.\<close>

definition ins :: "nat \<Rightarrow> 's elem \<Rightarrow> 's elem list \<Rightarrow> 's elem list" where
  "ins c e es = take c es @ e # drop c es"

lemma length_ins [simp]: "c \<le> length es \<Longrightarrow> length (ins c e es) = Suc (length es)"
  by (simp add: ins_def)

lemma ins_nth:
  assumes "c \<le> length es"
  shows "k < c \<Longrightarrow> ins c e es ! k = es ! k" "ins c e es ! c = e" "c < k \<Longrightarrow> k \<le> length es \<Longrightarrow> ins c e es ! k = es ! (k - 1)"
  using assms by (auto simp: ins_def nth_append min_def nth_Cons')

lemma set_ins: "set (ins c e es) = insert e (set es)"
  by (metis append_take_drop_id ins_def list.simps(15) set_append Un_insert_right)

lemma link_ins_before:
  assumes "c \<le> length es" "p < u" "u \<le> c" "i < e_ht (es ! (u - 1))"
  shows "hop (ins c e es) p i = hop es p i"
proof -
  have p: "p \<le> length es" using assms by simp
  let ?d = "gap es p i"
  have lt: "p + ?d < u"
  proof (rule ccontr)
    assume "\<not> p + ?d < u"
    then have "p \<le> u - 1" "u - 1 < p + ?d" using assms(2) by linarith+
    then show False using gap_low [OF p] assms(4) not_le by blast
  qed
  have "gap (ins c e es) p i = ?d"
  proof (rule gap_eqI)
    show "e_ht (ins c e es ! k) \<le> i" if "p \<le> k" "k < p + ?d" for k
      using that lt assms gap_low [OF p that] by (simp add: ins_nth)
  qed (use lt assms gap_high [OF p, of i] in \<open>simp_all add: ins_nth\<close>)
  then show ?thesis using lt assms by (simp add: hop_def ins_nth)
qed

lemma link_ins_at:
  assumes "c \<le> length es" "u \<le> c" "\<And>k. u \<le> k \<Longrightarrow> k < c \<Longrightarrow> e_ht (es ! k) \<le> i"
  shows "hop (ins c e es) u i =
    (if i < e_ht e then (Some (e_addr e), int c - int u + 1) else (fst (hop es u i), snd (hop es u i) + 1))"
proof (cases "i < e_ht e")
  case True
  have "gap (ins c e es) u i = c - u"
    by (rule gap_eqI) (use True assms in \<open>auto simp: ins_nth\<close>)
  then show ?thesis using True assms by (simp add: hop_def ins_nth)
next
  case False
  have p: "u \<le> length es" using assms by simp
  let ?d = "gap es u i"
  have ge: "c \<le> u + ?d"
  proof (rule ccontr)
    assume "\<not> c \<le> u + ?d"
    then show False using gap_high [OF p, of i] assms(1) assms(3) [of "u + ?d"] by simp
  qed
  have "gap (ins c e es) u i = Suc ?d"
  proof (rule gap_eqI)
    show "e_ht (ins c e es ! k) \<le> i" if k: "u \<le> k" "k < u + Suc ?d" for k
    proof (cases k c rule: linorder_cases)
      case greater
      then show ?thesis using k assms(2) gap_low [OF p, of "k - 1" i] gap_le [OF p, of i] by (simp add: ins_nth assms(1))
    qed (use k False assms in \<open>simp_all add: ins_nth\<close>)
  qed (use False assms gap_le [OF p, of i] gap_high [OF p, of i] ge in \<open>simp_all add: ins_nth\<close>)
  then show ?thesis using False ge assms gap_le [OF p, of i] by (auto simp: hop_def Let_def ins_nth)
qed

lemma gap_skip:
  assumes "c \<le> length es" "u \<le> c" "\<And>k. u \<le> k \<Longrightarrow> k < c \<Longrightarrow> e_ht (es ! k) \<le> i"
  shows "gap es u i = (c - u) + gap es c i"
proof (rule gap_eqI)
  show "e_ht (es ! k) \<le> i" if "u \<le> k" "k < u + (c - u + gap es c i)" for k
    using that assms gap_low [OF assms(1), of k i] by (cases "k < c") simp_all
qed (use assms gap_le [OF assms(1), of i] gap_high [OF assms(1), of i] in simp_all)

lemma gap_ins_after:
  assumes "c \<le> length es" "c < p"
  shows "gap (ins c e es) p i = gap es (p - 1) i"
proof -
  have "drop p (ins c e es) = drop (p - 1) es"
    using assms by (cases p) (simp_all add: ins_def drop_append Suc_diff_le)
  then show ?thesis by (simp add: gap_def)
qed

lemma link_ins_after:
  assumes "c \<le> length es" "c < p" "p \<le> Suc (length es)"
  shows "hop (ins c e es) p i = hop es (p - 1) i"
proof (cases p)
  case (Suc q)
  then show ?thesis using assms by (auto simp: hop_def Let_def ins_nth gap_ins_after)
qed (use assms in simp)

lemma link_ins_new:
  assumes "c \<le> length es" "u \<le> c" "\<And>k. u \<le> k \<Longrightarrow> k < c \<Longrightarrow> e_ht (es ! k) \<le> i"
  shows "hop (ins c e es) (Suc c) i = (fst (hop es u i), snd (hop es u i) - (int c - int u))"
  unfolding link_ins_after [OF assms(1) lessI Suc_le_mono [THEN iffD2, OF assms(1)]]
  using gap_skip [OF assms] assms(1,2) by (simp add: hop_def Let_def)

section \<open>What the heap holds\<close>

definition meta :: "'s sl_heap \<Rightarrow> nat \<Rightarrow> (bytes option \<times> 's \<times> ptr \<times> nat) option" where
  "meta h x = map_option (\<lambda>n. (n_obj n, n_score n, n_backward n, length (n_level n))) (h x)"

lemma meta_dom: "meta h x = None \<longleftrightarrow> h x = None"
  by (simp add: meta_def)

lemma meta_node: "meta h x = Some (ob, s, b, k) \<Longrightarrow> \<exists>n. h x = Some n \<and> n_obj n = ob \<and> n_score n = s \<and> n_backward n = b \<and> length (n_level n) = k"
  by (auto simp: meta_def)

lemma cell_defined: "cell h x i \<noteq> None \<longleftrightarrow> (\<exists>ob s b k. meta h x = Some (ob, s, b, k) \<and> i < k)"
  by (cases "h x") (auto simp: cell_def meta_def array_get_def)

lemma set_cell_ok:
  assumes "cell h x i \<noteq> None"
  shows "\<exists>h'. set_cell x i c h = Some h' \<and> meta h' = meta h \<and>
    (\<forall>y j. cell h' y j = (if y = x \<and> j = i then Some c else cell h y j))"
proof -
  obtain n where n: "h x = Some n" "i < length (n_level n)"
    using assms by (cases "h x") (auto simp: cell_def array_get_def split: if_splits)
  let ?h = "h(x \<mapsto> n\<lparr>n_level := (n_level n)[i := c]\<rparr>)"
  have "set_cell x i c h = Some ?h" using n by (simp add: set_cell_def array_set_Some)
  moreover have "meta ?h = meta h" using n by (auto simp: meta_def)
  moreover have "\<forall>y j. cell ?h y j = (if y = x \<and> j = i then Some c else cell h y j)"
    using n by (auto simp: cell_def array_get_def)
  ultimately show ?thesis by blast
qed

definition with_backward :: "ptr \<Rightarrow> bytes option \<times> 's \<times> ptr \<times> nat \<Rightarrow> bytes option \<times> 's \<times> ptr \<times> nat" where
  "with_backward p = (\<lambda>(ob, s, b, k). (ob, s, p, k))"

lemma set_backward_ok:
  assumes "meta h x = Some m"
  shows "\<exists>h'. set_backward x p h = Some h' \<and> cell h' = cell h \<and> meta h' = (meta h)(x \<mapsto> with_backward p m)"
proof -
  obtain n where n: "h x = Some n" "m = (n_obj n, n_score n, n_backward n, length (n_level n))" using assms by (auto simp: meta_def)
  let ?h = "h(x \<mapsto> n\<lparr>n_backward := p\<rparr>)"
  have "set_backward x p h = Some ?h" using n by (simp add: set_backward_def)
  moreover have "cell ?h = cell h" using n by (intro ext) (simp add: cell_def)
  moreover have "meta ?h = (meta h)(x \<mapsto> with_backward p m)" using n by (intro ext) (simp add: meta_def with_backward_def)
  ultimately show ?thesis by blast
qed

section \<open>The invariant\<close>

definition pos_addr :: "nat \<Rightarrow> 's elem list \<Rightarrow> nat \<Rightarrow> nat" where
  "pos_addr hdr es p = (if p = 0 then hdr else e_addr (es ! (p - 1)))"

definition pos_ht :: "nat \<Rightarrow> 's elem list \<Rightarrow> nat \<Rightarrow> nat" where
  "pos_ht lv es p = (if p = 0 then lv else e_ht (es ! (p - 1)))"

definition node_meta :: "nat \<Rightarrow> 's elem list \<Rightarrow> nat \<Rightarrow> bytes option \<times> 's \<times> ptr \<times> nat" where
  "node_meta hdr es k = (let e = es ! k in
     (Some (e_obj e), e_score e, if k = 0 then None else Some (e_addr (es ! (k - 1))), e_ht e))"

definition shape :: "'s sl_heap \<Rightarrow> nat \<Rightarrow> nat \<Rightarrow> 's elem list \<Rightarrow> bool" where
  "shape h hdr lv es \<longleftrightarrow> distinct (hdr # map e_addr es) \<and> (\<forall>e \<in> set es. 1 \<le> e_ht e \<and> e_ht e \<le> lv)
     \<and> 1 \<le> lv \<and> lv \<le> SKIPLIST_MAXLEVEL
     \<and> (\<forall>y. meta h y \<noteq> None \<longleftrightarrow> y \<in> set (hdr # map e_addr es))
     \<and> (\<exists>s0. meta h hdr = Some (None, s0, None, SKIPLIST_MAXLEVEL))
     \<and> (\<forall>k < length es. meta h (e_addr (es ! k)) = Some (node_meta hdr es k))
     \<and> (\<forall>p i. p \<le> length es \<longrightarrow> i < pos_ht lv es p \<longrightarrow> cell h (pos_addr hdr es p) i = Some (hop es p i))
     \<and> (\<forall>i. lv \<le> i \<longrightarrow> i < SKIPLIST_MAXLEVEL \<longrightarrow> (\<exists>s. cell h hdr i = Some (None, s)))"

lemma shape_cell: "shape h hdr lv es \<Longrightarrow> p \<le> length es \<Longrightarrow> i < pos_ht lv es p \<Longrightarrow> cell h (pos_addr hdr es p) i = Some (hop es p i)"
  by (simp add: shape_def)

lemma shape_node:
  assumes "shape h hdr lv es" "k < length es"
  shows "\<exists>n. h (e_addr (es ! k)) = Some n \<and> n_obj n = Some (e_obj (es ! k)) \<and> n_score n = e_score (es ! k)
    \<and> n_backward n = (if k = 0 then None else Some (e_addr (es ! (k - 1)))) \<and> length (n_level n) = e_ht (es ! k)"
proof -
  have "meta h (e_addr (es ! k)) = Some (Some (e_obj (es ! k)), e_score (es ! k),
      if k = 0 then None else Some (e_addr (es ! (k - 1))), e_ht (es ! k))"
    using assms by (simp add: shape_def node_meta_def Let_def)
  then show ?thesis by (rule meta_node)
qed

lemma shape_ht: "shape h hdr lv es \<Longrightarrow> p \<le> length es \<Longrightarrow> 0 < pos_ht lv es p \<and> pos_ht lv es p \<le> lv"
  by (auto simp: shape_def pos_ht_def) (metis One_nat_def Suc_diff_1 Suc_le_lessD nth_mem)+

lemma span_range: "p \<le> length es \<Longrightarrow> 0 \<le> snd (hop es p i) \<and> snd (hop es p i) \<le> int (length es)"
  using gap_le [of p es i] by (auto simp: hop_def Let_def)

section \<open>Searching\<close>

text \<open>
  What a search that stops behind position \<open>c\<close> finds on level \<open>i\<close>: the last position up to \<open>c\<close> that
  has this level.
\<close>

definition stop_at :: "'s elem list \<Rightarrow> nat \<Rightarrow> nat \<Rightarrow> nat \<Rightarrow> bool" where
  "stop_at es c i q \<longleftrightarrow> q \<le> c \<and> (q = 0 \<or> i < e_ht (es ! (q - 1))) \<and> (\<forall>k. q \<le> k \<longrightarrow> k < c \<longrightarrow> e_ht (es ! k) \<le> i)"

text \<open>
  The condition of a search accepts exactly the positions up to \<open>c\<close>; every search of the code does
  so because the list is sorted.
\<close>

definition search_to :: "('s skiplistNode \<Rightarrow> int \<Rightarrow> bool option) \<Rightarrow> 's sl_heap \<Rightarrow> nat \<Rightarrow> nat \<Rightarrow> 's elem list \<Rightarrow> nat \<Rightarrow> bool" where
  "search_to P h hdr lv es c \<longleftrightarrow> shape h hdr lv es \<and> c \<le> length es
     \<and> (\<forall>q n. q < length es \<longrightarrow> h (e_addr (es ! q)) = Some n \<longrightarrow> P n (int q + 1) = Some (q < c))"

lemma seek_stops:
  assumes search: "search_to P h hdr lv es c" and "p \<le> c" "i < pos_ht lv es p"
  shows "\<exists>q. seek P h i (pos_addr hdr es p) (int p) = Some (pos_addr hdr es q, int q) \<and> p \<le> q \<and> i < pos_ht lv es q \<and> stop_at es c i q"
  using assms(2,3)
proof (induction "c - p" arbitrary: p rule: less_induct)
  case less
  have shape: "shape h hdr lv es" and bound: "c \<le> length es"
    and accept: "\<And>q n. q < length es \<Longrightarrow> h (e_addr (es ! q)) = Some n \<Longrightarrow> P n (int q + 1) = Some (q < c)"
    using search by (auto simp: search_to_def)
  have pn: "p \<le> length es" using less.prems bound by simp
  note cell = shape_cell [OF shape pn less.prems(2)]
  let ?d = "gap es p i"
  have here: "stop_at es c i p" if "c \<le> p + ?d"
    using that less.prems gap_low [OF pn, of _ i] by (auto simp: stop_at_def pos_ht_def split: if_splits)
  show ?case
  proof (cases "p + ?d < length es")
    case False
    then have "hop es p i = (None, int ?d)" by (simp add: hop_def Let_def)
    then have "seek P h i (pos_addr hdr es p) (int p) = Some (pos_addr hdr es p, int p)"
      using cell by (subst seek.simps) simp
    then show ?thesis using here False bound less.prems by auto
  next
    case True
    let ?q = "Suc (p + ?d)"
    have hop: "hop es p i = (Some (e_addr (es ! (p + ?d))), int ?d + 1)" using True by (simp add: hop_def Let_def)
    obtain n where n: "h (e_addr (es ! (p + ?d))) = Some n" using shape_node [OF shape True] by blast
    have go: "P n (int p + (int ?d + 1)) = Some (p + ?d < c)" using accept [OF True n] by (simp add: add.assoc)
    have ht: "i < pos_ht lv es ?q" using gap_high [OF pn True] by (simp add: pos_ht_def)
    have addr: "e_addr (es ! (p + ?d)) = pos_addr hdr es ?q" by (simp add: pos_addr_def)
    show ?thesis
    proof (cases "p + ?d < c")
      case True
      then have "seek P h i (pos_addr hdr es p) (int p) = seek P h i (pos_addr hdr es ?q) (int ?q)"
        using cell hop n go addr by (subst seek.simps) (simp add: algebra_simps)
      moreover have "c - ?q < c - p" "?q \<le> c" using True by linarith+
      from less.hyps [OF this ht] obtain q where "seek P h i (pos_addr hdr es ?q) (int ?q) = Some (pos_addr hdr es q, int q)" "?q \<le> q"
          "i < pos_ht lv es q" "stop_at es c i q" by blast
      ultimately show ?thesis by auto
    next
      case False
      then have "seek P h i (pos_addr hdr es p) (int p) = Some (pos_addr hdr es p, int p)"
        using cell hop n go by (subst seek.simps) simp
      then show ?thesis using here False less.prems by auto
    qed
  qed
qed

lemma descend_stops:
  assumes search: "search_to P h hdr lv es c" and "p \<le> c" "m \<le> pos_ht lv es p"
  shows "\<exists>z us. descend P h m (pos_addr hdr es p, int p) = Some (z, us) \<and> length us = m
    \<and> (\<forall>i < m. \<exists>q. us ! i = (pos_addr hdr es q, int q) \<and> i < pos_ht lv es q \<and> stop_at es c i q)
    \<and> z = (if m = 0 then (pos_addr hdr es p, int p) else us ! 0)"
  using assms(2,3)
proof (induction m arbitrary: p)
  case (Suc m)
  obtain q where q: "seek P h m (pos_addr hdr es p) (int p) = Some (pos_addr hdr es q, int q)" "m < pos_ht lv es q" "stop_at es c m q"
    using seek_stops [OF search, of p m] Suc.prems by auto
  then have "q \<le> c" by (simp add: stop_at_def)
  with Suc.IH [of q] q(2) obtain z us where us: "descend P h m (pos_addr hdr es q, int q) = Some (z, us)" "length us = m"
    "\<forall>i < m. \<exists>q. us ! i = (pos_addr hdr es q, int q) \<and> i < pos_ht lv es q \<and> stop_at es c i q"
    "z = (if m = 0 then (pos_addr hdr es q, int q) else us ! 0)" by auto
  have "\<forall>i < Suc m. \<exists>q. (us @ [(pos_addr hdr es q', int q')]) ! i = (pos_addr hdr es q, int q) \<and> i < pos_ht lv es q \<and> stop_at es c i q"
    if "q' = q" for q' using us(2,3) q(2,3) that by (auto simp: nth_append less_Suc_eq)
  then show ?case using q(1) us by (auto simp: nth_append)
qed simp

lemma stop_at_0:
  assumes "shape h hdr lv es" "c \<le> length es" "stop_at es c 0 q"
  shows "q = c"
proof (rule ccontr)
  assume "q \<noteq> c"
  then have "q < length es" "e_ht (es ! q) \<le> 0" using assms(2,3) by (auto simp: stop_at_def)
  moreover from this have "1 \<le> e_ht (es ! q)" using assms(1) nth_mem unfolding shape_def by blast
  ultimately show False by simp
qed

lemma search_stops:
  assumes search: "search_to P h hdr lv es c"
  shows "\<exists>us. descend P h lv (hdr, 0) = Some ((pos_addr hdr es c, int c), us) \<and> length us = lv
    \<and> (\<forall>i < lv. \<exists>q. us ! i = (pos_addr hdr es q, int q) \<and> i < pos_ht lv es q \<and> stop_at es c i q)
    \<and> us ! 0 = (pos_addr hdr es c, int c)"
proof -
  have shape: "shape h hdr lv es" and bound: "c \<le> length es" using search by (auto simp: search_to_def)
  then have lv: "0 < lv" by (simp add: shape_def)
  obtain z us where us: "descend P h lv (hdr, 0) = Some (z, us)" "length us = lv"
    "\<forall>i < lv. \<exists>q. us ! i = (pos_addr hdr es q, int q) \<and> i < pos_ht lv es q \<and> stop_at es c i q" "z = us ! 0"
    using descend_stops [OF search, of 0 lv] lv by (auto simp: pos_addr_def pos_ht_def)
  obtain q where q: "us ! 0 = (pos_addr hdr es q, int q)" "stop_at es c 0 q" using us(3) lv by blast
  have "q = c" by (rule stop_at_0 [OF shape bound q(2)])
  then show ?thesis using us q by auto
qed

section \<open>Keys\<close>

lemma memcmp_lex:
  "length xs = length ys \<Longrightarrow> (memcmp xs ys < 0 \<longleftrightarrow> xs < ys) \<and> (memcmp xs ys = 0 \<longleftrightarrow> xs = ys)"
  by (induction xs ys rule: list_induct2) (auto simp: word_less_def word_uint_eq_iff)

lemma lex_take:
  fixes a b :: "'a :: linorder list"
  shows "n \<le> length a \<Longrightarrow> n \<le> length b \<Longrightarrow> take n a \<noteq> take n b \<Longrightarrow> a < b \<longleftrightarrow> take n a < take n b"
proof (induction n arbitrary: a b)
  case (Suc n)
  obtain x xs where a: "a = x # xs" using Suc.prems(1) by (cases a) auto
  obtain y ys where b: "b = y # ys" using Suc.prems(2) by (cases b) auto
  have "x = y \<Longrightarrow> xs < ys \<longleftrightarrow> take n xs < take n ys" using Suc.IH [of xs ys] Suc.prems by (simp add: a b)
  then show ?case unfolding a b take_Suc_Cons Cons_less_Cons by blast
qed simp

lemma lex_append: "a < a @ c \<longleftrightarrow> c \<noteq> []" for a c :: "'a :: linorder list"
proof (induction a)
  case Nil
  then show ?case by (cases c) simp_all
qed simp

lemma lex_prefix: "length a \<le> length b \<Longrightarrow> take (length a) b = a \<Longrightarrow> a < b \<longleftrightarrow> length a < length b" for a b :: "'a :: linorder list"
proof -
  assume "length a \<le> length b" "take (length a) b = a"
  then obtain c where "b = a @ c" by (metis append_take_drop_id)
  then show ?thesis by (simp add: lex_append)
qed

lemma compareslObj_lex:
  assumes "length a < 2 ^ 31" "length b < 2 ^ 31"
  shows "compareslObj a b < 0 \<longleftrightarrow> a < b" "compareslObj a b = 0 \<longleftrightarrow> a = b"
proof -
  define n where "n = (if length a \<le> length b then length a else length b)"
  have n: "n \<le> length a" "n \<le> length b" by (auto simp: n_def)
  have m: "memcmp (take n a) (take n b) < 0 \<longleftrightarrow> take n a < take n b" "memcmp (take n a) (take n b) = 0 \<longleftrightarrow> take n a = take n b"
    using memcmp_lex [of "take n a" "take n b"] n by simp_all
  have signed: "sint (word_of_int k :: i32) = k" if "- (2 ^ 31) \<le> k" "k < 2 ^ 31" for k
    using that by (simp add: signed_of_int signed_take_bit_int_eq_self)
  have diff: "sint (word_of_int (int (length a) - int (length b)) :: i32) = int (length a) - int (length b)"
    by (rule signed) (use assms in simp_all)
  have c: "compareslObj a b = (if take n a = take n b then int (length a) - int (length b) else memcmp (take n a) (take n b))"
    unfolding compareslObj_def Let_def n_def [symmetric] m(2) diff by simp
  have same: "take n a = take n b \<Longrightarrow> a < b \<longleftrightarrow> length a < length b"
  proof (cases "length a \<le> length b")
    case True
    then show "take n a = take n b \<Longrightarrow> a < b \<longleftrightarrow> length a < length b" using lex_prefix [of a b] by (simp add: n_def)
  next
    case False
    then show "take n a = take n b \<Longrightarrow> a < b \<longleftrightarrow> length a < length b" using lex_prefix [of b a] by (auto simp: n_def)
  qed
  show "compareslObj a b < 0 \<longleftrightarrow> a < b"
    using same lex_take [OF n] m(1) by (auto simp: c)
  show "compareslObj a b = 0 \<longleftrightarrow> a = b"
    using m(2) by (auto simp: c n_def split: if_splits)
qed

definition e_key :: "'s elem \<Rightarrow> 's \<times> bytes" where
  "e_key e = (e_score e, e_obj e)"

definition skiplist_inv :: "'s :: linorder skiplist \<Rightarrow> 's elem list \<Rightarrow> bool" where
  "skiplist_inv sl es \<longleftrightarrow> shape (sl_heap sl) (sl_header sl) (sl_level sl) es \<and> sl_length sl = length es
     \<and> sl_tail sl = (if es = [] then None else Some (e_addr (last es)))
     \<and> sorted (map e_key es) \<and> (\<forall>e \<in> set es. length (e_obj e) < 2 ^ 31)"

text \<open>A condition that holds for an initial part of the list.\<close>

lemma cut_iff:
  assumes "\<And>i j. i \<le> j \<Longrightarrow> j < length es \<Longrightarrow> Q (es ! j) \<Longrightarrow> Q (es ! i)" "q < length es"
  shows "Q (es ! q) \<longleftrightarrow> q < length (takeWhile Q es)"
proof
  assume "Q (es ! q)"
  show "q < length (takeWhile Q es)"
  proof (rule ccontr)
    assume n: "\<not> q < length (takeWhile Q es)"
    then have "\<not> Q (es ! length (takeWhile Q es))" using assms(2) by (intro nth_length_takeWhile) simp
    then show False using assms(1) [of "length (takeWhile Q es)" q] n assms(2) \<open>Q (es ! q)\<close> by simp
  qed
next
  assume "q < length (takeWhile Q es)"
  then show "Q (es ! q)" by (metis nth_mem set_takeWhileD takeWhile_nth)
qed

lemma sorted_cut:
  assumes "sorted (map e_key es)" "q < length es"
  shows "e_key (es ! q) < k \<longleftrightarrow> q < length (takeWhile (\<lambda>e. e_key e < k) es)"
    "e_key (es ! q) \<le> k \<longleftrightarrow> q < length (takeWhile (\<lambda>e. e_key e \<le> k) es)"
proof -
  have mono: "e_key (es ! i) \<le> e_key (es ! j)" if "i \<le> j" "j < length es" for i j
    using sorted_nth_mono [OF assms(1), of i j] that by simp
  show "e_key (es ! q) < k \<longleftrightarrow> q < length (takeWhile (\<lambda>e. e_key e < k) es)"
    by (rule cut_iff [OF _ assms(2)]) (use mono in \<open>auto intro: le_less_trans\<close>)
  show "e_key (es ! q) \<le> k \<longleftrightarrow> q < length (takeWhile (\<lambda>e. e_key e \<le> k) es)"
    by (rule cut_iff [OF _ assms(2)]) (use mono in \<open>auto intro: order_trans\<close>)
qed

definition cut_before :: "'s :: linorder elem list \<Rightarrow> 's \<times> bytes \<Rightarrow> nat" where
  "cut_before es k = length (takeWhile (\<lambda>e. e_key e < k) es)"

lemma cut_before_le: "cut_before es k \<le> length es"
  by (simp add: cut_before_def length_takeWhile_le)

lemma key_before_search:
  assumes "skiplist_inv sl es" "length obj < 2 ^ 31"
  shows "search_to (key_before score obj) (sl_heap sl) (sl_header sl) (sl_level sl) es (cut_before es (score, obj))"
proof -
  have sh: "shape (sl_heap sl) (sl_header sl) (sl_level sl) es" using assms(1) by (simp add: skiplist_inv_def)
  have "key_before score obj n (int q + 1) = Some (q < cut_before es (score, obj))"
    if q: "q < length es" "sl_heap sl (e_addr (es ! q)) = Some n" for q n
  proof -
    have n: "n_obj n = Some (e_obj (es ! q))" "n_score n = e_score (es ! q)" using shape_node [OF sh q(1)] q(2) by auto
    have "length (e_obj (es ! q)) < 2 ^ 31" using assms(1) q(1) by (simp add: skiplist_inv_def)
    then have "key_before score obj n (int q + 1) = Some (e_key (es ! q) < (score, obj))"
      using assms(2) n by (auto simp: key_before_def e_key_def compareslObj_lex less_prod_def)
    then show ?thesis
      using sorted_cut(1) [of es q "(score, obj)"] assms(1) q(1) by (simp add: skiplist_inv_def cut_before_def)
  qed
  then show ?thesis using sh cut_before_le by (simp add: search_to_def)
qed

section \<open>Insertion keeps the invariant\<close>

lemma for_each_range:
  assumes "a \<le> b" "Inv a h" "\<And>i h. a \<le> i \<Longrightarrow> i < b \<Longrightarrow> Inv i h \<Longrightarrow> \<exists>h'. f i h = Some h' \<and> Inv (Suc i) h'"
  shows "\<exists>h'. for_each f [a..<b] h = Some h' \<and> Inv b h'"
  using assms
proof (induction "b - a" arbitrary: a h)
  case (Suc d)
  then have ab: "a < b" by simp
  from Suc.prems(3) [of a h] Suc.prems(2) ab obtain h1 where h1: "f a h = Some h1" "Inv (Suc a) h1" by auto
  have "\<exists>h'. for_each f [Suc a..<b] h1 = Some h' \<and> Inv b h'"
    by (rule Suc.hyps(1)) (use Suc.hyps(2) Suc.prems(3) ab h1(2) in auto)
  then obtain h' where "for_each f [Suc a..<b] h1 = Some h'" "Inv b h'" by blast
  then show ?case using h1 ab by (simp add: upt_conv_Cons)
qed auto

lemma raise_shape:
  assumes "shape h hdr lv es" "lv < SKIPLIST_MAXLEVEL"
  shows "\<exists>h'. raise_step hdr (length es) lv h = Some h' \<and> shape h' hdr (Suc lv) es"
proof -
  obtain s where s: "cell h hdr lv = Some (None, s)" using assms by (auto simp: shape_def)
  then have "cell h hdr lv \<noteq> None" by simp
  from set_cell_ok [OF this] obtain h' where h': "set_cell hdr lv (None, int (length es)) h = Some h'" "meta h' = meta h"
    "\<forall>y j. cell h' y j = (if y = hdr \<and> j = lv then Some (None, int (length es)) else cell h y j)" by blast
  have "gap es 0 lv = length es"
    using assms(1) by (intro gap_eqI) (auto simp: shape_def)
  then have l: "hop es 0 lv = (None, int (length es))" by (simp add: hop_def)
  have "cell h' (pos_addr hdr es p) i = Some (hop es p i)" if p: "p \<le> length es" "i < pos_ht (Suc lv) es p" for p i
  proof (cases "p = 0")
    case True
    then show ?thesis using shape_cell [OF assms(1), of 0 i] p h'(3) l by (auto simp: pos_ht_def pos_addr_def less_Suc_eq)
  next
    case False
    then have "pos_addr hdr es p \<noteq> hdr" using assms(1) p by (auto simp: shape_def pos_addr_def)
    then show ?thesis using shape_cell [OF assms(1) p(1), of i] p h'(3) False by (simp add: pos_ht_def)
  qed
  then have "shape h' hdr (Suc lv) es"
    using assms h'(2,3) by (auto simp: shape_def le_Suc_eq)
  then show ?thesis using s h'(1) by (simp add: raise_step_def)
qed

lemma raise_levels:
  assumes "shape h hdr lv es" "level \<le> SKIPLIST_MAXLEVEL"
  shows "\<exists>h'. for_each (raise_step hdr (length es)) [lv..<level] h = Some h' \<and> shape h' hdr (max level lv) es"
proof (cases "lv \<le> level")
  case True
  have "\<exists>h'. for_each (raise_step hdr (length es)) [lv..<level] h = Some h' \<and> shape h' hdr level es"
    by (rule for_each_range [where Inv = "\<lambda>i h. shape h hdr i es"]) (use True assms in \<open>auto intro: raise_shape\<close>)
  then show ?thesis using True by (simp add: max_def)
qed (use assms in \<open>simp add: max_def\<close>)

lemma shape_length_max: "shape h hdr lv es \<Longrightarrow> lv \<le> SKIPLIST_MAXLEVEL"
  by (simp add: shape_def)

text \<open>The cells that the loops write, as functions of the old links.\<close>

lemma link_loop:
  assumes us: "\<And>i. i < level \<Longrightarrow> i < length us \<and> us ! i = (A i, int (U i))"
    and old: "\<And>i. i < level \<Longrightarrow> cell h (A i) i = Some (L i)"
    and new: "\<And>i. i < level \<Longrightarrow> cell h x i \<noteq> None" "\<And>i. i < level \<Longrightarrow> A i \<noteq> x"
    and pos: "0 < level"
  shows "\<exists>h'. for_each (link_step x us) [0..<level] h = Some h' \<and> meta h' = meta h \<and>
    (\<forall>y j. cell h' y j = (if j < level \<and> y = x then Some (fst (L j), snd (L j) - (int (U 0) - int (U j)))
      else if j < level \<and> y = A j then Some (Some x, int (U 0) - int (U j) + 1) else cell h y j))"
proof -
  let ?I = "\<lambda>m h'. meta h' = meta h \<and> (\<forall>y j. cell h' y j = (if j < m \<and> y = x then Some (fst (L j), snd (L j) - (int (U 0) - int (U j)))
      else if j < m \<and> y = A j then Some (Some x, int (U 0) - int (U j) + 1) else cell h y j))"
  show ?thesis
  proof (rule for_each_range [where Inv = ?I])
    fix i h1 assume i: "i < level" and I: "?I i h1"
    have c: "cell h1 (A i) i = Some (L i)" "cell h1 x i \<noteq> None" using I old [OF i] new(1) [OF i] new(2) [OF i] by auto
    obtain h2 where h2: "set_cell x i (fst (L i), snd (L i) - (int (U 0) - int (U i))) h1 = Some h2" "meta h2 = meta h1"
      "\<forall>y j. cell h2 y j = (if y = x \<and> j = i then Some (fst (L i), snd (L i) - (int (U 0) - int (U i))) else cell h1 y j)"
      using set_cell_ok [OF c(2)] by blast
    have "cell h2 (A i) i \<noteq> None" using h2(3) c(1) new(2) [OF i] by auto
    from set_cell_ok [OF this] obtain h3 where h3: "set_cell (A i) i (Some x, int (U 0) - int (U i) + 1) h2 = Some h3" "meta h3 = meta h2"
      "\<forall>y j. cell h3 y j = (if y = A i \<and> j = i then Some (Some x, int (U 0) - int (U i) + 1) else cell h2 y j)" by blast
    have "link_step x us i h1 = Some h3"
      using us [OF i] us [OF pos] c(1) h2(1) h3(1) by (simp add: link_step_def array_get_Some)
    moreover have "?I (Suc i) h3" using I h2(2,3) h3(2,3) new(2) [OF i] by (auto simp: less_Suc_eq)
    ultimately show "\<exists>h'. link_step x us i h1 = Some h' \<and> ?I (Suc i) h'" by blast
  qed simp_all
qed

lemma grow_loop:
  assumes us: "\<And>i. i < L \<Longrightarrow> i < length us \<and> us ! i = (A i, int (U i))"
    and old: "\<And>i. level \<le> i \<Longrightarrow> i < L \<Longrightarrow> cell h (A i) i = Some (C i)" and "level \<le> L"
  shows "\<exists>h'. for_each (grow_step us) [level..<L] h = Some h' \<and> meta h' = meta h \<and>
    (\<forall>y j. cell h' y j = (if level \<le> j \<and> j < L \<and> y = A j then Some (fst (C j), snd (C j) + 1) else cell h y j))"
proof -
  let ?I = "\<lambda>m h'. meta h' = meta h \<and>
    (\<forall>y j. cell h' y j = (if level \<le> j \<and> j < m \<and> y = A j then Some (fst (C j), snd (C j) + 1) else cell h y j))"
  show ?thesis
  proof (rule for_each_range [where Inv = ?I])
    fix i h1 assume i: "level \<le> i" "i < L" and I: "?I i h1"
    have c: "cell h1 (A i) i = Some (C i)" using I old [OF i] by auto
    then have "cell h1 (A i) i \<noteq> None" by simp
    from set_cell_ok [OF this]
    obtain h2 where h2: "set_cell (A i) i (fst (C i), snd (C i) + 1) h1 = Some h2" "meta h2 = meta h1"
      "\<forall>y j. cell h2 y j = (if y = A i \<and> j = i then Some (fst (C i), snd (C i) + 1) else cell h1 y j)" by blast
    have "grow_step us i h1 = Some h2" using us [OF i(2)] c h2(1) by (simp add: grow_step_def array_get_Some)
    moreover have "?I (Suc i) h2" using I h2(2,3) i by (auto simp: less_Suc_eq)
    ultimately show "\<exists>h'. grow_step us i h1 = Some h' \<and> ?I (Suc i) h'" by blast
  qed (use assms(3) in auto)
qed

text \<open>The cells of a list with an element inserted behind position \<open>c\<close>.\<close>

definition inserted :: "'s sl_heap \<Rightarrow> 's sl_heap \<Rightarrow> nat \<Rightarrow> nat \<Rightarrow> 's elem list \<Rightarrow> nat \<Rightarrow> 's elem \<Rightarrow> (nat \<Rightarrow> nat) \<Rightarrow> bool" where
  "inserted h h' hdr L es c e U \<longleftrightarrow> (\<forall>y j. cell h' y j =
     (if j < e_ht e \<and> y = e_addr e then Some (fst (hop es (U j) j), snd (hop es (U j) j) - (int c - int (U j)))
      else if j < L \<and> y = pos_addr hdr es (U j) then
        Some (if j < e_ht e then (Some (e_addr e), int c - int (U j) + 1) else (fst (hop es (U j) j), snd (hop es (U j) j) + 1))
      else if y = e_addr e then None else cell h y j))"

lemma stop_at_unique:
  assumes "stop_at es c i q" "p \<le> c" "p = 0 \<or> i < e_ht (es ! (p - 1))"
  shows "p \<le> q"
proof (rule ccontr)
  assume "\<not> p \<le> q"
  then have "q \<le> p - 1" "p - 1 < c" "p \<noteq> 0" using assms(2) by auto
  then show False using assms(1,3) by (auto simp: stop_at_def)
qed

lemma pos_addr_in: "q \<le> length es \<Longrightarrow> pos_addr hdr es q \<in> set (hdr # map e_addr es)"
  by (cases q) (auto simp: pos_addr_def)

lemma pos_addr_inj:
  assumes "distinct (hdr # map e_addr es)" "p \<le> length es" "q \<le> length es" "pos_addr hdr es p = pos_addr hdr es q"
  shows "p = q"
proof -
  have eq: "pos_addr hdr es p = (hdr # map e_addr es) ! p" if "p \<le> length es" for p
    using that by (cases p) (simp_all add: pos_addr_def)
  from assms show ?thesis using nth_eq_iff_index_eq [OF assms(1), of p q] by (simp add: eq)
qed

lemma pos_ins:
  assumes "c \<le> length es"
  shows "p \<le> c \<Longrightarrow> pos_addr hdr (ins c e es) p = pos_addr hdr es p \<and> pos_ht L (ins c e es) p = pos_ht L es p"
    "pos_addr hdr (ins c e es) (Suc c) = e_addr e \<and> pos_ht L (ins c e es) (Suc c) = e_ht e"
    "Suc c < p \<Longrightarrow> p \<le> Suc (length es) \<Longrightarrow>
      pos_addr hdr (ins c e es) p = pos_addr hdr es (p - 1) \<and> pos_ht L (ins c e es) p = pos_ht L es (p - 1)"
  using assms by (auto simp: pos_addr_def pos_ht_def ins_nth)

lemma inserted_cells:
  assumes shape: "shape h hdr L es" and c: "c \<le> length es"
    and fresh: "e_addr e \<notin> set (hdr # map e_addr es)" and ht: "e_ht e \<le> L"
    and U: "\<And>i. i < L \<Longrightarrow> i < pos_ht L es (U i) \<and> stop_at es c i (U i)"
    and ins: "inserted h h' hdr L es c e U"
    and p: "p \<le> Suc (length es)" "i < pos_ht L (ins c e es) p"
  shows "cell h' (pos_addr hdr (ins c e es) p) i = Some (hop (ins c e es) p i)"
proof -
  have dist: "distinct (hdr # map e_addr es)" using shape by (simp add: shape_def)
  have old: "pos_addr hdr es q \<noteq> e_addr e" if "q \<le> length es" for q
    using fresh pos_addr_in [OF that, of hdr] by metis
  have iL: "i < L"
  proof (cases p "Suc c" rule: linorder_cases)
    case less
    then show ?thesis using p(2) pos_ins(1) [OF c, of p hdr e L] shape_ht [OF shape, of p] c by simp
  next
    case equal
    then show ?thesis using p(2) pos_ins(2) [OF c, of hdr e L] ht by simp
  next
    case greater
    have "p - 1 \<le> length es" using p(1) by simp
    then show ?thesis using p greater pos_ins(3) [OF c, of p hdr e L] shape_ht [OF shape, of "p - 1"] by simp
  qed
  have u: "U i \<le> c" "\<And>k. U i \<le> k \<Longrightarrow> k < c \<Longrightarrow> e_ht (es ! k) \<le> i" "U i = 0 \<or> i < e_ht (es ! (U i - 1))"
    using U [OF iL] by (auto simp: stop_at_def)
  show ?thesis
  proof (cases p "Suc c" rule: linorder_cases)
    case less
    then have pc: "p \<le> c" by simp
    have hp: "i < pos_ht L es p" using p(2) pos_ins(1) [OF c pc, of hdr e L] by simp
    have "p \<le> U i"
      using stop_at_unique [of es c i "U i" p] U [OF iL] pc hp by (simp add: pos_ht_def split: if_splits)
    show ?thesis
    proof (cases "p = U i")
      case True
      have "cell h' (pos_addr hdr es (U i)) i = Some (hop (ins c e es) (U i) i)"
        using ins iL old [of "U i"] u(1) c link_ins_at [OF c u(1,2), of e] by (simp add: inserted_def)
      then show ?thesis using pos_ins(1) [OF c pc] True by metis
    next
      case False
      then have "p < U i" using \<open>p \<le> U i\<close> by simp
      then have "hop (ins c e es) p i = hop es p i" using link_ins_before [OF c, of p "U i" i e] u by auto
      moreover have "pos_addr hdr es p \<noteq> pos_addr hdr es (U i)" using pos_addr_inj [OF dist] False pc u(1) c by fastforce
      ultimately show ?thesis using ins old [of p] pc c pos_ins(1) [OF c pc] shape_cell [OF shape _ hp]
        by (simp add: inserted_def)
    qed
  next
    case equal
    then have "i < e_ht e" using p(2) pos_ins(2) [OF c] by metis
    then show ?thesis using ins link_ins_new [OF c u(1,2), of e] equal pos_ins(2) [OF c, of hdr e L] by (simp add: inserted_def)
  next
    case greater
    note pg = pos_ins(3) [OF c greater p(1)]
    have hp: "i < pos_ht L es (p - 1)" using p(2) pg by metis
    have "pos_addr hdr es (p - 1) \<noteq> pos_addr hdr es (U i)" using pos_addr_inj [OF dist, of "p - 1" "U i"] greater p(1) u(1) c by auto
    moreover have "hop (ins c e es) p i = hop es (p - 1) i" using link_ins_after [OF c, of p e i] greater p(1) by simp
    moreover have "p - 1 \<le> length es" using p(1) by simp
    ultimately show ?thesis using ins old [of "p - 1"] pg shape_cell [OF shape _ hp] by (simp add: inserted_def)
  qed
qed

lemma distinct_ins:
  assumes "distinct (hdr # map e_addr es)" "e_addr e \<notin> set (hdr # map e_addr es)"
  shows "distinct (hdr # map e_addr (ins c e es))"
proof -
  define a b where "a = map e_addr (take c es)" and "b = map e_addr (drop c es)"
  have m: "map e_addr es = a @ b" by (simp add: a_def b_def flip: map_append)
  have "map e_addr (ins c e es) = a @ e_addr e # b" by (simp add: ins_def a_def b_def)
  then show ?thesis using assms unfolding m by auto
qed

lemma ins_meta:
  assumes "c \<le> length es" "k \<le> length es"
  shows "node_meta hdr (ins c e es) k =
    (if k < c then node_meta hdr es k
     else if k = c then (Some (e_obj e), e_score e, if c = 0 then None else Some (e_addr (es ! (c - 1))), e_ht e)
     else if k = Suc c then with_backward (Some (e_addr e)) (node_meta hdr es c)
     else node_meta hdr es (k - 1))"
  using assms by (auto simp: node_meta_def Let_def ins_nth with_backward_def)

lemma inserted_shape:
  assumes shape: "shape h hdr L es" and c: "c \<le> length es"
    and fresh: "e_addr e \<notin> set (hdr # map e_addr es)" and ht: "1 \<le> e_ht e" "e_ht e \<le> L"
    and U: "\<And>i. i < L \<Longrightarrow> i < pos_ht L es (U i) \<and> stop_at es c i (U i)"
    and ins: "inserted h h' hdr L es c e U"
    and meta: "\<And>y. meta h' y = (if y = e_addr e then Some (node_meta hdr (ins c e es) c)
      else if c < length es \<and> y = e_addr (es ! c) then Some (with_backward (Some (e_addr e)) (node_meta hdr es c)) else meta h y)"
  shows "shape h' hdr L (ins c e es)"
proof -
  have dist: "distinct (hdr # map e_addr es)" and lv: "1 \<le> L" "L \<le> SKIPLIST_MAXLEVEL"
    and dom: "\<And>y. meta h y \<noteq> None \<longleftrightarrow> y \<in> set (hdr # map e_addr es)"
    and hd: "\<exists>s0. meta h hdr = Some (None, s0, None, SKIPLIST_MAXLEVEL)"
    and nodes: "\<And>k. k < length es \<Longrightarrow> meta h (e_addr (es ! k)) = Some (node_meta hdr es k)"
    and high: "\<And>i. L \<le> i \<Longrightarrow> i < SKIPLIST_MAXLEVEL \<Longrightarrow> \<exists>s. cell h hdr i = Some (None, s)"
    and hts: "\<forall>e \<in> set es. 1 \<le> e_ht e \<and> e_ht e \<le> L"
    using shape unfolding shape_def by blast+
  have ne: "e_addr (es ! k) \<noteq> e_addr e" "e_addr (es ! k) \<noteq> hdr" if "k < length es" for k
    using fresh dist imageI [OF nth_mem [OF that], of e_addr] by auto
  have inj: "e_addr (es ! k) = e_addr (es ! j) \<longleftrightarrow> k = j" if "k < length es" "j < length es" for k j
    using dist that nth_eq_iff_index_eq [of "map e_addr es" k j] by simp
  have "meta h' (e_addr (ins c e es ! k)) = Some (node_meta hdr (ins c e es) k)" if k: "k < Suc (length es)" for k
  proof (cases k c rule: linorder_cases)
    case less
    then show ?thesis using c nodes [of k] ne [of k] inj [of k c] by (auto simp: ins_nth meta ins_meta)
  next
    case equal
    then show ?thesis using c by (simp add: ins_nth meta)
  next
    case greater
    then have "k - 1 < length es" "c < length es" using k by auto
    then show ?thesis using greater k c nodes [of "k - 1"] ne [of "k - 1"] inj [of "k - 1" c] nodes [of c]
      by (auto simp: ins_nth meta ins_meta)
  qed
  moreover have "meta h' y \<noteq> None \<longleftrightarrow> y \<in> set (hdr # map e_addr (ins c e es))" for y
  proof -
    have "meta h' y = None \<longleftrightarrow> y \<noteq> e_addr e \<and> meta h y = None"
      using nodes [of c] unfolding meta [of y] by simp
    then show ?thesis using dom [of y] by (auto simp: set_ins)
  qed
  moreover have "meta h' hdr = meta h hdr" using fresh ne(2) [of c] by (auto simp: meta)
  moreover have "cell h' hdr i = cell h hdr i" if "L \<le> i" for i
    using ins that fresh ht by (auto simp: inserted_def)
  moreover have "\<forall>e' \<in> set (ins c e es). 1 \<le> e_ht e' \<and> e_ht e' \<le> L" using hts ht by (simp add: set_ins)
  ultimately show ?thesis
    using distinct_ins [OF dist fresh] lv hd high inserted_cells [OF shape c fresh ht(2) U ins] c
    unfolding shape_def by (simp add: set_ins)
qed

lemma random_levels_ge:
  assumes "random_levels random k = Some level"
  shows "k \<le> level"
  by (rule random_levels.raw_induct [where P = "\<lambda>random k level. k \<le> level", OF _ assms]) (fastforce split: if_splits)

lemma slRandomLevel_range: "slRandomLevel random = Some level \<Longrightarrow> 1 \<le> level \<and> level \<le> SKIPLIST_MAXLEVEL"
  by (auto simp: slRandomLevel_def SKIPLIST_MAXLEVEL_def split: bind_splits dest: random_levels_ge)

lemma pos_addr_header: "distinct (hdr # map e_addr es) \<Longrightarrow> p \<le> length es \<Longrightarrow> pos_addr hdr es p = hdr \<longleftrightarrow> p = 0"
  using pos_addr_inj [of hdr es p 0] by (metis pos_addr_def le0)

lemma insert_heap:
  fixes h :: "'s sl_heap" and score :: 's and obj :: bytes
  assumes shape: "shape h hdr L es" and c: "c \<le> length es"
    and fresh: "meta h x = None" and level: "1 \<le> level" "level \<le> L"
    and us: "length us = L" "us ! 0 = (pos_addr hdr es c, int c)"
      "\<And>i. i < L \<Longrightarrow> \<exists>q. us ! i = (pos_addr hdr es q, int q) \<and> i < pos_ht L es q \<and> stop_at es c i q"
  defines "e \<equiv> \<lparr>e_addr = x, e_ht = level, e_score = score, e_obj = obj\<rparr>"
  shows "\<exists>h1 h2. for_each (link_step x us) [0..<level] (h(x \<mapsto> slCreateNode junk level score (Some obj))) = Some h1
    \<and> for_each (grow_step us) [level..<L] h1 = Some h2 \<and> inserted h h2 hdr L es c e (\<lambda>i. nat (snd (us ! i)))
    \<and> meta h2 = (meta h)(x \<mapsto> (Some obj, score, fst junk, level))
    \<and> (\<forall>i < L. i < pos_ht L es (nat (snd (us ! i))) \<and> stop_at es c i (nat (snd (us ! i))))"
proof -
  define U where "U = (\<lambda>i. nat (snd (us ! i)))"
  let ?h = "h(x \<mapsto> slCreateNode junk level score (Some obj))"
  have u: "us ! i = (pos_addr hdr es (U i), int (U i))" "i < pos_ht L es (U i)" "stop_at es c i (U i)" if "i < L" for i
    using us(3) [OF that] by (auto simp: U_def)
  have U0: "U 0 = c" using us(2) by (simp add: U_def)
  have L0: "0 < L" using level by simp
  have Uc: "U i \<le> length es" if "i < L" for i using u(3) [OF that] c by (simp add: stop_at_def)
  have ne: "pos_addr hdr es (U i) \<noteq> x" if "i < L" for i
    using pos_addr_in [OF Uc [OF that], of hdr] fresh shape by (auto simp: shape_def)
  have cell_h: "cell ?h y j = (if y = x then if j < level then Some (snd junk j) else None else cell h y j)" for y j
    by (simp add: cell_def slCreateNode_def array_get_def)
  have old: "cell ?h (pos_addr hdr es (U i)) i = Some (hop es (U i) i)" if "i < L" for i
    using shape_cell [OF shape Uc [OF that] u(2) [OF that]] ne [OF that] by (simp add: cell_h)
  have "\<exists>h1. for_each (link_step x us) [0..<level] ?h = Some h1 \<and> meta h1 = meta ?h \<and>
    (\<forall>y j. cell h1 y j = (if j < level \<and> y = x then Some (fst (hop es (U j) j), snd (hop es (U j) j) - (int (U 0) - int (U j)))
      else if j < level \<and> y = pos_addr hdr es (U j) then Some (Some x, int (U 0) - int (U j) + 1) else cell ?h y j))"
  proof (rule link_loop)
    fix i assume i: "i < level"
    then have iL: "i < L" using level by simp
    show "i < length us \<and> us ! i = (pos_addr hdr es (U i), int (U i))" using u(1) [OF iL] us(1) iL by simp
    show "cell ?h (pos_addr hdr es (U i)) i = Some (hop es (U i) i)" by (rule old [OF iL])
    show "cell ?h x i \<noteq> None" using i by (simp add: cell_h)
    show "pos_addr hdr es (U i) \<noteq> x" by (rule ne [OF iL])
  qed (use level in simp)
  then obtain h1 where h1: "for_each (link_step x us) [0..<level] ?h = Some h1" "meta h1 = meta ?h"
    "\<forall>y j. cell h1 y j = (if j < level \<and> y = x then Some (fst (hop es (U j) j), snd (hop es (U j) j) - (int (U 0) - int (U j)))
      else if j < level \<and> y = pos_addr hdr es (U j) then Some (Some x, int (U 0) - int (U j) + 1) else cell ?h y j)" by blast
  have "\<exists>h2. for_each (grow_step us) [level..<L] h1 = Some h2 \<and> meta h2 = meta h1 \<and>
    (\<forall>y j. cell h2 y j = (if level \<le> j \<and> j < L \<and> y = pos_addr hdr es (U j) then Some (fst (hop es (U j) j), snd (hop es (U j) j) + 1)
      else cell h1 y j))"
  proof (rule grow_loop)
    fix i assume i: "i < L"
    show "i < length us \<and> us ! i = (pos_addr hdr es (U i), int (U i))" using u(1) [OF i] us(1) i by simp
    assume "level \<le> i"
    then show "cell h1 (pos_addr hdr es (U i)) i = Some (hop es (U i) i)" using old [OF i] h1(3) by simp
  qed (rule level)
  then obtain h2 where h2: "for_each (grow_step us) [level..<L] h1 = Some h2" "meta h2 = meta h1"
    "\<forall>y j. cell h2 y j = (if level \<le> j \<and> j < L \<and> y = pos_addr hdr es (U j) then Some (fst (hop es (U j) j), snd (hop es (U j) j) + 1)
      else cell h1 y j)" by blast
  have "inserted h h2 hdr L es c e U"
    using h1(3) h2(3) ne level by (auto simp: inserted_def e_def U0 cell_h)
  moreover have "meta h2 = (meta h)(x \<mapsto> (Some obj, score, fst junk, level))"
    using h1(2) h2(2) by (auto simp: meta_def slCreateNode_def)
  ultimately show ?thesis using h1(1) h2(1) u(2,3) unfolding U_def by blast
qed

lemma sorted_ins:
  assumes "sorted (map e_key es)" "c = cut_before es (e_key e)"
  shows "sorted (map e_key (ins c e es))"
proof -
  have lt: "e_key x < e_key e" if "x \<in> set (take c es)" for x
    using that assms(2) by (metis cut_before_def set_takeWhileD takeWhile_eq_take)
  have ge: "e_key e \<le> e_key x" if x: "x \<in> set (drop c es)" for x
  proof -
    obtain i where i: "i < length (drop c es)" "x = drop c es ! i" using x by (metis in_set_conv_nth)
    define q where "q = c + i"
    have q: "q < length es" "x = es ! q" "c \<le> q" using i by (simp_all add: q_def)
    then show ?thesis using sorted_cut(1) [OF assms(1) q(1), of "e_key e"] assms(2) by (simp add: cut_before_def not_less)
  qed
  have "sorted (map e_key (take c es) @ map e_key (drop c es))" using assms(1) by (simp flip: map_append)
  then have "sorted (map e_key (take c es))" "sorted (map e_key (drop c es))" unfolding sorted_append by blast+
  then show ?thesis unfolding ins_def map_append list.map sorted_append sorted_simps
    using lt ge by (auto intro: less_imp_le order_trans [OF less_imp_le])
qed

lemma link_level0:
  assumes "shape h hdr lv es" "c \<le> length es"
  shows "hop es c 0 = (if c < length es then (Some (e_addr (es ! c)), 1) else (None, 0))"
proof -
  have "gap es c 0 = 0"
  proof (rule gap_eqI)
    assume "c + 0 < length es"
    then have "es ! c \<in> set es" by simp
    then have "1 \<le> e_ht (es ! c)" using assms(1) unfolding shape_def by blast
    then show "0 < e_ht (es ! (c + 0))" by simp
  qed (use assms in simp_all)
  then show ?thesis using assms(2) by (simp add: hop_def)
qed

lemma insert_inv:
  fixes sl :: "'s :: linorder skiplist" and score :: 's
  assumes inv: "skiplist_inv sl es" and obj: "length obj < 2 ^ 31" and fresh: "sl_heap sl x = None"
    and random: "slRandomLevel random = Some level"
  defines "e \<equiv> \<lparr>e_addr = x, e_ht = level, e_score = score, e_obj = obj\<rparr>"
  shows "\<exists>sl'. slInsert junk random x score obj sl = Some sl' \<and> skiplist_inv sl' (ins (cut_before es (score, obj)) e es)
    \<and> sl_header sl' = sl_header sl"
proof -
  let ?hdr = "sl_header sl" and ?lv = "sl_level sl" and ?c = "cut_before es (score, obj)"
  let ?L = "max level ?lv"
  have sh: "shape (sl_heap sl) ?hdr ?lv es" using inv by (simp add: skiplist_inv_def)
  have lev: "1 \<le> level" "level \<le> SKIPLIST_MAXLEVEL" using slRandomLevel_range [OF random] by auto
  obtain us where us: "descend (key_before score obj) (sl_heap sl) ?lv (?hdr, 0) = Some ((pos_addr ?hdr es ?c, int ?c), us)"
    "length us = ?lv" "\<forall>i < ?lv. \<exists>q. us ! i = (pos_addr ?hdr es q, int q) \<and> i < pos_ht ?lv es q \<and> stop_at es ?c i q"
    "us ! 0 = (pos_addr ?hdr es ?c, int ?c)"
    using search_stops [OF key_before_search [OF inv obj]] by blast
  obtain h0 where h0: "for_each (raise_step ?hdr (length es)) [?lv..<level] (sl_heap sl) = Some h0" "shape h0 ?hdr ?L es"
    using raise_levels [OF sh lev(2)] by blast
  define us' where "us' = us @ replicate (level - ?lv) (?hdr, 0 :: int)"
  have us'_at: "\<exists>q. us' ! i = (pos_addr ?hdr es q, int q) \<and> i < pos_ht ?L es q \<and> stop_at es ?c i q" if i: "i < ?L" for i
  proof (cases "i < ?lv")
    case True
    then obtain q where q: "us ! i = (pos_addr ?hdr es q, int q)" "i < pos_ht ?lv es q" "stop_at es ?c i q" using us(3) by blast
    then show ?thesis using True us(2) by (auto simp: us'_def nth_append pos_ht_def intro!: exI [of _ q])
  next
    case False
    have "e_ht (es ! k) \<le> i" if "k < ?c" for k
    proof -
      have "es ! k \<in> set es" using that cut_before_le [of es "(score, obj)"] by simp
      then have "e_ht (es ! k) \<le> ?lv" using sh unfolding shape_def by blast
      then show ?thesis using False by simp
    qed
    then show ?thesis using False i us(2)
      by (intro exI [of _ 0]) (auto simp: us'_def nth_append pos_ht_def pos_addr_def stop_at_def)
  qed
  have lv1: "1 \<le> ?lv" using sh by (simp add: shape_def)
  have us'0: "us' ! 0 = (pos_addr ?hdr es ?c, int ?c)" and lus: "length us' = ?L"
    using us(2,4) lv1 by (auto simp: us'_def nth_append max_def)
  have addrs: "set (?hdr # map e_addr es) \<subseteq> dom (sl_heap sl)" using sh by (auto simp: shape_def meta_def)
  then have xnew: "x \<notin> set (?hdr # map e_addr es)" using fresh by blast
  have mx: "meta h0 x = None" using h0(2) xnew unfolding shape_def by blast
  obtain h1 h2 where h1: "for_each (link_step x us') [0..<level] (h0(x \<mapsto> slCreateNode junk level score (Some obj))) = Some h1"
    and h2: "for_each (grow_step us') [level..<?L] h1 = Some h2"
    and ins: "inserted h0 h2 ?hdr ?L es ?c e (\<lambda>i. nat (snd (us' ! i)))"
    and m2: "meta h2 = (meta h0)(x \<mapsto> (Some obj, score, fst junk, level))"
    and U: "\<forall>i < ?L. i < pos_ht ?L es (nat (snd (us' ! i))) \<and> stop_at es ?c i (nat (snd (us' ! i)))"
    using insert_heap [OF h0(2) cut_before_le mx lev(1) max.cobounded1 lus us'0 us'_at, where score = score and obj = obj and junk = junk] unfolding e_def by blast
  let ?bw = "if ?c = 0 then None else Some (e_addr (es ! (?c - 1)))"
  have dist: "distinct (?hdr # map e_addr es)" using sh unfolding shape_def by blast
  have bw: "(if fst (us' ! 0) = ?hdr then None else Some (fst (us' ! 0))) = ?bw"
    using pos_addr_header [OF dist cut_before_le, of "(score, obj)"] by (simp add: us'0 pos_addr_def)
  obtain h3 where h3: "set_backward x ?bw h2 = Some h3" "cell h3 = cell h2" "meta h3 = (meta h2)(x \<mapsto> (Some obj, score, ?bw, level))"
    using set_backward_ok [of h2 x "(Some obj, score, fst junk, level)" ?bw] m2 by (auto simp: with_backward_def)
  have c0: "cell h3 x 0 = Some (if ?c < length es then Some (e_addr (es ! ?c)) else None, if ?c < length es then 1 else 0)"
    using ins lev us'0 link_level0 [OF h0(2) cut_before_le, of "(score, obj)"] h3(2) by (simp add: inserted_def e_def)
  have nm: "node_meta ?hdr (ins ?c e es) ?c = (Some obj, score, ?bw, level)"
    by (simp add: ins_meta cut_before_le e_def)
  have result: "skiplist_inv (sl\<lparr>sl_heap := h', sl_tail := tail, sl_length := sl_length sl + 1, sl_level := ?L\<rparr>) (ins ?c e es)"
    if h': "cell h' = cell h2" and meta: "\<And>y. meta h' y = (if y = e_addr e then Some (node_meta ?hdr (ins ?c e es) ?c)
      else if ?c < length es \<and> y = e_addr (es ! ?c) then Some (with_backward (Some (e_addr e)) (node_meta ?hdr es ?c)) else meta h0 y)"
      and tail: "tail = (if ?c < length es then sl_tail sl else Some x)" for h' tail
  proof -
    have "inserted h0 h' ?hdr ?L es ?c e (\<lambda>i. nat (snd (us' ! i)))" using ins h' by (simp add: inserted_def)
    moreover have "e_addr e \<notin> set (?hdr # map e_addr es)" "1 \<le> e_ht e" "e_ht e \<le> ?L" using xnew lev by (simp_all add: e_def)
    ultimately have "shape h' ?hdr ?L (ins ?c e es)"
      using U meta by (intro inserted_shape [OF h0(2) cut_before_le, where U = "\<lambda>i. nat (snd (us' ! i))"]) simp_all
    moreover have "tail = Some (e_addr (last (ins ?c e es)))"
      using tail inv by (auto simp: ins_def e_def skiplist_inv_def cut_before_le not_less)
    moreover have "sorted (map e_key (ins ?c e es))"
      using sorted_ins [of es ?c e] inv by (simp add: skiplist_inv_def e_def e_key_def)
    moreover have "\<forall>a \<in> set (ins ?c e es). length (e_obj a) < 2 ^ 31" using inv obj by (simp add: set_ins skiplist_inv_def e_def)
    moreover have "ins ?c e es \<noteq> []" by (simp add: ins_def)
    ultimately show ?thesis using inv cut_before_le [of es "(score, obj)"] by (simp add: skiplist_inv_def)
  qed
  have m3: "meta h3 = (meta h0)(x \<mapsto> (Some obj, score, ?bw, level))" using h3(3) m2 by simp
  have len: "sl_length sl = length es" using inv by (simp add: skiplist_inv_def)
  have h3': "set_backward x (if pos_addr ?hdr es ?c = ?hdr then None else Some (pos_addr ?hdr es ?c)) h2 = Some h3"
    using h3(1) bw by (simp only: us'0 fst_conv)
  note run = us(1) random h0(1) h1 h2 h3' c0 us'0 lus
  show ?thesis
  proof (cases "?c < length es")
    case True
    let ?y = "e_addr (es ! ?c)"
    have y: "?y \<noteq> x" using xnew True by (auto dest: nth_mem)
    have "meta h0 ?y = Some (node_meta ?hdr es ?c)" using h0(2) True unfolding shape_def by blast
    then have "meta h3 ?y = Some (node_meta ?hdr es ?c)" using m3 y by simp
    from set_backward_ok [OF this, of "Some x"] obtain h4 where h4: "set_backward ?y (Some x) h3 = Some h4" "cell h4 = cell h3"
      "meta h4 = (meta h3)(?y \<mapsto> with_backward (Some x) (node_meta ?hdr es ?c))" by blast
    have "slInsert junk random x score obj sl = Some (sl\<lparr>sl_heap := h4, sl_tail := sl_tail sl, sl_length := sl_length sl + 1, sl_level := ?L\<rparr>)"
      using run h4(1) True lev by (simp add: slInsert_def len us'_def [symmetric] split del: if_split cong: if_cong)
    moreover have "skiplist_inv (sl\<lparr>sl_heap := h4, sl_tail := sl_tail sl, sl_length := sl_length sl + 1, sl_level := ?L\<rparr>) (ins ?c e es)"
      by (rule result) (use h4 h3(2) m3 nm True y in \<open>auto simp: e_def\<close>)
    ultimately show ?thesis by simp
  next
    case False
    have "slInsert junk random x score obj sl = Some (sl\<lparr>sl_heap := h3, sl_tail := Some x, sl_length := sl_length sl + 1, sl_level := ?L\<rparr>)"
      using run False lev by (simp add: slInsert_def len us'_def [symmetric] split del: if_split cong: if_cong)
    moreover have "skiplist_inv (sl\<lparr>sl_heap := h3, sl_tail := Some x, sl_length := sl_length sl + 1, sl_level := ?L\<rparr>) (ins ?c e es)"
      by (rule result) (use h3(2) m3 nm False in \<open>auto simp: e_def\<close>)
    ultimately show ?thesis by simp
  qed
qed

section \<open>Deletion keeps the invariant\<close>

lemma stop_at_ins: "c \<le> length es \<Longrightarrow> stop_at (ins c e es) c i q \<longleftrightarrow> stop_at es c i q"
  by (cases q) (auto simp: stop_at_def ins_nth)

lemma deleted_cells:
  assumes shape: "shape h hdr L (ins c e es)" and c: "c \<le> length es"
    and U: "\<And>i. i < L \<Longrightarrow> i < pos_ht L es (U i) \<and> stop_at es c i (U i)"
    and cells: "\<And>y j. y \<noteq> e_addr e \<Longrightarrow> cell h' y j = (if j < L \<and> y = pos_addr hdr es (U j) then Some (hop es (U j) j) else cell h y j)"
    and new: "\<And>q. q \<le> length es \<Longrightarrow> pos_addr hdr es q \<noteq> e_addr e" and dist: "distinct (hdr # map e_addr es)"
    and p: "p \<le> length es" "i < pos_ht L es p" "i < L"
  shows "cell h' (pos_addr hdr es p) i = Some (hop es p i)"
proof -
  have u: "U i \<le> c" "U i = 0 \<or> i < e_ht (es ! (U i - 1))" "U i \<le> length es" using U [OF p(3)] c by (auto simp: stop_at_def)
  have keep: "cell h' (pos_addr hdr es p) i = cell h (pos_addr hdr es p) i" if "p \<noteq> U i"
    using that pos_addr_inj [OF dist p(1) u(3)] cells [OF new [OF p(1)]] by auto
  show ?thesis
  proof (cases p "U i" rule: linorder_cases)
    case less
    then have pc: "p \<le> c" using u(1) by simp
    have "cell h (pos_addr hdr (ins c e es) p) i = Some (hop (ins c e es) p i)"
      by (rule shape_cell [OF shape]) (use c p pos_ins(1) [OF c pc, of hdr e L] in simp_all)
    moreover have "hop (ins c e es) p i = hop es p i" using link_ins_before [OF c less u(1)] u(2) less by simp
    ultimately show ?thesis using keep less pos_ins(1) [OF c pc, of hdr e L] by simp
  next
    case equal
    then show ?thesis using cells [OF new [OF p(1)]] p(3) by simp
  next
    case greater
    have "c < p"
    proof (rule ccontr)
      assume "\<not> c < p"
      then have "p \<le> U i" using stop_at_unique [of es c i "U i" p] U [OF p(3)] p(2) by (auto simp: pos_ht_def split: if_splits)
      then show False using greater by simp
    qed
    then have a: "Suc c < Suc p" "Suc p \<le> Suc (length es)" "c < Suc p" using p(1) by simp_all
    have "cell h (pos_addr hdr (ins c e es) (Suc p)) i = Some (hop (ins c e es) (Suc p) i)"
      by (rule shape_cell [OF shape]) (use c p pos_ins(3) [OF c a(1,2), of hdr e L] in simp_all)
    then show ?thesis using keep greater pos_ins(3) [OF c a(1,2), of hdr e L] link_ins_after [OF c a(3,2), of e i] by simp
  qed
qed

lemma ins_fresh:
  assumes "distinct (hdr # map e_addr (ins c e es))"
  shows "e_addr e \<notin> set (hdr # map e_addr es)" "distinct (hdr # map e_addr es)"
proof -
  define a b where "a = map e_addr (take c es)" and "b = map e_addr (drop c es)"
  have m: "map e_addr es = a @ b" by (simp add: a_def b_def flip: map_append)
  have i: "map e_addr (ins c e es) = a @ e_addr e # b" by (simp add: ins_def a_def b_def)
  show "e_addr e \<notin> set (hdr # map e_addr es)" "distinct (hdr # map e_addr es)" using assms unfolding m i by auto
qed

lemma deleted_shape:
  assumes shape: "shape h hdr L (ins c e es)" and c: "c \<le> length es"
    and U: "\<And>i. i < L \<Longrightarrow> i < pos_ht L es (U i) \<and> stop_at es c i (U i)"
    and cells: "\<And>y j. y \<noteq> e_addr e \<Longrightarrow> cell h' y j = (if j < L \<and> y = pos_addr hdr es (U j) then Some (hop es (U j) j) else cell h y j)"
    and meta: "\<And>y. meta h' y = (if y = e_addr e then None else if c < length es \<and> y = e_addr (es ! c) then Some (node_meta hdr es c) else meta h y)"
  shows "shape h' hdr L es"
proof -
  have "distinct (hdr # map e_addr (ins c e es))" using shape by (simp add: shape_def)
  note fresh = ins_fresh [OF this]
  have lv: "1 \<le> L" "L \<le> SKIPLIST_MAXLEVEL"
    and dom: "\<And>y. meta h y \<noteq> None \<longleftrightarrow> y \<in> set (hdr # map e_addr (ins c e es))"
    and hd: "\<exists>s0. meta h hdr = Some (None, s0, None, SKIPLIST_MAXLEVEL)"
    and nodes: "\<And>k. k < length (ins c e es) \<Longrightarrow> meta h (e_addr (ins c e es ! k)) = Some (node_meta hdr (ins c e es) k)"
    and high: "\<And>i. L \<le> i \<Longrightarrow> i < SKIPLIST_MAXLEVEL \<Longrightarrow> \<exists>s. cell h hdr i = Some (None, s)"
    and hts: "\<forall>e' \<in> set (ins c e es). 1 \<le> e_ht e' \<and> e_ht e' \<le> L"
    using shape unfolding shape_def by blast+
  have ne: "e_addr (es ! k) \<noteq> e_addr e" "e_addr (es ! k) \<noteq> hdr" if "k < length es" for k
    using fresh imageI [OF nth_mem [OF that], of e_addr] by auto
  have inj: "e_addr (es ! k) = e_addr (es ! j) \<longleftrightarrow> k = j" if "k < length es" "j < length es" for k j
    using fresh(2) that nth_eq_iff_index_eq [of "map e_addr es" k j] by simp
  have "meta h' (e_addr (es ! k)) = Some (node_meta hdr es k)" if k: "k < length es" for k
  proof (cases k c rule: linorder_cases)
    case less
    then show ?thesis using k c nodes [of k] ne [of k] inj [of k c] by (auto simp: ins_nth meta ins_meta)
  next
    case equal
    then show ?thesis using k ne [of k] by (simp add: meta)
  next
    case greater
    then show ?thesis using k c nodes [of "Suc k"] ne [of k] inj [of k c] by (simp add: ins_nth meta ins_meta)
  qed
  moreover have "meta h' y \<noteq> None \<longleftrightarrow> y \<in> set (hdr # map e_addr es)" for y
  proof -
    have "meta h' y = None \<longleftrightarrow> y = e_addr e \<or> meta h y = None \<and> \<not> (c < length es \<and> y = e_addr (es ! c))"
      unfolding meta [of y] by simp
    then show ?thesis using dom [of y] fresh(1) c by (auto simp: set_ins)
  qed
  moreover have "meta h' hdr = meta h hdr" using fresh ne(2) [of c] by (auto simp: meta)
  moreover have "cell h' hdr i = cell h hdr i" if "L \<le> i" for i
    using that fresh(1) cells [of hdr i] by auto
  moreover have "cell h' (pos_addr hdr es p) i = Some (hop es p i)" if p: "p \<le> length es" "i < pos_ht L es p" for p i
  proof (rule deleted_cells [OF shape c U cells _ fresh(2) p])
    show "pos_addr hdr es q \<noteq> e_addr e" if "q \<le> length es" for q
      using fresh(1) pos_addr_in [OF that, of hdr] by metis
    show "i < L"
    proof (cases p)
      case (Suc q)
      then have "es ! q \<in> set (ins c e es)" using p(1) by (simp add: set_ins)
      then have "e_ht (es ! q) \<le> L" using hts by blast
      then show ?thesis using Suc p(2) by (simp add: pos_ht_def)
    qed (use p(2) in \<open>simp add: pos_ht_def\<close>)
  qed
  ultimately show ?thesis
    using fresh(2) lv hd high hts unfolding shape_def by (simp add: set_ins)
qed

lemma unlink_loop:
  assumes us: "\<And>i. i < L \<Longrightarrow> i < length us \<and> fst (us ! i) = A i"
    and old: "\<And>i. i < L \<Longrightarrow> cell h (A i) i = Some (C i)"
    and x: "\<And>i. i < L \<Longrightarrow> fst (C i) = Some x \<Longrightarrow> cell h x i = Some (D i)" "\<And>i. i < L \<Longrightarrow> A i \<noteq> x"
  shows "\<exists>h'. for_each (unlink_step x us) [0..<L] h = Some h' \<and> meta h' = meta h \<and>
    (\<forall>y j. cell h' y j = (if j < L \<and> y = A j then
        Some (if fst (C j) = Some x then (fst (D j), snd (C j) + (snd (D j) - 1)) else (fst (C j), snd (C j) - 1))
      else cell h y j))"
proof -
  let ?new = "\<lambda>j. if fst (C j) = Some x then (fst (D j), snd (C j) + (snd (D j) - 1)) else (fst (C j), snd (C j) - 1)"
  let ?I = "\<lambda>m h'. meta h' = meta h \<and> (\<forall>y j. cell h' y j = (if j < m \<and> y = A j then Some (?new j) else cell h y j))"
  show ?thesis
  proof (rule for_each_range [where Inv = ?I])
    fix i h1 assume i: "i < L" and I: "?I i h1"
    have c: "cell h1 (A i) i = Some (C i)" "fst (C i) = Some x \<Longrightarrow> cell h1 x i = Some (D i)" using I old [OF i] x [OF i] by auto
    then have "cell h1 (A i) i \<noteq> None" by simp
    from set_cell_ok [OF this] obtain h2 where h2: "set_cell (A i) i (?new i) h1 = Some h2" "meta h2 = meta h1"
      "\<forall>y j. cell h2 y j = (if y = A i \<and> j = i then Some (?new i) else cell h1 y j)" by blast
    have "unlink_step x us i h1 = Some h2" using us [OF i] c h2(1) by (cases "fst (C i) = Some x") (simp_all add: unlink_step_def)
    moreover have "?I (Suc i) h2" using I h2(2,3) by (auto simp: less_Suc_eq)
    ultimately show "\<exists>h'. unlink_step x us i h1 = Some h' \<and> ?I (Suc i) h'" by blast
  qed simp_all
qed

lemma link_target: "p \<le> length es \<Longrightarrow> fst (hop es p i) = Some y \<Longrightarrow> y \<in> set (map e_addr es)"
  by (auto simp: hop_def Let_def split: if_splits)

lemma unlink_links:
  assumes "c \<le> length es" "u \<le> c" "\<And>k. u \<le> k \<Longrightarrow> k < c \<Longrightarrow> e_ht (es ! k) \<le> i" "e_addr e \<notin> set (map e_addr es)"
  defines "C \<equiv> hop (ins c e es) u i" and "D \<equiv> hop (ins c e es) (Suc c) i"
  shows "fst C = Some (e_addr e) \<longleftrightarrow> i < e_ht e"
    "(if fst C = Some (e_addr e) then (fst D, snd C + (snd D - 1)) else (fst C, snd C - 1)) = hop es u i"
proof -
  have u: "u \<le> length es" using assms by simp
  have at: "hop (ins c e es) u i =
    (if i < e_ht e then (Some (e_addr e), int c - int u + 1) else (fst (hop es u i), snd (hop es u i) + 1))"
    using assms by (intro link_ins_at) auto
  have new: "hop (ins c e es) (Suc c) i = (fst (hop es u i), snd (hop es u i) - (int c - int u))"
    using assms by (intro link_ins_new) auto
  have "fst (hop es u i) \<noteq> Some (e_addr e)" using link_target [OF u] assms(4) by blast
  then show f: "fst C = Some (e_addr e) \<longleftrightarrow> i < e_ht e" unfolding C_def at by simp
  show "(if fst C = Some (e_addr e) then (fst D, snd C + (snd D - 1)) else (fst C, snd C - 1)) = hop es u i"
    unfolding f unfolding C_def D_def at new by simp
qed

lemma lower_shape:
  assumes "shape h hdr lv es"
  shows "\<exists>lv'. lower_level h hdr lv = Some lv' \<and> lv' \<le> lv \<and> shape h hdr lv' es"
  using assms
proof (induction lv)
  case 0
  then show ?case by (simp add: shape_def)
next
  case (Suc i)
  show ?case
  proof (cases "1 < Suc i \<and> fst (hop es 0 i) = None")
    case True
    have c: "cell h hdr i = Some (hop es 0 i)" using shape_cell [OF Suc.prems, of 0 i] by (simp add: pos_addr_def pos_ht_def)
    have "gap es 0 i = length es" using True gap_le [of 0 es i] by (auto simp: hop_def Let_def split: if_splits)
    then have "e_ht (es ! k) \<le> i" if "k < length es" for k using gap_low [of 0 es k i] that by simp
    then have low: "\<forall>e \<in> set es. e_ht e \<le> i" by (metis in_set_conv_nth)
    have pos: "pos_ht i es p \<le> pos_ht (Suc i) es p" for p by (simp add: pos_ht_def)
    have high: "\<exists>s. cell h hdr j = Some (None, s)" if "i \<le> j" "j < SKIPLIST_MAXLEVEL" for j
    proof (cases "i = j")
      case True
      then show ?thesis using c \<open>1 < Suc i \<and> fst (hop es 0 i) = None\<close> by (metis prod.collapse)
    next
      case False
      then show ?thesis using that Suc.prems unfolding shape_def by (metis le_neq_implies_less Suc_leI)
    qed
    have "cell h (pos_addr hdr es p) j = Some (hop es p j)" if "p \<le> length es" "j < pos_ht i es p" for p j
      by (rule shape_cell [OF Suc.prems that(1) less_le_trans [OF that(2) pos]])
    then have "shape h hdr i es" using Suc.prems True low high unfolding shape_def by auto
    from Suc.IH [OF this] True c show ?thesis by auto
  next
    case False
    have "cell h hdr i = Some (hop es 0 i)" using shape_cell [OF Suc.prems, of 0 i] by (simp add: pos_addr_def pos_ht_def)
    then show ?thesis using False Suc.prems by auto
  qed
qed

text \<open>The array \<^verbatim>\<open>update\<close> of a deletion behind position \<open>c\<close>.\<close>

definition path :: "(nat \<times> int) list \<Rightarrow> nat \<Rightarrow> nat \<Rightarrow> 's elem list \<Rightarrow> nat \<Rightarrow> bool" where
  "path us hdr lv es c \<longleftrightarrow> (\<forall>i < lv. i < length us \<and> (\<exists>q. fst (us ! i) = pos_addr hdr es q \<and> i < pos_ht lv es q \<and> stop_at es c i q))"

lemma path_lower:
  assumes "path us hdr lv es c" "lv' \<le> lv"
  shows "path us hdr lv' es c"
  unfolding path_def
proof (intro allI impI)
  fix i assume i: "i < lv'"
  then obtain q where q: "i < length us" "fst (us ! i) = pos_addr hdr es q" "i < pos_ht lv es q" "stop_at es c i q"
    using assms unfolding path_def by (meson less_le_trans)
  then have "i < pos_ht lv' es q" using i by (simp add: pos_ht_def split: if_splits)
  then show "i < length us \<and> (\<exists>q. fst (us ! i) = pos_addr hdr es q \<and> i < pos_ht lv' es q \<and> stop_at es c i q)" using q by blast
qed

lemma path_ins:
  assumes "c \<le> length es"
  shows "path us hdr lv (ins c e es) c \<longleftrightarrow> path us hdr lv es c"
proof -
  have "(a = pos_addr hdr (ins c e es) q \<and> i < pos_ht lv (ins c e es) q \<and> stop_at es c i q)
    \<longleftrightarrow> (a = pos_addr hdr es q \<and> i < pos_ht lv es q \<and> stop_at es c i q)" for a i q
  proof (cases "q \<le> c")
    case True
    then show ?thesis using pos_ins(1) [OF assms True, of hdr e lv] by simp
  next
    case False
    then show ?thesis by (simp add: stop_at_def)
  qed
  then show ?thesis unfolding path_def stop_at_ins [OF assms] by (simp only:)
qed

lemma unlink_all:
  assumes shape: "shape h hdr L (ins c e es)" and c: "c \<le> length es" and path: "path us hdr L es c"
  shows "\<exists>h' U. for_each (unlink_step (e_addr e) us) [0..<L] h = Some h' \<and> meta h' = meta h
    \<and> (\<forall>i < L. i < pos_ht L es (U i) \<and> stop_at es c i (U i))
    \<and> (\<forall>y j. cell h' y j = (if j < L \<and> y = pos_addr hdr es (U j) then Some (hop es (U j) j) else cell h y j))"
proof -
  obtain U where U: "\<And>i. i < L \<Longrightarrow> i < length us \<and> fst (us ! i) = pos_addr hdr es (U i) \<and> i < pos_ht L es (U i) \<and> stop_at es c i (U i)"
    using path unfolding path_def by metis
  have "distinct (hdr # map e_addr (ins c e es))" using shape by (simp add: shape_def)
  note fresh = ins_fresh [OF this]
  let ?C = "\<lambda>i. hop (ins c e es) (U i) i" and ?D = "\<lambda>i. hop (ins c e es) (Suc c) i"
  have u: "U i \<le> c" "\<And>k. U i \<le> k \<Longrightarrow> k < c \<Longrightarrow> e_ht (es ! k) \<le> i" if "i < L" for i using U [OF that] by (auto simp: stop_at_def)
  have notin: "e_addr e \<notin> set (map e_addr es)" using fresh(1) by simp
  note links = unlink_links [OF c u notin]
  have "\<exists>h'. for_each (unlink_step (e_addr e) us) [0..<L] h = Some h' \<and> meta h' = meta h \<and>
    (\<forall>y j. cell h' y j = (if j < L \<and> y = pos_addr hdr es (U j) then
        Some (if fst (?C j) = Some (e_addr e) then (fst (?D j), snd (?C j) + (snd (?D j) - 1)) else (fst (?C j), snd (?C j) - 1))
      else cell h y j))"
  proof (rule unlink_loop)
    fix i assume i: "i < L"
    show "i < length us \<and> fst (us ! i) = pos_addr hdr es (U i)" using U [OF i] by simp
    have "cell h (pos_addr hdr (ins c e es) (U i)) i = Some (?C i)"
      by (rule shape_cell [OF shape]) (use U [OF i] pos_ins(1) [OF c u(1) [OF i], of hdr e L] u(1) [OF i] c in simp_all)
    then show "cell h (pos_addr hdr es (U i)) i = Some (?C i)" using pos_ins(1) [OF c u(1) [OF i], of hdr e L] by simp
    show "pos_addr hdr es (U i) \<noteq> e_addr e" 
      using pos_addr_in [of "U i" es hdr] fresh(1) order_trans [OF u(1) [OF i] c] by metis
    assume "fst (?C i) = Some (e_addr e)"
    then have "i < e_ht e" using links(1) [OF i i] by simp
    then have "cell h (pos_addr hdr (ins c e es) (Suc c)) i = Some (?D i)"
      by (intro shape_cell [OF shape]) (use pos_ins(2) [OF c, of hdr e L] c in simp_all)
    then show "cell h (e_addr e) i = Some (?D i)" using pos_ins(2) [OF c, of hdr e L] by simp
  qed
  then obtain h' where h': "for_each (unlink_step (e_addr e) us) [0..<L] h = Some h'" "meta h' = meta h"
    "\<And>y j. cell h' y j = (if j < L \<and> y = pos_addr hdr es (U j) then
        Some (if fst (?C j) = Some (e_addr e) then (fst (?D j), snd (?C j) + (snd (?D j) - 1)) else (fst (?C j), snd (?C j) - 1))
      else cell h y j)" by blast
  have "cell h' y j = (if j < L \<and> y = pos_addr hdr es (U j) then Some (hop es (U j) j) else cell h y j)" for y j
    using links(2) [of j] by (simp only: h'(3) cong: if_cong conj_cong)
  then show ?thesis using h'(1,2) U by blast
qed

lemma shape_meta: "shape h hdr lv es \<Longrightarrow> k < length es \<Longrightarrow> meta h (e_addr (es ! k)) = Some (node_meta hdr es k)"
  by (simp add: shape_def)

lemma heap_drop: "cell (h(x := None)) y j = (if y = x then None else cell h y j)" "meta (h(x := None)) = (meta h)(x := None)"
  by (auto simp: cell_def meta_def)

lemma lower_level_cong: "(\<And>i. cell h hdr i = cell h' hdr i) \<Longrightarrow> lower_level h hdr lv = lower_level h' hdr lv"
  by (induction lv) (simp_all cong: if_cong)

lemma ins_tail:
  assumes "c \<le> length es"
  shows "(if c < length es then Some (e_addr (last (ins c e es))) else if c = 0 then None else Some (e_addr (es ! (c - 1))))
    = (if es = [] then None else Some (e_addr (last es)))"
proof (cases "c < length es")
  case True
  then show ?thesis by (auto simp: ins_def)
next
  case False
  then show ?thesis using assms by (auto simp: last_conv_nth)
qed

lemma sorted_ins_rest:
  assumes "sorted (map f (ins c e es))"
  shows "sorted (map f es)"
proof -
  have "sorted (map f (take c es) @ f e # map f (drop c es))" using assms by (simp add: ins_def)
  then have "sorted (map f (take c es) @ map f (drop c es))" by (auto simp: sorted_append)
  then show ?thesis by (simp flip: map_append)
qed

lemma delete_node:
  fixes sl :: "'s :: linorder skiplist"
  assumes inv: "skiplist_inv sl (ins c e es)" and c: "c \<le> length es" and path: "path us (sl_header sl) (sl_level sl) es c"
  shows "\<exists>sl' n. slDeleteNode (e_addr e) us sl = Some sl' \<and> sl_heap sl' (e_addr e) = Some n \<and> n_obj n = Some (e_obj e)
    \<and> skiplist_inv (slFreeNode (e_addr e) sl') es \<and> sl_header sl' = sl_header sl \<and> path us (sl_header sl) (sl_level sl') es c"
proof -
  let ?x = "e_addr e" and ?hdr = "sl_header sl" and ?L = "sl_level sl"
  let ?b = "if c = 0 then None else Some (e_addr (es ! (c - 1)))"
  have shape: "shape (sl_heap sl) ?hdr ?L (ins c e es)" using inv by (simp add: skiplist_inv_def)
  then have "distinct (?hdr # map e_addr (ins c e es))" by (simp add: shape_def)
  note fresh = ins_fresh [OF this]
  obtain h1 U where h1: "for_each (unlink_step ?x us) [0..<?L] (sl_heap sl) = Some h1" "meta h1 = meta (sl_heap sl)"
    "\<forall>i < ?L. i < pos_ht ?L es (U i) \<and> stop_at es c i (U i)"
    "\<forall>y j. cell h1 y j = (if j < ?L \<and> y = pos_addr ?hdr es (U j) then Some (hop es (U j) j) else cell (sl_heap sl) y j)"
    using unlink_all [OF shape c path] by blast
  have cs: "c < length (ins c e es)" using c by simp
  have mx: "meta h1 ?x = Some (Some (e_obj e), e_score e, ?b, e_ht e)"
    using shape_meta [OF shape cs] c h1(2) by (simp add: ins_nth ins_meta)
  then obtain n where n: "h1 ?x = Some n" "n_obj n = Some (e_obj e)" "n_backward n = ?b" by (auto simp: meta_def)
  have eh: "0 < e_ht e" using shape by (auto simp: shape_def set_ins)
  have "0 < ?L" using shape by (simp add: shape_def)
  then have "U 0 \<le> length es" using h1(3) c by (auto simp: stop_at_def)
  then have "pos_addr ?hdr es (U 0) \<noteq> ?x" using pos_addr_in [of "U 0" es ?hdr] fresh(1) by metis
  then have "cell h1 ?x 0 = cell (sl_heap sl) (pos_addr ?hdr (ins c e es) (Suc c)) 0" using h1(4) pos_ins(2) [OF c, of ?hdr e ?L] by simp
  also have "\<dots> = Some (hop (ins c e es) (Suc c) 0)"
    by (rule shape_cell [OF shape]) (use c pos_ins(2) [OF c, of ?hdr e ?L] eh in simp_all)
  finally have cx: "cell h1 ?x 0 = Some (hop (ins c e es) (Suc c) 0)" .
  have "fst (hop (ins c e es) (Suc c) 0) = (if c < length es then Some (e_addr (es ! c)) else None)"
    using link_level0 [OF shape, of "Suc c"] c by (simp add: ins_nth)
  then have c0: "\<exists>s. cell h1 ?x 0 = Some (if c < length es then Some (e_addr (es ! c)) else None, s)" using cx by (metis prod.collapse)
  define y where "y = e_addr (es ! c)"
  obtain h2 where h2: "(if c < length es then set_backward y ?b h1 else Some h1) = Some h2" "cell h2 = cell h1"
    "\<And>z. meta h2 z = (if c < length es \<and> z = y then Some (node_meta ?hdr es c) else meta h1 z)" "h2 ?x = Some n"
  proof (cases "c < length es")
    case True
    have y: "y \<noteq> ?x" using fresh(1) imageI [OF nth_mem [OF True], of e_addr] by (auto simp: y_def)
    have "meta h1 y = Some (with_backward (Some ?x) (node_meta ?hdr es c))"
      using shape_meta [OF shape, of "Suc c"] True c h1(2) by (simp add: ins_nth ins_meta y_def)
    from set_backward_ok [OF this, of ?b] obtain h2 where h2: "set_backward y ?b h1 = Some h2" "cell h2 = cell h1"
      "meta h2 = (meta h1)(y \<mapsto> with_backward ?b (with_backward (Some ?x) (node_meta ?hdr es c)))" by blast
    moreover have "with_backward ?b (with_backward (Some ?x) (node_meta ?hdr es c)) = node_meta ?hdr es c"
      by (simp add: with_backward_def node_meta_def Let_def)
    moreover have "h2 ?x = Some n" using h2(1) n(1) y by (auto simp: set_backward_def split: bind_splits)
    ultimately show thesis using True by (intro that [of h2]) simp_all
  next
    case False
    then show thesis using n(1) by (intro that [of h1]) simp_all
  qed
  have sh2: "shape (h2(?x := None)) ?hdr ?L es"
    by (rule deleted_shape [OF shape c]) (use h1 h2 in \<open>auto simp: heap_drop y_def\<close>)
  obtain lv where lv: "lower_level (h2(?x := None)) ?hdr ?L = Some lv" "lv \<le> ?L" "shape (h2(?x := None)) ?hdr lv es"
    using lower_shape [OF sh2] by blast
  have low: "lower_level h2 ?hdr ?L = Some lv"
    using lv(1) lower_level_cong [of h2 ?hdr "h2(?x := None)"] fresh(1) by (simp add: heap_drop)
  let ?tail = "if c < length es then sl_tail sl else ?b"
  let ?sl = "sl\<lparr>sl_heap := h2, sl_tail := ?tail, sl_level := lv, sl_length := sl_length sl - 1\<rparr>"
  have "slDeleteNode ?x us sl = Some ?sl"
    using h1(1) n c0 h2(1) low y_def by (auto simp: slDeleteNode_def split: if_splits)
  moreover have "skiplist_inv (slFreeNode ?x ?sl) es"
  proof -
    have "ins c e es \<noteq> []" using cs by auto
    then have "sl_tail sl = Some (e_addr (last (ins c e es)))" using inv by (simp add: skiplist_inv_def)
    then have "?tail = (if es = [] then None else Some (e_addr (last es)))" using ins_tail [OF c, of e] by (simp only:)
    moreover have "sorted (map e_key es)" using inv sorted_ins_rest unfolding skiplist_inv_def by blast
    ultimately show ?thesis using inv lv(3) c by (simp add: skiplist_inv_def slFreeNode_def set_ins)
  qed
  ultimately show ?thesis using h2(4) n(2) path_lower [OF path lv(2)] by auto
qed

section \<open>The ranking that a skip list holds\<close>

text \<open>
  The abstract state of a skip list is the sorted list of its keys; the operations are the ones of
  sorted lists.
\<close>

definition ranking :: "'s :: linorder skiplist \<Rightarrow> ('s \<times> bytes) list \<Rightarrow> bool" where
  "ranking sl ks \<longleftrightarrow> (\<exists>es. skiplist_inv sl es \<and> ks = map e_key es)"

lemma rankingI: "skiplist_inv sl es \<Longrightarrow> ks = map e_key es \<Longrightarrow> ranking sl ks"
  by (auto simp: ranking_def)

lemma ranking_sorted: "ranking sl ks \<Longrightarrow> sorted ks \<and> sl_length sl = length ks"
  by (auto simp: ranking_def skiplist_inv_def)

lemma slCreate_ranking: "ranking (slCreate junk a zero) []"
proof (rule rankingI [where es = "[]"])
  have "cell (sl_heap (slCreate junk a zero)) a i = (if i < SKIPLIST_MAXLEVEL then Some (None, 0) else None)" for i
    by (simp add: slCreate_def cell_def array_get_def)
  moreover have "gap [] 0 i = 0" for i by (simp add: gap_def)
  ultimately show "skiplist_inv (slCreate junk a zero) []"
    by (auto simp: skiplist_inv_def shape_def slCreate_def slCreateNode_def meta_def pos_ht_def pos_addr_def hop_def SKIPLIST_MAXLEVEL_def)
qed simp

lemma random_levels_stop:
  assumes "\<not> random (k + d - 1) AND 0xffff \<le> 16383" "1 \<le> k"
  shows "\<exists>level. random_levels random k = Some level"
  using assms
proof (induction d arbitrary: k)
  case 0
  then show ?case by (subst random_levels.simps) simp
next
  case (Suc d)
  have "\<exists>level. random_levels random (k + 1) = Some level" by (rule Suc.IH) (use Suc.prems in simp_all)
  then show ?case by (subst random_levels.simps) auto
qed

lemma slRandomLevel_stop:
  assumes "\<not> random k AND 0xffff \<le> 16383"
  shows "\<exists>level. slRandomLevel random = Some level"
  using random_levels_stop [of random 1 k] assms by (auto simp: slRandomLevel_def)

lemma insort_cut: "insort k xs = takeWhile (\<lambda>y. y < k) xs @ k # dropWhile (\<lambda>y. y < k) xs"
  by (induction xs) auto

lemma ins_insort:
  assumes "e_key e = k"
  shows "map e_key (ins (cut_before es k) e es) = insort k (map e_key es)"
  unfolding insort_cut using assms
  by (simp add: ins_def cut_before_def takeWhile_map dropWhile_map comp_def flip: takeWhile_eq_take dropWhile_eq_drop)

lemma insert_ranking:
  assumes "ranking sl ks" "length obj < 2 ^ 31" "sl_heap sl x = None" "slRandomLevel random = Some level"
  shows "\<exists>sl'. slInsert junk random x score obj sl = Some sl' \<and> ranking sl' (insort (score, obj) ks)"
proof -
  obtain es where es: "skiplist_inv sl es" "ks = map e_key es" using assms(1) by (auto simp: ranking_def)
  let ?e = "\<lparr>e_addr = x, e_ht = level, e_score = score, e_obj = obj\<rparr>"
  have "e_key ?e = (score, obj)" by (simp add: e_key_def)
  from ins_insort [OF this, of es] show ?thesis
    using insert_inv [OF es(1) assms(2-4), of junk score] es(2) by (metis rankingI)
qed

lemma sorted_member:
  assumes "sorted (map e_key es)"
  shows "k \<in> set (map e_key es) \<longleftrightarrow> cut_before es k < length es \<and> e_key (es ! cut_before es k) = k"
proof
  let ?c = "cut_before es k"
  assume "k \<in> set (map e_key es)"
  then obtain q where q: "q < length es" "e_key (es ! q) = k" by (auto simp: in_set_conv_nth)
  then have "?c \<le> q" using sorted_cut(1) [OF assms q(1), of k] by (simp add: cut_before_def not_less)
  then have c: "?c < length es" using q(1) by simp
  moreover have "\<not> e_key (es ! ?c) < k" using sorted_cut(1) [OF assms c, of k] by (simp add: cut_before_def)
  moreover have "e_key (es ! ?c) \<le> k" using sorted_nth_mono [OF assms \<open>?c \<le> q\<close>] q c by simp
  ultimately show "?c < length es \<and> e_key (es ! ?c) = k" by simp
next
  assume "cut_before es k < length es \<and> e_key (es ! cut_before es k) = k"
  then show "k \<in> set (map e_key es)" by (metis length_map nth_map nth_mem)
qed

definition del :: "nat \<Rightarrow> 'a list \<Rightarrow> 'a list" where
  "del c es = take c es @ drop (Suc c) es"

lemma ins_del: "c < length es \<Longrightarrow> ins c (es ! c) (del c es) = es" "c < length es \<Longrightarrow> c \<le> length (del c es)"
  by (simp_all add: ins_def del_def id_take_nth_drop [symmetric])

lemma del_remove1:
  assumes "c = cut_before es k" "c < length es" "e_key (es ! c) = k"
  shows "map e_key (del c es) = remove1 k (map e_key es)"
proof -
  have "take c (map e_key es) = takeWhile (\<lambda>y. y < k) (map e_key es)"
    using assms(1) by (simp add: cut_before_def takeWhile_map comp_def take_map flip: takeWhile_eq_take)
  then have "k \<notin> set (take c (map e_key es))" using set_takeWhileD by fastforce
  moreover have "map e_key es = take c (map e_key es) @ k # drop (Suc c) (map e_key es)"
    using id_take_nth_drop [of c "map e_key es"] assms(2,3) by simp
  ultimately have "remove1 k (map e_key es) = take c (map e_key es) @ drop (Suc c) (map e_key es)"
    by (metis remove1_append remove1.simps(2))
  then show ?thesis by (simp add: del_def take_map drop_map)
qed

lemma search_path:
  assumes "length us = lv" "\<forall>i < lv. \<exists>q. us ! i = (pos_addr hdr es q, int q) \<and> i < pos_ht lv es q \<and> stop_at es c i q"
  shows "path us hdr lv es c"
  using assms unfolding path_def by (metis fst_conv)

lemma level0_cell:
  assumes "shape h hdr lv es" "c \<le> length es"
  shows "\<exists>s. cell h (pos_addr hdr es c) 0 = Some (if c < length es then Some (e_addr (es ! c)) else None, s)"
  using shape_cell [OF assms, of 0] shape_ht [OF assms] link_level0 [OF assms] by simp

lemma delete_ranking:
  assumes "ranking sl ks" "length obj < 2 ^ 31"
  shows "\<exists>sl'. slDelete score obj sl = Some ((score, obj) \<in> set ks, sl') \<and> ranking sl' (remove1 (score, obj) ks)"
proof -
  obtain es where inv: "skiplist_inv sl es" and ks: "ks = map e_key es" using assms(1) by (auto simp: ranking_def)
  let ?c = "cut_before es (score, obj)"
  have shape: "shape (sl_heap sl) (sl_header sl) (sl_level sl) es" and sorted: "sorted (map e_key es)"
    using inv by (simp_all add: skiplist_inv_def)
  obtain us where us: "descend (key_before score obj) (sl_heap sl) (sl_level sl) (sl_header sl, 0)
      = Some ((pos_addr (sl_header sl) es ?c, int ?c), us)" "path us (sl_header sl) (sl_level sl) es ?c"
    using search_stops [OF key_before_search [OF inv assms(2)]] search_path by blast
  obtain s where s: "cell (sl_heap sl) (pos_addr (sl_header sl) es ?c) 0
      = Some (if ?c < length es then Some (e_addr (es ! ?c)) else None, s)" using level0_cell [OF shape cut_before_le] by blast
  show ?thesis
  proof (cases "?c < length es")
    case False
    then have "(score, obj) \<notin> set ks" using sorted_member [OF sorted] ks by blast
    then show ?thesis using assms(1) us(1) s False by (simp add: slDelete_def remove1_idem)
  next
    case True
    obtain n where n: "sl_heap sl (e_addr (es ! ?c)) = Some n" "n_obj n = Some (e_obj (es ! ?c))" "n_score n = e_score (es ! ?c)"
      using shape_node [OF shape True] by blast
    have short: "length (e_obj (es ! ?c)) < 2 ^ 31" using inv True by (simp add: skiplist_inv_def)
    have found: "(score, obj) \<in> set ks \<longleftrightarrow> score = n_score n \<and> equalslObj (e_obj (es ! ?c)) obj"
      using sorted_member [OF sorted, of "(score, obj)"] True n ks
      by (auto simp: equalslObj_def compareslObj_lex(2) [OF short assms(2)] e_key_def)
    show ?thesis
    proof (cases "(score, obj) \<in> set ks")
      case False
      then show ?thesis using assms(1) us(1) s True n found by (auto simp: slDelete_def remove1_idem)
    next
      case member: True
      let ?e = "es ! ?c" and ?d = "del ?c es"
      have "skiplist_inv sl (ins ?c ?e ?d)" "path us (sl_header sl) (sl_level sl) ?d ?c"
        using inv us(2) path_ins [OF ins_del(2) [OF True], of us _ _ ?e] by (simp_all add: ins_del(1) True)
      from delete_node [OF this(1) ins_del(2) [OF True] this(2)]
      obtain sl' where sl': "slDeleteNode (e_addr ?e) us sl = Some sl'" "skiplist_inv (slFreeNode (e_addr ?e) sl') ?d" by blast
      have "e_key ?e = (score, obj)" using member sorted_member [OF sorted] ks by blast
      then have "ranking (slFreeNode (e_addr ?e) sl') (remove1 (score, obj) ks)"
        using sl'(2) ks del_remove1 [OF refl True] by (metis rankingI)
      then show ?thesis using us(1) s True n member found sl'(1) by (auto simp: slDelete_def)
    qed
  qed
qed

text \<open>Deleting by rank: the search stops in front of the first rank, and the same path serves all deletions.\<close>

lemma rank_search:
  assumes "shape h hdr lv es" "\<And>q n. q < length es \<Longrightarrow> P n (int q + 1) = Some (q < c)" "c \<le> length es"
  shows "search_to P h hdr lv es c"
  using assms by (simp add: search_to_def)

lemma delete_ranks_run:
  fixes sl :: "'s :: linorder skiplist"
  assumes "skiplist_inv sl es" "c \<le> length es" "path us (sl_header sl) (sl_level sl) es c"
  shows "\<exists>sl'. delete_ranks end us (if c < length es then Some (e_addr (es ! c)) else None) t sl
      = Some (map e_obj (take (Suc end - t) (drop c es)), sl')
    \<and> skiplist_inv sl' (take c es @ drop (c + (Suc end - t)) es)"
  using assms
proof (induction "length es - c" arbitrary: sl es t)
  case 0
  then show ?case by (subst delete_ranks.simps) simp
next
  case (Suc d)
  then have c: "c < length es" by simp
  show ?case
  proof (cases "t \<le> end")
    case False
    then show ?thesis using c Suc.prems(1) by (subst delete_ranks.simps) simp
  next
    case True
    let ?e = "es ! c" and ?d = "del c es"
    have shape: "shape (sl_heap sl) (sl_header sl) (sl_level sl) es" using Suc.prems(1) by (simp add: skiplist_inv_def)
    note cd = ins_del(2) [OF c]
    have "skiplist_inv sl (ins c ?e ?d)" "path us (sl_header sl) (sl_level sl) ?d c"
      using Suc.prems path_ins [OF cd, of us _ _ ?e] by (simp_all add: ins_del(1) c)
    from delete_node [OF this(1) cd this(2)]
    obtain sl1 n where sl1: "slDeleteNode (e_addr ?e) us sl = Some sl1" "sl_heap sl1 (e_addr ?e) = Some n" "n_obj n = Some (e_obj ?e)"
      "skiplist_inv (slFreeNode (e_addr ?e) sl1) ?d" "sl_header sl1 = sl_header sl" "path us (sl_header sl) (sl_level sl1) ?d c" by blast
    obtain s where s: "cell (sl_heap sl) (e_addr ?e) 0 = Some (if Suc c < length es then Some (e_addr (es ! Suc c)) else None, s)"
      using level0_cell [OF shape, of "Suc c"] c by (auto simp: pos_addr_def)
    have nth: "Suc c < length es \<Longrightarrow> ?d ! c = es ! Suc c" using c by (simp add: del_def nth_append)
    have len: "length ?d = length es - 1" using c by (simp add: del_def)
    have next_ptr: "(if c < length ?d then Some (e_addr (?d ! c)) else None) = (if Suc c < length es then Some (e_addr (es ! Suc c)) else None)"
      using nth len c by auto
    have "\<exists>sl'. delete_ranks end us (if c < length ?d then Some (e_addr (?d ! c)) else None) (t + 1) (slFreeNode (e_addr ?e) sl1)
        = Some (map e_obj (take (Suc end - (t + 1)) (drop c ?d)), sl') \<and> skiplist_inv sl' (take c ?d @ drop (c + (Suc end - (t + 1))) ?d)"
      by (rule Suc.hyps(1)) (use Suc.hyps(2) len sl1 cd in \<open>simp_all add: slFreeNode_def\<close>)
    then obtain sl' where sl': "delete_ranks end us (if Suc c < length es then Some (e_addr (es ! Suc c)) else None) (t + 1) (slFreeNode (e_addr ?e) sl1)
        = Some (map e_obj (take (end - t) (drop c ?d)), sl')" "skiplist_inv sl' (take c ?d @ drop (c + (end - t)) ?d)"
      unfolding next_ptr by auto
    have "drop c es = ?e # drop c ?d" using c by (simp add: del_def Cons_nth_drop_Suc)
    then have objs: "map e_obj (take (Suc end - t) (drop c es)) = e_obj ?e # map e_obj (take (end - t) (drop c ?d))"
      using True by (simp add: Suc_diff_le)
    have "take c ?d = take c es" "drop (c + (end - t)) ?d = drop (c + (Suc end - t)) es"
      using True c by (simp_all add: del_def Suc_diff_le add.commute)
    then show ?thesis using sl' objs c s sl1 True by (subst delete_ranks.simps) (simp add: slFreeNode_def)
  qed
qed

lemma delete_by_rank_ranking:
  assumes "ranking sl ks" "start \<le> end"
  defines "c \<equiv> start - 1"
  shows "\<exists>sl'. slDeleteByRank start end sl = Some (map snd (take (end - c) (drop c ks)), sl') \<and> ranking sl' (take c ks @ drop end ks)"
proof -
  obtain es where inv: "skiplist_inv sl es" and ks: "ks = map e_key es" using assms(1) by (auto simp: ranking_def)
  let ?c = "min c (length es)"
  have shape: "shape (sl_heap sl) (sl_header sl) (sl_level sl) es" using inv by (simp add: skiplist_inv_def)
  have "search_to (\<lambda>n r. Some (r < int start)) (sl_heap sl) (sl_header sl) (sl_level sl) es ?c"
    by (rule rank_search [OF shape]) (auto simp: c_def)
  from search_stops [OF this] obtain us where us: "descend (\<lambda>n r. Some (r < int start)) (sl_heap sl) (sl_level sl) (sl_header sl, 0)
      = Some ((pos_addr (sl_header sl) es ?c, int ?c), us)" "path us (sl_header sl) (sl_level sl) es ?c"
    using search_path by blast
  obtain s where s: "cell (sl_heap sl) (pos_addr (sl_header sl) es ?c) 0
      = Some (if ?c < length es then Some (e_addr (es ! ?c)) else None, s)" using level0_cell [OF shape, of ?c] by auto
  obtain sl' where sl': "delete_ranks end us (if ?c < length es then Some (e_addr (es ! ?c)) else None) (?c + 1) sl
      = Some (map e_obj (take (Suc end - (?c + 1)) (drop ?c es)), sl')"
    "skiplist_inv sl' (take ?c es @ drop (?c + (Suc end - (?c + 1))) es)"
    using delete_ranks_run [OF inv _ us(2)] by fastforce
  have "slDeleteByRank start end sl = Some (map e_obj (take (end - ?c) (drop ?c es)), sl')"
    unfolding slDeleteByRank_def using us(1) s sl'(1) by (simp del: min_less_iff_conj)
  moreover have "map e_obj (take (end - ?c) (drop ?c es)) = map snd (take (end - c) (drop c ks))"
    by (cases "c \<le> length es") (auto simp: ks min_def take_map drop_map e_key_def)
  moreover have "take c ks @ drop end ks = map e_key (take ?c es @ drop (?c + (Suc end - (?c + 1))) es)"
    using assms(2) by (cases "c \<le> length es") (auto simp: ks min_def take_map drop_map c_def)
  ultimately show ?thesis using sl'(2) by (metis rankingI)
qed

section \<open>Queries\<close>

lemma node_loop_finds:
  assumes search: "search_to (\<lambda>n r. Some (r \<le> int k)) h hdr lv es k" and "p \<le> k" "m \<le> pos_ht lv es p" "0 < m"
  shows "node_loop (int k) h m (pos_addr hdr es p, int p) = Some (Some (pos_addr hdr es k))"
  using assms(2-)
proof (induction m arbitrary: p)
  case (Suc m)
  have "m < pos_ht lv es p" using Suc.prems by simp
  from seek_stops [OF search Suc.prems(1) this]
  obtain q where q: "seek (\<lambda>n r. Some (r \<le> int k)) h m (pos_addr hdr es p) (int p) = Some (pos_addr hdr es q, int q)"
    "m < pos_ht lv es q" "stop_at es k m q" by blast
  show ?case
  proof (cases "q = k")
    case True
    then show ?thesis using q(1) by simp
  next
    case False
    have "m \<noteq> 0" using stop_at_0 [of h hdr lv es k q] q(3) False search unfolding search_to_def by metis
    then show ?thesis using q False Suc.IH [of q] by (auto simp: stop_at_def)
  qed
qed simp

lemma node_by_rank:
  assumes "skiplist_inv sl es"
  shows "slGetNodeByRank rank sl = Some (if 1 \<le> rank \<and> rank \<le> length es then Some (e_addr (es ! (rank - 1))) else None)"
proof (cases "1 \<le> rank \<and> rank \<le> length es")
  case True
  have shape: "shape (sl_heap sl) (sl_header sl) (sl_level sl) es" and len: "sl_length sl = length es"
    using assms by (simp_all add: skiplist_inv_def)
  have search: "search_to (\<lambda>n r. Some (r \<le> int rank)) (sl_heap sl) (sl_header sl) (sl_level sl) es rank"
    by (rule rank_search [OF shape]) (use True in auto)
  have "node_loop (int rank) (sl_heap sl) (sl_level sl) (pos_addr (sl_header sl) es 0, int 0) = Some (Some (pos_addr (sl_header sl) es rank))"
    by (rule node_loop_finds [OF search]) (use shape in \<open>simp_all add: pos_ht_def shape_def\<close>)
  then show ?thesis using True len by (simp add: slGetNodeByRank_def pos_addr_def)
qed (use assms in \<open>auto simp: slGetNodeByRank_def skiplist_inv_def\<close>)

definition cut_upto :: "'s :: linorder elem list \<Rightarrow> 's \<times> bytes \<Rightarrow> nat" where
  "cut_upto es k = length (takeWhile (\<lambda>e. e_key e \<le> k) es)"

lemma cut_upto_le: "cut_upto es k \<le> length es"
  by (simp add: cut_upto_def length_takeWhile_le)

lemma key_upto_search:
  assumes "skiplist_inv sl es" "length obj < 2 ^ 31"
  shows "search_to (key_upto score obj) (sl_heap sl) (sl_header sl) (sl_level sl) es (cut_upto es (score, obj))"
proof -
  have sh: "shape (sl_heap sl) (sl_header sl) (sl_level sl) es" using assms(1) by (simp add: skiplist_inv_def)
  have "key_upto score obj n (int q + 1) = Some (q < cut_upto es (score, obj))"
    if q: "q < length es" "sl_heap sl (e_addr (es ! q)) = Some n" for q n
  proof -
    have n: "n_obj n = Some (e_obj (es ! q))" "n_score n = e_score (es ! q)" using shape_node [OF sh q(1)] q(2) by auto
    have short: "length (e_obj (es ! q)) < 2 ^ 31" using assms(1) q(1) by (simp add: skiplist_inv_def)
    have "compareslObj (e_obj (es ! q)) obj \<le> 0 \<longleftrightarrow> e_obj (es ! q) \<le> obj"
      using compareslObj_lex [OF short assms(2)] by (auto simp: le_less)
    then have "key_upto score obj n (int q + 1) = Some (e_key (es ! q) \<le> (score, obj))"
      using n by (auto simp: key_upto_def e_key_def less_eq_prod_def)
    then show ?thesis
      using sorted_cut(2) [of es q "(score, obj)"] assms(1) q(1) by (simp add: skiplist_inv_def cut_upto_def)
  qed
  then show ?thesis using sh cut_upto_le by (simp add: search_to_def)
qed

text \<open>The rank of an object: the loop returns the first stop whose object it is.\<close>

lemma rank_loop_finds:
  assumes search: "search_to (key_upto score obj) h hdr lv es k" and short: "\<forall>e \<in> set es. length (e_obj e) < 2 ^ 31" "length obj < 2 ^ 31"
    and hit: "\<And>q. q < k \<Longrightarrow> e_obj (es ! q) = obj \<longleftrightarrow> found \<and> Suc q = k" "found \<Longrightarrow> 0 < k"
    and "p \<le> k" "m \<le> pos_ht lv es p" "0 < m"
  shows "rank_loop score obj h m (pos_addr hdr es p, int p) = Some (if found then int k else 0)"
  using assms(6-)
proof (induction m arbitrary: p)
  case (Suc m)
  have "m < pos_ht lv es p" using Suc.prems by simp
  from seek_stops [OF search Suc.prems(1) this]
  obtain q where q: "seek (key_upto score obj) h m (pos_addr hdr es p) (int p) = Some (pos_addr hdr es q, int q)"
    "m < pos_ht lv es q" "stop_at es k m q" by blast
  have shape: "shape h hdr lv es" and bound: "k \<le> length es" using search by (simp_all add: search_to_def)
  have qk: "q \<le> k" using q(3) by (simp add: stop_at_def)
  have last: "q = k" if "m = 0" using stop_at_0 [OF shape bound] q(3) that by simp
  have node: "\<exists>n. h (pos_addr hdr es q) = Some n \<and>
      ((case n_obj n of Some ob \<Rightarrow> equalslObj ob obj | None \<Rightarrow> False) \<longleftrightarrow> found \<and> q = k)"
  proof (cases q)
    case 0
    obtain n where "h hdr = Some n" "n_obj n = None" using shape by (auto simp: shape_def meta_def)
    then show ?thesis using 0 hit(2) by (auto simp: pos_addr_def)
  next
    case (Suc r)
    then have r: "r < k" "r < length es" using qk bound by simp_all
    obtain n where n: "h (e_addr (es ! r)) = Some n" "n_obj n = Some (e_obj (es ! r))" using shape_node [OF shape r(2)] by blast
    have "equalslObj (e_obj (es ! r)) obj \<longleftrightarrow> e_obj (es ! r) = obj"
      using short r(2) by (simp add: equalslObj_def compareslObj_lex(2))
    also have "\<dots> \<longleftrightarrow> found \<and> q = k" using hit(1) [OF r(1)] Suc by simp
    finally show ?thesis using n Suc by (simp add: pos_addr_def)
  qed
  show ?case
  proof (cases "m = 0")
    case True
    then show ?thesis using node q(1) last by auto
  next
    case False
    then have "rank_loop score obj h m (pos_addr hdr es q, int q) = Some (if found then int k else 0)"
      using Suc.IH [of q] qk q(2) by simp
    then show ?thesis using node q(1) by auto
  qed
qed simp

lemma slGetRank_eval:
  assumes inv: "skiplist_inv sl es" and short: "length obj < 2 ^ 31"
    and hit: "\<And>q. q < cut_upto es (score, obj) \<Longrightarrow> e_obj (es ! q) = obj \<longleftrightarrow> found \<and> Suc q = cut_upto es (score, obj)"
      "found \<Longrightarrow> 0 < cut_upto es (score, obj)"
  shows "slGetRank score obj sl = Some (if found then int (cut_upto es (score, obj)) else 0)"
proof -
  have shape: "shape (sl_heap sl) (sl_header sl) (sl_level sl) es" and shorts: "\<forall>e \<in> set es. length (e_obj e) < 2 ^ 31"
    using inv by (simp_all add: skiplist_inv_def)
  have "rank_loop score obj (sl_heap sl) (sl_level sl) (pos_addr (sl_header sl) es 0, int 0)
      = Some (if found then int (cut_upto es (score, obj)) else 0)"
    by (rule rank_loop_finds [OF key_upto_search [OF inv short] shorts short hit])
       (use shape in \<open>simp_all add: pos_ht_def shape_def\<close>)
  then show ?thesis by (simp add: slGetRank_def pos_addr_def)
qed

lemma get_rank_ranking:
  assumes "ranking sl ks" "length obj < 2 ^ 31" "distinct (map snd ks)"
  shows "j < length ks \<Longrightarrow> ks ! j = (score, obj) \<Longrightarrow> slGetRank score obj sl = Some (int j + 1)"
    "obj \<notin> snd ` set ks \<Longrightarrow> slGetRank score obj sl = Some 0"
proof -
  obtain es where inv: "skiplist_inv sl es" and ks: "ks = map e_key es" using assms(1) by (auto simp: ranking_def)
  let ?k = "(score, obj)"
  have sorted: "sorted (map e_key es)" using inv by (simp add: skiplist_inv_def)
  have objs: "snd (ks ! q) = e_obj (es ! q)" if "q < length es" for q using that by (simp add: ks e_key_def)
  show "slGetRank score obj sl = Some 0" if no: "obj \<notin> snd ` set ks"
  proof -
    have "e_obj (es ! q) \<noteq> obj" if "q < cut_upto es ?k" for q
      using that no cut_upto_le [of es ?k] by (auto simp: ks e_key_def image_iff)
    then show ?thesis using slGetRank_eval [OF inv assms(2), of score False] by simp
  qed
  show "slGetRank score obj sl = Some (int j + 1)" if j: "j < length ks" "ks ! j = ?k"
  proof -
    have je: "j < length es" "e_key (es ! j) = ?k" using j by (simp_all add: ks)
    have uniq: "q = j" if "q < length es" "e_obj (es ! q) = obj" for q
      using that j je assms(3) nth_eq_iff_index_eq [of "map snd ks" q j] by (simp add: ks e_key_def)
    have lt: "j < cut_upto es ?k" using sorted_cut(2) [OF sorted je(1), of ?k] je(2) by (simp add: cut_upto_def)
    have "\<not> Suc j < cut_upto es ?k"
    proof
      assume s: "Suc j < cut_upto es ?k"
      then have len: "Suc j < length es" using cut_upto_le [of es ?k] by simp
      have "e_key (es ! Suc j) \<le> ?k" using sorted_cut(2) [OF sorted len, of ?k] s by (simp add: cut_upto_def)
      moreover have "?k \<le> e_key (es ! Suc j)" using sorted_nth_mono [OF sorted, of j "Suc j"] je len by simp
      ultimately show False using uniq [OF len] by (auto simp: e_key_def)
    qed
    then have cut: "cut_upto es ?k = Suc j" using lt by simp
    have "e_obj (es ! q) = obj \<longleftrightarrow> True \<and> Suc q = cut_upto es ?k" if "q < cut_upto es ?k" for q
      using uniq [of q] that cut je by (auto simp: e_key_def)
    then show ?thesis using slGetRank_eval [OF inv assms(2), of score True] cut by simp
  qed
qed

lemma node_step:
  assumes "shape h hdr lv es" "k < length es"
  shows "\<exists>n c. h (e_addr (es ! k)) = Some n \<and> n_obj n = Some (e_obj (es ! k)) \<and> n_score n = e_score (es ! k)
    \<and> n_backward n = (if k = 0 then None else Some (e_addr (es ! (k - 1))))
    \<and> cell h (e_addr (es ! k)) 0 = Some c \<and> fst c = (if Suc k < length es then Some (e_addr (es ! Suc k)) else None)"
proof -
  obtain s where "cell h (e_addr (es ! k)) 0 = Some (if Suc k < length es then Some (e_addr (es ! Suc k)) else None, s)"
    using level0_cell [OF assms(1), of "Suc k"] assms(2) by (auto simp: pos_addr_def)
  then show ?thesis using shape_node [OF assms] by fastforce
qed

lemma range_loop_forward:
  assumes "shape h hdr lv es"
  shows "range_loop h False m (if k < length es then Some (e_addr (es ! k)) else None) = Some (map e_obj (take m (drop k es)))"
proof (induction m arbitrary: k)
  case (Suc m)
  show ?case
  proof (cases "k < length es")
    case True
    then have "drop k es = es ! k # drop (Suc k) es" by (simp add: Cons_nth_drop_Suc)
    then show ?thesis using node_step [OF assms True] Suc.IH [of "Suc k"] True by auto
  qed simp
qed simp

lemma range_loop_backward:
  assumes "shape h hdr lv es" "k \<le> length es"
  shows "range_loop h True m (if 0 < k then Some (e_addr (es ! (k - 1))) else None) = Some (map e_obj (take m (rev (take k es))))"
  using assms(2)
proof (induction m arbitrary: k)
  case (Suc m)
  show ?case
  proof (cases k)
    case (Suc j)
    then have j: "j < length es" "j \<le> length es" using Suc.prems by simp_all
    then have "rev (take k es) = es ! j # rev (take j es)" using Suc by (simp add: take_Suc_conv_app_nth)
    then show ?thesis using node_step [OF assms(1) j(1)] Suc.IH [OF j(2)] Suc by auto
  qed simp
qed simp

lemma rangelen_exact:
  fixes d :: u64
  assumes "unat d < 2 ^ 31"
  shows "nat (sint (ucast d :: i32)) = unat d"
proof -
  have signed: "sint (word_of_int k :: i32) = k" if "0 \<le> k" "k < 2 ^ 31" for k
    using that by (simp add: signed_of_int signed_take_bit_int_eq_self)
  have "int (unat d) < int (2 ^ 31)" using assms by (simp only: of_nat_less_iff)
  then have "int (unat d) < 2 ^ 31" by simp
  then have "uint d < 2 ^ 31" by (simp only: uint_nat)
  from signed [OF uint_ge_0 this] show ?thesis unfolding ucast_eq unat_eq_nat_uint by (simp only:)
qed

lemma snd_e_key: "snd \<circ> e_key = e_obj"
  by (simp add: fun_eq_iff e_key_def)

lemma get_rank_range_ranking:
  assumes "ranking sl ks" "unat r2 - unat r1 < 2 ^ 31 - 1" "unat r1 - unat r2 < 2 ^ 31 - 1"
  shows "sl_get_rank_range r1 r2 sl = Some (
    if r1 = 0 \<or> length ks < unat r1 then []
    else if r1 \<le> r2 then map snd (take (unat r2 - unat r1 + 1) (drop (unat r1 - 1) ks))
    else map snd (take (unat r1 - unat r2 + 1) (rev (take (unat r1) ks))))"
proof -
  obtain es where inv: "skiplist_inv sl es" and ks: "ks = map e_key es" using assms(1) by (auto simp: ranking_def)
  have shape: "shape (sl_heap sl) (sl_header sl) (sl_level sl) es" using inv by (simp add: skiplist_inv_def)
  have none: "range_loop (sl_heap sl) rev n None = Some []" for rev n by (cases n) simp_all
  have pos: "1 \<le> unat r1 \<longleftrightarrow> r1 \<noteq> 0" unfolding unat_gt_0 [symmetric] by linarith
  have suc: "unat (d + 1) = unat d + 1" if "unat d < 2 ^ 31 - 1" for d :: u64
    using that unat_add_lem [of d 1] by simp
  show ?thesis
  proof (cases "r1 = 0 \<or> length ks < unat r1")
    case True
    then have "slGetNodeByRank (unat r1) sl = Some None" using node_by_rank [OF inv, of "unat r1"] pos by (auto simp: ks)
    then show ?thesis using True none by (simp add: sl_get_rank_range_def)
  next
    case False
    then have r1: "1 \<le> unat r1" "unat r1 \<le> length es" using pos by (auto simp: ks)
    then have node: "slGetNodeByRank (unat r1) sl = Some (Some (e_addr (es ! (unat r1 - 1))))"
      using node_by_rank [OF inv, of "unat r1"] by simp
    show ?thesis
    proof (cases "r1 \<le> r2")
      case True
      have "unat (r2 - r1 + 1) = unat r2 - unat r1 + 1" using suc [of "r2 - r1"] True assms(2) by (simp add: unat_sub)
      moreover have "range_loop (sl_heap sl) False m (Some (e_addr (es ! (unat r1 - 1)))) = Some (map e_obj (take m (drop (unat r1 - 1) es)))" for m
        using range_loop_forward [OF shape, of m "unat r1 - 1"] r1
          less_le_trans [of "unat r1 - 1" "unat r1" "length es"] by (simp cong: if_cong)
      ultimately show ?thesis using False True node rangelen_exact [of "r2 - r1 + 1"] assms(2)
        by (simp add: sl_get_rank_range_def ks take_map drop_map snd_e_key del: range_loop.simps)
    next
      case rev: False
      then have "r2 \<le> r1" by simp
      then have "unat (r1 - r2 + 1) = unat r1 - unat r2 + 1" using suc [of "r1 - r2"] assms(3) by (simp add: unat_sub)
      moreover have "range_loop (sl_heap sl) True m (Some (e_addr (es ! (unat r1 - 1)))) = Some (map e_obj (take m (rev (take (unat r1) es))))" for m
        using range_loop_backward [OF shape r1(2), of m] r1 by simp
      ultimately show ?thesis using False rev node rangelen_exact [of "r1 - r2 + 1"] assms(3)
        by (simp add: sl_get_rank_range_def ks take_map drop_map rev_map snd_e_key del: range_loop.simps)
    qed
  qed
qed

lemma rank_range_truncated: "ranking sl ks \<Longrightarrow> sl_get_rank_range 1 (2 ^ 32) sl = Some []"
  by (auto simp: ranking_def sl_get_rank_range_def node_by_rank)

lemma takeWhile_filter: "sorted_wrt (\<lambda>x y. P y \<longrightarrow> P x) xs \<Longrightarrow> takeWhile P xs = filter P xs"
  by (induction xs) (auto simp: filter_empty_conv)

lemma dropWhile_filter: "sorted_wrt (\<lambda>x y. P y \<longrightarrow> P x) xs \<Longrightarrow> dropWhile P xs = filter (\<lambda>x. \<not> P x) xs"
  by (induction xs) (auto intro!: filter_id_conv [THEN iffD2, symmetric])

lemma sorted_keys_scores:
  fixes es :: "'s :: linorder elem list"
  assumes "sorted (map e_key es)" "\<And>x y. x \<le> y \<Longrightarrow> P y \<Longrightarrow> P x"
  shows "sorted_wrt (\<lambda>x y. P (e_score y) \<longrightarrow> P (e_score x)) es"
proof -
  have "sorted_wrt (\<lambda>x y. e_key x \<le> e_key y) es" using assms(1) by (simp add: sorted_map)
  moreover have "e_key x \<le> e_key y \<Longrightarrow> e_score x \<le> e_score y" for x y :: "'s elem" by (auto simp: e_key_def less_eq_prod_def)
  ultimately show ?thesis using assms(2) by (blast intro: sorted_wrt_mono_rel [rotated])
qed

lemma score_cut:
  assumes sorted: "sorted (map e_key es)" and mono: "\<And>x y. x \<le> y \<Longrightarrow> P y \<Longrightarrow> P x" and q: "q < length es"
  shows "P (e_score (es ! q)) \<longleftrightarrow> q < length (takeWhile (\<lambda>e. P (e_score e)) es)"
proof (rule cut_iff [OF _ q, where Q = "\<lambda>e. P (e_score e)"])
  fix i j assume ij: "i \<le> j" "j < length es" "P (e_score (es ! j))"
  then have "e_key (es ! i) \<le> e_key (es ! j)" using sorted_nth_mono [OF sorted, of i j] by simp
  then have "e_score (es ! i) \<le> e_score (es ! j)" by (auto simp: e_key_def less_eq_prod_def)
  then show "P (e_score (es ! i))" using mono ij(3) by blast
qed

lemma score_search:
  assumes inv: "skiplist_inv sl es" and mono: "\<And>x y. x \<le> y \<Longrightarrow> P y \<Longrightarrow> P x"
  shows "search_to (\<lambda>n r. Some (P (n_score n))) (sl_heap sl) (sl_header sl) (sl_level sl) es (length (takeWhile (\<lambda>e. P (e_score e)) es))"
proof -
  have shape: "shape (sl_heap sl) (sl_header sl) (sl_level sl) es" and sorted: "sorted (map e_key es)"
    using inv by (simp_all add: skiplist_inv_def)
  have "n_score n = e_score (es ! q)" if "q < length es" "sl_heap sl (e_addr (es ! q)) = Some n" for q n
    using shape_node [OF shape that(1)] that(2) by auto
  then show ?thesis using shape score_cut [OF sorted, of P, OF mono] by (auto simp: search_to_def length_takeWhile_le)
qed

lemma is_in_range:
  assumes "skiplist_inv sl es"
  shows "slIsInRange mn mx sl = Some (mn \<le> mx \<and> es \<noteq> [] \<and> mn \<le> e_score (last es) \<and> e_score (hd es) \<le> mx)"
proof (cases "es = []")
  case True
  then show ?thesis using assms by (simp add: slIsInRange_def skiplist_inv_def)
next
  case False
  have shape: "shape (sl_heap sl) (sl_header sl) (sl_level sl) es" and tail: "sl_tail sl = Some (e_addr (last es))"
    using assms False by (simp_all add: skiplist_inv_def)
  have len: "length es - 1 < length es" "0 < length es" using False by simp_all
  obtain n where n: "sl_heap sl (e_addr (last es)) = Some n" "n_score n = e_score (last es)"
    using shape_node [OF shape len(1)] False by (auto simp: last_conv_nth)
  obtain m where m: "sl_heap sl (e_addr (hd es)) = Some m" "n_score m = e_score (hd es)"
    using shape_node [OF shape len(2)] False by (auto simp: hd_conv_nth)
  obtain s where "cell (sl_heap sl) (sl_header sl) 0 = Some (Some (e_addr (hd es)), s)"
    using level0_cell [OF shape, of 0] False by (auto simp: pos_addr_def hd_conv_nth)
  then show ?thesis using tail n m False by (auto simp: slIsInRange_def)
qed

lemma first_in_range:
  assumes inv: "skiplist_inv sl es" and "mn \<le> mx"
  defines "c \<equiv> length (takeWhile (\<lambda>e. e_score e < mn) es)"
  shows "slFirstInRange mn mx sl =
    Some (if es \<noteq> [] \<and> mn \<le> e_score (last es) \<and> e_score (hd es) \<le> mx then Some (e_addr (es ! c)) else None)"
    "es \<noteq> [] \<Longrightarrow> mn \<le> e_score (last es) \<Longrightarrow> c < length es"
proof -
  show c: "c < length es" if "es \<noteq> []" "mn \<le> e_score (last es)"
  proof (rule ccontr)
    assume "\<not> c < length es"
    then have "takeWhile (\<lambda>e. e_score e < mn) es = es"
      by (metis c_def length_takeWhile_le takeWhile_eq_take take_all not_less)
    then have "e_score (last es) < mn" using that(1) by (metis last_in_set set_takeWhileD)
    then show False using that(2) by simp
  qed
  have shape: "shape (sl_heap sl) (sl_header sl) (sl_level sl) es" using inv by (simp add: skiplist_inv_def)
  obtain us where us: "descend (\<lambda>n r. Some (n_score n < mn)) (sl_heap sl) (sl_level sl) (sl_header sl, 0)
      = Some ((pos_addr (sl_header sl) es c, int c), us)"
    using search_stops [OF score_search [OF inv, of "\<lambda>x. x < mn"]] unfolding c_def by (auto intro: le_less_trans)
  have "c \<le> length es" by (simp add: c_def length_takeWhile_le)
  from level0_cell [OF shape this] obtain s where
    "cell (sl_heap sl) (pos_addr (sl_header sl) es c) 0 = Some (if c < length es then Some (e_addr (es ! c)) else None, s)" by blast
  then show "slFirstInRange mn mx sl =
      Some (if es \<noteq> [] \<and> mn \<le> e_score (last es) \<and> e_score (hd es) \<le> mx then Some (e_addr (es ! c)) else None)"
    using us c assms(2) by (simp add: slFirstInRange_def is_in_range [OF inv])
qed

lemma last_in_range:
  assumes inv: "skiplist_inv sl es" and "mn \<le> mx"
  defines "c \<equiv> length (takeWhile (\<lambda>e. e_score e \<le> mx) es)"
  shows "slLastInRange mn mx sl =
    Some (if es \<noteq> [] \<and> mn \<le> e_score (last es) \<and> e_score (hd es) \<le> mx then Some (e_addr (es ! (c - 1))) else None)"
    "es \<noteq> [] \<Longrightarrow> e_score (hd es) \<le> mx \<Longrightarrow> 0 < c"
proof -
  show c: "0 < c" if "es \<noteq> []" "e_score (hd es) \<le> mx" using that by (cases es) (simp_all add: c_def)
  obtain us where us: "descend (\<lambda>n r. Some (n_score n \<le> mx)) (sl_heap sl) (sl_level sl) (sl_header sl, 0)
      = Some ((pos_addr (sl_header sl) es c, int c), us)"
    using search_stops [OF score_search [OF inv, of "\<lambda>x. x \<le> mx"]] unfolding c_def by (auto intro: order_trans)
  then show "slLastInRange mn mx sl =
      Some (if es \<noteq> [] \<and> mn \<le> e_score (last es) \<and> e_score (hd es) \<le> mx then Some (e_addr (es ! (c - 1))) else None)"
    using us c assms(2) by (auto simp: slLastInRange_def is_in_range [OF inv] pos_addr_def)
qed

lemma score_loop_forward:
  assumes "shape h hdr lv es" "k \<le> length es"
  shows "score_loop h False s (if k < length es then Some (e_addr (es ! k)) else None)
    = Some (map e_obj (takeWhile (\<lambda>e. e_score e \<le> s) (drop k es)))"
  using assms(2)
proof (induction "length es - k" arbitrary: k)
  case 0
  then show ?case by (subst score_loop.simps) simp
next
  case (Suc d)
  then have k: "k < length es" "Suc k \<le> length es" "d = length es - Suc k" by simp_all
  have "drop k es = es ! k # drop (Suc k) es" using k(1) by (simp add: Cons_nth_drop_Suc)
  then show ?case using node_step [OF assms(1) k(1)] Suc.hyps(1) [OF k(3,2)] k(1) by (subst score_loop.simps) (auto simp: not_less)
qed

lemma score_loop_backward:
  assumes "shape h hdr lv es" "k \<le> length es"
  shows "score_loop h True s (if 0 < k then Some (e_addr (es ! (k - 1))) else None)
    = Some (map e_obj (takeWhile (\<lambda>e. s \<le> e_score e) (rev (take k es))))"
  using assms(2)
proof (induction k)
  case 0
  then show ?case by (subst score_loop.simps) simp
next
  case (Suc j)
  then have j: "j < length es" "j \<le> length es" by simp_all
  have "rev (take (Suc j) es) = es ! j # rev (take j es)" using j(1) by (simp add: take_Suc_conv_app_nth)
  then show ?case using node_step [OF assms(1) j(1)] Suc.IH [OF j(2)] by (subst score_loop.simps) (auto simp: not_less)
qed

lemma score_filter:
  assumes "sorted (map e_key es)"
  shows "takeWhile (\<lambda>e. e_score e \<le> b) (dropWhile (\<lambda>e. e_score e < a) es) = filter (\<lambda>e. a \<le> e_score e \<and> e_score e \<le> b) es"
    "takeWhile (\<lambda>e. a \<le> e_score e) (rev (takeWhile (\<lambda>e. e_score e \<le> b) es)) = rev (filter (\<lambda>e. a \<le> e_score e \<and> e_score e \<le> b) es)"
proof -
  have low: "sorted_wrt (\<lambda>x y. e_score y < a \<longrightarrow> e_score x < a) es" by (rule sorted_keys_scores [OF assms]) (rule le_less_trans)
  have up: "sorted_wrt (\<lambda>x y. e_score y \<le> b \<longrightarrow> e_score x \<le> b) es" by (rule sorted_keys_scores [OF assms]) (rule order_trans)
  have "takeWhile (\<lambda>e. e_score e \<le> b) (filter P es) = filter (\<lambda>e. e_score e \<le> b) (filter P es)" for P
    by (rule takeWhile_filter) (rule sorted_wrt_filter [OF up])
  then show "takeWhile (\<lambda>e. e_score e \<le> b) (dropWhile (\<lambda>e. e_score e < a) es) = filter (\<lambda>e. a \<le> e_score e \<and> e_score e \<le> b) es"
    by (simp add: dropWhile_filter [OF low] not_less conj_commute)
  have "sorted_wrt (\<lambda>x y. a \<le> e_score y \<longrightarrow> a \<le> e_score x) (rev (filter P es))" for P
    unfolding sorted_wrt_rev by (rule sorted_wrt_filter, rule sorted_wrt_mono_rel [OF _ low]) auto
  from takeWhile_filter [OF this]
  show "takeWhile (\<lambda>e. a \<le> e_score e) (rev (takeWhile (\<lambda>e. e_score e \<le> b) es)) = rev (filter (\<lambda>e. a \<le> e_score e \<and> e_score e \<le> b) es)"
    by (simp add: takeWhile_filter [OF up] rev_filter conj_commute)
qed

lemma out_of_range:
  assumes "sorted (map e_key es)" "\<not> (es \<noteq> [] \<and> a \<le> e_score (last es) \<and> e_score (hd es) \<le> b)"
  shows "filter (\<lambda>e. a \<le> e_score e \<and> e_score e \<le> b) es = []"
proof -
  have "e_score (hd es) \<le> e_score e \<and> e_score e \<le> e_score (last es)" if e: "e \<in> set es" for e
  proof -
    obtain i where i: "i < length es" "e = es ! i" using e by (metis in_set_conv_nth)
    have "0 < length es" using i(1) by linarith
    then have "e_key (es ! 0) \<le> e_key (es ! i)" "e_key (es ! i) \<le> e_key (es ! (length es - 1))"
      using sorted_nth_mono [OF assms(1), of 0 i] sorted_nth_mono [OF assms(1), of i "length es - 1"] i(1) by auto
    moreover have "hd es = es ! 0" "last es = es ! (length es - 1)" using \<open>0 < length es\<close> by (simp_all add: hd_conv_nth last_conv_nth)
    ultimately show ?thesis using i(2) by (auto simp: e_key_def less_eq_prod_def)
  qed
  then show ?thesis using assms(2) by (fastforce simp: filter_empty_conv dest: order_trans)
qed

lemma get_score_range_ranking:
  assumes "ranking sl ks"
  shows "sl_get_score_range s1 s2 sl = Some (
    if s1 \<le> s2 then map snd (filter (\<lambda>k. s1 \<le> fst k \<and> fst k \<le> s2) ks)
    else map snd (rev (filter (\<lambda>k. s2 \<le> fst k \<and> fst k \<le> s1) ks)))"
proof -
  obtain es where inv: "skiplist_inv sl es" and ks: "ks = map e_key es" using assms by (auto simp: ranking_def)
  have shape: "shape (sl_heap sl) (sl_header sl) (sl_level sl) es" and sorted: "sorted (map e_key es)"
    using inv by (simp_all add: skiplist_inv_def)
  have keys: "map snd (filter (\<lambda>k. a \<le> fst k \<and> fst k \<le> b) ks) = map e_obj (filter (\<lambda>e. a \<le> e_score e \<and> e_score e \<le> b) es)" for a b
    by (simp add: ks filter_map comp_def e_key_def)
  have none: "score_loop (sl_heap sl) r s None = Some []" for r s by (subst score_loop.simps) simp
  show ?thesis
  proof (cases "s1 \<le> s2")
    case True
    let ?c = "length (takeWhile (\<lambda>e. e_score e < s1) es)"
    note first = first_in_range [OF inv True]
    show ?thesis
    proof (cases "es \<noteq> [] \<and> s1 \<le> e_score (last es) \<and> e_score (hd es) \<le> s2")
      case in_range: True
      then have "?c < length es" using first(2) by blast
      then have "score_loop (sl_heap sl) False s2 (Some (e_addr (es ! ?c)))
          = Some (map e_obj (takeWhile (\<lambda>e. e_score e \<le> s2) (dropWhile (\<lambda>e. e_score e < s1) es)))"
        using score_loop_forward [OF shape, of ?c s2] by (simp add: dropWhile_eq_drop)
      then show ?thesis using True in_range first(1) keys score_filter(1) [OF sorted] by (simp add: sl_get_score_range_def)
    next
      case False
      then show ?thesis using True first(1) keys out_of_range [OF sorted False] none by (auto simp: sl_get_score_range_def)
    qed
  next
    case False
    then have rev: "s2 \<le> s1" by simp
    let ?c = "length (takeWhile (\<lambda>e. e_score e \<le> s1) es)"
    note last = last_in_range [OF inv rev]
    show ?thesis
    proof (cases "es \<noteq> [] \<and> s2 \<le> e_score (last es) \<and> e_score (hd es) \<le> s1")
      case in_range: True
      then have "0 < ?c" using last(2) by blast
      then have "score_loop (sl_heap sl) True s2 (Some (e_addr (es ! (?c - 1))))
          = Some (map e_obj (takeWhile (\<lambda>e. s2 \<le> e_score e) (rev (takeWhile (\<lambda>e. e_score e \<le> s1) es))))"
        using score_loop_backward [OF shape length_takeWhile_le, of s2 "\<lambda>e. e_score e \<le> s1"] by (simp flip: takeWhile_eq_take)
      then show ?thesis using False in_range last(1) keys score_filter(2) [OF sorted] by (simp add: sl_get_score_range_def flip: rev_map)
    next
      case out: False
      then show ?thesis using False last(1) keys out_of_range [OF sorted out] none by (auto simp: sl_get_score_range_def simp flip: rev_map)
    qed
  qed
qed

section \<open>Freeing\<close>

lemma free_loop_all:
  assumes "shape h hdr lv es" "k \<le> length es"
  shows "free_loop (h |` set (map e_addr (drop k es))) (if k < length es then Some (e_addr (es ! k)) else None) = Some Map.empty"
  using assms(2)
proof (induction "length es - k" arbitrary: k)
  case 0
  then show ?case by (subst free_loop.simps) (simp add: restrict_map_def)
next
  case (Suc d)
  then have k: "k < length es" "Suc k \<le> length es" "d = length es - Suc k" by simp_all
  let ?y = "e_addr (es ! k)" and ?A = "\<lambda>k. set (map e_addr (drop k es))"
  have drop: "map e_addr (drop k es) = ?y # map e_addr (drop (Suc k) es)" using k(1) by (simp flip: Cons_nth_drop_Suc)
  have "distinct (map e_addr (drop k es))" using assms(1) by (simp add: shape_def distinct_drop flip: drop_map)
  then have "?y \<notin> ?A (Suc k)" unfolding drop by simp
  then have rest: "(h |` ?A k)(?y := None) = h |` ?A (Suc k)" unfolding drop by (auto simp: restrict_map_def fun_eq_iff)
  obtain c where c: "cell h ?y 0 = Some c" "fst c = (if Suc k < length es then Some (e_addr (es ! Suc k)) else None)"
    using node_step [OF assms(1) k(1)] by blast
  have "cell (h |` ?A k) ?y 0 = Some c" using c(1) drop by (simp add: cell_def)
  then show ?case using Suc.hyps(1) [OF k(3,2)] k(1) c(2) rest by (subst free_loop.simps) simp
qed

lemma free_ranking:
  assumes "ranking sl ks"
  shows "slFree sl = Some Map.empty"
proof -
  obtain es where shape: "shape (sl_heap sl) (sl_header sl) (sl_level sl) es"
    using assms by (auto simp: ranking_def skiplist_inv_def)
  have "(sl_heap sl)(sl_header sl := None) = sl_heap sl |` set (map e_addr es)"
  proof
    fix y
    have "meta (sl_heap sl) y \<noteq> None \<longleftrightarrow> y \<in> set (sl_header sl # map e_addr es)" using shape unfolding shape_def by blast
    moreover have "distinct (sl_header sl # map e_addr es)" using shape unfolding shape_def by blast
    ultimately have "sl_heap sl y \<noteq> None \<longleftrightarrow> y = sl_header sl \<or> y \<in> set (map e_addr es)" "sl_header sl \<notin> set (map e_addr es)"
      unfolding meta_dom by simp_all
    then show "((sl_heap sl)(sl_header sl := None)) y = (sl_heap sl |` set (map e_addr es)) y" by (auto simp: restrict_map_def)
  qed
  then show ?thesis using level0_cell [OF shape, of 0] free_loop_all [OF shape, of 0] by (auto simp: slFree_def pos_addr_def)
qed

section \<open>Properties\<close>

text \<open>
  The lists that the Lua functions make from scores of the linear order, that is scores other than
  NaN, with objects below \<open>2 ^ 31\<close> bytes and with delete callbacks that return and leave the list alone.
\<close>

inductive skiplist_reach :: "'s :: linorder skiplist \<Rightarrow> bool" where
  create: "skiplist_reach (slCreate junk a zero)"
| insert: "skiplist_reach sl \<Longrightarrow> length obj < 2 ^ 31 \<Longrightarrow> sl_heap sl x = None \<Longrightarrow>
    slInsert junk random x score obj sl = Some sl' \<Longrightarrow> skiplist_reach sl'"
| delete: "skiplist_reach sl \<Longrightarrow> length obj < 2 ^ 31 \<Longrightarrow> slDelete score obj sl = Some (found, sl') \<Longrightarrow> skiplist_reach sl'"
| delete_by_rank: "skiplist_reach sl \<Longrightarrow> sl_delete_by_rank start end sl = Some (objs, sl') \<Longrightarrow> skiplist_reach sl'"

lemma sl_delete_by_rank_ranking:
  fixes start "end" :: u32
  assumes "ranking sl ks"
  defines "a \<equiv> min (unat start) (unat end) - 1" and "b \<equiv> max (unat start) (unat end)"
  shows "\<exists>sl'. sl_delete_by_rank start end sl = Some (map snd (take (b - a) (drop a ks)), sl') \<and> ranking sl' (take a ks @ drop b ks)"
proof (cases "start > end")
  case True
  then have le: "unat end \<le> unat start" by (simp add: word_less_nat_alt)
  then show ?thesis using delete_by_rank_ranking [OF assms(1) le] True by (simp add: sl_delete_by_rank_def a_def b_def min_absorb2 max_absorb1 le)
next
  case False
  then have le: "unat start \<le> unat end" by (simp add: word_less_nat_alt not_less)
  then show ?thesis using delete_by_rank_ranking [OF assms(1) le] False by (simp add: sl_delete_by_rank_def a_def b_def min_absorb1 max_absorb2 le)
qed

lemma slInsert_level: "slInsert junk random x score obj sl = Some sl' \<Longrightarrow> \<exists>level. slRandomLevel random = Some level"
  by (auto simp: slInsert_def split: bind_splits)

text \<open>
  Property C28. \<^verbatim>\<open>slInsert\<close> implements the insertion into a sorted list: with any new node and any values of
  \<^verbatim>\<open>random()\<close> one of which ends the loop of \<^verbatim>\<open>slRandomLevel\<close> it returns, follows no null or dangling pointer,
  and the list then holds the keys before with the new one in its place by score and object.
\<close>

theorem skiplist_insert:
  assumes "ranking sl ks" "length obj < 2 ^ 31" "sl_heap sl x = None" "\<not> random k AND 0xffff \<le> 16383"
  shows "\<exists>sl'. slInsert junk random x score obj sl = Some sl' \<and> ranking sl' (insort (score, obj) ks)"
  using slRandomLevel_stop [of random k, OF assms(4)] insert_ranking [OF assms(1-3)] by blast

text \<open>
  Property C29. \<^verbatim>\<open>slDelete\<close> removes the element with the given score and object and says whether there was
  one; \<^verbatim>\<open>_delete_by_rank\<close> removes the elements whose ranks lie between its arguments, in either order, and
  calls the callback with their objects in order. Both return and keep the list well formed.
\<close>

theorem skiplist_delete:
  assumes "ranking sl ks" "length obj < 2 ^ 31" "a = min (unat start) (unat end) - 1" "b = max (unat start) (unat end)"
  shows "(\<exists>sl'. slDelete score obj sl = Some ((score, obj) \<in> set ks, sl') \<and> ranking sl' (remove1 (score, obj) ks)) \<and>
    (\<exists>sl'. sl_delete_by_rank start end sl = Some (map snd (take (b - a) (drop a ks)), sl') \<and> ranking sl' (take a ks @ drop b ks))"
  using delete_ranking [OF assms(1,2)] sl_delete_by_rank_ranking [OF assms(1)] unfolding assms(3,4) by blast

text \<open>
  Property C30. When every object occurs once, \<^verbatim>\<open>_get_rank\<close> of the key at index \<open>j\<close> gives \<open>j + 1\<close> and of an
  object that is not in the list nothing, and \<^verbatim>\<open>slGetNodeByRank\<close> leads from the rank back to the node with this key.
\<close>

theorem skiplist_rank_roundtrip:
  assumes "ranking sl ks" "length obj < 2 ^ 31" "distinct (map snd ks)"
  shows "(j < length ks \<and> ks ! j = (score, obj) \<longrightarrow> sl_get_rank score obj sl = Some (Some (int j + 1)) \<and>
      (\<exists>x n. slGetNodeByRank (j + 1) sl = Some (Some x) \<and> sl_heap sl x = Some n \<and> n_obj n = Some obj \<and> n_score n = score)) \<and>
    (obj \<notin> snd ` set ks \<longrightarrow> sl_get_rank score obj sl = Some None)"
proof -
  obtain es where inv: "skiplist_inv sl es" and ks: "ks = map e_key es" using assms(1) by (auto simp: ranking_def)
  have shape: "shape (sl_heap sl) (sl_header sl) (sl_level sl) es" using inv by (simp add: skiplist_inv_def)
  have "\<exists>x n. slGetNodeByRank (j + 1) sl = Some (Some x) \<and> sl_heap sl x = Some n \<and> n_obj n = Some obj \<and> n_score n = score"
    if "j < length ks" "ks ! j = (score, obj)"
    using node_by_rank [OF inv, of "j + 1"] shape_node [OF shape, of j] that by (auto simp: ks e_key_def)
  then show ?thesis using get_rank_ranking [OF assms] by (auto simp: sl_get_rank_def)
qed

text \<open>
  Property C31. \<^verbatim>\<open>_get_score_range\<close> gives the objects with scores between its arguments, ascending or descending
  as the arguments are; \<^verbatim>\<open>_get_rank_range\<close> gives those with ranks between its arguments in the same way when
  the range has fewer than \<open>2 ^ 31\<close> ranks, and none when it starts outside the list.
\<close>

theorem skiplist_ranges:
  assumes "ranking sl ks" "unat r2 - unat r1 < 2 ^ 31 - 1" "unat r1 - unat r2 < 2 ^ 31 - 1"
  shows "sl_get_score_range s1 s2 sl = Some (
      if s1 \<le> s2 then map snd (filter (\<lambda>k. s1 \<le> fst k \<and> fst k \<le> s2) ks)
      else map snd (rev (filter (\<lambda>k. s2 \<le> fst k \<and> fst k \<le> s1) ks))) \<and>
    sl_get_rank_range r1 r2 sl = Some (
      if r1 = 0 \<or> length ks < unat r1 then []
      else if r1 \<le> r2 then map snd (take (unat r2 - unat r1 + 1) (drop (unat r1 - 1) ks))
      else map snd (take (unat r1 - unat r2 + 1) (rev (take (unat r1) ks))))"
  using get_score_range_ranking [OF assms(1)] get_rank_range_ranking [OF assms] by blast

text \<open>
  Property C32. As long as no score is NaN and every delete callback returns without touching the list, each list
  that the Lua functions make by creating, inserting, deleting and deleting by rank is a well-formed skip list over a
  sorted list of keys with its length as count, and freeing it when Lua collects it follows no dangling pointer and
  leaves no node behind.
\<close>

theorem skiplist_reach_safe:
  assumes "skiplist_reach sl"
  shows "(\<exists>ks. ranking sl ks \<and> sorted ks \<and> sl_length sl = length ks) \<and> slFree sl = Some Map.empty"
proof -
  from assms have "\<exists>ks. ranking sl ks"
  proof induction
    case (create junk a zero)
    then show ?case using slCreate_ranking by blast
  next
    case (insert sl obj x junk random score sl')
    from insert.IH obtain ks where "ranking sl ks" by blast
    moreover obtain level where "slRandomLevel random = Some level" using slInsert_level [OF insert.hyps(4)] by blast
    ultimately show ?case using insert_ranking [of sl ks obj x random level junk score] insert.hyps by auto
  next
    case (delete sl obj score found sl')
    then show ?case using delete_ranking [of sl _ obj score] by auto
  next
    case (delete_by_rank sl start "end" objs sl')
    then show ?case using sl_delete_by_rank_ranking [of sl _ start "end"] by auto
  qed
  then show ?thesis using ranking_sorted free_ranking by blast
qed

section \<open>Witnesses\<close>

text \<open>A list of three elements on two levels: the second call of \<^verbatim>\<open>random()\<close> ends the loop for the second element.\<close>

definition sample_add :: "(nat \<Rightarrow> u64) \<Rightarrow> nat \<Rightarrow> int \<Rightarrow> bytes \<Rightarrow> int skiplist \<Rightarrow> int skiplist option" where
  "sample_add = slInsert (None, \<lambda>i. (None, 0))"

definition sample0 :: "int skiplist" where
  "sample0 = slCreate (None, \<lambda>i. (None, 0)) 0 0"

definition sample1 :: "int skiplist" where
  "sample1 = the (sample_add (\<lambda>i. 0xffff) 1 1 [97] sample0)"

definition sample2 :: "int skiplist" where
  "sample2 = the (sample_add (\<lambda>i. if i = 0 then 0 else 0xffff) 2 5 [98] sample1)"

definition sample_list :: "int skiplist" where
  "sample_list = the (sample_add (\<lambda>i. 0xffff) 3 1 [99] sample2)"

definition sample_keys :: "(int \<times> bytes) list" where
  "sample_keys = [(1, [97]), (1, [99]), (5, [98])]"

lemma sample_step:
  assumes "ranking sl ks" "length obj < 2 ^ 31" "sl_heap sl x = None" "slRandomLevel random \<noteq> None"
  shows "ranking (the (sample_add random x score obj sl)) (insort (score, obj) ks)"
proof -
  obtain level where "slRandomLevel random = Some level" using assms(4) by blast
  from insert_ranking [OF assms(1-3) this, of "(None, \<lambda>i. (None, 0))" score] show ?thesis unfolding sample_add_def by auto
qed

lemma sample_fresh: "sl_heap sample0 1 = None" "sl_heap sample1 2 = None" "sl_heap sample2 3 = None" "sl_heap sample_list 4 = None"
  by code_simp+

lemma sample_levels: "slRandomLevel (\<lambda>i. 0xffff) \<noteq> None" "slRandomLevel (\<lambda>i. if i = 0 then 0 else 0xffff) \<noteq> None"
  by code_simp+

lemma sample1_ranking: "ranking sample1 [(1, [97])]"
proof -
  have "ranking sample1 (insort (1, [97]) [])" unfolding sample1_def
    by (rule sample_step [OF _ _ sample_fresh(1) sample_levels(1)]) (simp_all add: sample0_def slCreate_ranking)
  then show ?thesis by simp
qed

lemma sample_ranking: "ranking sample_list sample_keys"
proof -
  have "ranking sample2 (insort (5, [98]) [(1, [97])])" unfolding sample2_def
    by (rule sample_step [OF sample1_ranking _ sample_fresh(2) sample_levels(2)]) simp
  then have "ranking sample_list (insort (1, [99]) (insort (5, [98]) [(1, [97])]))" unfolding sample_list_def
    by (rule sample_step [OF _ _ sample_fresh(3) sample_levels(1)]) simp
  then show ?thesis by (simp add: sample_keys_def)
qed

theorem skiplist_insert_witness:
  "ranking sample_list sample_keys \<and> (\<exists>sl'. sample_add (\<lambda>i. 0xffff) 4 1 [98] sample_list = Some sl' \<and>
     ranking sl' [(1, [97]), (1, [98]), (1, [99]), (5, [98])])"
proof -
  have r: "\<not> ((\<lambda>i. 0xffff) (0 :: nat) :: u64) AND 0xffff \<le> 16383" by simp
  have "\<exists>sl'. slInsert (None, \<lambda>i. (None, 0)) (\<lambda>i. 0xffff) 4 1 [98] sample_list = Some sl' \<and> ranking sl' (insort (1, [98]) sample_keys)"
    by (rule skiplist_insert [OF sample_ranking _ sample_fresh(4) r]) simp
  then show ?thesis using sample_ranking by (simp add: sample_add_def sample_keys_def)
qed

theorem skiplist_delete_witness:
  "(\<exists>sl'. slDelete 1 [99] sample_list = Some (True, sl') \<and> ranking sl' [(1, [97]), (5, [98])]) \<and>
   (\<exists>sl'. sl_delete_by_rank 2 1 sample_list = Some ([[97], [99]], sl') \<and> ranking sl' [(5, [98])])"
proof -
  have "(\<exists>sl'. slDelete 1 [99] sample_list = Some ((1, [99]) \<in> set sample_keys, sl') \<and> ranking sl' (remove1 (1, [99]) sample_keys)) \<and>
    (\<exists>sl'. sl_delete_by_rank 2 1 sample_list = Some (map snd (take (2 - 0) (drop 0 sample_keys)), sl') \<and>
      ranking sl' (take 0 sample_keys @ drop 2 sample_keys))"
    by (rule skiplist_delete [OF sample_ranking]) simp_all
  then show ?thesis by (simp add: sample_keys_def)
qed

theorem skiplist_rank_roundtrip_witness:
  "sl_get_rank 5 [98] sample_list = Some (Some 3) \<and> sl_get_rank 5 [100] sample_list = Some None"
proof -
  have d: "distinct (map snd sample_keys)" by (simp add: sample_keys_def)
  show ?thesis
    using skiplist_rank_roundtrip [OF sample_ranking _ d, of "[98]" 2 5] skiplist_rank_roundtrip [OF sample_ranking _ d, of "[100]" 2 5]
    by (simp add: sample_keys_def)
qed

theorem skiplist_ranges_witness:
  "sl_get_score_range 5 1 sample_list = Some [[98], [99], [97]] \<and> sl_get_rank_range 2 7 sample_list = Some [[99], [98]]"
  using skiplist_ranges [OF sample_ranking, of 7 2 5 1] by (simp add: sample_keys_def)

theorem skiplist_reach_safe_witness: "\<exists>sl' :: int skiplist. slDelete 1 [97] sample1 = Some (True, sl') \<and> slFree sl' = Some Map.empty"
proof -
  have new: "skiplist_reach sample0" unfolding sample0_def by (rule skiplist_reach.create)
  have "slRandomLevel (\<lambda>i. 0xffff) \<noteq> None" by (rule sample_levels)
  then obtain level where level: "slRandomLevel (\<lambda>i. 0xffff) = Some level" by blast
  have short: "length ([97] :: bytes) < 2 ^ 31" by simp
  have "ranking sample0 []" unfolding sample0_def by (rule slCreate_ranking)
  from insert_ranking [OF this short sample_fresh(1) level, of "(None, \<lambda>i. (None, 0))" 1]
  have "slInsert (None, \<lambda>i. (None, 0)) (\<lambda>i. 0xffff) 1 1 [97] sample0 = Some sample1" by (auto simp: sample1_def sample_add_def)
  note r = skiplist_reach.insert [OF new short sample_fresh(1) this]
  obtain sl' where sl': "slDelete 1 [97] sample1 = Some (True, sl')" using delete_ranking [OF sample1_ranking, of "[97]" 1] by auto
  have "skiplist_reach sl'" by (rule skiplist_reach.delete [OF r short sl'])
  from skiplist_reach_safe [OF this] sl' show ?thesis by blast
qed

section \<open>Two departures from the comments\<close>

text \<open>\<^verbatim>\<open>slGetRank\<close> gives a rank for an object whose element has another score.\<close>

lemma get_rank_other_score: "sl_get_rank 7 [98] sample_list = Some (Some 3) \<and> (7, [98]) \<notin> set sample_keys"
  by code_simp

text \<open>In a gap between two scores \<^verbatim>\<open>slFirstInRange\<close> and \<^verbatim>\<open>slLastInRange\<close> give nodes outside of the range.\<close>

lemma first_in_gap: "slFirstInRange 2 3 sample_list = Some (Some 2) \<and> slLastInRange 2 3 sample_list = Some (Some 3)"
  by code_simp

end
