(* ===== verification/Packqueue.thy ===== *)
theory Packqueue
  imports Mq Cstring "HOL-Library.Sublist"
begin

text \<open>
  The queue of complete packets and the table of incomplete ones that \<^verbatim>\<open>skynet/lualib-src/lua-netpack.c\<close> and
  \<^verbatim>\<open>lualib-src/lua-websocketnetpack.c\<close> share (the two files have the same text here), and the
  contract of a filter that cuts the byte streams of many connections into frames. The queue is
  the userdata in slot 1 of the Lua stack, \<open>None\<close> before the first packet. The type of the incomplete packets is
  a parameter, with the function that reads their connection. A chain of the hash table is the
  list of its nodes: a node belongs to one chain. A buffer is the list of its bytes.
\<close>

section \<open>The data\<close>

definition QUEUESIZE :: nat where
  "QUEUESIZE = 1024"

definition HASHSIZE :: nat where
  "HASHSIZE = 4096"

record netpack =
  np_id :: i32
  np_size :: int
  np_buffer :: bytes

record 'u pack_queue =
  pq_cap :: nat
  pq_head :: nat
  pq_tail :: nat
  pq_hash :: "nat \<Rightarrow> 'u list"
  pq_queue :: "netpack list"

definition no_pack :: netpack where
  "no_pack = \<lparr>np_id = 0, np_size = 0, np_buffer = []\<rparr>"

section \<open>The operations\<close>

definition hash_fd :: "i32 \<Rightarrow> nat" where
  "hash_fd fd = unat (signed_drop_bit 24 fd + signed_drop_bit 12 fd + fd) mod HASHSIZE"

text \<open>The search along a chain; the node found is unlinked.\<close>

fun unlink_fd :: "('u \<Rightarrow> i32) \<Rightarrow> i32 \<Rightarrow> 'u list \<Rightarrow> 'u option \<times> 'u list" where
  "unlink_fd uid fd [] = (None, [])"
| "unlink_fd uid fd (uc # us) =
     (if uid uc = fd then (Some uc, us) else (let (r, us') = unlink_fd uid fd us in (r, uc # us')))"

definition find_uncomplete :: "('u \<Rightarrow> i32) \<Rightarrow> i32 \<Rightarrow> 'u pack_queue option \<Rightarrow> 'u option \<times> 'u pack_queue option" where
  "find_uncomplete uid fd Q = (case Q of
     None \<Rightarrow> (None, None)
   | Some q \<Rightarrow> (let h = hash_fd fd; (r, us) = unlink_fd uid fd (pq_hash q h) in
       (r, Some (q\<lparr>pq_hash := (pq_hash q)(h := us)\<rparr>))))"

definition get_queue :: "'u pack_queue option \<Rightarrow> 'u pack_queue" where
  "get_queue Q = (case Q of
     Some q \<Rightarrow> q
   | None \<Rightarrow> \<lparr>pq_cap = QUEUESIZE, pq_head = 0, pq_tail = 0, pq_hash = \<lambda>h. [], pq_queue = replicate QUEUESIZE no_pack\<rparr>)"

definition pq_expand :: "'u pack_queue \<Rightarrow> 'u pack_queue" where
  "pq_expand q =
     \<lparr>pq_cap = pq_cap q + QUEUESIZE, pq_head = 0, pq_tail = pq_cap q, pq_hash = pq_hash q,
      pq_queue = map (\<lambda>i. pq_queue q ! ((pq_head q + i) mod pq_cap q)) [0..<pq_cap q] @ replicate QUEUESIZE no_pack\<rparr>"

text \<open>\<^verbatim>\<open>push_data\<close>; with \<^verbatim>\<open>clone\<close> the caller passes the first \<^verbatim>\<open>size\<close> bytes of its buffer.\<close>

definition push_pack :: "netpack \<Rightarrow> 'u pack_queue option \<Rightarrow> 'u pack_queue option option" where
  "push_pack np Q = do {
     let q = get_queue Q;
     arr \<leftarrow> array_set (pq_queue q) (pq_tail q) np;
     let tail = (if pq_tail q + 1 \<ge> pq_cap q then pq_tail q + 1 - pq_cap q else pq_tail q + 1);
     let q = q\<lparr>pq_queue := arr, pq_tail := tail\<rparr>;
     Some (Some (if pq_head q = pq_tail q then pq_expand q else q)) }"

definition push_data :: "i32 \<Rightarrow> bytes \<Rightarrow> int \<Rightarrow> 'u pack_queue option \<Rightarrow> 'u pack_queue option option" where
  "push_data fd buffer sz Q = push_pack \<lparr>np_id = fd, np_size = sz, np_buffer = buffer\<rparr> Q"

text \<open>
  A node is linked in front of its chain: the end of \<^verbatim>\<open>save_uncomplete\<close>, whose caller then fills the
  node, and of the branches that put an incomplete packet back.
\<close>

definition link_uncomplete :: "('u \<Rightarrow> i32) \<Rightarrow> 'u \<Rightarrow> 'u pack_queue option \<Rightarrow> 'u pack_queue option" where
  "link_uncomplete uid uc Q =
     (let q = get_queue Q; h = hash_fd (uid uc) in Some (q\<lparr>pq_hash := (pq_hash q)(h := uc # pq_hash q h)\<rparr>))"

definition close_uncomplete :: "('u \<Rightarrow> i32) \<Rightarrow> i32 \<Rightarrow> 'u pack_queue option \<Rightarrow> 'u pack_queue option" where
  "close_uncomplete uid fd Q = snd (find_uncomplete uid fd Q)"

definition lpop :: "'u pack_queue option \<Rightarrow> (netpack option \<times> 'u pack_queue option) option" where
  "lpop Q = (case Q of
     None \<Rightarrow> Some (None, Q)
   | Some q \<Rightarrow>
       if pq_head q = pq_tail q then Some (None, Q)
       else do {
         np \<leftarrow> array_get (pq_queue q) (pq_head q);
         let head = (if pq_head q + 1 \<ge> pq_cap q then 0 else pq_head q + 1);
         Some (Some np, Some (q\<lparr>pq_head := head\<rparr>)) })"

definition lclear :: "'u pack_queue option \<Rightarrow> 'u pack_queue option" where
  "lclear Q = map_option (\<lambda>q. q\<lparr>pq_hash := \<lambda>h. [], pq_head := 0, pq_tail := 0\<rparr>) Q"

text \<open>The Lua side pops until nothing is left.\<close>

partial_function (option) lpop_all :: "'u pack_queue option \<Rightarrow> (netpack list \<times> 'u pack_queue option) option" where
  "lpop_all Q = do {
     (np, Q) \<leftarrow> lpop Q;
     (case np of
        None \<Rightarrow> Some ([], Q)
      | Some p \<Rightarrow> do { (ps, Q) \<leftarrow> lpop_all Q; Some (p # ps, Q) }) }"

declare lpop_all.simps [code]

text \<open>
  \<^verbatim>\<open>skynet_malloc\<close> of a negative size aborts; the bytes it leaves are never read before they are written.
  \<^verbatim>\<open>memcpy\<close> into a buffer must stay inside of it.
\<close>

definition malloc_bytes :: "int \<Rightarrow> bytes option" where
  "malloc_bytes n = (if n < 0 then None else Some (replicate (nat n) 0))"

definition write_at :: "bytes \<Rightarrow> nat \<Rightarrow> bytes \<Rightarrow> bytes option" where
  "write_at buffer off xs =
     (if off + length xs \<le> length buffer then Some (take off buffer @ xs @ drop (off + length xs) buffer) else None)"

section \<open>The results of a filter\<close>

text \<open>
  What \<^verbatim>\<open>lfilter\<close> leaves on the Lua stack above the queue: nothing, or one of the types with its values.
\<close>

datatype filter_result =
  Nothing
| Data i32 bytes
| More
| Close i32
| Open i32 bytes
| Error i32 bytes
| Warning i32 i32

text \<open>The packets that the Lua side gets from one call: it empties the queue when there is more than one.\<close>

definition deliver :: "filter_result \<Rightarrow> 'u pack_queue option \<Rightarrow> ((i32 \<times> bytes) list \<times> 'u pack_queue option) option" where
  "deliver r Q = (case r of
     Data fd b \<Rightarrow> Some ([(fd, b)], Q)
   | More \<Rightarrow> do { (ps, Q) \<leftarrow> lpop_all Q; Some (map (\<lambda>p. (np_id p, np_buffer p)) ps, Q) }
   | _ \<Rightarrow> Some ([], Q))"

text \<open>\<^verbatim>\<open>struct skynet_socket_message\<close>, with the text behind it when its buffer is null.\<close>

record net_message =
  nm_type :: i32
  nm_id :: i32
  nm_ud :: i32
  nm_buffer :: "bytes option"
  nm_padding :: bytes

text \<open>
  \<^verbatim>\<open>lfilter\<close> for a given \<^verbatim>\<open>filter_data\<close>. A text with a buffer of its own would be pushed with length \<open>-1\<close>,
  which Lua refuses.
\<close>

definition pushstring :: "net_message \<Rightarrow> bytes option" where
  "pushstring m = (case nm_buffer m of None \<Rightarrow> Some (nm_padding m) | Some b \<Rightarrow> None)"

definition lfilter_with ::
  "('u \<Rightarrow> i32) \<Rightarrow> (i32 \<Rightarrow> bytes \<Rightarrow> 'u pack_queue option \<Rightarrow> (filter_result \<times> 'u pack_queue option) option) \<Rightarrow>
   net_message \<Rightarrow> 'u pack_queue option \<Rightarrow> (filter_result \<times> 'u pack_queue option) option" where
  "lfilter_with uid filter_data m Q =
     (if nm_type m = 1 then do {
        buffer \<leftarrow> nm_buffer m;
        assert_c (0 \<le> sint (nm_ud m) \<and> nat (sint (nm_ud m)) \<le> length buffer);
        filter_data (nm_id m) (take (nat (sint (nm_ud m))) buffer) Q }
      else if nm_type m = 2 then Some (Nothing, Q)
      else if nm_type m = 3 then Some (Close (nm_id m), close_uncomplete uid (nm_id m) Q)
      else if nm_type m = 4 then do { s \<leftarrow> pushstring m; Some (Open (nm_ud m) s, Q) }
      else if nm_type m = 5 then do {
        let Q = close_uncomplete uid (nm_id m) Q;
        s \<leftarrow> pushstring m;
        Some (Error (nm_id m) s, Q) }
      else if nm_type m = 7 then Some (Warning (nm_id m) (nm_ud m), Q)
      else Some (Nothing, Q))"

section \<open>The ring is a queue\<close>

definition pq_ok :: "'u pack_queue option \<Rightarrow> bool" where
  "pq_ok Q \<longleftrightarrow> (case Q of None \<Rightarrow> True | Some q \<Rightarrow>
     pq_head q < pq_cap q \<and> pq_tail q < pq_cap q \<and> length (pq_queue q) = pq_cap q)"

definition pq_count :: "'u pack_queue \<Rightarrow> nat" where
  "pq_count q = (if pq_head q \<le> pq_tail q then pq_tail q - pq_head q else pq_tail q + pq_cap q - pq_head q)"

definition packs :: "'u pack_queue option \<Rightarrow> netpack list" where
  "packs Q = (case Q of None \<Rightarrow> [] | Some q \<Rightarrow>
     map (\<lambda>i. pq_queue q ! ((pq_head q + i) mod pq_cap q)) [0..<pq_count q])"

lemma get_queue_ok: "pq_ok Q \<Longrightarrow> pq_ok (Some (get_queue Q)) \<and> packs (Some (get_queue Q)) = packs Q"
  by (cases Q) (simp_all add: pq_ok_def get_queue_def packs_def pq_count_def QUEUESIZE_def)

lemma pq_count_bounds:
  assumes "pq_ok (Some q)"
  shows "pq_count q < pq_cap q" "(pq_head q + pq_count q) mod pq_cap q = pq_tail q" "pq_count q = 0 \<longleftrightarrow> pq_head q = pq_tail q"
  using assms by (auto simp: pq_ok_def pq_count_def)

lemma push_pack_packs:
  assumes "pq_ok Q"
  shows "\<exists>Q'. push_pack np Q = Some Q' \<and> pq_ok Q' \<and> packs Q' = packs Q @ [np] \<and> (\<exists>q'. Q' = Some q' \<and> pq_hash q' = pq_hash (get_queue Q))"
proof -
  define q where "q = get_queue Q"
  have ok: "pq_ok (Some q)" and old: "packs Q = map (\<lambda>i. pq_queue q ! ((pq_head q + i) mod pq_cap q)) [0..<pq_count q]"
    using get_queue_ok [OF assms] by (simp_all add: q_def packs_def [of "Some (get_queue Q)"])
  have b: "pq_head q < pq_cap q" "pq_tail q < pq_cap q" "length (pq_queue q) = pq_cap q" using ok by (simp_all add: pq_ok_def)
  define tail where "tail = (if pq_tail q + 1 \<ge> pq_cap q then pq_tail q + 1 - pq_cap q else pq_tail q + 1)"
  have tail: "tail < pq_cap q" "tail = (if Suc (pq_tail q) = pq_cap q then 0 else Suc (pq_tail q))" using b by (auto simp: tail_def)
  let ?q = "q\<lparr>pq_queue := (pq_queue q)[pq_tail q := np], pq_tail := tail\<rparr>"
  note snoc = map_ring_snoc [OF b(1) pq_count_bounds(1) [OF ok] b(3) pq_count_bounds(2) [OF ok], of np]
  have run: "push_pack np Q = Some (Some (if pq_head q = tail then pq_expand ?q else ?q))"
    using b unfolding push_pack_def q_def [symmetric] Let_def tail_def [symmetric] by simp
  show ?thesis
  proof (cases "pq_head q = tail")
    case True
    then have "Suc (pq_count q) = pq_cap q" using b tail by (auto simp: pq_count_def split: if_splits)
    moreover have "packs (Some (pq_expand ?q)) = map (\<lambda>i. (pq_queue q)[pq_tail q := np] ! ((pq_head q + i) mod pq_cap q)) [0..<pq_cap q]"
      by (auto simp: packs_def pq_count_def pq_expand_def nth_append intro!: map_cong)
    ultimately have "packs (Some (pq_expand ?q)) = packs Q @ [np]" using snoc old by (simp only:)
    moreover have "pq_ok (Some (pq_expand ?q))" using b by (auto simp: pq_ok_def pq_expand_def QUEUESIZE_def)
    ultimately show ?thesis using run True by (simp add: pq_expand_def q_def)
  next
    case False
    then have "pq_count ?q = Suc (pq_count q)" using b tail by (auto simp: pq_count_def)
    then have "packs (Some ?q) = map (\<lambda>i. (pq_queue q)[pq_tail q := np] ! ((pq_head q + i) mod pq_cap q)) [0..<Suc (pq_count q)]"
      by (simp add: packs_def)
    then have "packs (Some ?q) = packs Q @ [np]" using snoc old by (simp only:)
    moreover have "pq_ok (Some ?q)" using b tail by (simp add: pq_ok_def)
    ultimately show ?thesis using run False by (simp add: q_def)
  qed
qed

lemma lpop_empty: "pq_ok Q \<Longrightarrow> packs Q = [] \<Longrightarrow> lpop Q = Some (None, Q)"
  by (cases Q) (auto simp: lpop_def packs_def pq_count_bounds(3))

lemma lpop_packs:
  assumes "pq_ok Q" "packs Q = np # ps"
  shows "\<exists>Q'. lpop Q = Some (Some np, Q') \<and> pq_ok Q' \<and> packs Q' = ps \<and> map_option pq_hash Q' = map_option pq_hash Q"
proof -
  obtain q where q: "Q = Some q" using assms(2) by (cases Q) (auto simp: packs_def)
  have ok: "pq_ok (Some q)" using assms(1) q by simp
  have b: "pq_head q < pq_cap q" "pq_tail q < pq_cap q" "length (pq_queue q) = pq_cap q" using ok by (simp_all add: pq_ok_def)
  have ne: "pq_head q \<noteq> pq_tail q" using assms(2) pq_count_bounds(3) [OF ok] by (auto simp: packs_def q)
  define head where "head = (if pq_head q + 1 \<ge> pq_cap q then 0 else pq_head q + 1)"
  have head: "head < pq_cap q" "head = (pq_head q + 1) mod pq_cap q" using b by (auto simp: head_def mod_if)
  let ?q = "q\<lparr>pq_head := head\<rparr>"
  obtain m where m: "pq_count q = Suc m" using pq_count_bounds(3) [OF ok] ne by (cases "pq_count q") auto
  have cnt: "pq_count ?q = m" using m b ne by (auto simp: pq_count_def head_def split: if_splits)
  have "packs (Some q) = pq_queue q ! pq_head q # map (\<lambda>i. pq_queue q ! ((pq_head q + i) mod pq_cap q)) [Suc 0..<Suc m]"
    using b(1) by (simp add: packs_def m upt_conv_Cons del: upt_Suc)
  also have "map (\<lambda>i. pq_queue q ! ((pq_head q + i) mod pq_cap q)) [Suc 0..<Suc m] = packs (Some ?q)"
  proof -
    have "packs (Some ?q) = map (\<lambda>i. pq_queue q ! ((head + i) mod pq_cap q)) [0..<m]" by (simp add: packs_def cnt)
    also have "\<dots> = map (\<lambda>i. pq_queue q ! ((pq_head q + Suc i) mod pq_cap q)) [0..<m]" unfolding head(2) by (simp add: mod_add_left_eq)
    finally show ?thesis by (simp add: map_Suc_upt [symmetric] comp_def del: upt_Suc)
  qed
  finally have "packs (Some ?q) = ps" "pq_queue q ! pq_head q = np" using assms(2) q by simp_all
  moreover have "lpop Q = Some (Some (pq_queue q ! pq_head q), Some ?q)"
    using ne b by (simp add: q lpop_def head_def)
  moreover have "pq_ok (Some ?q)" using b head(1) by (simp add: pq_ok_def)
  ultimately show ?thesis by (simp add: q)
qed

interpretation netpacks: fifo pq_ok packs push_pack lpop
  using push_pack_packs lpop_packs lpop_empty by unfold_locales blast+

lemma lpop_all_packs:
  assumes "pq_ok Q"
  shows "\<exists>Q'. lpop_all Q = Some (packs Q, Q') \<and> pq_ok Q' \<and> packs Q' = [] \<and> map_option pq_hash Q' = map_option pq_hash Q"
  using assms
proof (induction "packs Q" arbitrary: Q)
  case Nil
  then show ?case using lpop_empty [of Q] by (subst lpop_all.simps) auto
next
  case (Cons np ps)
  from lpop_packs [OF Cons.prems Cons.hyps(2) [symmetric]] obtain Q1
    where Q1: "lpop Q = Some (Some np, Q1)" "pq_ok Q1" "packs Q1 = ps" "map_option pq_hash Q1 = map_option pq_hash Q" by blast
  from Cons.hyps(1) [OF Q1(3) [symmetric] Q1(2)] Q1 Cons.hyps(2) show ?case by (subst lpop_all.simps) auto
qed

section \<open>The incomplete packets by connection\<close>

definition conns :: "('u \<Rightarrow> i32) \<Rightarrow> 'u pack_queue option \<Rightarrow> i32 \<Rightarrow> 'u list" where
  "conns uid Q fd = (case Q of None \<Rightarrow> [] | Some q \<Rightarrow> filter (\<lambda>uc. uid uc = fd) (pq_hash q (hash_fd fd)))"

lemma unlink_fd_filter:
  "fst (unlink_fd uid fd us) = (case filter (\<lambda>uc. uid uc = fd) us of [] \<Rightarrow> None | uc # _ \<Rightarrow> Some uc)"
  "filter (\<lambda>uc. uid uc = fd) (snd (unlink_fd uid fd us)) = tl (filter (\<lambda>uc. uid uc = fd) us)"
  "fd' \<noteq> fd \<Longrightarrow> filter (\<lambda>uc. uid uc = fd') (snd (unlink_fd uid fd us)) = filter (\<lambda>uc. uid uc = fd') us"
  by (induction us) (auto simp: split_beta Let_def)

lemma find_uncomplete_conns:
  "fst (find_uncomplete uid fd Q) = (case conns uid Q fd of [] \<Rightarrow> None | uc # _ \<Rightarrow> Some uc)"
  "conns uid (snd (find_uncomplete uid fd Q)) fd = tl (conns uid Q fd)"
  "fd' \<noteq> fd \<Longrightarrow> conns uid (snd (find_uncomplete uid fd Q)) fd' = conns uid Q fd'"
  "packs (snd (find_uncomplete uid fd Q)) = packs Q" "pq_ok (snd (find_uncomplete uid fd Q)) = pq_ok Q"
  by (cases Q; simp add: find_uncomplete_def conns_def split_beta Let_def unlink_fd_filter packs_def pq_ok_def pq_count_def)+

lemma link_uncomplete_conns:
  "conns uid (link_uncomplete uid uc Q) (uid uc) = uc # conns uid Q (uid uc)"
  "fd \<noteq> uid uc \<Longrightarrow> conns uid (link_uncomplete uid uc Q) fd = conns uid Q fd"
  "packs (link_uncomplete uid uc Q) = packs Q" "pq_ok Q \<Longrightarrow> pq_ok (link_uncomplete uid uc Q)"
  by (cases Q; auto simp: link_uncomplete_def get_queue_def conns_def Let_def packs_def pq_ok_def pq_count_def QUEUESIZE_def)+

lemma push_data_conns:
  assumes "pq_ok Q"
  shows "\<exists>Q'. push_data fd buffer sz Q = Some Q' \<and> pq_ok Q' \<and> packs Q' = packs Q @ [\<lparr>np_id = fd, np_size = sz, np_buffer = buffer\<rparr>]
    \<and> conns uid Q' = conns uid Q"
proof -
  obtain Q' q' where Q': "push_data fd buffer sz Q = Some Q'" "pq_ok Q'" "packs Q' = packs Q @ [\<lparr>np_id = fd, np_size = sz, np_buffer = buffer\<rparr>]"
    "Q' = Some q'" "pq_hash q' = pq_hash (get_queue Q)" using push_pack_packs [OF assms] unfolding push_data_def by blast
  moreover have "conns uid Q' = conns uid Q" using Q'(4,5) by (cases Q) (auto simp: conns_def get_queue_def fun_eq_iff)
  ultimately show ?thesis by blast
qed

lemma lpop_all_conns:
  assumes "pq_ok Q"
  shows "\<exists>Q'. lpop_all Q = Some (packs Q, Q') \<and> pq_ok Q' \<and> packs Q' = [] \<and> conns uid Q' = conns uid Q"
proof -
  obtain Q' where Q': "lpop_all Q = Some (packs Q, Q')" "pq_ok Q'" "packs Q' = []" "map_option pq_hash Q' = map_option pq_hash Q"
    using lpop_all_packs [OF assms] by blast
  moreover have "conns uid Q' = conns uid Q" using Q'(4) by (cases Q; cases Q') (auto simp: conns_def fun_eq_iff)
  ultimately show ?thesis by blast
qed

section \<open>Cutting streams into frames\<close>

text \<open>
  A frame is encoded as a nonempty list of bytes. A stream is cut when the bytes received so far are a number
  of whole frames and a rest, which is empty or a proper part of a frame.
\<close>

definition rest_of :: "('f \<Rightarrow> bool) \<Rightarrow> ('f \<Rightarrow> bytes) \<Rightarrow> bytes \<Rightarrow> bool" where
  "rest_of good enc p \<longleftrightarrow> p = [] \<or> (\<exists>f. good f \<and> strict_prefix p (enc f))"

lemma rest_of_prefix: "rest_of good enc p \<Longrightarrow> prefix q p \<Longrightarrow> rest_of good enc q"
  by (auto simp: rest_of_def dest: prefix_order.le_less_trans)

lemma cut_stream:
  assumes "xs @ ys = concat (map enc fs) @ r" "rest_of good enc r" "\<forall>f \<in> set fs. good f"
  shows "\<exists>fs1 fs2 p. fs = fs1 @ fs2 \<and> xs = concat (map enc fs1) @ p \<and> rest_of good enc p \<and> p @ ys = concat (map enc fs2) @ r"
  using assms
proof (induction fs arbitrary: xs)
  case Nil
  then have "prefix xs r" by (metis append_Nil concat.simps(1) list.simps(8) prefixI)
  then show ?case using Nil rest_of_prefix by fastforce
next
  case (Cons f fs)
  show ?case
  proof (cases "length xs < length (enc f)")
    case True
    have "strict_prefix xs (enc f)"
    proof (rule strict_prefixI)
      have "prefix xs (xs @ ys)" by simp
      moreover have "prefix (enc f) (xs @ ys)" unfolding Cons.prems(1) by simp
      ultimately show "prefix xs (enc f)" using True by (metis prefix_length_prefix less_imp_le)
    qed (use True in auto)
    then have "rest_of good enc xs" using Cons.prems(3) by (auto simp: rest_of_def)
    then show ?thesis using Cons.prems(1) by (intro exI [of _ "[]"] exI [of _ "f # fs"] exI [of _ xs]) simp
  next
    case False
    then obtain zs where xs: "xs = enc f @ zs"
      using Cons.prems(1) by (metis append_eq_append_conv_if append.assoc concat.simps(2) list.simps(9) not_less append_take_drop_id)
    then have "zs @ ys = concat (map enc fs) @ r" using Cons.prems(1) by simp
    from Cons.IH [OF this Cons.prems(2)] Cons.prems(3) obtain fs1 fs2 p where
      "fs = fs1 @ fs2" "zs = concat (map enc fs1) @ p" "rest_of good enc p" "p @ ys = concat (map enc fs2) @ r" by auto
    then show ?thesis using xs by (intro exI [of _ "f # fs1"] exI [of _ fs2] exI [of _ p]) simp
  qed
qed

text \<open>
  The contract of a filter: in a state that holds the bytes \<open>P fd\<close> of the connections, a chunk that completes
  the frames \<open>fs\<close> delivers their payloads and leaves the new rest. The client feeds it
  the chunks of many connections in any order.
\<close>

locale stream_filter =
  fixes good :: "'f \<Rightarrow> bool"
    and enc :: "'f \<Rightarrow> bytes"
    and payload :: "'f \<Rightarrow> bytes"
    and holds :: "'s \<Rightarrow> (i32 \<Rightarrow> bytes) \<Rightarrow> bool"
    and feed :: "i32 \<Rightarrow> bytes \<Rightarrow> 's \<Rightarrow> ((i32 \<times> bytes) list \<times> 's) option"
  assumes feed_cuts: "holds s P \<Longrightarrow> c \<noteq> [] \<Longrightarrow> \<forall>f \<in> set fs. good f \<Longrightarrow> rest_of good enc p \<Longrightarrow>
    P fd @ c = concat (map enc fs) @ p \<Longrightarrow>
    \<exists>s'. feed fd c s = Some (map (\<lambda>f. (fd, payload f)) fs, s') \<and> holds s' (P(fd := p))"
    and held_short: "holds s P \<Longrightarrow> good f \<Longrightarrow> P fd \<noteq> enc f @ p"
begin

fun feed_all :: "(i32 \<times> bytes) list \<Rightarrow> 's \<Rightarrow> ((i32 \<times> bytes) list \<times> 's) option" where
  "feed_all [] s = Some ([], s)"
| "feed_all (e # es) s = do { (d, s) \<leftarrow> feed (fst e) (snd e) s; (ds, s) \<leftarrow> feed_all es s; Some (d @ ds, s) }"

lemma feed_all_cuts:
  assumes "holds s P" "\<forall>e \<in> set es. snd e \<noteq> []" "\<And>fd. \<forall>f \<in> set (F fd). good f" "\<And>fd. rest_of good enc (R fd)"
    "\<And>fd. P fd @ concat (map snd (filter (\<lambda>e. fst e = fd) es)) = concat (map enc (F fd)) @ R fd"
  shows "\<exists>ds s'. feed_all es s = Some (ds, s') \<and> holds s' R \<and> (\<forall>fd. map snd (filter (\<lambda>d. fst d = fd) ds) = map payload (F fd))"
  using assms
proof (induction es arbitrary: s P F)
  case Nil
  have none: "F fd = []" for fd
  proof (cases "F fd")
    case (Cons f fs)
    then have "good f" "P fd = enc f @ (concat (map enc fs) @ R fd)" using Nil.prems(3) [of fd] Nil.prems(5) [of fd] by auto
    then show ?thesis using held_short [OF Nil.prems(1)] by blast
  qed simp
  then have "R = P" using Nil.prems(5) by (auto simp: fun_eq_iff)
  then show ?case using Nil.prems(1) none by simp
next
  case (Cons e es)
  obtain fd c where e: "e = (fd, c)" by (cases e)
  let ?more = "\<lambda>d. concat (map snd (filter (\<lambda>e. fst e = d) es))"
  have "(P fd @ c) @ ?more fd = concat (map enc (F fd)) @ R fd" using Cons.prems(5) [of fd] by (simp add: e)
  from cut_stream [OF this Cons.prems(4,3)] obtain fs1 fs2 p where
    cut: "F fd = fs1 @ fs2" "P fd @ c = concat (map enc fs1) @ p" "rest_of good enc p" "p @ ?more fd = concat (map enc fs2) @ R fd" by blast
  have good: "\<forall>f \<in> set fs1. good f" "\<forall>f \<in> set fs2. good f" using Cons.prems(3) [of fd] cut(1) by auto
  have "c \<noteq> []" using Cons.prems(2) by (simp add: e)
  from feed_cuts [OF Cons.prems(1) this good(1) cut(3,2)] obtain s1 where
    s1: "feed fd c s = Some (map (\<lambda>f. (fd, payload f)) fs1, s1)" "holds s1 (P(fd := p))" by blast
  have "\<exists>ds s'. feed_all es s1 = Some (ds, s') \<and> holds s' R \<and>
      (\<forall>d. map snd (filter (\<lambda>x. fst x = d) ds) = map payload ((F(fd := fs2)) d))"
  proof (rule Cons.IH [OF s1(2)])
    show "(P(fd := p)) d @ ?more d = concat (map enc ((F(fd := fs2)) d)) @ R d" for d
      using Cons.prems(5) [of d] cut(4) by (auto simp: e)
  qed (use Cons.prems good in auto)
  then obtain ds s' where ds: "feed_all es s1 = Some (ds, s')" "holds s' R"
    "\<And>d. map snd (filter (\<lambda>x. fst x = d) ds) = map payload ((F(fd := fs2)) d)" by blast
  have "map snd (filter (\<lambda>x. fst x = d) (map (\<lambda>f. (fd, payload f)) fs1 @ ds)) = map payload (F d)" for d
    using ds(3) [of d] cut(1) by (auto simp: filter_map comp_def)
  then show ?case using s1(1) ds(1,2) by (auto simp: e)
qed

end

end
