(* ===== verification/Netpack.thy ===== *)
theory Netpack
  imports Packqueue
begin

text \<open>
  \<^verbatim>\<open>skynet/lualib-src/lua-netpack.c\<close>: packets with a two-byte length in front, cut out of the byte streams of the
  connections of a gate written in Lua.
\<close>

section \<open>The operations\<close>

record uncomplete =
  un_id :: i32
  un_size :: int
  un_buffer :: bytes
  un_read :: int
  un_header :: int

definition new_uncomplete :: "i32 \<Rightarrow> uncomplete" where
  "new_uncomplete fd = \<lparr>un_id = fd, un_size = 0, un_buffer = [], un_read = 0, un_header = 0\<rparr>"

type_synonym np_queue = "uncomplete pack_queue option"

definition np_read_size :: "bytes \<Rightarrow> int option" where
  "np_read_size buffer = do {
     a \<leftarrow> array_get buffer 0; b \<leftarrow> array_get buffer 1;
     Some (push_bit 8 (uint a) OR uint b) }"

text \<open>The two ways of keeping an incomplete packet: its first byte, or its size and what has come of it.\<close>

definition save_header :: "i32 \<Rightarrow> bytes \<Rightarrow> np_queue \<Rightarrow> np_queue option" where
  "save_header fd buffer Q = do {
     a \<leftarrow> array_get buffer 0;
     Some (link_uncomplete un_id ((new_uncomplete fd)\<lparr>un_read := - 1, un_header := uint a\<rparr>) Q) }"

definition save_part :: "i32 \<Rightarrow> int \<Rightarrow> bytes \<Rightarrow> np_queue \<Rightarrow> np_queue option" where
  "save_part fd pack_size buffer Q = do {
     b \<leftarrow> malloc_bytes pack_size;
     b \<leftarrow> write_at b 0 buffer;
     Some (link_uncomplete un_id ((new_uncomplete fd)\<lparr>un_read := int (length buffer), un_size := pack_size, un_buffer := b\<rparr>) Q) }"

partial_function (option) np_push_more :: "i32 \<Rightarrow> bytes \<Rightarrow> np_queue \<Rightarrow> np_queue option" where
  "np_push_more fd buffer Q =
     (if length buffer = 1 then save_header fd buffer Q
      else do {
        pack_size \<leftarrow> np_read_size buffer;
        let buffer = drop 2 buffer;
        if int (length buffer) < pack_size then save_part fd pack_size buffer Q
        else do {
          Q \<leftarrow> push_data fd (take (nat pack_size) buffer) pack_size Q;
          let buffer = drop (nat pack_size) buffer;
          if length buffer > 0 then np_push_more fd buffer Q else Some Q } })"

declare np_push_more.simps [code]

text \<open>The part of \<^verbatim>\<open>filter_data_\<close> that fills an incomplete packet whose size is known.\<close>

definition np_fill :: "i32 \<Rightarrow> uncomplete \<Rightarrow> bytes \<Rightarrow> np_queue \<Rightarrow> (filter_result \<times> np_queue) option" where
  "np_fill fd uc buffer Q = do {
     let need = un_size uc - un_read uc;
     if int (length buffer) < need then do {
       b \<leftarrow> write_at (un_buffer uc) (nat (un_read uc)) buffer;
       Some (Nothing, link_uncomplete un_id (uc\<lparr>un_buffer := b, un_read := un_read uc + int (length buffer)\<rparr>) Q) }
     else do {
       b \<leftarrow> write_at (un_buffer uc) (nat (un_read uc)) (take (nat need) buffer);
       let buffer = drop (nat need) buffer;
       if length buffer = 0 then Some (Data fd b, Q)
       else do {
         Q \<leftarrow> push_data fd b (un_size uc) Q;
         Q \<leftarrow> np_push_more fd buffer Q;
         Some (More, Q) } } }"

definition np_filter_data :: "i32 \<Rightarrow> bytes \<Rightarrow> np_queue \<Rightarrow> (filter_result \<times> np_queue) option" where
  "np_filter_data fd buffer Q = (case find_uncomplete un_id fd Q of
     (Some uc, Q) \<Rightarrow>
       if un_read uc < 0 then do {
         assert_c (un_read uc = - 1);
         a \<leftarrow> array_get buffer 0;
         let pack_size = uint a OR push_bit 8 (un_header uc);
         b \<leftarrow> malloc_bytes pack_size;
         np_fill fd (uc\<lparr>un_size := pack_size, un_buffer := b, un_read := 0\<rparr>) (drop 1 buffer) Q }
       else np_fill fd uc buffer Q
   | (None, Q) \<Rightarrow>
       if length buffer = 1 then do { Q \<leftarrow> save_header fd buffer Q; Some (Nothing, Q) }
       else do {
         pack_size \<leftarrow> np_read_size buffer;
         let buffer = drop 2 buffer;
         if int (length buffer) < pack_size then do { Q \<leftarrow> save_part fd pack_size buffer Q; Some (Nothing, Q) }
         else if int (length buffer) = pack_size then Some (Data fd buffer, Q)
         else do {
           Q \<leftarrow> push_data fd (take (nat pack_size) buffer) pack_size Q;
           Q \<leftarrow> np_push_more fd (drop (nat pack_size) buffer) Q;
           Some (More, Q) } })"

definition np_lfilter :: "net_message \<Rightarrow> np_queue \<Rightarrow> (filter_result \<times> np_queue) option" where
  "np_lfilter = lfilter_with un_id np_filter_data"

definition write_size :: "nat \<Rightarrow> bytes" where
  "write_size len = [word_of_nat (drop_bit 8 len AND 0xff), word_of_nat (len AND 0xff)]"

datatype pack_error = TooLong nat

definition lpack :: "bytes \<Rightarrow> pack_error + bytes" where
  "lpack s = (if length s \<ge> 0x10000 then Inl (TooLong (length s)) else Inr (write_size (length s) @ s))"

section \<open>Framing\<close>

definition np_good :: "bytes \<Rightarrow> bool" where
  "np_good s \<longleftrightarrow> length s < 0x10000"

definition np_enc :: "bytes \<Rightarrow> bytes" where
  "np_enc s = write_size (length s) @ s"

lemma size_bytes:
  fixes a b :: u8
  shows "push_bit 8 (uint a) OR uint b = uint a * 256 + uint b" "uint b OR push_bit 8 (uint a) = uint a * 256 + uint b"
proof -
  have "\<not> bit (push_bit 8 (uint a)) n \<or> \<not> bit (uint b) n" for n
    by (auto simp: bit_push_bit_iff bit_uint_iff)
  from disjunctive_add [OF this] show "push_bit 8 (uint a) OR uint b = uint a * 256 + uint b" by (simp add: push_bit_eq_mult)
  then show "uint b OR push_bit 8 (uint a) = uint a * 256 + uint b" by (simp add: or.commute)
qed

lemma write_size_bytes:
  assumes "n < 0x10000"
  shows "\<exists>a b. write_size n = [a, b] \<and> uint a * 256 + uint b = int n"
proof -
  have low: "x AND 0xff = x mod 256" for x :: nat
    using take_bit_eq_mask [of 8 x] by (simp add: take_bit_eq_mod mask_eq_exp_minus_1)
  have hi: "n div 256 < 256" using assms by (simp add: less_mult_imp_div_less)
  have u: "uint (word_of_nat k :: u8) = int k" if "k < 256" for k using that by (simp add: unsigned_of_nat take_bit_nat_eq_self)
  have "write_size n = [word_of_nat (n div 256), word_of_nat (n mod 256)]"
    using hi by (simp add: write_size_def low drop_bit_eq_div)
  moreover have "uint (word_of_nat (n div 256) :: u8) * 256 + uint (word_of_nat (n mod 256) :: u8) = int n"
  proof -
    have "uint (word_of_nat (n div 256) :: u8) * 256 + uint (word_of_nat (n mod 256) :: u8) = int (n div 256 * 256 + n mod 256)"
      using u [OF hi] u [of "n mod 256"] by (simp only: of_nat_add of_nat_mult of_nat_numeral mod_less_divisor zero_less_numeral)
    then show ?thesis by (simp only: div_mult_mod_eq)
  qed
  ultimately show ?thesis by blast
qed

lemma np_enc_ne [simp]: "np_enc s \<noteq> []"
  by (simp add: np_enc_def write_size_def)

lemma np_enc_bytes:
  assumes "np_good s"
  shows "\<exists>a b. np_enc s = a # b # s \<and> uint a * 256 + uint b = int (length s)"
  using write_size_bytes [of "length s"] assms by (auto simp: np_good_def np_enc_def)

text \<open>What is kept of a connection that has sent the bytes \<open>p\<close> of a packet.\<close>

definition part_body :: "i32 \<Rightarrow> u8 \<Rightarrow> u8 \<Rightarrow> bytes \<Rightarrow> uncomplete \<Rightarrow> bool" where
  "part_body fd a b s uc \<longleftrightarrow> un_id uc = fd \<and> un_size uc = uint a * 256 + uint b \<and> un_read uc = int (length s) \<and> un_read uc \<le> un_size uc
     \<and> int (length (un_buffer uc)) = un_size uc \<and> take (length s) (un_buffer uc) = s"

definition part_of :: "i32 \<Rightarrow> bytes \<Rightarrow> uncomplete \<Rightarrow> bool" where
  "part_of fd p uc \<longleftrightarrow> (case p of
     [] \<Rightarrow> False
   | [a] \<Rightarrow> un_id uc = fd \<and> un_read uc = - 1 \<and> un_header uc = uint a
   | a # b # s \<Rightarrow> part_body fd a b s uc \<and> un_read uc < un_size uc)"

definition np_kept :: "i32 \<Rightarrow> bytes \<Rightarrow> uncomplete list \<Rightarrow> bool" where
  "np_kept fd p us \<longleftrightarrow> (if p = [] then us = [] else \<exists>uc. us = [uc] \<and> part_of fd p uc)"

abbreviation np_rest :: "bytes \<Rightarrow> bool" where
  "np_rest \<equiv> rest_of np_good np_enc"

abbreviation np_pack :: "i32 \<Rightarrow> bytes \<Rightarrow> netpack" where
  "np_pack fd s \<equiv> \<lparr>np_id = fd, np_size = int (length s), np_buffer = s\<rparr>"

text \<open>A rest of at least two bytes has a size that is larger than what follows.\<close>

lemma np_rest_cases:
  assumes "np_rest p" "p \<noteq> []"
  shows "(\<exists>a. p = [a]) \<or> (\<exists>a b s. p = a # b # s \<and> int (length s) < uint a * 256 + uint b)"
proof -
  obtain f where f: "np_good f" "strict_prefix p (np_enc f)" using assms by (auto simp: rest_of_def)
  obtain a b where e: "np_enc f = a # b # f" "uint a * 256 + uint b = int (length f)" using np_enc_bytes [OF f(1)] by blast
  show ?thesis
  proof (cases p)
    case (Cons x q)
    show ?thesis
    proof (cases q)
      case (Cons y s)
      then have "x = a" "y = b" "strict_prefix s f" using f(2) \<open>p = x # q\<close> by (auto simp: e(1))
      then show ?thesis using Cons \<open>p = x # q\<close> e(2) by (auto dest: prefix_length_less)
    qed (use Cons in simp)
  qed (use assms in simp)
qed

lemma write_at_ok:
  assumes "off + length xs \<le> length b"
  shows "write_at b off xs = Some (take off b @ xs @ drop (off + length xs) b)"
  using assms by (simp add: write_at_def)

lemma save_rest:
  assumes "np_rest p" "p \<noteq> []" "pq_ok Q" "conns un_id Q fd = []"
  shows "\<exists>Q'. (length p = 1 \<and> save_header fd p Q = Some Q' \<or>
      length p \<noteq> 1 \<and> (\<exists>n. np_read_size p = Some n \<and> int (length p - 2) < n \<and> save_part fd n (drop 2 p) Q = Some Q'))
    \<and> pq_ok Q' \<and> packs Q' = packs Q \<and> np_kept fd p (conns un_id Q' fd) \<and> (\<forall>fd'. fd' \<noteq> fd \<longrightarrow> conns un_id Q' fd' = conns un_id Q fd')"
  using np_rest_cases [OF assms(1,2)]
proof (elim disjE exE conjE)
  fix a assume p: "p = [a]"
  let ?u = "(new_uncomplete fd)\<lparr>un_read := - 1, un_header := uint a\<rparr>"
  have "un_id ?u = fd" by (simp add: new_uncomplete_def)
  then show ?thesis using link_uncomplete_conns [where uid = un_id and uc = ?u and Q = Q] assms(3,4)
    by (auto simp: p save_header_def np_kept_def part_of_def)
next
  fix a b s assume p: "p = a # b # s" "int (length s) < uint a * 256 + uint b"
  define n where "n = uint a * 256 + uint b"
  let ?b = "s @ drop (length s) (replicate (nat n) 0)"
  let ?u = "(new_uncomplete fd)\<lparr>un_read := int (length s), un_size := n, un_buffer := ?b\<rparr>"
  have "0 \<le> n" "length s \<le> nat n" using p(2) by (simp_all add: n_def)
  then have "save_part fd n s Q = Some (link_uncomplete un_id ?u Q)"
    by (simp add: save_part_def malloc_bytes_def write_at_ok)
  moreover have "np_read_size p = Some n" by (simp add: np_read_size_def p(1) n_def size_bytes)
  moreover have "un_id ?u = fd" by (simp add: new_uncomplete_def)
  moreover have "part_of fd p ?u" using p \<open>0 \<le> n\<close> \<open>length s \<le> nat n\<close> by (simp add: part_of_def part_body_def new_uncomplete_def n_def)
  ultimately show ?thesis using link_uncomplete_conns [where uid = un_id and uc = ?u and Q = Q] assms(3,4) p
    by (auto simp: n_def [symmetric] np_kept_def)
qed

lemma np_enc_stream:
  assumes "np_good f" "s = np_enc f @ t"
  shows "np_read_size s = Some (int (length f))" "length s \<noteq> 1" "drop 2 s = f @ t"
  using np_enc_bytes [OF assms(1)] assms(2) by (auto simp: np_read_size_def size_bytes)

lemma np_push_more_cuts:
  assumes "\<forall>f \<in> set fs. np_good f" "np_rest p" "pq_ok Q" "conns un_id Q fd = []" "concat (map np_enc fs) @ p \<noteq> []"
  shows "\<exists>Q'. np_push_more fd (concat (map np_enc fs) @ p) Q = Some Q' \<and> pq_ok Q' \<and> packs Q' = packs Q @ map (np_pack fd) fs
    \<and> np_kept fd p (conns un_id Q' fd) \<and> (\<forall>fd'. fd' \<noteq> fd \<longrightarrow> conns un_id Q' fd' = conns un_id Q fd')"
  using assms
proof (induction fs arbitrary: Q)
  case Nil
  then have "p \<noteq> []" by simp
  from save_rest [OF Nil.prems(2) this Nil.prems(3,4)] show ?case by (subst np_push_more.simps) (auto simp: Let_def)
next
  case (Cons f fs)
  let ?t = "concat (map np_enc fs) @ p"
  have eq: "concat (map np_enc (f # fs)) @ p = np_enc f @ ?t" by simp
  have good: "np_good f" using Cons.prems(1) by simp
  note cut = np_enc_stream [OF good refl, of ?t]
  obtain Q1 where Q1: "push_data fd f (int (length f)) Q = Some Q1" "pq_ok Q1" "packs Q1 = packs Q @ [np_pack fd f]"
    "conns un_id Q1 = conns un_id Q" using push_data_conns [OF Cons.prems(3)] by blast
  have run: "np_push_more fd (np_enc f @ ?t) Q = (if length ?t > 0 then np_push_more fd ?t Q1 else Some Q1)"
    using cut Q1(1) by (subst np_push_more.simps) (simp add: Let_def)
  show ?case
  proof (cases "?t = []")
    case True
    then have "fs = []" by (cases fs) auto
    then show ?thesis using run True Q1 Cons.prems(4) unfolding eq by (simp add: np_kept_def)
  next
    case False
    then show ?thesis using run Cons.IH [of Q1] Cons.prems Q1 unfolding eq by auto
  qed
qed

text \<open>A call that completes the frames \<open>fs\<close> of a connection and leaves the rest \<open>r\<close>.\<close>

definition np_cut :: "i32 \<Rightarrow> bytes list \<Rightarrow> bytes \<Rightarrow> np_queue \<Rightarrow> (filter_result \<times> np_queue) option \<Rightarrow> bool" where
  "np_cut fd fs r Q out \<longleftrightarrow> (\<exists>res Q' Q''. out = Some (res, Q') \<and> deliver res Q' = Some (map (\<lambda>f. (fd, f)) fs, Q'') \<and> pq_ok Q''
     \<and> packs Q'' = [] \<and> np_kept fd r (conns un_id Q'' fd) \<and> (\<forall>fd'. fd' \<noteq> fd \<longrightarrow> conns un_id Q'' fd' = conns un_id Q fd'))"

lemma np_cut_nothing:
  assumes "pq_ok Q'" "packs Q' = []" "np_kept fd r (conns un_id Q' fd)" "\<forall>fd'. fd' \<noteq> fd \<longrightarrow> conns un_id Q' fd' = conns un_id Q fd'"
  shows "np_cut fd [] r Q (Some (Nothing, Q'))"
  using assms by (simp add: np_cut_def deliver_def)

lemma np_cut_data:
  assumes "pq_ok Q" "packs Q = []" "conns un_id Q fd = []"
  shows "np_cut fd [f] [] Q (Some (Data fd f, Q))"
  using assms by (simp add: np_cut_def deliver_def np_kept_def)

lemma np_cut_more:
  assumes "pq_ok Q" "packs Q = []" "conns un_id Q fd = []" "\<forall>f \<in> set (f # gs). np_good f" "np_rest r" "concat (map np_enc gs) @ r \<noteq> []"
  shows "np_cut fd (f # gs) r Q (do {
    Q \<leftarrow> push_data fd f (int (length f)) Q; Q \<leftarrow> np_push_more fd (concat (map np_enc gs) @ r) Q; Some (More, Q) })"
proof -
  obtain Q1 where Q1: "push_data fd f (int (length f)) Q = Some Q1" "pq_ok Q1" "packs Q1 = [np_pack fd f]" "conns un_id Q1 = conns un_id Q"
    using push_data_conns [OF assms(1), of fd f "int (length f)" un_id] assms(2) by auto
  have "\<forall>f \<in> set gs. np_good f" "conns un_id Q1 fd = []" using assms(3,4) Q1(4) by simp_all
  from np_push_more_cuts [OF this(1) assms(5) Q1(2) this(2) assms(6)]
  obtain Q2 where Q2: "np_push_more fd (concat (map np_enc gs) @ r) Q1 = Some Q2" "pq_ok Q2" "packs Q2 = packs Q1 @ map (np_pack fd) gs"
    "np_kept fd r (conns un_id Q2 fd)" "\<forall>fd'. fd' \<noteq> fd \<longrightarrow> conns un_id Q2 fd' = conns un_id Q1 fd'" by blast
  obtain Q3 where Q3: "lpop_all Q2 = Some (packs Q2, Q3)" "pq_ok Q3" "packs Q3 = []" "conns un_id Q3 = conns un_id Q2"
    using lpop_all_conns [OF Q2(2)] by blast
  show ?thesis unfolding np_cut_def
    by (rule exI [of _ More], rule exI [of _ Q2], rule exI [of _ Q3]) (use Q1 Q2 Q3 in \<open>simp add: deliver_def comp_def\<close>)
qed

lemma np_fill_cuts:
  assumes "part_body fd a b s uc" "p = a # b # s" "p @ c = concat (map np_enc fs) @ r" "\<forall>f \<in> set fs. np_good f" "np_rest r"
    "pq_ok Q" "packs Q = []" "conns un_id Q fd = []"
  shows "np_cut fd fs r Q (np_fill fd uc c Q)"
proof -
  note p = assms(2)
  define n where "n = uint a * 256 + uint b"
  have uc: "un_id uc = fd" "un_size uc = n" "un_read uc = int (length s)" "int (length s) \<le> n"
    "int (length (un_buffer uc)) = n" "take (length s) (un_buffer uc) = s"
    using assms(1) by (auto simp: part_body_def n_def)
  show ?thesis
  proof (cases "int (length c) < n - int (length s)")
    case True
    have "fs = []"
    proof (cases fs)
      case (Cons f gs)
      obtain x y where e: "np_enc f = x # y # f" "uint x * 256 + uint y = int (length f)"
        using np_enc_bytes [of f] assms(4) Cons by auto
      then have "s @ c = f @ concat (map np_enc gs) @ r" "n = int (length f)" using assms(3) Cons by (auto simp: p n_def)
      then have "length s + length c \<ge> length f" by (metis length_append le_add1)
      then show ?thesis using True \<open>n = int (length f)\<close> by simp
    qed simp
    then have r: "r = a # b # s @ c" using assms(3) p by simp
    define b' where "b' = s @ c @ drop (length s + length c) (un_buffer uc)"
    let ?u = "uc\<lparr>un_buffer := b', un_read := int (length s) + int (length c)\<rparr>"
    have "write_at (un_buffer uc) (length s) c = Some b'" using True uc by (simp add: write_at_ok b'_def)
    then have run: "np_fill fd uc c Q = Some (Nothing, link_uncomplete un_id ?u Q)" using True uc by (simp add: np_fill_def Let_def)
    have "length b' = length (un_buffer uc)" using True uc by (simp add: b'_def)
    then have "part_of fd r ?u" using True uc by (simp add: part_of_def part_body_def r n_def b'_def)
    moreover have "un_id ?u = fd" using uc(1) by simp
    ultimately have "np_kept fd r (conns un_id (link_uncomplete un_id ?u Q) fd)"
      using link_uncomplete_conns(1) [of un_id ?u Q] assms(8) r by (simp add: np_kept_def)
    then show ?thesis unfolding run \<open>fs = []\<close> using link_uncomplete_conns [where uid = un_id and uc = ?u and Q = Q] assms(6,7) \<open>un_id ?u = fd\<close>
      by (intro np_cut_nothing) simp_all
  next
    case False
    define k where "k = nat (n - int (length s))"
    have k: "k \<le> length c" "int (length s) + int k = n" using False uc(4) by (simp_all add: k_def)
    obtain f gs where fs: "fs = f # gs"
    proof (cases fs)
      case Nil
      then have "r = a # b # s @ c" using assms(3) p by simp
      then show thesis using np_rest_cases [OF assms(5)] k by (auto simp: n_def)
    qed
    obtain x y where e: "np_enc f = x # y # f" "uint x * 256 + uint y = int (length f)"
      using np_enc_bytes [of f] assms(4) fs by auto
    have len: "n = int (length f)" and st: "s @ c = f @ concat (map np_enc gs) @ r" using assms(3) e fs by (auto simp: p n_def)
    have lf: "length f = length s + k" using len k(2) by simp
    have "take (length f) (s @ c) = f" "drop (length f) (s @ c) = concat (map np_enc gs) @ r" unfolding st by simp_all
    then have f: "s @ take k c = f" "drop k c = concat (map np_enc gs) @ r" by (simp_all add: lf)
    have full: "length (un_buffer uc) = length s + length (take k c)" using uc(5) k by simp
    have "write_at (un_buffer uc) (length s) (take k c) = Some (take (length s) (un_buffer uc) @ take k c)"
      using full by (simp add: write_at_ok)
    then have "write_at (un_buffer uc) (length s) (take k c) = Some f" unfolding uc(6) f(1) .
    then have run: "np_fill fd uc c Q = (if length (drop k c) = 0 then Some (Data fd f, Q) else do {
        Q \<leftarrow> push_data fd f n Q; Q \<leftarrow> np_push_more fd (drop k c) Q; Some (More, Q) })"
      using False uc by (simp add: np_fill_def Let_def k_def)
    show ?thesis
    proof (cases "drop k c = []")
      case True
      then have "gs = [] \<and> r = []" using f(2) by (cases gs) simp_all
      then show ?thesis using run True fs np_cut_data [OF assms(6-8)] by simp
    next
      case more: False
      have "np_cut fd (f # gs) r Q (do {
        Q \<leftarrow> push_data fd f (int (length f)) Q; Q \<leftarrow> np_push_more fd (concat (map np_enc gs) @ r) Q; Some (More, Q) })"
        by (rule np_cut_more [OF assms(6-8) _ assms(5)]) (use assms(4) fs more f(2) in simp_all)
      moreover have "np_fill fd uc c Q = do {
        Q \<leftarrow> push_data fd f (int (length f)) Q; Q \<leftarrow> np_push_more fd (concat (map np_enc gs) @ r) Q; Some (More, Q) }"
      proof -
        have "(length (drop k c) = 0) = False" using more by simp
        then show ?thesis using run by (simp only: if_False f(2) len)
      qed
      ultimately show ?thesis using fs by simp
    qed
  qed
qed

lemma np_filter_cuts:
  assumes "np_kept fd p (conns un_id Q fd)" "np_rest p" "c \<noteq> []" "p @ c = concat (map np_enc fs) @ r"
    "\<forall>f \<in> set fs. np_good f" "np_rest r" "pq_ok Q" "packs Q = []"
  shows "np_cut fd fs r Q (np_filter_data fd c Q)"
proof -
  define Q0 where "Q0 = snd (find_uncomplete un_id fd Q)"
  have Q0: "pq_ok Q0" "packs Q0 = []" "conns un_id Q0 fd = tl (conns un_id Q fd)" "\<And>fd'. fd' \<noteq> fd \<Longrightarrow> conns un_id Q0 fd' = conns un_id Q fd'"
    using assms(7,8) by (simp_all add: Q0_def find_uncomplete_conns)
  have other: "np_cut fd fs r Q0 out \<Longrightarrow> np_cut fd fs r Q out" for out using Q0(4) by (auto simp: np_cut_def)
  show ?thesis
  proof (cases "p = []")
    case True
    then have none: "conns un_id Q fd = []" using assms(1) by (simp add: np_kept_def)
    then have Q0': "conns un_id Q0 fd = []" and find: "find_uncomplete un_id fd Q = (None, Q0)"
      using Q0(3) find_uncomplete_conns(1) [of un_id fd Q] by (simp_all add: Q0_def prod_eq_iff)
    show ?thesis
    proof (cases fs)
      case Nil
      then have c: "c = r" using assms(4) True by simp
      from save_rest [OF assms(6) _ Q0(1) Q0'] c assms(3) obtain Q' where
        Q': "length c = 1 \<and> save_header fd c Q0 = Some Q' \<or>
          length c \<noteq> 1 \<and> (\<exists>n. np_read_size c = Some n \<and> int (length c - 2) < n \<and> save_part fd n (drop 2 c) Q0 = Some Q')"
        "pq_ok Q'" "packs Q' = packs Q0" "np_kept fd c (conns un_id Q' fd)" "\<forall>fd'. fd' \<noteq> fd \<longrightarrow> conns un_id Q' fd' = conns un_id Q0 fd'" by blast
      then have "np_filter_data fd c Q = Some (Nothing, Q')" by (auto simp: np_filter_data_def find Let_def)
      then show ?thesis using Q' Q0(2) Nil c by (intro other) (auto intro: np_cut_nothing)
    next
      case (Cons f gs)
      define t where "t = concat (map np_enc gs) @ r"
      have c: "c = np_enc f @ t" using assms(4) True Cons by (simp add: t_def)
      note cut = np_enc_stream [OF _ c]
      have good: "np_good f" using assms(5) Cons by simp
      have run: "np_filter_data fd c Q = (if t = [] then Some (Data fd f, Q0) else do {
          Q \<leftarrow> push_data fd f (int (length f)) Q0; Q \<leftarrow> np_push_more fd t Q; Some (More, Q) })"
        using cut [OF good] by (auto simp: np_filter_data_def find Let_def)
      show ?thesis
      proof (cases "t = []")
        case True
        then have "gs = [] \<and> r = []" by (cases gs) (simp_all add: t_def)
        then show ?thesis using run Cons True by (intro other) (simp add: np_cut_data [OF Q0(1,2) Q0'])
      next
        case False
        have "np_cut fd (f # gs) r Q0 (do { Q \<leftarrow> push_data fd f (int (length f)) Q0; Q \<leftarrow> np_push_more fd t Q; Some (More, Q) })"
          unfolding t_def by (rule np_cut_more [OF Q0(1,2) Q0' _ assms(6)]) (use assms(5) Cons False in \<open>simp_all add: t_def\<close>)
        then show ?thesis using run False Cons by (intro other) simp
      qed
    qed
  next
    case False
    then obtain uc where uc: "conns un_id Q fd = [uc]" "part_of fd p uc" using assms(1) by (auto simp: np_kept_def)
    then have Q0': "conns un_id Q0 fd = []" and find: "find_uncomplete un_id fd Q = (Some uc, Q0)"
      using Q0(3) find_uncomplete_conns(1) [of un_id fd Q] by (simp_all add: Q0_def prod_eq_iff)
    show ?thesis
    proof (cases "2 \<le> length p")
      case True
      then obtain a b s where p: "p = a # b # s" by (cases p; cases "tl p") auto
      then have body: "part_body fd a b s uc" using uc(2) by (simp add: part_of_def)
      then have "np_filter_data fd c Q = np_fill fd uc c Q0" by (simp add: np_filter_data_def find part_body_def)
      then show ?thesis using np_fill_cuts [OF body p assms(4-6) Q0(1,2) Q0'] by (intro other) simp
    next
      case short: False
      then obtain a where p: "p = [a]" using False by (cases p; cases "tl p") auto
      obtain b d where c: "c = b # d" using assms(3) by (cases c) auto
      define n where "n = uint a * 256 + uint b"
      have n: "0 \<le> n" by (simp add: n_def)
      have u: "un_read uc = - 1" "un_header uc = uint a" "un_id uc = fd" using uc(2) by (simp_all add: p part_of_def)
      let ?u = "uc\<lparr>un_size := n, un_buffer := replicate (nat n) 0, un_read := 0\<rparr>"
      have run: "np_filter_data fd c Q = np_fill fd ?u d Q0"
        using u n by (simp add: np_filter_data_def find c malloc_bytes_def size_bytes n_def [symmetric])
      have "part_body fd a b [] ?u" using u n by (simp add: part_body_def n_def)
      moreover have "[a, b] @ d = concat (map np_enc fs) @ r" using assms(4) by (simp add: p c)
      ultimately show ?thesis unfolding run
        using np_fill_cuts [OF _ refl _ assms(5,6) Q0(1,2) Q0', of a b "[]" ?u d] by (intro other) simp
    qed
  qed
qed

section \<open>The filter keeps the contract\<close>

definition np_feed :: "i32 \<Rightarrow> bytes \<Rightarrow> np_queue \<Rightarrow> ((i32 \<times> bytes) list \<times> np_queue) option" where
  "np_feed fd c Q = do { (r, Q) \<leftarrow> np_filter_data fd c Q; deliver r Q }"

definition np_holds :: "np_queue \<Rightarrow> (i32 \<Rightarrow> bytes) \<Rightarrow> bool" where
  "np_holds Q P \<longleftrightarrow> pq_ok Q \<and> packs Q = [] \<and> (\<forall>fd. np_rest (P fd) \<and> np_kept fd (P fd) (conns un_id Q fd))"

interpretation np: stream_filter np_good np_enc "\<lambda>s. s" np_holds np_feed
proof
  fix Q P c fs p fd
  assume a: "np_holds Q P" "c \<noteq> []" "\<forall>f \<in> set fs. np_good f" "np_rest p" "P fd @ c = concat (map np_enc fs) @ p"
  then have "np_cut fd fs p Q (np_filter_data fd c Q)" by (intro np_filter_cuts) (auto simp: np_holds_def)
  then show "\<exists>Q'. np_feed fd c Q = Some (map (\<lambda>f. (fd, f)) fs, Q') \<and> np_holds Q' (P(fd := p))"
    using a by (auto simp: np_cut_def np_feed_def np_holds_def)
next
  fix Q P f fd p
  assume a: "np_holds Q P" "np_good f"
  show "P fd \<noteq> np_enc f @ p"
  proof
    assume eq: "P fd = np_enc f @ p"
    obtain x y where "np_enc f = x # y # f" "uint x * 256 + uint y = int (length f)" using np_enc_bytes [OF a(2)] by blast
    moreover have "np_rest (P fd)" using a(1) by (simp add: np_holds_def)
    ultimately show False using np_rest_cases [of "P fd"] eq by auto
  qed
qed

fun np_run :: "(i32 \<times> bytes) list \<Rightarrow> np_queue \<Rightarrow> ((i32 \<times> bytes) list \<times> np_queue) option" where
  "np_run [] Q = Some ([], Q)"
| "np_run (e # es) Q = do { (d, Q) \<leftarrow> np_feed (fst e) (snd e) Q; (ds, Q) \<leftarrow> np_run es Q; Some (d @ ds, Q) }"

lemma np_run_feed_all: "np_run es Q = np.feed_all es Q"
  by (induction es arbitrary: Q) simp_all

text \<open>
  Property C3. Whatever the chunks in which the connections of a Lua gate deliver their streams, and however these are
  interleaved, \<^verbatim>\<open>netpack.filter\<close> with \<^verbatim>\<open>netpack.pop\<close> hands every packet that was packed with \<^verbatim>\<open>netpack.pack\<close>
  to the Lua side exactly once, unchanged and, for each connection, in order.
\<close>

theorem netpack_framing:
  assumes "\<forall>e \<in> set es. snd e \<noteq> []" "\<forall>fd. \<forall>s \<in> set (F fd). length s < 0x10000"
    "\<forall>fd. concat (map snd (filter (\<lambda>e. fst e = fd) es)) = concat (map (\<lambda>s. projr (lpack s)) (F fd))"
  shows "\<exists>ds Q. np_run es None = Some (ds, Q) \<and> (\<forall>fd. map snd (filter (\<lambda>d. fst d = fd) ds) = F fd)"
proof -
  have start: "np_holds None (\<lambda>fd. [])" by (simp add: np_holds_def pq_ok_def packs_def conns_def np_kept_def rest_of_def)
  have good: "\<forall>s \<in> set (F fd). np_good s" for fd using assms(2) by (simp add: np_good_def)
  have "projr (lpack s) = np_enc s" if "s \<in> set (F fd)" for s fd
    using good [of fd] that by (auto simp: lpack_def np_enc_def np_good_def)
  then have "concat (map (\<lambda>s. projr (lpack s)) (F fd)) = concat (map np_enc (F fd))" for fd by (metis map_cong)
  then have "[] @ concat (map snd (filter (\<lambda>e. fst e = fd) es)) = concat (map np_enc (F fd)) @ []" for fd using assms(3) by simp
  from np.feed_all_cuts [where R = "\<lambda>fd. []", OF start assms(1) good _ this] show ?thesis
    unfolding np_run_feed_all by (auto simp: rest_of_def)
qed

theorem netpack_framing_witness:
  "\<exists>ds Q. np_run [(1, [0]), (2, [0, 1, 65, 0]), (1, [2, 66]), (2, [0]), (1, [67, 0, 1, 68])] None = Some (ds, Q) \<and>
     map snd (filter (\<lambda>d. fst d = 1) ds) = [[66, 67], [68]] \<and> map snd (filter (\<lambda>d. fst d = 2) ds) = [[65], []]"
proof -
  let ?es = "[(1, [0]), (2, [0, 1, 65, 0]), (1, [2, 66]), (2, [0]), (1, [67, 0, 1, 68])] :: (i32 \<times> bytes) list"
  let ?F = "\<lambda>fd :: i32. if fd = 1 then [[66, 67], [68]] else if fd = 2 then [[65], []] else [] :: bytes list"
  have sizes: "write_size (Suc (Suc 0)) = [0, 2]" "write_size (Suc 0) = [0, 1]" "write_size 0 = [0, 0]" by code_simp+
  have "\<exists>ds Q. np_run ?es None = Some (ds, Q) \<and> (\<forall>fd. map snd (filter (\<lambda>d. fst d = fd) ds) = ?F fd)"
    by (rule netpack_framing) (auto simp: lpack_def sizes)
  then obtain ds Q where "np_run ?es None = Some (ds, Q)" "\<And>fd. map snd (filter (\<lambda>d. fst d = fd) ds) = ?F fd" by blast
  then show ?thesis by auto
qed

text \<open>\<^verbatim>\<open>netpack.pack\<close> refuses exactly the strings whose length does not fit into the header.\<close>

lemma lpack_error: "(\<exists>e. lpack s = Inl e) \<longleftrightarrow> 2 ^ 16 \<le> length s"
  by (simp add: lpack_def)

end
