(* ===== verification/Websocket.thy ===== *)
theory Websocket
  imports Netpack
begin

text \<open>
  \<^verbatim>\<open>lualib-src/lua-websocketnetpack.c\<close>: the packets of a gate that speaks WebSocket, the default of the framework. The first
  message of a connection is the HTTP header of the handshake (the argument \<^verbatim>\<open>wsocket_handeshake\<close>, here
  \<open>hs\<close>), the others are frames. The queue is the one of theory \<open>Packqueue\<close>. A write behind the end of the header
  array or of a packet buffer is \<open>None\<close>. A buffer is passed with its size, which is the
  length of the list.
\<close>

section \<open>The data\<close>

definition HEADERSIZE :: nat where
  "HEADERSIZE = 1024"

definition MAX_PACKSIZE :: int where
  "MAX_PACKSIZE = 10 * 1024"

record ws_uncomplete =
  wu_id :: i32
  wu_size :: int
  wu_buffer :: bytes
  wu_header :: bytes
  wu_header_size :: nat
  wu_read :: int
  wu_mask :: bytes
  wu_ismask :: bool
  wu_hasunmask_size :: nat

type_synonym ws_queue = "ws_uncomplete pack_queue option"

text \<open>\<^verbatim>\<open>memset(uc, 0, sizeof(*uc))\<close>\<close>

definition ws_new_uncomplete :: "i32 \<Rightarrow> ws_uncomplete" where
  "ws_new_uncomplete fd = \<lparr>wu_id = fd, wu_size = 0, wu_buffer = [], wu_header = replicate HEADERSIZE 0, wu_header_size = 0,
     wu_read = 0, wu_mask = [0, 0, 0, 0], wu_ismask = False, wu_hasunmask_size = 0\<rparr>"

text \<open>The variables \<^verbatim>\<open>pack_head_length\<close>, \<^verbatim>\<open>mask\<close> and \<^verbatim>\<open>ismask\<close> that \<^verbatim>\<open>read_size\<close> sets; \<^verbatim>\<open>hasunmask_size\<close> stays 0.\<close>

record frame_info =
  fi_head :: nat
  fi_mask :: bytes
  fi_ismask :: bool

definition no_info :: frame_info where
  "no_info = \<lparr>fi_head = 0, fi_mask = [0, 0, 0, 0], fi_ismask = False\<rparr>"

definition clear_mask :: "frame_info \<Rightarrow> frame_info" where
  "clear_mask i = i\<lparr>fi_mask := [0, 0, 0, 0], fi_ismask := False\<rparr>"

section \<open>Headers\<close>

text \<open>Loads of little-endian words and the conversions from network order.\<close>

definition load16 :: "bytes \<Rightarrow> u16" where
  "load16 b = ucast (b ! 0) OR push_bit 8 (ucast (b ! 1))"

definition load64 :: "bytes \<Rightarrow> u64" where
  "load64 b = foldr (OR) (map (\<lambda>k. push_bit (8 * k) (ucast (b ! k))) [0..<8]) 0"

definition ntohs :: "u16 \<Rightarrow> u16" where
  "ntohs x = push_bit 8 x OR drop_bit 8 x"

definition ntohl :: "u32 \<Rightarrow> u32" where
  "ntohl x = push_bit 24 x OR (push_bit 8 x AND 0xff0000) OR (drop_bit 8 x AND 0xff00) OR drop_bit 24 x"

definition ntoh64 :: "u64 \<Rightarrow> u64" where
  "ntoh64 host =
     (let low = ntohl (ucast (host AND 0xFFFFFFFF)); high = ntohl (ucast (drop_bit 32 host AND 0xFFFFFFFF))
      in push_bit 32 (ucast low) OR ucast high)"

text \<open>
  \<^verbatim>\<open>read_size\<close>: \<open>-1\<close> when the header is incomplete, \<open>-2\<close> when its first two bytes are to be dropped, \<open>-3\<close> for a close frame. A
  64-bit length is cut to an \<^verbatim>\<open>int\<close>.
\<close>

definition ws_length :: "bytes \<Rightarrow> (int \<times> nat) option" where
  "ws_length b =
     (let len = b ! 1 AND 0x7f in
      if len < 0x7E then Some (uint len, 2)
      else if len = 0x7E then (if length b < 4 then None else Some (uint (ntohs (load16 (drop 2 b))), 4))
      else (if length b < 10 then None else Some (sint (ucast (ntoh64 (load64 (drop 2 b))) :: i32), 10)))"

definition ws_read_size :: "bytes \<Rightarrow> frame_info \<Rightarrow> int \<times> frame_info" where
  "ws_read_size b i =
     (if length b < 2 then (- 1, i)
      else if drop_bit 6 (b ! 0) AND 1 \<noteq> 0 \<or> drop_bit 5 (b ! 0) AND 1 \<noteq> 0 \<or> drop_bit 4 (b ! 0) AND 1 \<noteq> 0 then (- 2, i)
      else if drop_bit 7 (b ! 0) AND 1 = 0 \<or> b ! 0 AND 0xf = 0 then (- 2, i)
      else if b ! 0 AND 0xf = 8 then (- 3, i)
      else case ws_length b of
        None \<Rightarrow> (- 1, i)
      | Some (pack_size, offset) \<Rightarrow>
          if drop_bit 7 (b ! 1) AND 1 \<noteq> 0 then
            if offset + 4 > length b then (- 1, i)
            else (pack_size, \<lparr>fi_head = offset + 4, fi_mask = take 4 (drop offset b), fi_ismask = True\<rparr>)
          else (pack_size, i\<lparr>fi_head := offset\<rparr>))"

definition clamp :: "int \<Rightarrow> int" where
  "clamp pack_size = (if pack_size > MAX_PACKSIZE then MAX_PACKSIZE else pack_size)"

lemma ws_read_size_length: "fst (ws_read_size b i) \<noteq> - 1 \<Longrightarrow> 2 \<le> length b"
  by (auto simp: ws_read_size_def split: if_splits)

text \<open>
  The loops that drop two bytes while the header is not acceptable: on the data itself (\<open>again\<close> is
  the variant of \<^verbatim>\<open>push_more\<close>, which also drops close frames) and on the header array.
\<close>

function ws_skip :: "bool \<Rightarrow> bytes \<Rightarrow> frame_info \<Rightarrow> int \<times> frame_info \<times> bytes" where
  "ws_skip again b i =
     (let (pack_size, i') = ws_read_size b i in
      if (if again then pack_size \<le> - 2 else pack_size = - 2) then ws_skip again (drop 2 b) (clear_mask i')
      else (pack_size, i', b))"
  by pat_completeness auto
termination
proof (relation "measure (\<lambda>(again, b, i). length b)")
  fix again b i x pack_size i'
  assume "x = ws_read_size b i" "(pack_size, i') = x" "if again then pack_size \<le> - 2 else pack_size = - 2"
  then have "fst (ws_read_size b i) \<noteq> - 1" by (cases again) (auto simp: prod_eq_iff)
  then show "((again, drop 2 b, clear_mask i'), again, b, i) \<in> measure (\<lambda>(again, b, i). length b)"
    using ws_read_size_length [of b i] by auto
qed simp

declare ws_skip.simps [simp del]

function ws_header_skip :: "ws_uncomplete \<Rightarrow> frame_info \<Rightarrow> int \<times> frame_info \<times> ws_uncomplete" where
  "ws_header_skip uc i =
     (let (pack_size, i') = ws_read_size (take (wu_header_size uc) (wu_header uc)) i in
      if pack_size = - 2 then
        let n = wu_header_size uc - 2 in
        ws_header_skip (uc\<lparr>wu_header := take n (drop 2 (wu_header uc)) @ drop n (wu_header uc), wu_header_size := n\<rparr>) (clear_mask i')
      else (pack_size, i', uc))"
  by pat_completeness auto
termination
proof (relation "measure (\<lambda>(uc, i). wu_header_size uc)")
  fix uc i x pack_size i' n
  assume "x = ws_read_size (take (wu_header_size uc) (wu_header uc)) i" "(pack_size, i') = x" "pack_size = - 2" "n = wu_header_size uc - 2"
  then show "((uc\<lparr>wu_header := take n (drop 2 (wu_header uc)) @ drop n (wu_header uc), wu_header_size := n\<rparr>, clear_mask i'), uc, i)
      \<in> measure (\<lambda>(uc, i). wu_header_size uc)"
    using ws_read_size_length [of "take (wu_header_size uc) (wu_header uc)" i] by (auto simp: prod_eq_iff)
qed simp

declare ws_header_skip.simps [simp del]

text \<open>The XOR of \<^verbatim>\<open>decode_wsmask_data\<close> with the mask, from its \<open>k\<close>-th byte on.\<close>

fun unmask :: "bytes \<Rightarrow> nat \<Rightarrow> bytes \<Rightarrow> bytes" where
  "unmask masks k [] = []"
| "unmask masks k (b # bs) = (b XOR masks ! (k mod 4)) # unmask masks (Suc k) bs"

definition decode_wsmask_data :: "bytes \<Rightarrow> ws_uncomplete \<Rightarrow> bytes \<times> ws_uncomplete" where
  "decode_wsmask_data buffer uc =
     (if \<not> wu_ismask uc then (buffer, uc)
      else (unmask (wu_mask uc) (wu_hasunmask_size uc) buffer,
            uc\<lparr>wu_hasunmask_size := wu_hasunmask_size uc + length buffer\<rparr>))"

definition with_info :: "frame_info \<Rightarrow> ws_uncomplete \<Rightarrow> ws_uncomplete" where
  "with_info i uc = uc\<lparr>wu_mask := fi_mask i, wu_ismask := fi_ismask i, wu_hasunmask_size := 0\<rparr>"

fun websocket_strnpos :: "bytes \<Rightarrow> nat \<Rightarrow> bytes \<Rightarrow> int" where
  "websocket_strnpos needle i [] = - 1"
| "websocket_strnpos needle i (c # cs) =
     (if length (c # cs) < length needle then - 1
      else if take (length needle) (c # cs) = needle then int i
      else websocket_strnpos needle (Suc i) cs)"

definition get_http_header :: "bytes \<Rightarrow> int" where
  "get_http_header buffer = (let n = websocket_strnpos [13, 10, 13, 10] 0 buffer in if n < 0 then n else n + 4)"

section \<open>Keeping and completing packets\<close>

text \<open>An incomplete header: \<^verbatim>\<open>memcpy\<close> into the array of 1024 bytes, cut only in the handshake.\<close>

definition ws_save_header :: "bool \<Rightarrow> i32 \<Rightarrow> bytes \<Rightarrow> ws_queue \<Rightarrow> ws_queue option" where
  "ws_save_header hs fd buffer Q = do {
     let uc = (ws_new_uncomplete fd)\<lparr>wu_read := - 1\<rparr>;
     let part = (if hs \<and> length buffer > HEADERSIZE then take HEADERSIZE buffer else buffer);
     header \<leftarrow> write_at (wu_header uc) 0 part;
     Some (link_uncomplete wu_id (uc\<lparr>wu_header := header, wu_header_size := length part\<rparr>) Q) }"

definition ws_save_part :: "i32 \<Rightarrow> int \<Rightarrow> frame_info \<Rightarrow> bytes \<Rightarrow> ws_queue \<Rightarrow> ws_queue option" where
  "ws_save_part fd pack_size i buffer Q = do {
     let uc = (with_info i (ws_new_uncomplete fd))\<lparr>wu_read := int (length buffer), wu_size := pack_size\<rparr>;
     b \<leftarrow> malloc_bytes pack_size;
     let (s, uc) = decode_wsmask_data buffer uc;
     b \<leftarrow> write_at b 0 s;
     Some (link_uncomplete wu_id (uc\<lparr>wu_buffer := b\<rparr>) Q) }"

text \<open>A complete packet at the front of the data.\<close>

definition ws_push_front :: "i32 \<Rightarrow> int \<Rightarrow> frame_info \<Rightarrow> bytes \<Rightarrow> ws_queue \<Rightarrow> ws_queue option" where
  "ws_push_front fd pack_size i buffer Q = do {
     b \<leftarrow> malloc_bytes pack_size;
     let (s, _) = decode_wsmask_data (take (nat pack_size) buffer) (with_info i (ws_new_uncomplete fd));
     b \<leftarrow> write_at b 0 s;
     push_data fd b pack_size Q }"

partial_function (option) ws_push_more :: "bool \<Rightarrow> i32 \<Rightarrow> bytes \<Rightarrow> ws_queue \<Rightarrow> ws_queue option" where
  "ws_push_more hs fd buffer Q =
     (let (pack_size, i, buffer) =
        (if hs then (get_http_header buffer, no_info, buffer)
         else (let (pack_size, i, b) = ws_skip True buffer no_info in (clamp pack_size, i, b))) in
      if pack_size = - 1 then ws_save_header hs fd buffer Q
      else do {
        let buffer = drop (fi_head i) buffer;
        if int (length buffer) < pack_size \<and> \<not> hs then ws_save_part fd pack_size i buffer Q
        else do {
          Q \<leftarrow> ws_push_front fd pack_size i buffer Q;
          let buffer = drop (nat pack_size) buffer;
          if length buffer > 0 then ws_push_more hs fd buffer Q else Some Q } })"

declare ws_push_more.simps [code]

text \<open>The part of \<^verbatim>\<open>filter_data_\<close> that fills an incomplete packet whose size is known.\<close>

definition ws_fill :: "bool \<Rightarrow> i32 \<Rightarrow> ws_uncomplete \<Rightarrow> bytes \<Rightarrow> ws_queue \<Rightarrow> (filter_result \<times> ws_queue) option" where
  "ws_fill hs fd uc buffer Q = do {
     let need = wu_size uc - wu_read uc;
     if int (length buffer) < need then do {
       let (s, uc) = decode_wsmask_data buffer uc;
       b \<leftarrow> write_at (wu_buffer uc) (nat (wu_read uc)) s;
       Some (Nothing, link_uncomplete wu_id (uc\<lparr>wu_buffer := b, wu_read := wu_read uc + int (length buffer)\<rparr>) Q) }
     else do {
       let (s, uc) = decode_wsmask_data (take (nat need) buffer) uc;
       b \<leftarrow> write_at (wu_buffer uc) (nat (wu_read uc)) s;
       let buffer = drop (nat need) buffer;
       if length buffer = 0 then Some (Data fd b, Q)
       else do {
         Q \<leftarrow> push_data fd b (wu_size uc) Q;
         Q \<leftarrow> ws_push_more hs fd buffer Q;
         Some (More, Q) } } }"

text \<open>
  The loop of \<^verbatim>\<open>filter_data_\<close> that completes a header byte by byte, with the size it finds, the node and the
  bytes it leaves. It goes on while the size is negative, for a close frame too.
\<close>

fun ws_header_loop :: "bool \<Rightarrow> bytes \<Rightarrow> ws_uncomplete \<Rightarrow> frame_info \<Rightarrow> (int \<times> frame_info \<times> ws_uncomplete \<times> bytes) option" where
  "ws_header_loop hs [] uc i = Some (0, i, uc, [])"
| "ws_header_loop hs (c # cs) uc i = do {
     header \<leftarrow> array_set (wu_header uc) (wu_header_size uc) c;
     let uc = uc\<lparr>wu_header := header, wu_header_size := wu_header_size uc + 1\<rparr>;
     let (pack_size, i, uc) =
       (if hs then
          (if wu_header_size uc > HEADERSIZE then (int HEADERSIZE, i, uc\<lparr>wu_header_size := HEADERSIZE\<rparr>)
           else (get_http_header (take (wu_header_size uc) (wu_header uc)), i, uc))
        else (let (pack_size, i, uc) = ws_header_skip uc i in (clamp pack_size, i, uc)));
     if pack_size \<ge> 0 \<or> cs = [] then Some (pack_size, i, uc, cs) else ws_header_loop hs cs uc i }"

definition ws_filter_data :: "bool \<Rightarrow> i32 \<Rightarrow> bytes \<Rightarrow> ws_queue \<Rightarrow> (filter_result \<times> ws_queue) option" where
  "ws_filter_data hs fd buffer Q = (case find_uncomplete wu_id fd Q of
     (Some uc, Q) \<Rightarrow>
       if wu_read uc < 0 then do {
         (pack_size, i, uc, buffer) \<leftarrow> ws_header_loop hs buffer uc no_info;
         if pack_size = - 1 then Some (Nothing, link_uncomplete wu_id uc Q)
         else if pack_size = - 3 then Some (Close fd, close_uncomplete wu_id fd Q)
         else do {
           b \<leftarrow> malloc_bytes pack_size;
           let uc = with_info i (uc\<lparr>wu_buffer := b, wu_size := pack_size\<rparr>);
           uc \<leftarrow> (if hs then do {
               let r = min (wu_header_size uc) (nat pack_size);
               b \<leftarrow> write_at b 0 (take r (wu_header uc));
               Some (uc\<lparr>wu_read := int r, wu_buffer := b\<rparr>) }
             else Some (uc\<lparr>wu_read := 0\<rparr>));
           ws_fill hs fd uc buffer Q } }
       else ws_fill hs fd uc buffer Q
   | (None, Q) \<Rightarrow>
       (let (pack_size, i, buffer) =
          (if hs then (get_http_header buffer, no_info, buffer)
           else (let (pack_size, i, b) = ws_skip False buffer no_info in (clamp pack_size, i, b))) in
        if pack_size = - 1 then do { Q \<leftarrow> ws_save_header hs fd buffer Q; Some (Nothing, Q) }
        else if pack_size = - 3 then Some (Close fd, close_uncomplete wu_id fd Q)
        else do {
          let buffer = drop (fi_head i) buffer;
          if int (length buffer) < pack_size \<and> \<not> hs then do { Q \<leftarrow> ws_save_part fd pack_size i buffer Q; Some (Nothing, Q) }
          else if int (length buffer) = pack_size then
            (let (s, _) = decode_wsmask_data buffer (with_info i (ws_new_uncomplete fd)) in Some (Data fd s, Q))
          else do {
            Q \<leftarrow> ws_push_front fd pack_size i buffer Q;
            Q \<leftarrow> ws_push_more hs fd (drop (nat pack_size) buffer) Q;
            Some (More, Q) } }))"

definition ws_lfilter :: "bool \<Rightarrow> net_message \<Rightarrow> ws_queue \<Rightarrow> (filter_result \<times> ws_queue) option" where
  "ws_lfilter hs = lfilter_with wu_id (ws_filter_data hs)"

section \<open>Packing\<close>

definition FRAME_SET_LENGTH :: "nat \<Rightarrow> nat \<Rightarrow> u8" where
  "FRAME_SET_LENGTH x idx = word_of_nat (drop_bit (idx * 8) x AND 0xFF)"

definition ws_lpack :: "bytes \<Rightarrow> bytes" where
  "ws_lpack s = (let len = length s in
     [0x82] @ (if len < 126 then [FRAME_SET_LENGTH len 0]
       else (if len < 65536 then [126] else [127] @ map (FRAME_SET_LENGTH len) [7, 6, 5, 4, 3, 2])
         @ [FRAME_SET_LENGTH len 1, FRAME_SET_LENGTH len 0])
     @ s)"

section \<open>Frames\<close>

text \<open>
  An unfragmented frame of RFC 6455 with the shortest encoding of its length, masked or not, that is not a
  close frame and not longer than \<^verbatim>\<open>MAX_PACKSIZE\<close>.
\<close>

record ws_frame =
  wf_opcode :: nat
  wf_masking :: "bytes option"
  wf_payload :: bytes

definition ws_good :: "ws_frame \<Rightarrow> bool" where
  "ws_good f \<longleftrightarrow> 0 < wf_opcode f \<and> wf_opcode f < 16 \<and> wf_opcode f \<noteq> 8 \<and> length (wf_payload f) \<le> 10240
     \<and> (case wf_masking f of None \<Rightarrow> True | Some m \<Rightarrow> length m = 4)"

definition ws_len7 :: "nat \<Rightarrow> nat" where
  "ws_len7 len = (if len < 126 then len else 126)"

definition ws_head :: "ws_frame \<Rightarrow> bytes" where
  "ws_head f = (let len = length (wf_payload f) in
     [word_of_nat (128 + wf_opcode f), word_of_nat ((if wf_masking f = None then 0 else 128) + ws_len7 len)]
     @ (if len < 126 then [] else write_size len) @ (case wf_masking f of None \<Rightarrow> [] | Some m \<Rightarrow> m))"

definition ws_body :: "ws_frame \<Rightarrow> bytes \<Rightarrow> bytes" where
  "ws_body f s = (case wf_masking f of None \<Rightarrow> s | Some m \<Rightarrow> unmask m 0 s)"

definition ws_enc :: "ws_frame \<Rightarrow> bytes" where
  "ws_enc f = ws_head f @ ws_body f (wf_payload f)"

definition ws_info :: "ws_frame \<Rightarrow> frame_info" where
  "ws_info f = \<lparr>fi_head = length (ws_head f), fi_mask = (case wf_masking f of None \<Rightarrow> [0, 0, 0, 0] | Some m \<Rightarrow> m),
     fi_ismask = (wf_masking f \<noteq> None)\<rparr>"

lemma byte_fields:
  fixes b :: u8
  shows "unat (drop_bit j b AND 1) = unat b div 2 ^ j mod 2" "unat (b AND 0xf) = unat b mod 16" "unat (b AND 0x7f) = unat b mod 128"
proof -
  have m: "(1 :: u8) = mask 1" "(0xf :: u8) = mask 4" "(0x7f :: u8) = mask 7" by (simp_all add: mask_eq_exp_minus_1)
  show "unat (drop_bit j b AND 1) = unat b div 2 ^ j mod 2" "unat (b AND 0xf) = unat b mod 16" "unat (b AND 0x7f) = unat b mod 128"
    unfolding m unat_and_mask unat_drop_bit by simp_all
qed

lemma load_ntohs: "uint (ntohs (load16 (a # b # s))) = uint a * 256 + uint b"
proof -
  have high: "\<not> bit x n" if "8 \<le> n" for x :: u8 and n using that bit_imp_le_length [of x n] by auto
  have "uint (ntohs (load16 (a # b # s))) = push_bit 8 (uint a) OR uint b"
  proof (rule bit_eqI)
    fix n :: nat
    consider "n < 8" | "8 \<le> n" "n < 16" | "16 \<le> n" by linarith
    then show "bit (uint (ntohs (load16 (a # b # s)))) n = bit (push_bit 8 (uint a) OR uint b) n"
      by cases (auto simp: ntohs_def load16_def bit_simps bit_uint_iff high)
  qed
  then show ?thesis by (simp add: size_bytes)
qed

text \<open>The first two bytes as the header test sees them.\<close>

lemma head_tests:
  assumes "ws_good f" "b ! 0 = word_of_nat (128 + wf_opcode f)"
  shows "drop_bit 6 (b ! 0) AND 1 = (0 :: u8)" "drop_bit 5 (b ! 0) AND 1 = (0 :: u8)" "drop_bit 4 (b ! 0) AND 1 = (0 :: u8)"
    "drop_bit 7 (b ! 0) AND 1 \<noteq> (0 :: u8)" "b ! 0 AND 0xf \<noteq> (0 :: u8)" "b ! 0 AND 0xf \<noteq> (8 :: u8)"
proof -
  define n where "n = wf_opcode f"
  have n: "0 < n" "n < 16" "n \<noteq> 8" using assms(1) by (auto simp: ws_good_def n_def)
  have u: "unat (b ! 0) = 128 + n" unfolding assms(2) n_def [symmetric] by (rule unat_word_of_nat_less) (use n in simp)
  have d: "(128 + n) div 64 = 2" "(128 + n) div 32 = 4" "(128 + n) div 16 = 8" "(128 + n) div 128 = 1"
    by (rule div_nat_eqI; use n in simp)+
  have r: "(128 + n) mod 16 = n" using mod_mult_self2 [of n 16 8] n by (simp add: add.commute)
  show "drop_bit 6 (b ! 0) AND 1 = (0 :: u8)" "drop_bit 5 (b ! 0) AND 1 = (0 :: u8)" "drop_bit 4 (b ! 0) AND 1 = (0 :: u8)"
    "drop_bit 7 (b ! 0) AND 1 \<noteq> (0 :: u8)" "b ! 0 AND 0xf \<noteq> (0 :: u8)" "b ! 0 AND 0xf \<noteq> (8 :: u8)"
    unfolding word_unat_eq_iff byte_fields u using n d r by simp_all
qed

lemma length_tests:
  fixes b1 :: u8
  assumes "b1 = word_of_nat ((if masked then 128 else 0) + ws_len7 len)"
  shows "drop_bit 7 b1 AND 1 \<noteq> 0 \<longleftrightarrow> masked" "b1 AND 0x7f < 0x7E \<longleftrightarrow> len < 126" "b1 AND 0x7f = 0x7E \<longleftrightarrow> 126 \<le> len"
    "len < 126 \<Longrightarrow> uint (b1 AND 0x7f) = int len"
proof -
  define n where "n = ws_len7 len"
  have n: "n \<le> 126" "n < 126 \<longleftrightarrow> len < 126" "n = 126 \<longleftrightarrow> 126 \<le> len" "len < 126 \<Longrightarrow> n = len" by (auto simp: n_def ws_len7_def)
  have u: "unat b1 = (if masked then 128 else 0) + n" unfolding assms n_def [symmetric] by (rule unat_word_of_nat_less) (use n in simp)
  have d: "unat b1 div 128 = (if masked then 1 else 0)" "unat b1 mod 128 = n"
    using n(1) by (auto simp: u intro: div_nat_eqI)
  have "unat (b1 AND 0x7f) = n" unfolding byte_fields d ..
  then show "b1 AND 0x7f < 0x7E \<longleftrightarrow> len < 126" "b1 AND 0x7f = 0x7E \<longleftrightarrow> 126 \<le> len" "len < 126 \<Longrightarrow> uint (b1 AND 0x7f) = int len"
    using n by (simp_all add: word_less_nat_alt word_unat_eq_iff uint_nat)
  have "unat (drop_bit 7 b1 AND 1) = (if masked then 1 else 0)" unfolding byte_fields using d(1) by simp
  then show "drop_bit 7 b1 AND 1 \<noteq> 0 \<longleftrightarrow> masked" by (auto simp: word_unat_eq_iff)
qed

lemma ws_head_split:
  assumes "ws_good f"
  defines "len \<equiv> length (wf_payload f)"
  shows "\<exists>ext. ws_head f = word_of_nat (128 + wf_opcode f) # word_of_nat ((if wf_masking f \<noteq> None then 128 else 0) + ws_len7 len)
      # ext @ (case wf_masking f of None \<Rightarrow> [] | Some m \<Rightarrow> m)
    \<and> (len < 126 \<and> ext = [] \<or> 126 \<le> len \<and> (\<exists>a b. ext = [a, b] \<and> uint a * 256 + uint b = int len))"
proof -
  have "len < 0x10000" using assms(1) by (simp add: len_def ws_good_def)
  then show ?thesis using write_size_bytes [of len] by (auto simp: ws_head_def Let_def len_def [symmetric])
qed

lemma ws_read_size_head:
  assumes "ws_good f"
  shows "ws_read_size (ws_head f @ t) no_info = (int (length (wf_payload f)), ws_info f)"
proof -
  define len where "len = length (wf_payload f)"
  obtain ext where e: "ws_head f = word_of_nat (128 + wf_opcode f) # word_of_nat ((if wf_masking f \<noteq> None then 128 else 0) + ws_len7 len)
      # ext @ (case wf_masking f of None \<Rightarrow> [] | Some m \<Rightarrow> m)"
    "len < 126 \<and> ext = [] \<or> 126 \<le> len \<and> (\<exists>a b. ext = [a, b] \<and> uint a * 256 + uint b = int len)"
    using ws_head_split [OF assms] unfolding len_def by blast
  let ?b = "ws_head f @ t"
  note h = head_tests [OF assms, of ?b]
  have b0: "?b ! 0 = word_of_nat (128 + wf_opcode f)" and b1: "?b ! 1 = word_of_nat ((if wf_masking f \<noteq> None then 128 else 0) + ws_len7 len)"
    by (simp_all add: e(1))
  note l = length_tests [OF b1]
  have len: "ws_length ?b = Some (int len, 2 + length ext)"
    using e(2)
  proof (elim disjE conjE exE)
    assume "len < 126" "ext = []"
    then show ?thesis using l by (simp add: ws_length_def Let_def)
  next
    fix a b assume x: "126 \<le> len" "ext = [a, b]" "uint a * 256 + uint b = int len"
    then show ?thesis using l load_ntohs [of a b] by (simp add: ws_length_def Let_def e(1))
  qed
  have ge: "2 \<le> length ?b" by (simp add: e(1))
  show ?thesis
  proof (cases "wf_masking f")
    case None
    then have "\<not> drop_bit 7 (?b ! 1) AND 1 \<noteq> (0 :: u8)" using l(1) by simp
    moreover have "length (ws_head f) = 2 + length ext" by (simp add: e(1) None)
    ultimately show ?thesis unfolding ws_read_size_def len
      using h [OF b0] ge None by (simp add: ws_info_def no_info_def len_def)
  next
    case (Some m)
    then have "drop_bit 7 (?b ! 1) AND 1 \<noteq> (0 :: u8)" using l(1) by simp
    moreover have m: "length m = 4" using assms Some by (simp add: ws_good_def)
    moreover have "length (ws_head f) = 2 + length ext + 4" "take 4 (drop (2 + length ext) ?b) = m" by (simp_all add: e(1) Some m)
    ultimately show ?thesis unfolding ws_read_size_def len
      using h [OF b0] ge Some by (simp add: ws_info_def len_def)
  qed
qed

lemma ws_read_size_short:
  assumes "ws_good f" "k < length (ws_head f)"
  shows "ws_read_size (take k (ws_head f)) no_info = (- 1, no_info)"
proof (cases "k < 2")
  case True
  then show ?thesis by (simp add: ws_read_size_def)
next
  case False
  define len where "len = length (wf_payload f)"
  obtain ext where e: "ws_head f = word_of_nat (128 + wf_opcode f) # word_of_nat ((if wf_masking f \<noteq> None then 128 else 0) + ws_len7 len)
      # ext @ (case wf_masking f of None \<Rightarrow> [] | Some m \<Rightarrow> m)"
    "len < 126 \<and> ext = [] \<or> 126 \<le> len \<and> (\<exists>a b. ext = [a, b] \<and> uint a * 256 + uint b = int len)"
    using ws_head_split [OF assms(1)] unfolding len_def by blast
  let ?b = "take k (ws_head f)"
  have b0: "?b ! 0 = word_of_nat (128 + wf_opcode f)" and b1: "?b ! 1 = word_of_nat ((if wf_masking f \<noteq> None then 128 else 0) + ws_len7 len)"
    using False by (simp_all add: e(1))
  note h = head_tests [OF assms(1) b0] and l = length_tests [OF b1]
  have k: "length ?b = k" using assms(2) by simp
  have len: "ws_length ?b = None \<or> (\<exists>n. ws_length ?b = Some (n, 2 + length ext)) \<and> wf_masking f \<noteq> None \<and> k < 2 + length ext + 4"
    using e(2)
  proof (elim disjE conjE exE)
    assume x: "len < 126" "ext = []"
    then have "wf_masking f \<noteq> None \<and> k < 6" using assms(1,2) e(1) False by (auto simp: ws_good_def split: option.splits)
    then show ?thesis using l x by (simp add: ws_length_def Let_def)
  next
    fix a b assume x: "126 \<le> len" "ext = [a, b]"
    then have m: "k < 4 \<or> wf_masking f \<noteq> None \<and> k < 8" using assms(1,2) e(1) by (auto simp: ws_good_def split: option.splits)
    have "ws_length ?b = (if k < 4 then None else Some (uint (ntohs (load16 (drop 2 ?b))), 4))"
      using l x unfolding ws_length_def Let_def k by simp
    then show ?thesis using m x by auto
  qed
  have ge: "2 \<le> length ?b" using k False by simp
  from len show ?thesis
  proof (elim disjE conjE exE)
    assume "ws_length ?b = None"
    then show ?thesis unfolding ws_read_size_def using h ge by simp
  next
    fix n assume x: "ws_length ?b = Some (n, 2 + length ext)" "wf_masking f \<noteq> None" "k < 2 + length ext + 4"
    moreover have "drop_bit 7 (?b ! 1) AND 1 \<noteq> (0 :: u8)" using l(1) x(2) by simp
    ultimately show ?thesis unfolding ws_read_size_def using h ge k by simp
  qed
qed

lemma ws_head_unique:
  assumes "ws_good f" "ws_good g" "ws_head f @ x = ws_head g @ y"
  shows "length (wf_payload f) = length (wf_payload g)" "ws_info f = ws_info g" "wf_masking f = wf_masking g" "x = y"
proof -
  have r: "(int (length (wf_payload f)), ws_info f) = (int (length (wf_payload g)), ws_info g)"
    using ws_read_size_head [OF assms(1), of x] ws_read_size_head [OF assms(2), of y] assms(3) by simp
  then show "length (wf_payload f) = length (wf_payload g)" and i: "ws_info f = ws_info g" by simp_all
  then show "wf_masking f = wf_masking g" by (auto simp: ws_info_def split: option.splits)
  have "length (ws_head f) = length (ws_head g)" using i by (simp add: ws_info_def)
  then show "x = y" using assms(3) by simp
qed

lemma ws_head_ne [simp]: "ws_head f \<noteq> []"
  by (simp add: ws_head_def Let_def)

lemma ws_enc_ne [simp]: "ws_enc f \<noteq> []"
  by (simp add: ws_enc_def)

lemma ws_head_length: "ws_good f \<Longrightarrow> length (ws_head f) \<le> 8"
  by (auto simp: ws_head_def Let_def ws_good_def write_size_def split: option.splits)

section \<open>Masking\<close>

lemma length_unmask [simp]: "length (unmask m k s) = length s"
  by (induction s arbitrary: k) simp_all

lemma unmask_append: "unmask m k (s @ t) = unmask m k s @ unmask m (k + length s) t"
  by (induction s arbitrary: k) simp_all

lemma unmask_unmask [simp]: "unmask m k (unmask m k s) = s"
  by (induction s arbitrary: k) (simp_all add: xor.assoc)

text \<open>What the masking of a frame does to the part of its payload from byte \<open>k\<close> on.\<close>

definition ws_part :: "ws_frame \<Rightarrow> nat \<Rightarrow> bytes \<Rightarrow> bytes" where
  "ws_part f k s = (case wf_masking f of None \<Rightarrow> s | Some m \<Rightarrow> unmask m k s)"

lemma ws_part_simps [simp]:
  "length (ws_part f k s) = length s" "ws_part f k (ws_part f k s) = s" "ws_part f k [] = []"
  "ws_part f k (s @ t) = ws_part f k s @ ws_part f (k + length s) t"
  by (simp_all add: ws_part_def unmask_append split: option.splits)

lemma ws_enc_part: "ws_enc f = ws_head f @ ws_part f 0 (wf_payload f)"
  by (simp add: ws_enc_def ws_body_def ws_part_def)

lemma ws_part_cong: "wf_masking f = wf_masking g \<Longrightarrow> ws_part f = ws_part g"
  by (simp add: fun_eq_iff ws_part_def)

section \<open>What is kept of a connection\<close>

definition ws_masking :: "ws_frame \<Rightarrow> nat \<Rightarrow> ws_uncomplete \<Rightarrow> bool" where
  "ws_masking f k uc \<longleftrightarrow> wu_ismask uc = (wf_masking f \<noteq> None) \<and> (case wf_masking f of None \<Rightarrow> True | Some m \<Rightarrow> wu_mask uc = m \<and> wu_hasunmask_size uc = k)"

lemma decode_part:
  assumes "ws_masking f k uc"
  shows "\<exists>uc'. decode_wsmask_data s uc = (ws_part f k s, uc') \<and> ws_masking f (k + length s) uc' \<and>
    (\<exists>mk n. uc' = uc\<lparr>wu_mask := mk, wu_hasunmask_size := n\<rparr>)"
proof (cases "wf_masking f")
  case None
  then have "decode_wsmask_data s uc = (s, uc)" using assms by (simp add: ws_masking_def decode_wsmask_data_def)
  then show ?thesis using assms None by (intro exI [of _ uc]) (auto simp: ws_masking_def ws_part_def intro!: exI [of _ "wu_mask uc"] exI [of _ "wu_hasunmask_size uc"])
next
  case (Some m)
  then have "decode_wsmask_data s uc = (unmask m k s, uc\<lparr>wu_hasunmask_size := k + length s\<rparr>)"
    using assms by (simp add: ws_masking_def decode_wsmask_data_def)
  then show ?thesis using assms Some by (auto simp: ws_masking_def ws_part_def intro!: exI [of _ "wu_mask uc"])
qed

lemma with_info_masking: "ws_masking f 0 (with_info (ws_info f) uc)"
  by (auto simp: ws_masking_def with_info_def ws_info_def split: option.splits)

definition head_kept :: "i32 \<Rightarrow> bytes \<Rightarrow> ws_uncomplete \<Rightarrow> bool" where
  "head_kept fd p uc \<longleftrightarrow> wu_id uc = fd \<and> wu_read uc = - 1 \<and> wu_header_size uc = length p \<and> length (wu_header uc) = HEADERSIZE
     \<and> take (length p) (wu_header uc) = p \<and> ws_read_size p no_info = (- 1, no_info)"

definition body_kept :: "i32 \<Rightarrow> ws_frame \<Rightarrow> bytes \<Rightarrow> ws_uncomplete \<Rightarrow> bool" where
  "body_kept fd f q uc \<longleftrightarrow> wu_id uc = fd \<and> wu_size uc = int (length (wf_payload f)) \<and> wu_read uc = int (length q)
     \<and> length q \<le> length (wf_payload f) \<and> length (wu_buffer uc) = length (wf_payload f) \<and> take (length q) (wu_buffer uc) = ws_part f 0 q
     \<and> ws_masking f (length q) uc"

definition ws_kept :: "i32 \<Rightarrow> bytes \<Rightarrow> ws_uncomplete list \<Rightarrow> bool" where
  "ws_kept fd p us \<longleftrightarrow> (if p = [] then us = [] else \<exists>uc. us = [uc] \<and> (head_kept fd p uc \<or>
     (\<exists>f q. ws_good f \<and> p = ws_head f @ q \<and> length q < length (wf_payload f) \<and> body_kept fd f q uc)))"

abbreviation ws_rest :: "bytes \<Rightarrow> bool" where
  "ws_rest \<equiv> rest_of ws_good ws_enc"

abbreviation ws_pack :: "i32 \<Rightarrow> ws_frame \<Rightarrow> netpack" where
  "ws_pack fd f \<equiv> \<lparr>np_id = fd, np_size = int (length (wf_payload f)), np_buffer = wf_payload f\<rparr>"

lemma ws_rest_cases:
  assumes "ws_rest p" "p \<noteq> []"
  obtains (head) f k where "ws_good f" "p = take k (ws_head f)" "k < length (ws_head f)" "length p = k"
  | (body) f q where "ws_good f" "p = ws_head f @ q" "length q < length (wf_payload f)"
proof -
  obtain f where f: "ws_good f" "strict_prefix p (ws_enc f)" using assms by (auto simp: rest_of_def)
  then obtain z where z: "ws_enc f = p @ z" "z \<noteq> []" by (auto simp: strict_prefix_def prefix_def)
  show thesis
  proof (cases "length p < length (ws_head f)")
    case True
    have "take (length p) (ws_enc f) = p" by (simp add: z(1))
    then have "p = take (length p) (ws_head f)" using True by (simp add: ws_enc_part)
    then show thesis using head [OF f(1) _ True] by simp
  next
    case False
    have "take (length (ws_head f)) (p @ z) = ws_head f" unfolding z(1) [symmetric] by (simp add: ws_enc_part)
    then have p: "p = ws_head f @ drop (length (ws_head f)) p" using False by (metis append_take_drop_id take_append diff_is_0_eq' not_less take_0 append_Nil2)
    have "length p < length (ws_enc f)" using z by simp
    then have "length (drop (length (ws_head f)) p) < length (wf_payload f)" using False by (simp add: ws_enc_part)
    then show thesis using body [OF f(1) p] by simp
  qed
qed

section \<open>Framing\<close>

lemma ws_masking_upd [simp]:
  "ws_masking f k (uc\<lparr>wu_read := r\<rparr>) = ws_masking f k uc" "ws_masking f k (uc\<lparr>wu_size := n\<rparr>) = ws_masking f k uc"
  "ws_masking f k (uc\<lparr>wu_buffer := b\<rparr>) = ws_masking f k uc"
  by (simp_all add: ws_masking_def cong: option.case_cong)

lemma ws_skip_head:
  assumes "ws_good f"
  shows "ws_skip again (ws_head f @ t) no_info = (int (length (wf_payload f)), ws_info f, ws_head f @ t)"
  by (subst ws_skip.simps) (simp add: ws_read_size_head [OF assms])

lemma ws_skip_short: "ws_read_size p no_info = (- 1, no_info) \<Longrightarrow> ws_skip again p no_info = (- 1, no_info, p)"
  by (subst ws_skip.simps) simp

lemma clamp_good: "ws_good f \<Longrightarrow> clamp (int (length (wf_payload f))) = int (length (wf_payload f))" "clamp (- 1) = - 1"
  by (simp_all add: clamp_def MAX_PACKSIZE_def ws_good_def)

lemma ws_info_head: "fi_head (ws_info f) = length (ws_head f)"
  by (simp add: ws_info_def)

lemma ws_decode_new: "\<exists>uc'. decode_wsmask_data s (with_info (ws_info f) (ws_new_uncomplete fd)) = (ws_part f 0 s, uc')"
  using decode_part [OF with_info_masking] by blast

lemma ws_push_front_frame:
  "ws_push_front fd (int (length (wf_payload f))) (ws_info f) (ws_part f 0 (wf_payload f) @ t) Q
     = push_data fd (wf_payload f) (int (length (wf_payload f))) Q"
proof -
  obtain uc' where "decode_wsmask_data (ws_part f 0 (wf_payload f)) (with_info (ws_info f) (ws_new_uncomplete fd))
      = (wf_payload f, uc')" using ws_decode_new [of "ws_part f 0 (wf_payload f)" f fd] by auto
  then show ?thesis by (simp add: ws_push_front_def malloc_bytes_def write_at_ok)
qed

lemma ws_save_header_ok:
  assumes "ws_good f" "p = take k (ws_head f)" "k < length (ws_head f)" "length p = k" "p \<noteq> []" "pq_ok Q" "conns wu_id Q fd = []"
  shows "\<exists>Q'. ws_save_header False fd p Q = Some Q' \<and> pq_ok Q' \<and> packs Q' = packs Q \<and> ws_kept fd p (conns wu_id Q' fd)
    \<and> (\<forall>fd'. fd' \<noteq> fd \<longrightarrow> conns wu_id Q' fd' = conns wu_id Q fd')"
proof -
  have len: "length p \<le> HEADERSIZE" using ws_head_length [OF assms(1)] assms(3,4) by (simp add: HEADERSIZE_def)
  let ?h = "p @ drop (length p) (replicate HEADERSIZE 0)"
  let ?u = "(ws_new_uncomplete fd)\<lparr>wu_read := - 1, wu_header := ?h, wu_header_size := length p\<rparr>"
  have "ws_save_header False fd p Q = Some (link_uncomplete wu_id ?u Q)"
    using len by (simp add: ws_save_header_def Let_def ws_new_uncomplete_def write_at_ok)
  moreover have "head_kept fd p ?u"
    using len ws_read_size_short [OF assms(1,3)] by (simp add: head_kept_def ws_new_uncomplete_def flip: assms(2))
  moreover have "wu_id ?u = fd" by (simp add: ws_new_uncomplete_def)
  ultimately show ?thesis using link_uncomplete_conns [where uid = wu_id and uc = ?u and Q = Q] assms(5-) by (auto simp: ws_kept_def)
qed

lemma ws_save_part_ok:
  assumes "ws_good f" "p = ws_head f @ q" "length q < length (wf_payload f)" "pq_ok Q" "conns wu_id Q fd = []"
  shows "\<exists>Q'. ws_save_part fd (int (length (wf_payload f))) (ws_info f) q Q = Some Q' \<and> pq_ok Q' \<and> packs Q' = packs Q \<and> ws_kept fd p (conns wu_id Q' fd)
    \<and> (\<forall>fd'. fd' \<noteq> fd \<longrightarrow> conns wu_id Q' fd' = conns wu_id Q fd')"
proof -
  let ?n = "length (wf_payload f)"
  let ?u = "(with_info (ws_info f) (ws_new_uncomplete fd))\<lparr>wu_read := int (length q), wu_size := int ?n\<rparr>"
  have "ws_masking f 0 ?u" by (simp add: with_info_masking)
  from decode_part [OF this, of q] obtain u1 mk n where u1: "decode_wsmask_data q ?u = (ws_part f 0 q, u1)" "ws_masking f (length q) u1"
    "u1 = ?u\<lparr>wu_mask := mk, wu_hasunmask_size := n\<rparr>" by auto
  let ?v = "u1\<lparr>wu_buffer := ws_part f 0 q @ drop (length q) (replicate ?n 0)\<rparr>"
  have "ws_save_part fd (int ?n) (ws_info f) q Q = Some (link_uncomplete wu_id ?v Q)"
    using assms(3) u1(1) by (simp add: ws_save_part_def malloc_bytes_def write_at_ok)
  moreover have "wu_id ?v = fd" by (simp add: u1(3) with_info_def ws_new_uncomplete_def)
  moreover have "body_kept fd f q ?v"
  proof -
    have "ws_masking f (length q) ?v" using u1(2) by simp
    then show ?thesis using assms(3) unfolding body_kept_def by (simp add: u1(3) with_info_def ws_new_uncomplete_def)
  qed
  ultimately show ?thesis using link_uncomplete_conns [where uid = wu_id and uc = ?v and Q = Q] assms by (auto simp: ws_kept_def)
qed

lemma ws_push_more_cuts:
  assumes "\<forall>f \<in> set fs. ws_good f" "ws_rest p" "pq_ok Q" "conns wu_id Q fd = []" "concat (map ws_enc fs) @ p \<noteq> []"
  shows "\<exists>Q'. ws_push_more False fd (concat (map ws_enc fs) @ p) Q = Some Q' \<and> pq_ok Q' \<and> packs Q' = packs Q @ map (ws_pack fd) fs
    \<and> ws_kept fd p (conns wu_id Q' fd) \<and> (\<forall>fd'. fd' \<noteq> fd \<longrightarrow> conns wu_id Q' fd' = conns wu_id Q fd')"
  using assms
proof (induction fs arbitrary: Q)
  case Nil
  then have p: "p \<noteq> []" by simp
  from Nil.prems(2) p show ?case
  proof (cases rule: ws_rest_cases)
    case (head f k)
    have "ws_push_more False fd p Q = ws_save_header False fd p Q"
      using ws_skip_short [of p True] ws_read_size_short [OF head(1,3)] head(2) clamp_good(2) by (subst ws_push_more.simps) simp
    then show ?thesis using ws_save_header_ok [OF head p Nil.prems(3,4)] by simp
  next
    case (body f q)
    have "ws_push_more False fd p Q = ws_save_part fd (int (length (wf_payload f))) (ws_info f) q Q"
      using ws_skip_head [OF body(1)] body clamp_good(1) by (subst ws_push_more.simps) (simp add: ws_info_head)
    then show ?thesis using ws_save_part_ok [OF body Nil.prems(3,4)] by simp
  qed
next
  case (Cons f fs)
  define t where "t = concat (map ws_enc fs) @ p"
  have eq: "concat (map ws_enc (f # fs)) @ p = ws_head f @ ws_part f 0 (wf_payload f) @ t" by (simp add: ws_enc_part t_def)
  have good: "ws_good f" using Cons.prems(1) by simp
  obtain Q1 where Q1: "push_data fd (wf_payload f) (int (length (wf_payload f))) Q = Some Q1" "pq_ok Q1" "packs Q1 = packs Q @ [ws_pack fd f]"
    "conns wu_id Q1 = conns wu_id Q" using push_data_conns [OF Cons.prems(3)] by blast
  have run: "ws_push_more False fd (ws_head f @ ws_part f 0 (wf_payload f) @ t) Q = (if length t > 0 then ws_push_more False fd t Q1 else Some Q1)"
    using ws_skip_head [OF good] clamp_good(1) [OF good] Q1(1) ws_push_front_frame [of fd f t Q]
    by (subst ws_push_more.simps) (simp add: ws_info_head)
  show ?case
  proof (cases "t = []")
    case True
    then have "fs = [] \<and> p = []" by (cases fs) (simp_all add: t_def)
    then show ?thesis using run True Q1 Cons.prems(4) unfolding eq by (simp add: ws_kept_def)
  next
    case False
    then have "\<exists>Q'. ws_push_more False fd t Q1 = Some Q' \<and> pq_ok Q' \<and> packs Q' = packs Q1 @ map (ws_pack fd) fs
      \<and> ws_kept fd p (conns wu_id Q' fd) \<and> (\<forall>fd'. fd' \<noteq> fd \<longrightarrow> conns wu_id Q' fd' = conns wu_id Q1 fd')"
      unfolding t_def by (intro Cons.IH) (use Cons.prems Q1 in simp_all)
    then show ?thesis using run False Q1 unfolding eq by simp
  qed
qed
text \<open>A call that completes the frames \<open>fs\<close> of a connection and leaves the rest \<open>r\<close>.\<close>

definition ws_cut :: "i32 \<Rightarrow> ws_frame list \<Rightarrow> bytes \<Rightarrow> ws_queue \<Rightarrow> (filter_result \<times> ws_queue) option \<Rightarrow> bool" where
  "ws_cut fd fs r Q out \<longleftrightarrow> (\<exists>res Q' Q''. out = Some (res, Q') \<and> deliver res Q' = Some (map (\<lambda>f. (fd, wf_payload f)) fs, Q'') \<and> pq_ok Q''
     \<and> packs Q'' = [] \<and> ws_kept fd r (conns wu_id Q'' fd) \<and> (\<forall>fd'. fd' \<noteq> fd \<longrightarrow> conns wu_id Q'' fd' = conns wu_id Q fd'))"

lemma ws_cut_nothing:
  assumes "pq_ok Q'" "packs Q' = []" "ws_kept fd r (conns wu_id Q' fd)" "\<forall>fd'. fd' \<noteq> fd \<longrightarrow> conns wu_id Q' fd' = conns wu_id Q fd'"
  shows "ws_cut fd [] r Q (Some (Nothing, Q'))"
  using assms by (simp add: ws_cut_def deliver_def)

lemma ws_cut_data:
  assumes "pq_ok Q" "packs Q = []" "conns wu_id Q fd = []"
  shows "ws_cut fd [f] [] Q (Some (Data fd (wf_payload f), Q))"
  using assms by (simp add: ws_cut_def deliver_def ws_kept_def)

lemma ws_cut_more:
  assumes "pq_ok Q" "packs Q = []" "conns wu_id Q fd = []" "\<forall>f \<in> set gs. ws_good f" "ws_rest r" "concat (map ws_enc gs) @ r \<noteq> []"
  shows "ws_cut fd (f # gs) r Q (do {
    Q \<leftarrow> push_data fd (wf_payload f) (int (length (wf_payload f))) Q;
    Q \<leftarrow> ws_push_more False fd (concat (map ws_enc gs) @ r) Q; Some (More, Q) })"
proof -
  obtain Q1 where Q1: "push_data fd (wf_payload f) (int (length (wf_payload f))) Q = Some Q1" "pq_ok Q1" "packs Q1 = [ws_pack fd f]"
    "conns wu_id Q1 = conns wu_id Q"
    using push_data_conns [OF assms(1), of fd "wf_payload f" "int (length (wf_payload f))" wu_id] assms(2) by auto
  have "conns wu_id Q1 fd = []" using assms(3) Q1(4) by simp
  from ws_push_more_cuts [OF assms(4,5) Q1(2) this assms(6)]
  obtain Q2 where Q2: "ws_push_more False fd (concat (map ws_enc gs) @ r) Q1 = Some Q2" "pq_ok Q2" "packs Q2 = packs Q1 @ map (ws_pack fd) gs"
    "ws_kept fd r (conns wu_id Q2 fd)" "\<forall>fd'. fd' \<noteq> fd \<longrightarrow> conns wu_id Q2 fd' = conns wu_id Q1 fd'" by blast
  obtain Q3 where Q3: "lpop_all Q2 = Some (packs Q2, Q3)" "pq_ok Q3" "packs Q3 = []" "conns wu_id Q3 = conns wu_id Q2"
    using lpop_all_conns [OF Q2(2)] by blast
  show ?thesis unfolding ws_cut_def
    by (rule exI [of _ More], rule exI [of _ Q2], rule exI [of _ Q3]) (use Q1 Q2 Q3 in \<open>simp add: deliver_def comp_def\<close>)
qed

text \<open>The frame of a rest whose header is complete.\<close>

lemma ws_rest_head:
  assumes "ws_rest (ws_head f @ q)" "ws_good f"
  shows "length q < length (wf_payload f)"
proof -
  have "ws_head f @ q \<noteq> []" by simp
  from assms(1) this show ?thesis
  proof (cases rule: ws_rest_cases)
    case (head g k)
    then have "(int (length (wf_payload f)), ws_info f) = (- 1, no_info)"
      using ws_read_size_head [OF assms(2), of q] ws_read_size_short [OF head(1,3)] by simp
    then show ?thesis by simp
  next
    case (body g q')
    then show ?thesis using ws_head_unique [OF assms(2) body(1,2)] by simp
  qed
qed

lemma ws_first_frame:
  assumes "ws_head f @ x = concat (map ws_enc fs) @ r" "ws_good f" "\<forall>g \<in> set fs. ws_good g" "ws_rest r" "length (wf_payload f) \<le> length x"
  obtains g gs where "fs = g # gs" "length (wf_payload g) = length (wf_payload f)" "wf_masking g = wf_masking f"
    "x = ws_part f 0 (wf_payload g) @ concat (map ws_enc gs) @ r" "\<forall>g \<in> set gs. ws_good g"
proof (cases fs)
  case Nil
  then show thesis using ws_rest_head [of f x] assms by simp
next
  case (Cons g gs)
  define t where "t = concat (map ws_enc gs) @ r"
  have eq: "ws_head f @ x = ws_head g @ (ws_part g 0 (wf_payload g) @ t)" using assms(1) Cons by (simp add: ws_enc_part t_def)
  have g: "ws_good g" "\<forall>g \<in> set gs. ws_good g" using assms(3) Cons by simp_all
  note u = ws_head_unique [OF assms(2) g(1) eq]
  show thesis
  proof (rule that [OF Cons u(1) [symmetric] u(3) [symmetric] _ g(2)])
    show "x = ws_part f 0 (wf_payload g) @ concat (map ws_enc gs) @ r" using u(4) ws_part_cong [OF u(3)] by (simp add: t_def)
  qed
qed

lemma ws_no_frame:
  assumes "ws_head f @ x = concat (map ws_enc fs) @ r" "ws_good f" "\<forall>g \<in> set fs. ws_good g" "length x < length (wf_payload f)"
  shows "fs = []" "r = ws_head f @ x"
proof -
  show "fs = []"
  proof (cases fs)
    case (Cons g gs)
    define t where "t = concat (map ws_enc gs) @ r"
    have eq: "ws_head f @ x = ws_head g @ (ws_part g 0 (wf_payload g) @ t)" using assms(1) Cons by (simp add: ws_enc_part t_def)
    have "ws_good g" using assms(3) Cons by simp
    note u = ws_head_unique [OF assms(2) this eq]
    then show ?thesis using assms(4) by simp
  qed simp
  then show "r = ws_head f @ x" using assms(1) by simp
qed

lemma ws_fill_part:
  assumes "body_kept fd f q uc" "ws_good f" "length q + length c < length (wf_payload f)" "pq_ok Q" "packs Q = []" "conns wu_id Q fd = []"
  shows "ws_cut fd [] (ws_head f @ q @ c) Q (ws_fill False fd uc c Q)"
proof -
  have uc: "wu_id uc = fd" "wu_size uc = int (length (wf_payload f))" "wu_read uc = int (length q)"
    "length (wu_buffer uc) = length (wf_payload f)" "take (length q) (wu_buffer uc) = ws_part f 0 q" "ws_masking f (length q) uc"
    using assms(1) by (auto simp: body_kept_def)
  obtain u1 mk n where u1: "decode_wsmask_data c uc = (ws_part f (length q) c, u1)" "ws_masking f (length q + length c) u1"
    "u1 = uc\<lparr>wu_mask := mk, wu_hasunmask_size := n\<rparr>" using decode_part [OF uc(6), of c] by auto
  define b' where "b' = ws_part f 0 (q @ c) @ drop (length q + length c) (wu_buffer uc)"
  let ?u = "u1\<lparr>wu_buffer := b', wu_read := int (length q) + int (length c)\<rparr>"
  have "write_at (wu_buffer u1) (length q) (ws_part f (length q) c) = Some b'"
    using assms(3) uc by (simp add: write_at_ok b'_def u1(3))
  then have run: "ws_fill False fd uc c Q = Some (Nothing, link_uncomplete wu_id ?u Q)"
    using assms(3) uc u1(1) by (simp add: ws_fill_def Let_def u1(3))
  have "ws_masking f (length q + length c) ?u" using u1(2) by simp
  then have kept: "body_kept fd f (q @ c) ?u" using assms(3) uc(1,2,4) unfolding body_kept_def by (simp add: u1(3) b'_def)
  have id: "wu_id ?u = fd" using uc(1) by (simp add: u1(3))
  have "ws_kept fd (ws_head f @ q @ c) [?u]"
    unfolding ws_kept_def using kept assms(2,3) by (auto intro!: exI [of _ f] exI [of _ "q @ c"])
  then have "ws_kept fd (ws_head f @ q @ c) (conns wu_id (link_uncomplete wu_id ?u Q) fd)"
    using link_uncomplete_conns(1) [of wu_id ?u Q] assms(6) id by simp
  then show ?thesis unfolding run using link_uncomplete_conns [where uid = wu_id and uc = ?u and Q = Q] assms(4,5) id
    by (intro ws_cut_nothing) simp_all
qed

lemma ws_fill_cuts:
  assumes "body_kept fd f q uc" "ws_good f" "(ws_head f @ q) @ c = concat (map ws_enc fs) @ r" "\<forall>f \<in> set fs. ws_good f" "ws_rest r"
    "pq_ok Q" "packs Q = []" "conns wu_id Q fd = []"
  shows "ws_cut fd fs r Q (ws_fill False fd uc c Q)"
proof (cases "length q + length c < length (wf_payload f)")
  case True
  have eq: "ws_head f @ (q @ c) = concat (map ws_enc fs) @ r" using assms(3) by simp
  have "length (q @ c) < length (wf_payload f)" using True by simp
  from ws_no_frame [OF eq assms(2,4) this] show ?thesis using ws_fill_part [OF assms(1,2) True assms(6-8)] by simp
next
  case False
  have uc: "wu_id uc = fd" "wu_size uc = int (length (wf_payload f))" "wu_read uc = int (length q)" "length q \<le> length (wf_payload f)"
    "length (wu_buffer uc) = length (wf_payload f)" "take (length q) (wu_buffer uc) = ws_part f 0 q" "ws_masking f (length q) uc"
    using assms(1) by (auto simp: body_kept_def)
  define k where "k = length (wf_payload f) - length q"
  have k: "k \<le> length c" "length q + k = length (wf_payload f)" using False uc(4) by (simp_all add: k_def)
  have eq: "ws_head f @ (q @ c) = concat (map ws_enc fs) @ r" using assms(3) by simp
  have "length (wf_payload f) \<le> length (q @ c)" using False by simp
  from ws_first_frame [OF eq assms(2,4,5) this] obtain g gs where g: "fs = g # gs" "length (wf_payload g) = length (wf_payload f)"
    "wf_masking g = wf_masking f" "q @ c = ws_part f 0 (wf_payload g) @ concat (map ws_enc gs) @ r" "\<forall>g \<in> set gs. ws_good g" .
  define t where "t = concat (map ws_enc gs) @ r"
  have st: "q @ c = ws_part f 0 (wf_payload g) @ t" using g(4) by (simp add: t_def)
  have lg: "length (ws_part f 0 (wf_payload g)) = length q + k" using g(2) k(2) by simp
  have "take (length q + k) (q @ c) = ws_part f 0 (wf_payload g)" "drop (length q + k) (q @ c) = t" unfolding st using lg by simp_all
  then have cut: "q @ take k c = ws_part f 0 (wf_payload g)" "drop k c = t" by simp_all
  have "ws_part f 0 (q @ take k c) = wf_payload g" unfolding cut(1) by (rule ws_part_simps)
  then have pay: "ws_part f 0 q @ ws_part f (length q) (take k c) = wf_payload g" by simp
  obtain u1 mk n where u1: "decode_wsmask_data (take k c) uc = (ws_part f (length q) (take k c), u1)"
    "u1 = uc\<lparr>wu_mask := mk, wu_hasunmask_size := n\<rparr>" using decode_part [OF uc(7), of "take k c"] by auto
  have "write_at (wu_buffer u1) (length q) (ws_part f (length q) (take k c)) = Some (take (length q) (wu_buffer u1) @ ws_part f (length q) (take k c))"
    using k uc(5) by (simp add: write_at_ok u1(2))
  then have w: "write_at (wu_buffer u1) (length q) (ws_part f (length q) (take k c)) = Some (wf_payload g)" by (simp add: u1(2) uc(6) pay)
  have "int (length c) < int (length (wf_payload f)) - int (length q) \<longleftrightarrow> False" using False by simp
  moreover have "nat (int (length (wf_payload f)) - int (length q)) = k" using k by simp
  moreover have "wu_read u1 = int (length q)" "wu_size u1 = int (length (wf_payload g))" using uc g(2) by (simp_all add: u1(2))
  ultimately have run: "ws_fill False fd uc c Q = (if length t = 0 then Some (Data fd (wf_payload g), Q) else do {
      Q \<leftarrow> push_data fd (wf_payload g) (int (length (wf_payload g))) Q; Q \<leftarrow> ws_push_more False fd t Q; Some (More, Q) })"
    using w u1(1) cut(2) by (simp add: ws_fill_def Let_def uc(2,3))
  show ?thesis
  proof (cases "t = []")
    case True
    then have "gs = [] \<and> r = []" by (cases gs) (simp_all add: t_def)
    then show ?thesis using run True g(1) ws_cut_data [OF assms(6-8)] by simp
  next
    case more: False
    have "ws_cut fd (g # gs) r Q (do {
      Q \<leftarrow> push_data fd (wf_payload g) (int (length (wf_payload g))) Q; Q \<leftarrow> ws_push_more False fd t Q; Some (More, Q) })"
      unfolding t_def by (rule ws_cut_more [OF assms(6-8) g(5) assms(5)]) (use more in \<open>simp add: t_def\<close>)
    then show ?thesis using run more g(1) by simp
  qed
qed

text \<open>The loop that completes a header, on a byte that belongs to the header.\<close>

lemma head_kept_step:
  fixes x :: u8
  assumes "head_kept fd p uc" "length p < HEADERSIZE"
  defines "uc' \<equiv> uc\<lparr>wu_header := (wu_header uc)[length p := x], wu_header_size := length p + 1\<rparr>"
  shows "array_set (wu_header uc) (wu_header_size uc) x = Some ((wu_header uc)[length p := x])"
    "take (wu_header_size uc') (wu_header uc') = p @ [x]"
    "ws_read_size (p @ [x]) no_info = (- 1, no_info) \<Longrightarrow> head_kept fd (p @ [x]) uc'"
    "ws_read_size (p @ [x]) no_info = (n, i) \<Longrightarrow> n \<noteq> - 2 \<Longrightarrow> ws_header_skip uc' no_info = (n, i, uc')"
proof -
  have u: "wu_header_size uc = length p" "length (wu_header uc) = HEADERSIZE" "take (length p) (wu_header uc) = p"
    using assms(1) by (simp_all add: head_kept_def)
  show "array_set (wu_header uc) (wu_header_size uc) x = Some ((wu_header uc)[length p := x])"
    using u assms(2) by (simp add: array_set_def)
  have t: "take (Suc (length p)) ((wu_header uc)[length p := x]) = p @ [x]"
    using u assms(2) by (simp add: take_Suc_conv_app_nth)
  then show e: "take (wu_header_size uc') (wu_header uc') = p @ [x]" by (simp add: uc'_def)
  show "ws_read_size (p @ [x]) no_info = (- 1, no_info) \<Longrightarrow> head_kept fd (p @ [x]) uc'"
    using assms(1) t u(2) by (simp add: head_kept_def uc'_def)
  show "ws_header_skip uc' no_info = (n, i, uc')" if "ws_read_size (p @ [x]) no_info = (n, i)" "n \<noteq> - 2"
    using that by (subst ws_header_skip.simps) (simp add: e)
qed

lemma ws_header_loop_short:
  assumes "head_kept fd p uc" "ws_good f" "p @ c = take k (ws_head f)" "k < length (ws_head f)" "c \<noteq> []"
  shows "\<exists>uc'. ws_header_loop False c uc no_info = Some (- 1, no_info, uc', []) \<and> head_kept fd (p @ c) uc'"
  using assms(1,3,5)
proof (induction c arbitrary: p uc)
  case (Cons x c)
  have "length (p @ x # c) \<le> 8" unfolding Cons.prems(2) using ws_head_length [OF assms(2)] assms(4) by simp
  then have small: "length p < HEADERSIZE" by (simp add: HEADERSIZE_def)
  define j where "j = length (p @ [x])"
  have "take j (p @ x # c) = p @ [x]" by (simp add: j_def)
  moreover have "j \<le> k" using arg_cong [OF Cons.prems(2), of length] assms(4) by (simp add: j_def)
  ultimately have p: "p @ [x] = take j (ws_head f)" unfolding Cons.prems(2) by (simp add: min_def)
  have size: "ws_read_size (p @ [x]) no_info = (- 1, no_info)" unfolding p
    using ws_read_size_short [OF assms(2)] \<open>j \<le> k\<close> assms(4) by simp
  note step = head_kept_step [OF Cons.prems(1) small, of x]
  let ?u = "uc\<lparr>wu_header := (wu_header uc)[length p := x], wu_header_size := length p + 1\<rparr>"
  have kept: "head_kept fd (p @ [x]) ?u" using step(3) size by simp
  have skip: "ws_header_skip ?u no_info = (- 1, no_info, ?u)" using step(4) size by simp
  have h: "wu_header_size uc = length p" using Cons.prems(1) by (simp add: head_kept_def)
  have run: "ws_header_loop False (x # c) uc no_info = (if c = [] then Some (- 1, no_info, ?u, c) else ws_header_loop False c ?u no_info)"
    using step(1) skip clamp_good(2) by (cases "c = []") (simp_all add: h)
  show ?case
  proof (cases "c = []")
    case True
    then show ?thesis using run kept by simp
  next
    case False
    then show ?thesis using run Cons.IH [OF kept _ False] Cons.prems(2) by simp
  qed
qed simp

lemma ws_header_loop_head:
  assumes "head_kept fd p uc" "ws_good f" "p @ c = ws_head f @ d"
  shows "\<exists>uc'. ws_header_loop False c uc no_info = Some (int (length (wf_payload f)), ws_info f, uc', d) \<and> wu_id uc' = fd"
  using assms(1,3)
proof (induction c arbitrary: p uc)
  case Nil
  then show ?case using ws_read_size_head [OF assms(2), of d] by (simp add: head_kept_def)
next
  case (Cons x c)
  have short: "length p < length (ws_head f)"
  proof (rule ccontr)
    assume "\<not> ?thesis"
    then have "p = ws_head f @ drop (length (ws_head f)) p"
      using arg_cong [OF Cons.prems(2), of "take (length (ws_head f))"] by (metis append_eq_conv_conj append_take_drop_id diff_is_0_eq' linorder_not_less take_0 take_append append_Nil2)
    then have "ws_read_size p no_info = (int (length (wf_payload f)), ws_info f)" using ws_read_size_head [OF assms(2)] by metis
    then show False using Cons.prems(1) by (simp add: head_kept_def)
  qed
  then have small: "length p < HEADERSIZE" using ws_head_length [OF assms(2)] by (simp add: HEADERSIZE_def)
  note step = head_kept_step [OF Cons.prems(1) small, of x]
  let ?u = "uc\<lparr>wu_header := (wu_header uc)[length p := x], wu_header_size := length p + 1\<rparr>"
  have h: "wu_header_size uc = length p" "wu_id uc = fd" using Cons.prems(1) by (simp_all add: head_kept_def)
  have p: "p @ [x] = take (Suc (length p)) (ws_head f)"
    using arg_cong [OF Cons.prems(2), of "take (Suc (length p))"] short by simp
  show ?case
  proof (cases "Suc (length p) = length (ws_head f)")
    case True
    then have head: "p @ [x] = ws_head f" using p by simp
    then have "ws_header_skip ?u no_info = (int (length (wf_payload f)), ws_info f, ?u)" using step(4) ws_read_size_head [OF assms(2), of "[]"] by simp
    moreover have "c = d" using Cons.prems(2) by (simp flip: head)
    ultimately show ?thesis using step(1) clamp_good(1) [OF assms(2)] h by (simp split del: if_split)
  next
    case False
    then have lt: "Suc (length p) < length (ws_head f)" using short by simp
    have size: "ws_read_size (p @ [x]) no_info = (- 1, no_info)" unfolding p by (rule ws_read_size_short [OF assms(2) lt])
    have kept: "head_kept fd (p @ [x]) ?u" using step(3) size by simp
    have skip: "ws_header_skip ?u no_info = (- 1, no_info, ?u)" using step(4) size by simp
    have "c \<noteq> []" using arg_cong [OF Cons.prems(2), of length] lt by auto
    then have "ws_header_loop False (x # c) uc no_info = ws_header_loop False c ?u no_info"
      using step(1) skip clamp_good(2) by (simp add: h split del: if_split)
    then show ?thesis using Cons.IH [OF kept] Cons.prems(2) by simp
  qed
qed

text \<open>\<^verbatim>\<open>filter_data_\<close> on a connection of which nothing, or an incomplete header, is kept.\<close>

lemma ws_filter_new:
  assumes "find_uncomplete wu_id fd Q = (None, Q0)" "c \<noteq> []" "c = concat (map ws_enc fs) @ r"
    "\<forall>f \<in> set fs. ws_good f" "ws_rest r" "pq_ok Q0" "packs Q0 = []" "conns wu_id Q0 fd = []"
  shows "ws_cut fd fs r Q0 (ws_filter_data False fd c Q)"
proof (cases fs)
  case Nil
  then have r: "c = r" "r \<noteq> []" using assms(2,3) by simp_all
  from assms(5) r(2) show ?thesis
  proof (cases rule: ws_rest_cases)
    case (head f k)
    from ws_save_header_ok [OF head r(2) assms(6,8)] obtain Q' where Q': "ws_save_header False fd r Q0 = Some Q'" "pq_ok Q'"
      "packs Q' = packs Q0" "ws_kept fd r (conns wu_id Q' fd)" "\<forall>fd'. fd' \<noteq> fd \<longrightarrow> conns wu_id Q' fd' = conns wu_id Q0 fd'" by blast
    have "ws_filter_data False fd c Q = Some (Nothing, Q')"
      using ws_skip_short [of r False] ws_read_size_short [OF head(1,3)] head(2) clamp_good(2) Q'(1)
      by (simp add: ws_filter_data_def assms(1) r(1))
    then show ?thesis using ws_cut_nothing [OF Q'(2) _ Q'(4,5)] Q'(3) assms(7) Nil by simp
  next
    case (body f q)
    from ws_save_part_ok [OF body assms(6,8)] obtain Q' where
      Q': "ws_save_part fd (int (length (wf_payload f))) (ws_info f) q Q0 = Some Q'" "pq_ok Q'"
      "packs Q' = packs Q0" "ws_kept fd r (conns wu_id Q' fd)" "\<forall>fd'. fd' \<noteq> fd \<longrightarrow> conns wu_id Q' fd' = conns wu_id Q0 fd'" by blast
    have "ws_filter_data False fd c Q = Some (Nothing, Q')"
      using ws_skip_head [OF body(1), of False q] clamp_good(1) [OF body(1)] Q'(1) body(3)
      by (simp add: ws_filter_data_def assms(1) r(1) body(2) ws_info_head)
    then show ?thesis using ws_cut_nothing [OF Q'(2) _ Q'(4,5)] Q'(3) assms(7) Nil by simp
  qed
next
  case (Cons f gs)
  define t where "t = concat (map ws_enc gs) @ r"
  have c: "c = ws_head f @ ws_part f 0 (wf_payload f) @ t" using assms(3) Cons by (simp add: t_def ws_enc_part)
  have good: "ws_good f" "\<forall>g \<in> set gs. ws_good g" using assms(4) Cons by simp_all
  show ?thesis
  proof (cases "t = []")
    case True
    then have e: "gs = [] \<and> r = []" by (cases gs) (simp_all add: t_def)
    obtain uc' where "decode_wsmask_data (ws_part f 0 (wf_payload f)) (with_info (ws_info f) (ws_new_uncomplete fd)) = (wf_payload f, uc')"
      using ws_decode_new [of "ws_part f 0 (wf_payload f)" f fd] by auto
    then have "ws_filter_data False fd c Q = Some (Data fd (wf_payload f), Q0)"
      using ws_skip_head [OF good(1), of False] clamp_good(1) [OF good(1)]
      by (simp add: ws_filter_data_def assms(1) c True ws_info_head)
    then show ?thesis using ws_cut_data [OF assms(6-8)] Cons e by simp
  next
    case False
    have "ws_filter_data False fd c Q = do {
        Q \<leftarrow> push_data fd (wf_payload f) (int (length (wf_payload f))) Q0; Q \<leftarrow> ws_push_more False fd t Q; Some (More, Q) }"
      using ws_skip_head [OF good(1), of False] clamp_good(1) [OF good(1)] ws_push_front_frame [of fd f t Q0] False
      by (simp add: ws_filter_data_def assms(1) c ws_info_head)
    moreover have "ws_cut fd (f # gs) r Q0 (do {
        Q \<leftarrow> push_data fd (wf_payload f) (int (length (wf_payload f))) Q0; Q \<leftarrow> ws_push_more False fd t Q; Some (More, Q) })"
      unfolding t_def by (rule ws_cut_more [OF assms(6-8) good(2) assms(5)]) (use False in \<open>simp add: t_def\<close>)
    ultimately show ?thesis using Cons by simp
  qed
qed

lemma ws_filter_head_short:
  assumes "find_uncomplete wu_id fd Q = (Some uc, Q0)" "head_kept fd p uc" "ws_good f" "p @ c = take k (ws_head f)" "k < length (ws_head f)"
    "c \<noteq> []" "pq_ok Q0" "packs Q0 = []" "conns wu_id Q0 fd = []"
  shows "ws_cut fd [] (p @ c) Q0 (ws_filter_data False fd c Q)"
proof -
  obtain u where u: "ws_header_loop False c uc no_info = Some (- 1, no_info, u, [])" "head_kept fd (p @ c) u"
    using ws_header_loop_short [OF assms(2-6)] by blast
  have id: "wu_id u = fd" using u(2) by (simp add: head_kept_def)
  have "wu_read uc = - 1" using assms(2) by (simp add: head_kept_def)
  then have run: "ws_filter_data False fd c Q = Some (Nothing, link_uncomplete wu_id u Q0)"
    using u(1) by (simp add: ws_filter_data_def assms(1))
  have "ws_kept fd (p @ c) [u]" using u(2) assms(6) by (simp add: ws_kept_def)
  then have "ws_kept fd (p @ c) (conns wu_id (link_uncomplete wu_id u Q0) fd)"
    using link_uncomplete_conns(1) [of wu_id u Q0] assms(9) id by simp
  then show ?thesis unfolding run using link_uncomplete_conns [where uid = wu_id and uc = u and Q = Q0] assms(7,8) id
    by (intro ws_cut_nothing) simp_all
qed

lemma ws_filter_head_done:
  assumes "find_uncomplete wu_id fd Q = (Some uc, Q0)" "head_kept fd p uc" "ws_good f" "p @ c = ws_head f @ d" "p @ c = concat (map ws_enc fs) @ r"
    "\<forall>f \<in> set fs. ws_good f" "ws_rest r" "pq_ok Q0" "packs Q0 = []" "conns wu_id Q0 fd = []"
  shows "ws_cut fd fs r Q0 (ws_filter_data False fd c Q)"
proof -
  let ?n = "length (wf_payload f)"
  obtain u where u: "ws_header_loop False c uc no_info = Some (int ?n, ws_info f, u, d)" "wu_id u = fd"
    using ws_header_loop_head [OF assms(2-4)] by blast
  let ?u = "(with_info (ws_info f) (u\<lparr>wu_buffer := replicate ?n 0, wu_size := int ?n\<rparr>))\<lparr>wu_read := 0\<rparr>"
  have "wu_read uc = - 1" using assms(2) by (simp add: head_kept_def)
  then have run: "ws_filter_data False fd c Q = ws_fill False fd ?u d Q0"
    using u(1) by (simp add: ws_filter_data_def assms(1) malloc_bytes_def)
  have "ws_masking f 0 ?u" using with_info_masking by simp
  then have "body_kept fd f [] ?u" unfolding body_kept_def using u(2) by (simp add: with_info_def)
  moreover have "(ws_head f @ []) @ d = concat (map ws_enc fs) @ r" using assms(4,5) by simp
  ultimately show ?thesis unfolding run using ws_fill_cuts [OF _ assms(3) _ assms(6-10)] by blast
qed

lemma ws_filter_cuts:
  assumes "ws_kept fd p (conns wu_id Q fd)" "c \<noteq> []" "p @ c = concat (map ws_enc fs) @ r"
    "\<forall>f \<in> set fs. ws_good f" "ws_rest r" "pq_ok Q" "packs Q = []"
  shows "ws_cut fd fs r Q (ws_filter_data False fd c Q)"
proof -
  define Q0 where "Q0 = snd (find_uncomplete wu_id fd Q)"
  have Q0: "pq_ok Q0" "packs Q0 = []" "conns wu_id Q0 fd = tl (conns wu_id Q fd)" "\<And>fd'. fd' \<noteq> fd \<Longrightarrow> conns wu_id Q0 fd' = conns wu_id Q fd'"
    using assms(6,7) by (simp_all add: Q0_def find_uncomplete_conns)
  have other: "ws_cut fd fs r Q0 out \<Longrightarrow> ws_cut fd fs r Q out" for out using Q0(4) by (auto simp: ws_cut_def)
  show ?thesis
  proof (cases "p = []")
    case True
    then have none: "conns wu_id Q fd = []" using assms(1) by (simp add: ws_kept_def)
    then have "conns wu_id Q0 fd = []" and "find_uncomplete wu_id fd Q = (None, Q0)"
      using Q0(3) find_uncomplete_conns(1) [of wu_id fd Q] by (simp_all add: Q0_def prod_eq_iff)
    then show ?thesis using assms True Q0 by (intro other ws_filter_new) simp_all
  next
    case False
    then obtain uc where uc: "conns wu_id Q fd = [uc]" "head_kept fd p uc \<or>
        (\<exists>f q. ws_good f \<and> p = ws_head f @ q \<and> length q < length (wf_payload f) \<and> body_kept fd f q uc)"
      using assms(1) by (auto simp: ws_kept_def)
    then have Q0': "conns wu_id Q0 fd = []" and find: "find_uncomplete wu_id fd Q = (Some uc, Q0)"
      using Q0(3) find_uncomplete_conns(1) [of wu_id fd Q] by (simp_all add: Q0_def prod_eq_iff)
    from uc(2) show ?thesis
    proof (elim disjE exE conjE)
      fix f q assume f: "ws_good f" "p = ws_head f @ q" "body_kept fd f q uc"
      then have "ws_filter_data False fd c Q = ws_fill False fd uc c Q0" by (simp add: ws_filter_data_def find body_kept_def)
      then show ?thesis using ws_fill_cuts [OF f(3,1) _ assms(4,5) Q0(1,2) Q0'] assms(3) f(2) by (intro other) simp
    next
      assume kept: "head_kept fd p uc"
      note fin = ws_filter_head_done [OF find kept _ _ assms(3-5) Q0(1,2) Q0']
      show ?thesis
      proof (cases fs)
        case (Cons f gs)
        then have "p @ c = ws_head f @ (ws_part f 0 (wf_payload f) @ concat (map ws_enc gs) @ r)" "ws_good f"
          using assms(3,4) by (simp_all add: ws_enc_part)
        then show ?thesis by (intro other fin)
      next
        case Nil
        then have r: "p @ c = r" "r \<noteq> []" using assms(3) False by auto
        from assms(5) r(2) show ?thesis
        proof (cases rule: ws_rest_cases)
          case (head f k)
          then have "p @ c = take k (ws_head f)" using r(1) by simp
          from ws_filter_head_short [OF find kept head(1) this head(3) assms(2) Q0(1,2) Q0']
          show ?thesis using r Nil by (intro other) simp
        next
          case (body f q)
          then have "p @ c = ws_head f @ q" using r(1) by simp
          with body(1) show ?thesis by (intro other fin)
        qed
      qed
    qed
  qed
qed

section \<open>The filter keeps the contract\<close>

definition ws_feed :: "i32 \<Rightarrow> bytes \<Rightarrow> ws_queue \<Rightarrow> ((i32 \<times> bytes) list \<times> ws_queue) option" where
  "ws_feed fd c Q = do { (r, Q) \<leftarrow> ws_filter_data False fd c Q; deliver r Q }"

definition ws_holds :: "ws_queue \<Rightarrow> (i32 \<Rightarrow> bytes) \<Rightarrow> bool" where
  "ws_holds Q P \<longleftrightarrow> pq_ok Q \<and> packs Q = [] \<and> (\<forall>fd. ws_rest (P fd) \<and> ws_kept fd (P fd) (conns wu_id Q fd))"

interpretation ws: stream_filter ws_good ws_enc wf_payload ws_holds ws_feed
proof
  fix Q P c fs p fd
  assume a: "ws_holds Q P" "c \<noteq> []" "\<forall>f \<in> set fs. ws_good f" "ws_rest p" "P fd @ c = concat (map ws_enc fs) @ p"
  then have "ws_cut fd fs p Q (ws_filter_data False fd c Q)" by (intro ws_filter_cuts) (auto simp: ws_holds_def)
  then show "\<exists>Q'. ws_feed fd c Q = Some (map (\<lambda>f. (fd, wf_payload f)) fs, Q') \<and> ws_holds Q' (P(fd := p))"
    using a by (auto simp: ws_cut_def ws_feed_def ws_holds_def)
next
  fix Q P f fd p
  assume a: "ws_holds Q P" "ws_good f"
  show "P fd \<noteq> ws_enc f @ p"
  proof
    assume "P fd = ws_enc f @ p"
    then have "ws_rest (ws_head f @ (ws_part f 0 (wf_payload f) @ p))" using a(1) by (auto simp: ws_holds_def ws_enc_part dest: spec [of _ fd])
    from ws_rest_head [OF this a(2)] show False by simp
  qed
qed

fun ws_run :: "(i32 \<times> bytes) list \<Rightarrow> ws_queue \<Rightarrow> ((i32 \<times> bytes) list \<times> ws_queue) option" where
  "ws_run [] Q = Some ([], Q)"
| "ws_run (e # es) Q = do { (d, Q) \<leftarrow> ws_feed (fst e) (snd e) Q; (ds, Q) \<leftarrow> ws_run es Q; Some (d @ ds, Q) }"

lemma ws_run_feed_all: "ws_run es Q = ws.feed_all es Q"
  by (induction es arbitrary: Q) simp_all

text \<open>
  Property C4. However the WebSocket streams of the connections of a gate are cut into chunks and interleaved, inside
  frame headers, masks and payloads alike, the filter with the pops that follow hands the payload of every frame to the Lua side exactly
  once, unmasked and, for each connection, in order. The frames are those of RFC 6455 that are unfragmented, no close
  frames and at most \<^verbatim>\<open>MAX_PACKSIZE\<close> long.
\<close>

theorem websocket_framing:
  assumes "\<forall>e \<in> set es. snd e \<noteq> []" "\<forall>fd. \<forall>f \<in> set (F fd). ws_good f"
    "\<forall>fd. concat (map snd (filter (\<lambda>e. fst e = fd) es)) = concat (map ws_enc (F fd))"
  shows "\<exists>ds Q. ws_run es None = Some (ds, Q) \<and> (\<forall>fd. map snd (filter (\<lambda>d. fst d = fd) ds) = map wf_payload (F fd))"
proof -
  have start: "ws_holds None (\<lambda>fd. [])" by (simp add: ws_holds_def pq_ok_def packs_def conns_def ws_kept_def rest_of_def)
  have good: "\<forall>f \<in> set (F fd). ws_good f" for fd using assms(2) by simp
  have "[] @ concat (map snd (filter (\<lambda>e. fst e = fd) es)) = concat (map ws_enc (F fd)) @ []" for fd using assms(3) by simp
  from ws.feed_all_cuts [where R = "\<lambda>fd. []", OF start assms(1) good _ this] show ?thesis
    unfolding ws_run_feed_all by (auto simp: rest_of_def)
qed

theorem websocket_framing_witness:
  "\<exists>ds Q. ws_run [(1, [0x81]), (2, [0x82, 1, 65]), (1, [0x82, 1, 2]), (1, [3, 4, 0x49]), (1, [0x6b, 0x82, 0])] None = Some (ds, Q) \<and>
     map snd (filter (\<lambda>d. fst d = 1) ds) = [[0x48, 0x69], []] \<and> map snd (filter (\<lambda>d. fst d = 2) ds) = [[65]]"
proof -
  let ?es = "[(1, [0x81]), (2, [0x82, 1, 65]), (1, [0x82, 1, 2]), (1, [3, 4, 0x49]), (1, [0x6b, 0x82, 0])] :: (i32 \<times> bytes) list"
  let ?F = "\<lambda>fd :: i32. if fd = 1 then [\<lparr>wf_opcode = 1, wf_masking = Some [1, 2, 3, 4], wf_payload = [0x48, 0x69]\<rparr>,
      \<lparr>wf_opcode = 2, wf_masking = None, wf_payload = []\<rparr>] else if fd = 2 then [\<lparr>wf_opcode = 2, wf_masking = None, wf_payload = [65]\<rparr>] else []"
  have enc: "ws_enc \<lparr>wf_opcode = 1, wf_masking = Some [1, 2, 3, 4], wf_payload = [0x48, 0x69]\<rparr> = [0x81, 0x82, 1, 2, 3, 4, 0x49, 0x6b]"
    "ws_enc \<lparr>wf_opcode = 2, wf_masking = None, wf_payload = []\<rparr> = [0x82, 0]"
    "ws_enc \<lparr>wf_opcode = 2, wf_masking = None, wf_payload = [65]\<rparr> = [0x82, 1, 65]" by code_simp+
  have "\<exists>ds Q. ws_run ?es None = Some (ds, Q) \<and> (\<forall>fd. map snd (filter (\<lambda>d. fst d = fd) ds) = map wf_payload (?F fd))"
    by (rule websocket_framing) (auto simp: enc ws_good_def simp del: One_nat_def)
  then obtain ds Q where "ws_run ?es None = Some (ds, Q)" "\<And>fd. map snd (filter (\<lambda>d. fst d = fd) ds) = map wf_payload (?F fd)" by blast
  then show ?thesis by auto
qed

end
