(* ===== verification/Wspack.thy ===== *)
theory Wspack
  imports Websocket
begin

text \<open>
  The messages that \<^verbatim>\<open>websocketnetpack.pack\<close> of \<^verbatim>\<open>lualib-src/lua-websocketnetpack.c\<close> writes, read back by the filter of theory \<open>Websocket\<close>, and what the filter does with
  close frames, with messages longer than \<^verbatim>\<open>MAX_PACKSIZE\<close> and with lengths that do not fit into an \<^verbatim>\<open>int\<close>.
\<close>

section \<open>Packed messages\<close>

lemma frame_length_bit: "bit (FRAME_SET_LENGTH x j) n \<longleftrightarrow> n < 8 \<and> bit x (j * 8 + n)"
proof -
  have "drop_bit (j * 8) x AND 0xFF = take_bit 8 (drop_bit (j * 8) x)" by (simp add: take_bit_eq_mask mask_eq_exp_minus_1)
  then show ?thesis by (auto simp: FRAME_SET_LENGTH_def bit_simps)
qed

lemma byte_high: "8 \<le> n \<Longrightarrow> \<not> bit (x :: u8) n"
  using bit_imp_le_length [of x n] by auto

lemma load64_bit:
  assumes "q < 8" "r < 8"
  shows "bit (load64 b) (8 * q + r) \<longleftrightarrow> bit (b ! q) r"
proof -
  have l: "[0..<8] = [0, 1, 2, 3, 4, 5, 6, 7 :: nat]" by code_simp
  from assms(1) consider "q = 0" | "q = 1" | "q = 2" | "q = 3" | "q = 4" | "q = 5" | "q = 6" | "q = 7" by linarith
  then show ?thesis by cases (use assms(2) in \<open>simp_all add: load64_def l bit_simps byte_high\<close>)
qed

lemma word_field_mask: "(0xff0000 :: u32) = push_bit 16 (mask 8)" "(0xff00 :: u32) = push_bit 8 (mask 8)"
  by code_simp+

lemma ntohl_bit:
  assumes "r < 8" "q < 4"
  shows "bit (ntohl x) (8 * q + r) \<longleftrightarrow> bit x (8 * (3 - q) + r)"
proof -
  have high: "32 \<le> n \<Longrightarrow> \<not> bit x n" for n using bit_imp_le_length [of x n] by auto
  from assms(2) consider "q = 0" | "q = 1" | "q = 2" | "q = 3" by linarith
  then show ?thesis by cases (use assms(1) in \<open>auto simp: ntohl_def word_field_mask bit_simps high\<close>)
qed

lemma ntoh64_bit:
  assumes "r < 8" "q < 8"
  shows "bit (ntoh64 x) (8 * q + r) \<longleftrightarrow> bit x (8 * (7 - q) + r)"
proof -
  have m: "(0xFFFFFFFF :: u64) = mask 32" by code_simp
  have high: "32 \<le> n \<Longrightarrow> \<not> bit w n" for w :: u32 and n using bit_imp_le_length [of w n] by auto
  show ?thesis
  proof (cases "q < 4")
    case True
    then have k: "32 + (8 * (3 - q) + r) = 8 * (7 - q) + r" "8 * (3 - q) + r < 32" "8 * (3 - q) + r < 64" using assms(1) by auto
    from True have "bit (ntoh64 x) (8 * q + r) \<longleftrightarrow> bit (ntohl (ucast (drop_bit 32 x AND mask 32))) (8 * q + r)"
      using assms(1) by (auto simp: ntoh64_def m Let_def bit_simps)
    also have "\<dots> \<longleftrightarrow> bit x (8 * (7 - q) + r)"
      using True assms(1) by (simp add: ntohl_bit bit_simps k)
    finally show ?thesis .
  next
    case False
    define p where "p = q - 4"
    have p: "q = p + 4" "p < 4" using False assms(2) by (simp_all add: p_def)
    then have k: "8 * (3 - p) + r < 32" "8 * (3 - p) + r < 64" using assms(1) by auto
    have "bit (ntoh64 x) (8 * q + r) \<longleftrightarrow> bit (ntohl (ucast (x AND mask 32))) (8 * p + r)"
      using p assms(1) by (auto simp: ntoh64_def m Let_def bit_simps high)
    also have "\<dots> \<longleftrightarrow> bit x (8 * (7 - q) + r)"
      using p assms(1) by (simp add: ntohl_bit bit_simps k)
    finally show ?thesis .
  qed
qed

lemma load_ntoh64:
  "ntoh64 (load64 (map (FRAME_SET_LENGTH len) [7, 6, 5, 4, 3, 2, 1, 0] @ s)) = word_of_nat len"
proof (rule bit_word_eqI)
  let ?b = "map (FRAME_SET_LENGTH len) [7, 6, 5, 4, 3, 2, 1, 0] @ s"
  fix n assume "n < LENGTH(64)"
  define q r where "q = n div 8" and "r = n mod 8"
  have n: "n = 8 * q + r" "r < 8" "q < 8" using \<open>n < LENGTH(64)\<close> by (auto simp: q_def r_def)
  have "bit (ntoh64 (load64 ?b)) n \<longleftrightarrow> bit (?b ! (7 - q)) r" unfolding n(1) using n by (simp add: ntoh64_bit load64_bit)
  also have "?b ! (7 - q) = FRAME_SET_LENGTH len q"
  proof -
    from n(3) consider "q = 0" | "q = 1" | "q = 2" | "q = 3" | "q = 4" | "q = 5" | "q = 6" | "q = 7" by linarith
    then show ?thesis by cases (simp_all add: nth_Cons')
  qed
  also have "bit (FRAME_SET_LENGTH len q) r \<longleftrightarrow> bit len n" using n by (simp add: frame_length_bit mult.commute)
  finally show "bit (ntoh64 (load64 ?b)) n = bit (word_of_nat len :: u64) n" using \<open>n < LENGTH(64)\<close> by (simp add: bit_simps)
qed

text \<open>The header that \<^verbatim>\<open>websocketnetpack.pack\<close> writes is read back as the length of the message, in all three encodings.\<close>

definition pack_head_length :: "nat \<Rightarrow> nat" where
  "pack_head_length len = (if len < 126 then 2 else if len < 65536 then 4 else 10)"

lemma frame_length_small:
  assumes "len < 126"
  shows "FRAME_SET_LENGTH len 0 = word_of_nat len"
proof -
  have "len AND 0xFF = len mod 256" using take_bit_eq_mask [of 8 len] by (simp add: take_bit_eq_mod mask_eq_exp_minus_1)
  then show ?thesis using assms by (simp add: FRAME_SET_LENGTH_def)
qed

lemma ws_lpack_length:
  assumes "length s < 2 ^ 31"
  shows "ws_length (ws_lpack s @ t) = Some (int (length s), pack_head_length (length s))" "\<not> drop_bit 7 ((ws_lpack s @ t) ! 1) AND 1 \<noteq> 0"
    "(ws_lpack s @ t) ! 0 = word_of_nat (128 + 2)" "2 \<le> length (ws_lpack s @ t)" "drop (pack_head_length (length s)) (ws_lpack s) = s"
    "length (ws_lpack s) - pack_head_length (length s) = length s"
proof -
  let ?b = "ws_lpack s @ t" and ?n = "length s"
  show "?b ! 0 = word_of_nat (128 + 2)" "2 \<le> length ?b" "drop (pack_head_length ?n) (ws_lpack s) = s" "length (ws_lpack s) - pack_head_length ?n = length s"
    by (simp_all add: ws_lpack_def Let_def pack_head_length_def)
  have "ws_length ?b = Some (int ?n, pack_head_length ?n) \<and> \<not> drop_bit 7 (?b ! 1) AND 1 \<noteq> 0"
  proof (cases "?n < 65536")
    case True
    have b1: "?b ! 1 = word_of_nat ((if False then 128 else 0) + ws_len7 ?n)"
      using True by (simp add: ws_lpack_def Let_def ws_len7_def frame_length_small)
    note l = length_tests [OF b1]
    show ?thesis
    proof (cases "?n < 126")
      case True
      then show ?thesis using l by (simp add: ws_length_def Let_def pack_head_length_def)
    next
      case False
      obtain x y where xy: "write_size ?n = [x, y]" "uint x * 256 + uint y = int ?n" using write_size_bytes [of ?n] True by auto
      have "drop 2 ?b = write_size ?n @ s @ t" "4 \<le> length ?b"
        using False True by (simp_all add: ws_lpack_def Let_def write_size_def FRAME_SET_LENGTH_def)
      then show ?thesis using l False True load_ntohs [of x y "s @ t"] xy by (simp add: ws_length_def Let_def pack_head_length_def)
    qed
  next
    case False
    have d: "drop 2 ?b = map (FRAME_SET_LENGTH ?n) [7, 6, 5, 4, 3, 2, 1, 0] @ (s @ t)" "10 \<le> length ?b" "?b ! 1 = 127"
      using False by (simp_all add: ws_lpack_def Let_def)
    have "ucast (word_of_nat ?n :: u64) = (word_of_nat ?n :: i32)" by (rule bit_word_eqI) (auto simp: bit_simps)
    moreover have "sint (word_of_nat ?n :: i32) = int ?n" using assms by (simp add: signed_of_nat signed_take_bit_int_eq_self)
    ultimately have "sint (ucast (word_of_nat ?n :: u64) :: i32) = int ?n" by simp
    moreover have "\<not> (127 :: u8) AND 0x7f < 0x7E" "(127 :: u8) AND 0x7f \<noteq> 0x7E" "\<not> drop_bit 7 (127 :: u8) AND 1 \<noteq> 0" by code_simp+
    ultimately show ?thesis using False d(2) unfolding ws_length_def Let_def d(1,3) load_ntoh64 by (simp add: pack_head_length_def)
  qed
  then show "ws_length ?b = Some (int ?n, pack_head_length ?n)" "\<not> drop_bit 7 (?b ! 1) AND 1 \<noteq> 0" by simp_all
qed

lemma ws_read_size_lpack:
  assumes "length s < 2 ^ 31"
  shows "ws_read_size (ws_lpack s @ t) no_info = (int (length s), no_info\<lparr>fi_head := pack_head_length (length s)\<rparr>)"
proof -
  have "ws_good \<lparr>wf_opcode = 2, wf_masking = None, wf_payload = []\<rparr>" by (simp add: ws_good_def)
  note h = head_tests [OF this, of "ws_lpack s @ t"]
  note l = ws_lpack_length(1-4) [OF assms, of t]
  show ?thesis unfolding ws_read_size_def l(1) using h l(2-4) by simp
qed

lemma ws_skip_lpack:
  assumes "length s < 2 ^ 31"
  shows "ws_skip again (ws_lpack s) no_info = (int (length s), no_info\<lparr>fi_head := pack_head_length (length s)\<rparr>, ws_lpack s)"
  using ws_read_size_lpack [OF assms, of "[]"] by (subst ws_skip.simps) simp

text \<open>
  Property C36. A message of at most \<^verbatim>\<open>MAX_PACKSIZE\<close> bytes that is packed with \<^verbatim>\<open>websocketnetpack.pack\<close> and arrives in one piece on a
  connection with nothing pending is handed over unchanged, and the queue keeps its packets.
\<close>

theorem ws_pack_roundtrip:
  assumes "length s \<le> 10240" "conns wu_id Q fd = []" "pq_ok Q"
  shows "\<exists>Q'. ws_filter_data False fd (ws_lpack s) Q = Some (Data fd s, Q') \<and> packs Q' = packs Q \<and> pq_ok Q'"
proof -
  define Q0 where "Q0 = snd (find_uncomplete wu_id fd Q)"
  have find: "find_uncomplete wu_id fd Q = (None, Q0)" "packs Q0 = packs Q" "pq_ok Q0"
    using assms(2,3) find_uncomplete_conns [where uid = wu_id and fd = fd and Q = Q] by (simp_all add: Q0_def prod_eq_iff)
  have len: "length s < 2 ^ 31" using assms(1) by simp
  have c: "clamp (int (length s)) = int (length s)" using assms(1) by (simp add: clamp_def MAX_PACKSIZE_def)
  have "ws_filter_data False fd (ws_lpack s) Q = Some (Data fd s, Q0)"
    unfolding ws_filter_data_def find(1)
    using ws_skip_lpack [OF len, of False] c ws_lpack_length(5,6) [OF len]
    by (simp add: decode_wsmask_data_def with_info_def no_info_def)
  then show ?thesis using find by blast
qed

theorem ws_pack_roundtrip_witness:
  "\<exists>Q'. ws_filter_data False 7 (ws_lpack [72, 105]) None = Some (Data 7 [72, 105], Q') \<and> packs Q' = packs (None :: ws_queue) \<and> pq_ok Q'"
  using ws_pack_roundtrip [of "[72, 105]" None 7] by (simp add: conns_def pq_ok_def)

text \<open>
  A longer message, which \<^verbatim>\<open>pack\<close> accepts, is cut: its first \<^verbatim>\<open>MAX_PACKSIZE\<close> bytes are queued as a packet and the
  bytes behind them are read as frames of their own.
\<close>

theorem ws_pack_too_long:
  assumes "10240 < length s" "length s < 2 ^ 31" "conns wu_id Q fd = []"
  shows "ws_filter_data False fd (ws_lpack s) Q = do {
    Q \<leftarrow> push_data fd (take 10240 s) 10240 (snd (find_uncomplete wu_id fd Q));
    Q \<leftarrow> ws_push_more False fd (drop 10240 s) Q;
    Some (More, Q) }"
proof -
  define Q0 where "Q0 = snd (find_uncomplete wu_id fd Q)"
  have find: "find_uncomplete wu_id fd Q = (None, Q0)"
    using assms(3) find_uncomplete_conns(1) [of wu_id fd Q] by (simp add: Q0_def prod_eq_iff)
  have c: "clamp (int (length s)) = 10240" using assms(1) by (simp add: clamp_def MAX_PACKSIZE_def)
  have p: "ws_push_front fd 10240 (no_info\<lparr>fi_head := h\<rparr>) s Q0 = push_data fd (take 10240 s) 10240 Q0" for h
    using assms(1) by (simp add: ws_push_front_def decode_wsmask_data_def with_info_def no_info_def malloc_bytes_def write_at_ok)
  show ?thesis
    unfolding ws_filter_data_def find
    using ws_skip_lpack [OF assms(2), of False] c ws_lpack_length(5,6) [OF assms(2)] p assms(1)
    by simp
qed

theorem ws_pack_too_long_witness:
  "ws_filter_data False 7 (ws_lpack (replicate 10241 0)) None = do {
     Q \<leftarrow> push_data 7 (take 10240 (replicate 10241 0)) 10240 (snd (find_uncomplete wu_id 7 None));
     Q \<leftarrow> ws_push_more False 7 (drop 10240 (replicate 10241 0)) Q;
     Some (More, Q) }"
  by (rule ws_pack_too_long) (simp_all add: conns_def)

section \<open>Close frames and overlong lengths\<close>

lemma ws_read_size_close: "ws_read_size (0x88 # b # t) i = (- 3, i)"
proof -
  have "drop_bit 6 (0x88 :: u8) AND 1 = 0" "drop_bit 5 (0x88 :: u8) AND 1 = 0" "drop_bit 4 (0x88 :: u8) AND 1 = 0"
    "drop_bit 7 (0x88 :: u8) AND 1 \<noteq> 0" "(0x88 :: u8) AND 0xf \<noteq> 0" "(0x88 :: u8) AND 0xf = 8" by code_simp+
  then show ?thesis by (simp add: ws_read_size_def)
qed

text \<open>A close frame at the start of the data of a connection is reported.\<close>

lemma ws_filter_close:
  assumes "conns wu_id Q fd = []"
  shows "\<exists>Q'. ws_filter_data False fd (0x88 # b # t) Q = Some (Close fd, Q')"
proof -
  obtain Q0 where find: "find_uncomplete wu_id fd Q = (None, Q0)"
    using assms find_uncomplete_conns(1) [of wu_id fd Q] by (cases "find_uncomplete wu_id fd Q") simp
  have "ws_skip False (0x88 # b # t) no_info = (- 3, no_info, 0x88 # b # t)" by (subst ws_skip.simps) (simp add: ws_read_size_close)
  then show ?thesis by (simp add: ws_filter_data_def find clamp_def MAX_PACKSIZE_def)
qed

text \<open>
  A close frame behind another frame in the same chunk is not reported: \<^verbatim>\<open>push_more\<close> drops its two header bytes
  and reads what follows, the body of the close frame included, as further frames.
\<close>

theorem ws_close_dropped: "ws_push_more False fd (0x88 # b # t) Q = ws_push_more False fd t Q"
proof -
  have "ws_skip True (0x88 # b # t) no_info = ws_skip True t no_info"
    by (subst ws_skip.simps) (simp add: ws_read_size_close clear_mask_def no_info_def)
  then show ?thesis by (subst (1 2) ws_push_more.simps) simp
qed

text \<open>
  The loop over an incomplete header does not stop at a close frame, so all that follows in the chunk is
  copied into the header array.
\<close>

lemma ws_header_loop_close:
  assumes "wu_header uc = (0x88 # p) @ h" "wu_header_size uc = length (0x88 # p)" "c \<noteq> []"
  shows "ws_header_loop False c uc i = (if length c \<le> length h
    then Some (- 3, i, uc\<lparr>wu_header := (0x88 # p) @ c @ drop (length c) h, wu_header_size := length (0x88 # p) + length c\<rparr>, [])
    else None)"
  using assms
proof (induction c arbitrary: uc p h i)
  case (Cons x c)
  show ?case
  proof (cases h)
    case Nil
    then show ?thesis using Cons.prems by (simp add: array_set_def)
  next
    case (Cons y h')
    note h = this
    define u where "u = uc\<lparr>wu_header := 0x88 # p @ x # h', wu_header_size := Suc (Suc (length p))\<rparr>"
    have set: "array_set (wu_header uc) (wu_header_size uc) x = Some (0x88 # p @ x # h')"
      using Cons.prems(1,2) h by (simp add: array_set_def)
    obtain b t where bt: "p @ [x] = b # t" by (cases "p @ [x]") auto
    have "take (Suc (Suc (length p))) (0x88 # p @ x # h') = 0x88 # b # t" using bt by simp
    then have skip: "ws_header_skip u i = (- 3, i, u)" by (subst ws_header_skip.simps) (simp add: u_def ws_read_size_close)
    have step: "ws_header_loop False (x # c) uc i = (if c = [] then Some (- 3, i, u, []) else ws_header_loop False c u i)"
      using Cons.prems(2) set skip by (simp add: u_def clamp_def MAX_PACKSIZE_def)
    show ?thesis
    proof (cases "c = []")
      case True
      then show ?thesis using step Cons.prems(2) h by (simp add: u_def)
    next
      case False
      have "ws_header_loop False c u i = (if length c \<le> length h'
        then Some (- 3, i, u\<lparr>wu_header := (0x88 # p @ [x]) @ c @ drop (length c) h', wu_header_size := length (0x88 # p @ [x]) + length c\<rparr>, [])
        else None)"
        by (rule Cons.IH) (use False in \<open>simp_all add: u_def\<close>)
      then show ?thesis using step False h by (simp add: u_def)
    qed
  qed
qed simp

text \<open>
  Property C37. When the first byte of a close frame has arrived alone and is kept in the header array, the loop over
  the next chunk reports the close only after it has copied all bytes of the chunk into the array, however many they
  are and whatever the size \<open>1 + length h\<close> of the array (1024 in the code): it has no bound of its own, and it has no
  result exactly when the chunk is longer than the rest of the array.
\<close>

theorem ws_close_copies:
  assumes "wu_header uc = 0x88 # h" "wu_header_size uc = 1" "c \<noteq> []"
  shows "ws_header_loop False c uc i = (if length c \<le> length h
    then Some (- 3, i, uc\<lparr>wu_header := 0x88 # c @ drop (length c) h, wu_header_size := 1 + length c\<rparr>, [])
    else None)"
  using ws_header_loop_close [of uc "[]" h c i] assms by simp

theorem ws_close_copies_witness:
  "ws_header_loop False (replicate 1024 7) ((ws_new_uncomplete 1)\<lparr>wu_header := 0x88 # replicate 1023 0, wu_header_size := 1\<rparr>) no_info = None
    \<and> ws_header_loop False [7] ((ws_new_uncomplete 1)\<lparr>wu_header := 0x88 # replicate 1023 0, wu_header_size := 1\<rparr>) no_info
      = Some (- 3, no_info, (ws_new_uncomplete 1)\<lparr>wu_header := 0x88 # 7 # replicate 1022 0, wu_header_size := 2\<rparr>, [])"
proof -
  let ?uc = "(ws_new_uncomplete 1)\<lparr>wu_header := 0x88 # replicate 1023 0, wu_header_size := 1\<rparr>"
  have uc: "wu_header ?uc = 0x88 # replicate 1023 0" "wu_header_size ?uc = 1" by simp_all
  show ?thesis using ws_close_copies [OF uc, of "replicate 1024 7" no_info] ws_close_copies [OF uc, of "[7]" no_info]
    by (simp del: ws_header_loop.simps)
qed





end
