(* ===== verification/Spec2Isabelle.thy ===== *)
theory Spec2Isabelle
  imports Prelude Mq Locks Timer Handle Gate Server Commands Seri Des Sha1 Md5 Skiplist Netpack Wspack
begin

text \<open>
  A verification library for RillServer, a game server framework on skynet. Paths are relative to
  \<^verbatim>\<open>src/\<close>.

  \<^bold>\<open>The program.\<close> A node runs services. A service is a context with a handle, a message queue and a
  callback; worker threads take queues from a global queue and dispatch their messages. Services
  send to each other by handle or name, set timeouts, and are managed by text commands. The gate
  service cuts the byte streams of clients into packets. On top of this the Lua code of the games uses
  C libraries: the serialisation of messages, the cryptography of the login protocol, the packets of
  TCP and WebSocket connections and the ranking lists. The development models the C code of skynet's core, of the gate and of these libraries.

  \<^bold>\<open>Theories and sources.\<close>
  \<^item> \<open>Prelude\<close>, \<open>Cstring\<close>: machine integers as words, pointers and aborting computations as options, rule
    collections, the text functions of the C library.
  \<^item> \<open>Mq\<close> (\<^verbatim>\<open>skynet/skynet-src/skynet_mq.c\<close>): the ring buffer \<open>message_queue\<close>, the global queue as a linked
    list in the store \<open>mq_store\<close>, and the scheduling of the workers on it as a step relation. The ring
    implements the interface \<open>fifo\<close>; in every reachable state no queue with messages is forgotten and none
    is held twice.
  \<^item> \<open>Locks\<close> (\<^verbatim>\<open>spinlock.h\<close>, \<^verbatim>\<open>rwlock.h\<close>): every interleaving of the atomic accesses of any number of threads;
    mutual exclusion as invariants of the reachable states.
  \<^item> \<open>Timer\<close> (\<^verbatim>\<open>skynet_timer.c\<close>): the timing wheel with its cascades and its 32-bit time; it refines a calendar, and a
    timeout fires after exactly its ticks.
  \<^item> \<open>Handle\<close> (\<^verbatim>\<open>skynet_handle.c\<close>): the table of handles with probing and doubling and the sorted array of names,
    which implements the interface \<open>directory\<close>.
  \<^item> \<open>Databuffer\<close>, \<open>Hashid\<close>, \<open>Gate\<close> (\<^verbatim>\<open>skynet/service-src/databuffer.h\<close>, \<^verbatim>\<open>hashid.h\<close>, \<^verbatim>\<open>service_gate.c\<close>): the pool of
    messages shared by the connections (interface \<open>byte_buffers\<close>), the table of socket ids (interface
    \<open>slot_map\<close>) and the service that uses both: framing of packets, memory safety for any input.
  \<^item> \<open>Server\<close>, \<open>Commands\<close> (\<^verbatim>\<open>skynet_server.c\<close>, \<^verbatim>\<open>skynet_harbor.c\<close>, \<^verbatim>\<open>skynet_monitor.c\<close>, \<^verbatim>\<open>skynet_error.c\<close>,
    \<^verbatim>\<open>skynet_log.c\<close>, \<^verbatim>\<open>skynet_env.c\<close>): the state of a node as one record over the stores of the theories
    before, with explicit blocks of memory; launching, sending, dispatching, retiring and the commands.
  \<^item> \<open>Seri\<close> (\<^verbatim>\<open>skynet/lualib-src/lua-seri.c\<close>): Lua values as a datatype, packing and unpacking with the \<^verbatim>\<open>int\<close>
    lengths of the code, and their round trip.
  \<^item> \<open>Dh\<close>, \<open>Codec\<close>, \<open>Des\<close> (\<^verbatim>\<open>lua-crypt.c\<close>), \<open>Sha1\<close> (\<^verbatim>\<open>lsha1.c\<close>), \<open>Md5\<close> (\<^verbatim>\<open>lua-crypt.c\<close>, \<^verbatim>\<open>3rd/lua-md5/md5.c\<close>): the
    key exchange, the encodings, the block cipher and the hashes, compared with reference definitions
    (modular powers, FIPS 180, RFC 2104) or by round trips.
  \<^item> \<open>Skiplist\<close> (\<^verbatim>\<open>lualib-src/skiplist/skiplist.c\<close>, \<^verbatim>\<open>lua-skiplist.c\<close>): the ranking lists on a heap of nodes, which
    refine sorted lists of keys; all queries and the release of the memory.
  \<^item> \<open>Packqueue\<close>, \<open>Netpack\<close>, \<open>Websocket\<close>, \<open>Wspack\<close> (\<^verbatim>\<open>skynet/lualib-src/lua-netpack.c\<close>,
    \<^verbatim>\<open>lualib-src/lua-websocketnetpack.c\<close>): the packets of gates written in Lua. The queue of complete packets implements the
    interface \<open>fifo\<close> of theory \<open>Mq\<close>, and both filters the interface \<open>stream_filter\<close>: the frames of any number of
    interleaved streams are delivered, whatever the chunks. Errors of the WebSocket filter.

  \<^bold>\<open>State and effects.\<close> A C structure is a record, with the same fields; a pointer is an address into
  a store. An operation takes the state and returns it updated. A result of type option is \<open>None\<close> when the C function
  would fail an assertion, follow a null or dangling pointer, leave an array or not return; a
  theorem that a function returns shows that none of this happens. A Lua error is the left value of a
  sum. What an operation does to the outside (sends, socket calls, log lines) is a list of events.
  Integers are words where the code depends on their width.

  \<^bold>\<open>Bounds and fuel.\<close> Loops whose end is not evident are partial functions into options, and the theorems show
  that they end. The unpacking of \<open>Seri\<close> recurses on fuel of four units per byte of the input, which lemma
  \<open>seri_unpack_fuel\<close> shows to be enough. Sizes are natural numbers where the code's counter cannot overflow before memory is
  exhausted; lemmas that need it have the bound as a hypothesis (texts and keys below \<open>2 ^ 29\<close> bytes for SHA-1, objects below
  \<open>2 ^ 31\<close> bytes in ranking lists, buffered bytes below \<open>2 ^ 31\<close> and socket ids that leave room for the capacity of the
  table below \<open>2 ^ 31\<close> in the gate, packed and encoded texts below \<open>2 ^ 31\<close> bytes in \<open>Seri\<close> and \<open>Codec\<close>). Where the code
  adds \<^verbatim>\<open>int\<close>s that can overflow on real inputs, \<open>c_int\<close> of \<open>Prelude\<close> has no result.

  \<^bold>\<open>Parameters.\<close> Code that is not part of the repository, or that the operating system provides, is an
  argument: clocks, \<^verbatim>\<open>random()\<close>, addresses of new objects, the functions of service modules, what Lua reports of a
  table.

  \<^bold>\<open>Not modelled.\<close> The socket layer (\<^verbatim>\<open>socket_server.c\<close>, \<^verbatim>\<open>skynet_socket.c\<close>) is a wrapper around the
  operating system's sockets; start-up, daemon, dynamic loading and memory hooks only call the system; the services
  harbor, snlua and logger and the remaining Lua bindings are listed in the manifest with the reason.
  The vendored libraries (Lua, jemalloc, lpeg, cjson, luafilesystem, LuaPbIntf) are not the program's own code.
\<close>

end
